(* ===== verification/Prelude.thy ===== *)
theory Prelude
  imports Main "HOL-Library.Word" "HOL-Library.List_Lexorder" "HOL-Library.Char_ord"
begin

text \<open>
  Shared vocabulary of the development: the machine integers of the Go sources,
  Go strings and byte slices, the big-endian integer layout of
  \<^verbatim>\<open>encoding/binary\<close>, the iteration order of a Go map, and the
  generic list and map lemmas that the component theories use.

  Conventions. A Go \<^verbatim>\<open>string\<close> is a \<^typ>\<open>string\<close> (its characters are bytes, and
  the library's lexicographic order on it is Go's bytewise string order). A
  \<^verbatim>\<open>[]byte\<close> is a list of 8-bit words; \<open>nil\<close> and the empty slice are the same list.
  \<^verbatim>\<open>uint64\<close> and \<^verbatim>\<open>int64\<close> are 64-bit words whose arithmetic wraps; \<^verbatim>\<open>int64\<close> values are
  read with \<^const>\<open>sint\<close>. A Go map is a partial function.
\<close>

section \<open>Machine types\<close>

type_synonym byte = "8 word"
type_synonym u32 = "32 word"
type_synonym u64 = "64 word"
type_synonym i64 = "64 word"

section \<open>Strings and bytes\<close>

definition bytes_of :: "string \<Rightarrow> byte list" where
  "bytes_of s = map (\<lambda>c. word_of_nat (of_char c)) s"

definition string_of :: "byte list \<Rightarrow> string" where
  "string_of bs = map (\<lambda>b. char_of (unat b)) bs"

lemma char_of_byte [simp]: "char_of (unat (word_of_nat (of_char c) :: byte)) = c"
proof -
  have "(of_char c :: nat) < 256"
    by simp
  then have "unat (word_of_nat (of_char c) :: byte) = of_char c"
    by (simp add: unat_of_nat)
  then show ?thesis by simp
qed

lemma string_of_bytes_of [simp]: "string_of (bytes_of s) = s"
  by (simp add: string_of_def bytes_of_def comp_def)

lemma length_bytes_of [simp]: "length (bytes_of s) = length s"
  by (simp add: bytes_of_def)

section \<open>Big-endian integers\<close>

text \<open>
  \<open>to_be n v\<close> is what \<^verbatim>\<open>binary.BigEndian.AppendUint*\<close> appends for an integer of
  \<open>n\<close> bytes; \<open>be_nat\<close> is the value \<^verbatim>\<open>binary.BigEndian.Uint*\<close> reads.
\<close>

primrec to_be :: "nat \<Rightarrow> nat \<Rightarrow> byte list" where
  "to_be 0 v = []"
| "to_be (Suc n) v = word_of_nat (v div 256 ^ n) # to_be n v"

definition be_nat :: "byte list \<Rightarrow> nat" where
  "be_nat bs = foldl (\<lambda>a b. a * 256 + unat b) 0 bs"

lemma length_to_be [simp]: "length (to_be n v) = n"
  by (induction n) auto

lemma foldl_to_be:
  "foldl (\<lambda>a b. a * 256 + unat b) a (to_be n v) = a * 256 ^ n + v mod 256 ^ n"
proof (induction n arbitrary: a)
  case 0
  then show ?case by simp
next
  case (Suc n)
  have u: "unat (word_of_nat (v div 256 ^ n) :: byte) = v div 256 ^ n mod 256"
    by (simp add: unat_of_nat)
  have "v mod 256 ^ Suc n = 256 ^ n * (v div 256 ^ n mod 256) + v mod 256 ^ n"
    by (metis mod_mult2_eq power_Suc2)
  with Suc.IH [of "a * 256 + v div 256 ^ n mod 256"] u show ?case
    by (simp add: distrib_right mult.assoc mult.commute [of "256 ^ n"])
qed

lemma be_nat_to_be [simp]: "be_nat (to_be n v) = v mod 256 ^ n"
  by (simp add: be_nat_def foldl_to_be)

abbreviation be32 :: "u32 \<Rightarrow> byte list" where
  "be32 v \<equiv> to_be 4 (unat v)"

abbreviation be64 :: "u64 \<Rightarrow> byte list" where
  "be64 v \<equiv> to_be 8 (unat v)"

lemma unat_u32_mod [simp]: "unat (v :: u32) mod 4294967296 = unat v"
  using unsigned_less [of v, where 'a = nat] by simp

lemma unat_u64_mod [simp]: "unat (v :: u64) mod 18446744073709551616 = unat v"
  using unsigned_less [of v, where 'a = nat] by simp

lemma word_of_be64 [simp]: "(word_of_nat (be_nat (be64 v)) :: u64) = v"
  by simp

lemma be_nat_be32 [simp]: "be_nat (be32 v) = unat v"
  by simp

section \<open>Slices\<close>

text \<open>\<open>go_slice xs lo hi\<close> is Go's \<^verbatim>\<open>xs[lo:hi]\<close> for bounds the caller has checked.\<close>

definition go_slice :: "'a list \<Rightarrow> nat \<Rightarrow> nat \<Rightarrow> 'a list" where
  "go_slice xs lo hi = take (hi - lo) (drop lo xs)"

lemma go_slice_mid:
  "length pre = lo \<Longrightarrow> hi = lo + length mid \<Longrightarrow> go_slice (pre @ mid @ rest) lo hi = mid"
  by (auto simp: go_slice_def)

section \<open>Iterating over a Go map\<close>

text \<open>
  The order in which \<^verbatim>\<open>range\<close> visits a Go map is unspecified. Operations whose
  loop order can be observed take the order as an argument: a function from the key
  set to a list of its elements. \<open>map_order it\<close> is what the language promises of it.
\<close>

definition map_order :: "('k set \<Rightarrow> 'k list) \<Rightarrow> bool" where
  "map_order it \<longleftrightarrow> (\<forall>S. finite S \<longrightarrow> set (it S) = S \<and> distinct (it S))"

lemma map_order_set: "map_order it \<Longrightarrow> finite S \<Longrightarrow> set (it S) = S"
  by (simp add: map_order_def)

lemma map_order_distinct: "map_order it \<Longrightarrow> finite S \<Longrightarrow> distinct (it S)"
  by (simp add: map_order_def)

lemma map_order_sorted: "map_order (sorted_list_of_set :: 'k::linorder set \<Rightarrow> 'k list)"
  by (simp add: map_order_def)

end
