(* ===== verification/Kv_Codec.thy ===== *)
theory Kv_Codec
  imports Prelude
begin

text \<open>
  The replicated command codec of the key-value store
  (\<^verbatim>\<open>system/kv/raft_command.go\<close>) with the transaction operations of
  \<^verbatim>\<open>api/store/kv/kv.go\<close>: the wire layout of single commands and of
  transactions, their decoders with every truncation error, and the round trips.
\<close>

section \<open>Operation codes\<close>

type_synonym opcode = byte

definition opSet :: opcode where "opSet = 1"
definition opDelete :: opcode where "opDelete = 2"
definition opCAS :: opcode where "opCAS = 3"
definition opSetIfAbsent :: opcode where "opSetIfAbsent = 4"
definition opSetWithLease :: opcode where "opSetWithLease = 5"
definition opSetIfAbsentWithLease :: opcode where "opSetIfAbsentWithLease = 6"
definition opLeaseGrant :: opcode where "opLeaseGrant = 7"
definition opLeaseRenew :: opcode where "opLeaseRenew = 8"
definition opLeaseRevoke :: opcode where "opLeaseRevoke = 9"
definition opCompareAndDelete :: opcode where "opCompareAndDelete = 10"
definition opTxn :: opcode where "opTxn = 11"

lemmas opcode_defs =
  opSet_def opDelete_def opCAS_def opSetIfAbsent_def opSetWithLease_def
  opSetIfAbsentWithLease_def opLeaseGrant_def opLeaseRenew_def opLeaseRevoke_def
  opCompareAndDelete_def opTxn_def

definition TxnCheck :: byte where "TxnCheck = 0"
definition TxnPut :: byte where "TxnPut = 1"
definition TxnDelete :: byte where "TxnDelete = 2"

definition CondAny :: byte where "CondAny = 0"
definition CondAbsent :: byte where "CondAbsent = 1"
definition CondExists :: byte where "CondExists = 2"
definition CondVersion :: byte where "CondVersion = 3"

lemmas txn_code_defs =
  TxnCheck_def TxnPut_def TxnDelete_def
  CondAny_def CondAbsent_def CondExists_def CondVersion_def

section \<open>Commands and transactions\<close>

record command =
  c_Key :: string
  c_LeaseID :: string
  c_Value :: "byte list"
  c_Expect :: u64
  c_TTLms :: i64
  c_ExpiresAtMs :: i64
  c_Op :: opcode

record TxnOp =
  t_Key :: string
  t_Value :: "byte list"
  t_Expect :: u64
  t_Kind :: byte
  t_Cond :: byte

datatype codec_error =
    CmdEmpty
  | TruncatedLength nat
  | TruncatedPayload nat nat
  | TruncatedExpect
  | TruncatedTTL
  | TxnBadHeader
  | TxnTruncatedOpHeader nat
  | TxnTruncatedExpect nat

section \<open>Encoding\<close>

definition appendBytes :: "byte list \<Rightarrow> byte list \<Rightarrow> byte list" where
  "appendBytes buf b = buf @ be32 (word_of_nat (length b)) @ b"

definition encodeCommand :: "command \<Rightarrow> byte list" where
  "encodeCommand c =
     (let buf = [c_Op c];
          buf = appendBytes buf (bytes_of (c_Key c));
          buf = appendBytes buf (c_Value c);
          buf = buf @ be64 (c_Expect c);
          buf = appendBytes buf (bytes_of (c_LeaseID c));
          buf = buf @ be64 (c_TTLms c);
          buf = buf @ be64 (c_ExpiresAtMs c)
      in buf)"

primrec encodeTxnOps :: "byte list \<Rightarrow> TxnOp list \<Rightarrow> byte list" where
  "encodeTxnOps buf [] = buf"
| "encodeTxnOps buf (op # ops) =
     (let buf = buf @ [t_Kind op, t_Cond op];
          buf = appendBytes buf (bytes_of (t_Key op));
          buf = appendBytes buf (t_Value op);
          buf = buf @ be64 (t_Expect op)
      in encodeTxnOps buf ops)"

definition encodeTxn :: "TxnOp list \<Rightarrow> byte list" where
  "encodeTxn ops = encodeTxnOps ([opTxn] @ be32 (word_of_nat (length ops))) ops"

section \<open>Decoding\<close>

definition readUint64 :: "byte list \<Rightarrow> nat \<Rightarrow> u64" where
  "readUint64 data off = word_of_nat (be_nat (go_slice data off (off + 8)))"

definition readBytes :: "byte list \<Rightarrow> nat \<Rightarrow> codec_error + (byte list \<times> nat)" where
  "readBytes data off =
     (if off + 4 > length data then Inl (TruncatedLength off)
      else
        let n = be_nat (go_slice data off (off + 4)); off = off + 4
        in if off + n > length data then Inl (TruncatedPayload off n)
           else Inr (go_slice data off (off + n), off + n))"

definition decodeCommand :: "byte list \<Rightarrow> codec_error + command" where
  "decodeCommand data =
     (if length data < 1 then Inl CmdEmpty
      else
        case readBytes data 1 of
          Inl e \<Rightarrow> Inl e
        | Inr (key, off) \<Rightarrow>
            (case readBytes data off of
               Inl e \<Rightarrow> Inl e
             | Inr (val, off) \<Rightarrow>
                 if off + 8 > length data then Inl TruncatedExpect
                 else
                   let expect = readUint64 data off; off = off + 8
                   in case readBytes data off of
                        Inl e \<Rightarrow> Inl e
                      | Inr (lease, off) \<Rightarrow>
                          if off + 8 > length data then Inl TruncatedTTL
                          else
                            let ttl = readUint64 data off; off = off + 8
                            in Inr \<lparr>c_Key = string_of key, c_LeaseID = string_of lease,
                                    c_Value = val, c_Expect = expect, c_TTLms = ttl,
                                    c_ExpiresAtMs =
                                      (if off + 8 \<le> length data then readUint64 data off else 0),
                                    c_Op = data ! 0\<rparr>))"

definition decodeTxnOp :: "byte list \<Rightarrow> nat \<Rightarrow> codec_error + (TxnOp \<times> nat)" where
  "decodeTxnOp data off =
     (if off + 2 > length data then Inl (TxnTruncatedOpHeader off)
      else
        let kind = data ! off; cond = data ! (off + 1); off = off + 2
        in case readBytes data off of
             Inl e \<Rightarrow> Inl e
           | Inr (key, off) \<Rightarrow>
               (case readBytes data off of
                  Inl e \<Rightarrow> Inl e
                | Inr (val, off) \<Rightarrow>
                    if off + 8 > length data then Inl (TxnTruncatedExpect off)
                    else Inr (\<lparr>t_Key = string_of key, t_Value = val,
                               t_Expect = readUint64 data off,
                               t_Kind = kind, t_Cond = cond\<rparr>, off + 8)))"

primrec decodeTxnOps :: "byte list \<Rightarrow> nat \<Rightarrow> nat \<Rightarrow> TxnOp list \<Rightarrow> codec_error + TxnOp list" where
  "decodeTxnOps data 0 off ops = Inr ops"
| "decodeTxnOps data (Suc n) off ops =
     (case decodeTxnOp data off of
        Inl e \<Rightarrow> Inl e
      | Inr (op, off) \<Rightarrow> decodeTxnOps data n off (ops @ [op]))"

definition decodeTxn :: "byte list \<Rightarrow> codec_error + TxnOp list" where
  "decodeTxn data =
     (if length data < 5 \<or> data ! 0 \<noteq> opTxn then Inl TxnBadHeader
      else decodeTxnOps data (be_nat (go_slice data 1 5)) 5 [])"

section \<open>Lemmas\<close>

definition short :: "'a list \<Rightarrow> bool" where
  "short xs \<longleftrightarrow> length xs < 2 ^ 32"

lemma appendBytes_append: "appendBytes buf b = buf @ appendBytes [] b"
  by (simp add: appendBytes_def)

lemma length_appendBytes [simp]: "length (appendBytes buf b) = length buf + 4 + length b"
  by (simp add: appendBytes_def)

lemma unat_short [simp]: "short b \<Longrightarrow> unat (word_of_nat (length b) :: u32) = length b"
  by (simp add: short_def unat_of_nat)

lemma short_mod [simp]: "short b \<Longrightarrow> length b mod 4294967296 = length b"
  by (simp add: short_def)

lemma readBytes_mid:
  assumes "data = pre @ appendBytes [] b @ rest" and "off = length pre" and "short b"
  shows "readBytes data off = Inr (b, off + 4 + length b)"
proof -
  have l: "go_slice data off (off + 4) = be32 (word_of_nat (length b))"
    using assms by (simp add: appendBytes_def go_slice_mid)
  have p: "go_slice data (off + 4) (off + 4 + length b) = b"
    using assms go_slice_mid [of "pre @ be32 (word_of_nat (length b))" "off + 4" _ b rest]
    by (simp add: appendBytes_def)
  show ?thesis
    using assms l p by (simp add: readBytes_def Let_def appendBytes_def)
qed

lemma readUint64_mid:
  assumes "data = pre @ be64 v @ rest" and "off = length pre"
  shows "readUint64 data off = v"
  using assms by (simp add: readUint64_def go_slice_mid)

text \<open>The layout of the comment above \<^verbatim>\<open>encodeCommand\<close>, as one concatenation.\<close>

lemma encodeCommand_layout:
  "encodeCommand c =
     [c_Op c] @ appendBytes [] (bytes_of (c_Key c)) @ appendBytes [] (c_Value c) @
     be64 (c_Expect c) @ appendBytes [] (bytes_of (c_LeaseID c)) @ be64 (c_TTLms c) @
     be64 (c_ExpiresAtMs c)"
  unfolding encodeCommand_def Let_def
  by (subst appendBytes_append, subst (2) appendBytes_append, subst (3) appendBytes_append)
    (simp add: appendBytes_def)

text \<open>
  One lemma covers both versions of the layout: the trailing expiry field is optional,
  so that commands logged before it existed still decode (to expiry 0).
\<close>

lemma decodeCommand_body:
  assumes data: "data = [op] @ appendBytes [] (bytes_of key) @ appendBytes [] val @
      be64 expect @ appendBytes [] (bytes_of lease) @ be64 ttl @ tail"
    and sh: "short key" "short val" "short lease"
  shows "decodeCommand data =
     Inr \<lparr>c_Key = key, c_LeaseID = lease, c_Value = val, c_Expect = expect, c_TTLms = ttl,
          c_ExpiresAtMs =
            (if 8 \<le> length tail then word_of_nat (be_nat (take 8 tail)) else 0),
          c_Op = op\<rparr>"
proof -
  define p1 where "p1 = [op] @ appendBytes [] (bytes_of key)"
  define p2 where "p2 = p1 @ appendBytes [] val"
  define p3 where "p3 = p2 @ be64 expect"
  define p4 where "p4 = p3 @ appendBytes [] (bytes_of lease)"
  define p5 where "p5 = p4 @ be64 ttl"
  note ps = p1_def p2_def p3_def p4_def p5_def
  have shb: "short (bytes_of key)" "short (bytes_of lease)"
    using sh by (simp_all add: short_def)
  have r1: "readBytes data 1 = Inr (bytes_of key, length p1)"
    using readBytes_mid [of data "[op]" "bytes_of key"] data shb by (simp add: ps)
  have r2: "readBytes data (length p1) = Inr (val, length p2)"
    using readBytes_mid [of data p1 val] data sh by (simp add: ps)
  have e: "readUint64 data (length p2) = expect"
    using readUint64_mid [of data p2 expect] data by (simp add: ps)
  have r3: "readBytes data (length p3) = Inr (bytes_of lease, length p4)"
    using readBytes_mid [of data p3 "bytes_of lease"] data shb by (simp add: ps)
  have t: "readUint64 data (length p4) = ttl"
    using readUint64_mid [of data p4 ttl] data by (simp add: ps)
  have d5: "data = p5 @ tail" and l3: "length p3 = length p2 + 8"
    and l5: "length p5 = length p4 + 8"
    using data by (simp_all add: ps)
  have x: "readUint64 data (length p5) = word_of_nat (be_nat (take 8 tail))"
    by (simp add: readUint64_def go_slice_def d5)
  have len: "length data = length p5 + length tail" "length p2 + 8 \<le> length data"
    "length p4 + 8 \<le> length data" "1 \<le> length data" and op: "data ! 0 = op"
    using data by (simp_all add: ps)
  show ?thesis
    using r1 r2 e r3 t x len op l3 l5 by (simp add: decodeCommand_def Let_def)
qed

text \<open>
  C1: every command survives the replicated log: decoding its encoding gives it back,
  for keys, values and lease ids shorter than the 32-bit length field can count.
\<close>

theorem decode_encodeCommand:
  assumes "short (c_Key c)" and "short (c_Value c)" and "short (c_LeaseID c)"
  shows "decodeCommand (encodeCommand c) = Inr c"
  using decodeCommand_body [OF encodeCommand_layout assms] by simp

theorem decode_encodeCommand_witness:
  "decodeCommand (encodeCommand
     \<lparr>c_Key = ''a'', c_LeaseID = ''n-lease-1'', c_Value = [7, 255], c_Expect = 3,
      c_TTLms = 1000, c_ExpiresAtMs = -1, c_Op = opSetWithLease\<rparr>) =
   Inr \<lparr>c_Key = ''a'', c_LeaseID = ''n-lease-1'', c_Value = [7, 255], c_Expect = 3,
      c_TTLms = 1000, c_ExpiresAtMs = -1, c_Op = opSetWithLease\<rparr>"
  by (rule decode_encodeCommand) (simp_all add: short_def)

lemma encodeTxnOps_append: "encodeTxnOps buf ops = buf @ encodeTxnOps [] ops"
proof (induction ops arbitrary: buf)
  case Nil
  then show ?case by simp
next
  case (Cons op ops)
  show ?case
    unfolding encodeTxnOps.simps Let_def
    by (subst (1 2) Cons.IH) (simp add: appendBytes_def)
qed

lemma decodeTxnOp_mid:
  assumes data: "data = pre @ encodeTxnOps [] [op] @ rest" and off: "off = length pre"
    and sh: "short (t_Key op)" "short (t_Value op)"
  shows "decodeTxnOp data off = Inr (op, off + length (encodeTxnOps [] [op]))"
proof -
  define p1 where "p1 = pre @ [t_Kind op, t_Cond op]"
  define p2 where "p2 = p1 @ appendBytes [] (bytes_of (t_Key op))"
  define p3 where "p3 = p2 @ appendBytes [] (t_Value op)"
  note ps = p1_def p2_def p3_def
  have d: "data = p1 @ appendBytes [] (bytes_of (t_Key op)) @ appendBytes [] (t_Value op) @
      be64 (t_Expect op) @ rest"
    using data by (simp add: ps appendBytes_def)
  have shb: "short (bytes_of (t_Key op))"
    using sh by (simp add: short_def)
  have r1: "readBytes data (length p1) = Inr (bytes_of (t_Key op), length p2)"
    using readBytes_mid [of data p1] d shb by (simp add: ps)
  have r2: "readBytes data (length p2) = Inr (t_Value op, length p3)"
    using readBytes_mid [of data p2] d sh by (simp add: ps)
  have e: "readUint64 data (length p3) = t_Expect op"
    using readUint64_mid [of data p3] d by (simp add: ps)
  have hd: "data ! off = t_Kind op" "data ! Suc off = t_Cond op"
    using d off by (simp_all add: ps nth_append)
  have len: "length p1 = off + 2" "length p3 + 8 \<le> length data" "length p1 \<le> length data"
    and l: "length (encodeTxnOps [] [op]) = length p3 + 8 - off" "off \<le> length p3"
    using d off by (simp_all add: ps)
  show ?thesis
    using r1 r2 e hd len l by (simp add: decodeTxnOp_def Let_def)
qed

lemma decodeTxnOps_mid:
  assumes "data = pre @ encodeTxnOps [] ops @ rest" and "off = length pre"
    and "\<forall>op \<in> set ops. short (t_Key op) \<and> short (t_Value op)"
  shows "decodeTxnOps data (length ops) off acc = Inr (acc @ ops)"
  using assms
proof (induction ops arbitrary: pre off acc)
  case Nil
  then show ?case by simp
next
  case (Cons op ops)
  have split: "encodeTxnOps [] (op # ops) = encodeTxnOps [] [op] @ encodeTxnOps [] ops"
    using encodeTxnOps_append [of "encodeTxnOps [] [op]" ops] by simp
  have one: "decodeTxnOp data off = Inr (op, off + length (encodeTxnOps [] [op]))"
    using Cons.prems split by (intro decodeTxnOp_mid [where rest = "encodeTxnOps [] ops @ rest"]) auto
  have rest: "decodeTxnOps data (length ops) (off + length (encodeTxnOps [] [op])) (acc @ [op]) =
      Inr ((acc @ [op]) @ ops)"
    using Cons.prems split
    by (intro Cons.IH [where pre = "pre @ encodeTxnOps [] [op]"]) auto
  show ?case
    using one rest by simp
qed

text \<open>
  C2: a transaction survives the replicated log as well, in operation order, whatever
  bytes its kind and condition fields hold.
\<close>

theorem decode_encodeTxn:
  assumes "short ops" and "\<forall>op \<in> set ops. short (t_Key op) \<and> short (t_Value op)"
  shows "decodeTxn (encodeTxn ops) = Inr ops"
proof -
  let ?h = "[opTxn] @ be32 (word_of_nat (length ops))"
  have lay: "encodeTxn ops = ?h @ encodeTxnOps [] ops @ []"
    unfolding encodeTxn_def by (subst encodeTxnOps_append) simp
  have n: "be_nat (go_slice (encodeTxn ops) 1 5) = length ops"
    unfolding lay using assms(1) by (simp add: go_slice_def)
  show ?thesis
    using decodeTxnOps_mid [OF lay _ assms(2), of 5 "[]"] n lay by (simp add: decodeTxn_def)
qed

theorem decode_encodeTxn_witness:
  "decodeTxn (encodeTxn
     [\<lparr>t_Key = ''k'', t_Value = [1], t_Expect = 9, t_Kind = TxnPut, t_Cond = CondVersion\<rparr>,
      \<lparr>t_Key = [], t_Value = [], t_Expect = 0, t_Kind = 77, t_Cond = CondAbsent\<rparr>]) =
   Inr [\<lparr>t_Key = ''k'', t_Value = [1], t_Expect = 9, t_Kind = TxnPut, t_Cond = CondVersion\<rparr>,
      \<lparr>t_Key = [], t_Value = [], t_Expect = 0, t_Kind = 77, t_Cond = CondAbsent\<rparr>]"
  by (rule decode_encodeTxn) (simp_all add: short_def)

text \<open>
  A successful read never looks past the end of the data, so it gives the same result
  on every extension of it.
\<close>

lemma readBytes_take:
  assumes "readBytes (take n data) off = Inr (b, off')"
  shows "readBytes data off = Inr (b, off') \<and> off' \<le> n"
proof -
  let ?d = "take n data"
  have g: "go_slice ?d lo hi = go_slice data lo hi" if "hi \<le> length ?d" for lo hi
    using that by (simp add: go_slice_def drop_take min.absorb1 diff_le_mono)
  have l: "off + 4 \<le> length ?d"
    using assms by (auto simp: readBytes_def split: if_splits)
  let ?k = "be_nat (go_slice ?d off (off + 4))"
  have k: "off + 4 + ?k \<le> length ?d"
    using assms l by (auto simp: readBytes_def Let_def split: if_splits)
  have r: "b = go_slice ?d (off + 4) (off + 4 + ?k)" "off' = off + 4 + ?k"
    using assms l k by (auto simp: readBytes_def Let_def split: if_splits)
  have "?k = be_nat (go_slice data off (off + 4))"
    using g [OF l] by simp
  with g [OF k] r l k show ?thesis
    by (auto simp: readBytes_def Let_def)
qed

lemma decodeCommand_take_Inr:
  assumes dec: "decodeCommand (take n data) = Inr c"
    and data: "data = [op] @ appendBytes [] (bytes_of key) @ appendBytes [] val @
      be64 expect @ appendBytes [] (bytes_of lease) @ be64 ttl @ tail"
    and sh: "short key" "short val" "short lease"
  shows "length data \<le> n + length tail"
proof -
  define p1 where "p1 = [op] @ appendBytes [] (bytes_of key)"
  define p2 where "p2 = p1 @ appendBytes [] val"
  define p3 where "p3 = p2 @ be64 expect"
  define p4 where "p4 = p3 @ appendBytes [] (bytes_of lease)"
  note ps = p1_def p2_def p3_def p4_def
  have shb: "short (bytes_of key)" "short (bytes_of lease)"
    using sh by (simp_all add: short_def)
  have r: "readBytes data 1 = Inr (bytes_of key, length p1)"
    "readBytes data (length p1) = Inr (val, length p2)"
    "readBytes data (length p3) = Inr (bytes_of lease, length p4)"
    using readBytes_mid [of data "[op]" "bytes_of key"] readBytes_mid [of data p1 val]
      readBytes_mid [of data p3 "bytes_of lease"] data shb sh
    by (simp_all add: ps)
  from dec obtain b1 o1 b2 o2 b3 o3 where
      q: "readBytes (take n data) 1 = Inr (b1, o1)" "readBytes (take n data) o1 = Inr (b2, o2)"
        "readBytes (take n data) (o2 + 8) = Inr (b3, o3)"
      and last: "o3 + 8 \<le> length (take n data)"
    by (auto simp: decodeCommand_def Let_def not_less split: if_splits sum.splits)
  have "o1 = length p1"
    using readBytes_take [OF q(1)] r(1) by simp
  moreover from this have "o2 = length p2"
    using readBytes_take [OF q(2)] r(2) by simp
  moreover from this have "o3 = length p4"
    using readBytes_take [OF q(3)] r(3) by (simp add: p3_def)
  ultimately show ?thesis
    using last data by (simp add: ps)
qed

text \<open>
  C3: truncation is never silent. A logged command cut anywhere before its optional
  trailing expiry field is rejected; cut anywhere inside that field it decodes to the
  same command with expiry 0, the meaning of the older layout without the field.
\<close>

theorem decodeCommand_truncated:
  assumes sh: "short (c_Key c)" "short (c_Value c)" "short (c_LeaseID c)"
    and n: "n < length (encodeCommand c)"
  shows "if n + 8 < length (encodeCommand c)
         then \<exists>e. decodeCommand (take n (encodeCommand c)) = Inl e
         else decodeCommand (take n (encodeCommand c)) = Inr (c\<lparr>c_ExpiresAtMs := 0\<rparr>)"
proof (cases "n + 8 < length (encodeCommand c)")
  case True
  then have "decodeCommand (take n (encodeCommand c)) \<noteq> Inr c'" for c'
    using decodeCommand_take_Inr [OF _ encodeCommand_layout sh, of n c'] by auto
  with True show ?thesis
    by (metis sum.exhaust)
next
  case False
  let ?k = "n + 8 - length (encodeCommand c)"
  have "take n (encodeCommand c) = [c_Op c] @ appendBytes [] (bytes_of (c_Key c)) @
      appendBytes [] (c_Value c) @ be64 (c_Expect c) @ appendBytes [] (bytes_of (c_LeaseID c)) @
      be64 (c_TTLms c) @ take ?k (be64 (c_ExpiresAtMs c))"
    using False unfolding encodeCommand_layout by (simp add: take_Cons' take_append)
  from decodeCommand_body [OF this sh] have "decodeCommand (take n (encodeCommand c)) = Inr (c\<lparr>c_ExpiresAtMs := 0\<rparr>)"
    using False n by simp
  with False show ?thesis by simp
qed

theorem decodeCommand_truncated_witness:
  "\<exists>e. decodeCommand (take 20 (encodeCommand
     \<lparr>c_Key = ''a'', c_LeaseID = [], c_Value = [7], c_Expect = 3,
      c_TTLms = 1000, c_ExpiresAtMs = 5, c_Op = opSet\<rparr>)) = Inl e"
  using decodeCommand_truncated [of "\<lparr>c_Key = ''a'', c_LeaseID = [], c_Value = [7], c_Expect = 3,
      c_TTLms = 1000, c_ExpiresAtMs = 5, c_Op = opSet\<rparr>" 20]
  by (simp add: short_def encodeCommand_layout)

end
