(* ===== verification/Kv_State.thy ===== *)
theory Kv_State
  imports Kv_Codec
begin

text \<open>
  The mutable state of the key-value store (\<^verbatim>\<open>system/kv/state.go\<close>): entries with
  versions and lease bindings, leases with their attached keys, and the incremental,
  copy-on-write publication of read snapshots.

  Snapshot shards are Go maps shared between published snapshots, so they live in an
  explicit heap: a snapshot holds references, \<^verbatim>\<open>maps.Clone\<close> allocates, and a write
  through a reference is seen by every snapshot that holds it. The key hash
  (\<^verbatim>\<open>xxhash.Sum64String\<close>, a third-party package) is the parameter \<open>xxh\<close>, and the
  iteration order of a Go map the parameter \<open>it\<close>.
\<close>

section \<open>Data\<close>

text \<open>\<^verbatim>\<open>kvapi.Entry\<close>, the detached view handed to readers.\<close>

record Entry =
  E_Key :: string
  E_LeaseID :: string
  E_Value :: "byte list"
  E_Version :: u64
  E_Epoch :: u64

record entry =
  e_key :: string
  e_leaseID :: string
  e_value :: "byte list"
  e_version :: u64
  e_epoch :: u64

record leaseState =
  ls_keys :: "string set"
  ls_id :: string
  ls_ttl :: i64
  ls_expiresAtMs :: i64

type_synonym shard_ref = nat

record stateSnapshot =
  sn_shards :: "nat \<Rightarrow> shard_ref option"
  sn_version :: u64
  sn_index :: u64

text \<open>The heap of shard maps: the allocated references are those below \<open>h_next\<close>.\<close>

record shard_heap =
  h_maps :: "shard_ref \<Rightarrow> (string \<rightharpoonup> Entry)"
  h_next :: shard_ref

record state =
  st_published :: "stateSnapshot option"
  st_dirty :: "string set"
  st_entries :: "string \<rightharpoonup> entry"
  st_leases :: "string \<rightharpoonup> leaseState"
  st_version :: u64
  st_revision :: u64
  st_applyIndex :: u64

definition newState :: state where
  "newState = \<lparr>st_published = None, st_dirty = {}, st_entries = Map.empty,
     st_leases = Map.empty, st_version = 0, st_revision = 0, st_applyIndex = 0\<rparr>"

section \<open>Operations on entries\<close>

definition nextVersion :: "state \<Rightarrow> state \<times> u64" where
  "nextVersion s =
     (let s = s\<lparr>st_version := st_version s + 1, st_revision := st_revision s + 1\<rparr>
      in (s, st_version s))"

definition kv_get :: "state \<Rightarrow> string \<Rightarrow> entry option" where
  "kv_get s key = st_entries s key"

definition markDirty :: "state \<Rightarrow> string \<Rightarrow> state" where
  "markDirty s key = s\<lparr>st_dirty := insert key (st_dirty s)\<rparr>"

text \<open>\<^verbatim>\<open>if ls, ok := s.leases[id]; ok { delete(ls.keys, key) }\<close> and its insertion twin.\<close>

definition detach :: "state \<Rightarrow> string \<Rightarrow> string \<Rightarrow> state" where
  "detach s lid key =
     (case st_leases s lid of
        None \<Rightarrow> s
      | Some ls \<Rightarrow> s\<lparr>st_leases := (st_leases s)(lid \<mapsto> ls\<lparr>ls_keys := ls_keys ls - {key}\<rparr>)\<rparr>)"

definition attach :: "state \<Rightarrow> string \<Rightarrow> string \<Rightarrow> state" where
  "attach s lid key =
     (case st_leases s lid of
        None \<Rightarrow> s
      | Some ls \<Rightarrow> s\<lparr>st_leases := (st_leases s)(lid \<mapsto> ls\<lparr>ls_keys := insert key (ls_keys ls)\<rparr>)\<rparr>)"

definition kv_set :: "state \<Rightarrow> string \<Rightarrow> byte list \<Rightarrow> string \<Rightarrow> state \<times> entry option \<times> u64" where
  "kv_set s key value leaseID =
     (let (s, ver) = nextVersion s;
          prev = st_entries s key;
          s = (case prev of
                 None \<Rightarrow> s
               | Some p \<Rightarrow> if e_leaseID p \<noteq> [] \<and> e_leaseID p \<noteq> leaseID
                            then detach s (e_leaseID p) key else s);
          e = \<lparr>e_key = key, e_leaseID = leaseID, e_value = value, e_version = ver,
               e_epoch = st_applyIndex s\<rparr>;
          s = s\<lparr>st_entries := (st_entries s)(key \<mapsto> e)\<rparr>;
          s = markDirty s key;
          s = (if leaseID \<noteq> [] then attach s leaseID key else s)
      in (s, prev, ver))"

definition kv_del :: "state \<Rightarrow> string \<Rightarrow> state \<times> entry option" where
  "kv_del s key =
     (case st_entries s key of
        None \<Rightarrow> (s, None)
      | Some e \<Rightarrow>
          (let s = s\<lparr>st_entries := (st_entries s)(key := None)\<rparr>;
               s = s\<lparr>st_revision := st_revision s + 1\<rparr>;
               s = markDirty s key;
               s = (if e_leaseID e \<noteq> [] then detach s (e_leaseID e) key else s)
           in (s, Some e)))"

definition setIfAbsent :: "state \<Rightarrow> string \<Rightarrow> byte list \<Rightarrow> string \<Rightarrow> state \<times> u64 \<times> bool" where
  "setIfAbsent s key value leaseID =
     (case st_entries s key of
        Some existing \<Rightarrow> (s, e_version existing, False)
      | None \<Rightarrow> (let (s, _, ver) = kv_set s key value leaseID in (s, ver, True)))"

definition cas :: "state \<Rightarrow> string \<Rightarrow> u64 \<Rightarrow> byte list \<Rightarrow> state \<times> u64 \<times> bool" where
  "cas s key expect value =
     (let existing = st_entries s key;
          actualVersion = (case existing of None \<Rightarrow> 0 | Some e \<Rightarrow> e_version e)
      in if actualVersion \<noteq> expect then (s, actualVersion, False)
         else
           let leaseID = (case existing of None \<Rightarrow> [] | Some e \<Rightarrow> e_leaseID e);
               (s, _, ver) = kv_set s key value leaseID
           in (s, ver, True))"

definition compareAndDelete :: "state \<Rightarrow> string \<Rightarrow> u64 \<Rightarrow> state \<times> bool \<times> bool" where
  "compareAndDelete s key expect =
     (case st_entries s key of
        None \<Rightarrow> (s, False, False)
      | Some e \<Rightarrow>
          if e_version e \<noteq> expect then (s, False, True)
          else (fst (kv_del s key), True, True))"

definition condHolds :: "byte \<Rightarrow> u64 \<Rightarrow> entry option \<Rightarrow> bool" where
  "condHolds cond expect e =
     (if cond = CondAny then True
      else if cond = CondAbsent then e = None
      else if cond = CondExists then e \<noteq> None
      else if cond = CondVersion then (case e of None \<Rightarrow> False | Some e \<Rightarrow> e_version e = expect)
      else False)"

section \<open>Leases\<close>

definition addLease :: "state \<Rightarrow> string \<Rightarrow> i64 \<Rightarrow> i64 \<Rightarrow> state" where
  "addLease s lid ttlMs expiresAtMs =
     s\<lparr>st_leases := (st_leases s)(lid \<mapsto>
        \<lparr>ls_keys = {}, ls_id = lid, ls_ttl = ttlMs, ls_expiresAtMs = expiresAtMs\<rparr>)\<rparr>"

definition removeLease ::
  "(string set \<Rightarrow> string list) \<Rightarrow> state \<Rightarrow> string \<Rightarrow> state \<times> string list" where
  "removeLease it s lid =
     (case st_leases s lid of
        None \<Rightarrow> (s, [])
      | Some ls \<Rightarrow> (s\<lparr>st_leases := (st_leases s)(lid := None)\<rparr>, it (ls_keys ls)))"

section \<open>Snapshot publication\<close>

definition snapshotShards :: nat where
  "snapshotShards = 256"

definition snapshotShard :: "(string \<Rightarrow> u64) \<Rightarrow> string \<Rightarrow> nat" where
  "snapshotShard xxh key = unat (xxh key) mod snapshotShards"

definition to_Entry :: "entry \<Rightarrow> Entry" where
  "to_Entry e = \<lparr>E_Key = e_key e, E_LeaseID = e_leaseID e, E_Value = e_value e,
     E_Version = e_version e, E_Epoch = e_epoch e\<rparr>"

definition h_alloc :: "shard_heap \<Rightarrow> (string \<rightharpoonup> Entry) \<Rightarrow> shard_heap \<times> shard_ref" where
  "h_alloc h m = (h\<lparr>h_maps := (h_maps h)(h_next h := m), h_next := Suc (h_next h)\<rparr>, h_next h)"

definition h_write :: "shard_heap \<Rightarrow> shard_ref \<Rightarrow> string \<Rightarrow> Entry option \<Rightarrow> shard_heap" where
  "h_write h r key v = h\<lparr>h_maps := (h_maps h)(r := (h_maps h r)(key := v))\<rparr>"

text \<open>
  The body of the loop over the dirty keys: clone the shard unless this publication has
  cloned it already (a nil shard becomes a new empty map), then store the key's entry in
  the clone or delete the key from it.
\<close>

type_synonym pub_loop = "shard_heap \<times> (nat \<Rightarrow> shard_ref option) \<times> (nat \<Rightarrow> bool)"

definition cloneShard :: "nat \<Rightarrow> pub_loop \<Rightarrow> pub_loop" where
  "cloneShard shard = (\<lambda>(h, shards, cloned).
     if \<not> cloned shard
     then
       let (h, r) = h_alloc h (case shards shard of None \<Rightarrow> Map.empty | Some r \<Rightarrow> h_maps h r)
       in (h, shards(shard := Some r), cloned(shard := True))
     else (h, shards, cloned))"

definition publishKey ::
  "(string \<Rightarrow> u64) \<Rightarrow> (string \<rightharpoonup> entry) \<Rightarrow> string \<Rightarrow> pub_loop \<Rightarrow> pub_loop" where
  "publishKey xxh entries key st =
     (let shard = snapshotShard xxh key;
          (h, shards, cloned) = cloneShard shard st
      in case shards shard of
           None \<Rightarrow> (h, shards, cloned)
         | Some r \<Rightarrow> (h_write h r key (map_option to_Entry (entries key)), shards, cloned))"

definition kv_snapshot ::
  "(string \<Rightarrow> u64) \<Rightarrow> (string set \<Rightarrow> string list) \<Rightarrow> shard_heap \<Rightarrow> state
     \<Rightarrow> shard_heap \<times> state \<times> stateSnapshot" where
  "kv_snapshot xxh it h s =
     (let (shards, dirty) =
            (case st_published s of
               Some p \<Rightarrow> (sn_shards p, st_dirty s)
             | None \<Rightarrow> (\<lambda>_. None, st_dirty s \<union> dom (st_entries s)));
          (h, shards, _) = fold (publishKey xxh (st_entries s)) (it dirty) (h, shards, \<lambda>_. False);
          snap = \<lparr>sn_shards = shards, sn_version = st_revision s, sn_index = st_applyIndex s\<rparr>
      in (h, s\<lparr>st_dirty := {}, st_published := Some snap\<rparr>, snap))"

section \<open>Reading a snapshot\<close>

definition sn_get :: "(string \<Rightarrow> u64) \<Rightarrow> shard_heap \<Rightarrow> stateSnapshot \<Rightarrow> string \<Rightarrow> Entry option" where
  "sn_get xxh h snap key =
     (case sn_shards snap (snapshotShard xxh key) of
        None \<Rightarrow> None
      | Some r \<Rightarrow> h_maps h r key)"

text \<open>A nil snapshot (\<open>None\<close>) is a closed store: \<^verbatim>\<open>getMany\<close> reports \<open>ErrKVClosed\<close>.\<close>

datatype kv_error = ErrKVClosed | ErrKeyNotFound | ErrLeaseNotFound | ErrUnsupported | ErrCodec codec_error | ErrUnknownOp opcode

definition sn_getMany ::
  "(string \<Rightarrow> u64) \<Rightarrow> shard_heap \<Rightarrow> stateSnapshot option \<Rightarrow> string list
     \<Rightarrow> kv_error + (string \<rightharpoonup> Entry)" where
  "sn_getMany xxh h snap keys =
     (case snap of
        None \<Rightarrow> Inl ErrKVClosed
      | Some sn \<Rightarrow>
          Inr (fold (\<lambda>key out. case sn_get xxh h sn key of None \<Rightarrow> out | Some e \<Rightarrow> out(key \<mapsto> e))
                 keys Map.empty))"

text \<open>
  \<^verbatim>\<open>scan\<close> calls \<open>fn\<close> on the entries of every shard in turn until it returns false. The
  model threads the callback's own state \<open>acc\<close>; the flag says whether to go on.
\<close>

primrec scan_loop ::
  "(Entry \<Rightarrow> 'acc \<Rightarrow> 'acc \<times> bool) \<Rightarrow> Entry list \<Rightarrow> 'acc \<Rightarrow> 'acc \<times> bool" where
  "scan_loop fn [] acc = (acc, True)"
| "scan_loop fn (e # es) acc =
     (let (acc, more) = fn e acc in if more then scan_loop fn es acc else (acc, False))"

definition hasPrefix :: "string \<Rightarrow> string \<Rightarrow> bool" where
  "hasPrefix k p = (take (length p) k = p)"

definition shard_entries ::
  "(string set \<Rightarrow> string list) \<Rightarrow> shard_heap \<Rightarrow> stateSnapshot \<Rightarrow> string \<Rightarrow> nat \<Rightarrow> Entry list" where
  "shard_entries it h snap prefix i =
     (case sn_shards snap i of
        None \<Rightarrow> []
      | Some r \<Rightarrow> List.map_filter (\<lambda>k. if prefix \<noteq> [] \<and> \<not> hasPrefix k prefix then None else h_maps h r k)
                    (it (dom (h_maps h r))))"

definition sn_scan ::
  "(string set \<Rightarrow> string list) \<Rightarrow> shard_heap \<Rightarrow> stateSnapshot option \<Rightarrow> string
     \<Rightarrow> (Entry \<Rightarrow> 'acc \<Rightarrow> 'acc \<times> bool) \<Rightarrow> 'acc \<Rightarrow> 'acc" where
  "sn_scan it h snap prefix fn acc =
     (case snap of
        None \<Rightarrow> acc
      | Some sn \<Rightarrow>
          fst (scan_loop fn (concat (map (shard_entries it h sn prefix) [0..<snapshotShards])) acc))"

section \<open>What the operations do, field by field\<close>

named_theorems kv_fields \<open>the effect of each operation on each field of the state\<close>

text \<open>The keys a lease keeps once \<open>key\<close> is unbound from the entry that held it.\<close>

definition unbound :: "state \<Rightarrow> string \<Rightarrow> string \<Rightarrow> leaseState \<Rightarrow> leaseState" where
  "unbound s key l ls =
     (if l \<noteq> [] \<and> map_option e_leaseID (st_entries s key) = Some l
      then ls\<lparr>ls_keys := ls_keys ls - {key}\<rparr> else ls)"

definition rebound :: "state \<Rightarrow> string \<Rightarrow> string \<Rightarrow> string \<Rightarrow> leaseState \<Rightarrow> leaseState" where
  "rebound s key new l ls =
     (if l = new \<and> l \<noteq> [] then ls\<lparr>ls_keys := insert key (ls_keys ls)\<rparr> else unbound s key l ls)"

lemma unbound_fields [kv_fields]:
  "ls_id (unbound s k l ls) = ls_id ls"
  "ls_keys (unbound s k l ls) =
     (if l \<noteq> [] \<and> map_option e_leaseID (st_entries s k) = Some l then ls_keys ls - {k} else ls_keys ls)"
  by (auto simp: unbound_def)

lemma rebound_fields [kv_fields]:
  "ls_id (rebound s k new l ls) = ls_id ls"
  "ls_keys (rebound s k new l ls) =
     (if l = new \<and> l \<noteq> [] then insert k (ls_keys ls) else ls_keys (unbound s k l ls))"
  by (auto simp: rebound_def kv_fields)

lemma detach_fields [kv_fields]:
  "st_entries (detach s l k) = st_entries s" "st_version (detach s l k) = st_version s"
  "st_revision (detach s l k) = st_revision s" "st_applyIndex (detach s l k) = st_applyIndex s"
  "st_published (detach s l k) = st_published s" "st_dirty (detach s l k) = st_dirty s"
  by (auto simp: detach_def split: option.splits)

lemma detach_leases [kv_fields]:
  "st_leases (detach s l k) l' =
     map_option (\<lambda>ls. if l' = l then ls\<lparr>ls_keys := ls_keys ls - {k}\<rparr> else ls) (st_leases s l')"
  by (cases "st_leases s l'") (auto simp: detach_def split: option.splits)

lemma attach_fields [kv_fields]:
  "st_entries (attach s l k) = st_entries s" "st_version (attach s l k) = st_version s"
  "st_revision (attach s l k) = st_revision s" "st_applyIndex (attach s l k) = st_applyIndex s"
  "st_published (attach s l k) = st_published s" "st_dirty (attach s l k) = st_dirty s"
  by (auto simp: attach_def split: option.splits)

lemma attach_leases [kv_fields]:
  "st_leases (attach s l k) l' =
     map_option (\<lambda>ls. if l' = l then ls\<lparr>ls_keys := insert k (ls_keys ls)\<rparr> else ls) (st_leases s l')"
  by (cases "st_leases s l'") (auto simp: attach_def split: option.splits)

lemma kv_set_fields [kv_fields]:
  "st_entries (fst (kv_set s k v l)) = (st_entries s)(k \<mapsto>
     \<lparr>e_key = k, e_leaseID = l, e_value = v, e_version = st_version s + 1,
      e_epoch = st_applyIndex s\<rparr>)"
  "st_version (fst (kv_set s k v l)) = st_version s + 1"
  "st_revision (fst (kv_set s k v l)) = st_revision s + 1"
  "st_applyIndex (fst (kv_set s k v l)) = st_applyIndex s"
  "st_published (fst (kv_set s k v l)) = st_published s"
  "st_dirty (fst (kv_set s k v l)) = insert k (st_dirty s)"
  "snd (kv_set s k v l) = (st_entries s k, st_version s + 1)"
  by (auto simp: kv_set_def nextVersion_def markDirty_def Let_def kv_fields split: option.splits)

lemma kv_set_leases [kv_fields]:
  "st_leases (fst (kv_set s k v l)) l' = map_option (rebound s k l l') (st_leases s l')"
  by (cases "st_leases s l'")
    (auto simp: kv_set_def nextVersion_def markDirty_def Let_def unbound_def rebound_def kv_fields
      split: option.splits)

lemma kv_del_fields [kv_fields]:
  "st_entries (fst (kv_del s k)) = (st_entries s)(k := None)"
  "st_version (fst (kv_del s k)) = st_version s"
  "st_applyIndex (fst (kv_del s k)) = st_applyIndex s"
  "st_published (fst (kv_del s k)) = st_published s"
  "st_dirty (fst (kv_del s k)) = (if st_entries s k = None then st_dirty s else insert k (st_dirty s))"
  "snd (kv_del s k) = st_entries s k"
  by (auto simp: kv_del_def markDirty_def Let_def kv_fields fun_upd_idem_iff split: option.splits)

lemma kv_del_leases [kv_fields]:
  "st_leases (fst (kv_del s k)) l = map_option (unbound s k l) (st_leases s l)"
  by (cases "st_leases s l")
    (auto simp: kv_del_def markDirty_def Let_def unbound_def kv_fields split: option.splits)

lemma addLease_fields [kv_fields]:
  "st_entries (addLease s l t x) = st_entries s" "st_version (addLease s l t x) = st_version s"
  "st_applyIndex (addLease s l t x) = st_applyIndex s"
  "st_published (addLease s l t x) = st_published s" "st_dirty (addLease s l t x) = st_dirty s"
  "st_leases (addLease s l t x) = (st_leases s)(l \<mapsto>
     \<lparr>ls_keys = {}, ls_id = l, ls_ttl = t, ls_expiresAtMs = x\<rparr>)"
  by (simp_all add: addLease_def)

lemma removeLease_fields [kv_fields]:
  "st_entries (fst (removeLease it s l)) = st_entries s"
  "st_version (fst (removeLease it s l)) = st_version s"
  "st_applyIndex (fst (removeLease it s l)) = st_applyIndex s"
  "st_published (fst (removeLease it s l)) = st_published s"
  "st_dirty (fst (removeLease it s l)) = st_dirty s"
  "st_leases (fst (removeLease it s l)) = (st_leases s)(l := None)"
  "snd (removeLease it s l) = (case st_leases s l of None \<Rightarrow> [] | Some ls \<Rightarrow> it (ls_keys ls))"
  by (auto simp: removeLease_def fun_upd_idem_iff split: option.splits)

section \<open>Invariants of the mutable state\<close>

named_theorems kv_inv \<open>preservation of the state's invariants\<close>

definition wf_entries :: "state \<Rightarrow> bool" where
  "wf_entries s \<longleftrightarrow> finite (dom (st_entries s)) \<and> finite (st_dirty s) \<and>
     (\<forall>k e. st_entries s k = Some e \<longrightarrow> e_key e = k)"

text \<open>Version 0 means "absent"; no two live entries carry the same version.\<close>

definition wf_versions :: "state \<Rightarrow> bool" where
  "wf_versions s \<longleftrightarrow>
     (\<forall>k e. st_entries s k = Some e \<longrightarrow> 0 < e_version e \<and> e_version e \<le> st_version s) \<and>
     (\<forall>k k' e e'. st_entries s k = Some e \<longrightarrow> st_entries s k' = Some e' \<longrightarrow>
        e_version e = e_version e' \<longrightarrow> k = k')"

text \<open>Every key attached to a lease is a live entry bound to that lease.\<close>

definition wf_leases :: "state \<Rightarrow> bool" where
  "wf_leases s \<longleftrightarrow> (\<forall>l ls. st_leases s l = Some ls \<longrightarrow>
     ls_id ls = l \<and> (l = [] \<longrightarrow> ls_keys ls = {}) \<and>
     (\<forall>k \<in> ls_keys ls. map_option e_leaseID (st_entries s k) = Some l))"

text \<open>Every live entry bound to a lease that exists is attached to it.\<close>

definition lease_complete :: "state \<Rightarrow> bool" where
  "lease_complete s \<longleftrightarrow> (\<forall>k e ls. st_entries s k = Some e \<longrightarrow> e_leaseID e \<noteq> [] \<longrightarrow>
     st_leases s (e_leaseID e) = Some ls \<longrightarrow> k \<in> ls_keys ls)"

text \<open>The version counter has not reached the end of its 64 bits.\<close>

definition can_bump :: "state \<Rightarrow> bool" where
  "can_bump s \<longleftrightarrow> st_version s < -1"

lemma newState_inv [kv_inv]:
  "wf_entries newState" "wf_versions newState" "wf_leases newState" "lease_complete newState"
  by (simp_all add: newState_def wf_entries_def wf_versions_def wf_leases_def lease_complete_def)

lemma wf_entries_set [kv_inv]: "wf_entries s \<Longrightarrow> wf_entries (fst (kv_set s k v l))"
  by (auto simp: wf_entries_def kv_fields)

lemma wf_entries_del [kv_inv]: "wf_entries s \<Longrightarrow> wf_entries (fst (kv_del s k))"
  by (auto simp: wf_entries_def kv_fields)

lemma wf_entries_lease [kv_inv]:
  "wf_entries s \<Longrightarrow> wf_entries (addLease s l t x)"
  "wf_entries s \<Longrightarrow> wf_entries (fst (removeLease it s l))"
  by (auto simp: wf_entries_def kv_fields)

lemma bump_bounds:
  "(v::u64) < -1 \<Longrightarrow> w \<le> v \<Longrightarrow> w < v + 1 \<and> w \<le> v + 1 \<and> 0 < v + 1"
  by unat_arith

lemma wf_versions_set [kv_inv]:
  assumes "wf_versions s" and "can_bump s"
  shows "wf_versions (fst (kv_set s k v l))"
proof -
  have b: "e_version e < st_version s + 1 \<and> e_version e \<le> st_version s + 1"
    if "st_entries s k' = Some e" for k' e
    using assms that bump_bounds [of "st_version s" "e_version e"]
    by (auto simp: wf_versions_def can_bump_def)
  have "0 < st_version s + 1"
    using assms(2) bump_bounds [of "st_version s" "st_version s"] by (simp add: can_bump_def)
  then show ?thesis
    using assms(1) b by (fastforce simp: wf_versions_def kv_fields)
qed

lemma wf_versions_del [kv_inv]: "wf_versions s \<Longrightarrow> wf_versions (fst (kv_del s k))"
  by (auto simp: wf_versions_def kv_fields)

lemma wf_versions_lease [kv_inv]:
  "wf_versions s \<Longrightarrow> wf_versions (addLease s l t x)"
  "wf_versions s \<Longrightarrow> wf_versions (fst (removeLease it s l))"
  by (auto simp: wf_versions_def kv_fields)

lemma wf_leasesI:
  assumes "\<And>l ls. st_leases s l = Some ls \<Longrightarrow> ls_id ls = l"
    and "\<And>ls. st_leases s [] = Some ls \<Longrightarrow> ls_keys ls = {}"
    and "\<And>l ls k. st_leases s l = Some ls \<Longrightarrow> k \<in> ls_keys ls \<Longrightarrow>
           map_option e_leaseID (st_entries s k) = Some l"
  shows "wf_leases s"
  using assms by (auto simp: wf_leases_def)

lemma wf_leasesD:
  assumes "wf_leases s" and "st_leases s l = Some ls"
  shows "ls_id ls = l" and "l = [] \<Longrightarrow> ls_keys ls = {}"
    and "k \<in> ls_keys ls \<Longrightarrow> map_option e_leaseID (st_entries s k) = Some l"
  using assms by (auto simp: wf_leases_def)

lemma wf_leases_set [kv_inv]:
  assumes wf: "wf_leases s"
  shows "wf_leases (fst (kv_set s k v l))"
proof (rule wf_leasesI)
  fix l' ls'
  assume "st_leases (fst (kv_set s k v l)) l' = Some ls'"
  then obtain ls where ls: "st_leases s l' = Some ls" "ls' = rebound s k l l' ls"
    by (auto simp: kv_fields)
  show "ls_id ls' = l'"
    using wf_leasesD(1) [OF wf ls(1)] ls(2) by (simp add: kv_fields)
  show "map_option e_leaseID (st_entries (fst (kv_set s k v l)) k') = Some l'"
    if "k' \<in> ls_keys ls'" for k'
    using that wf_leasesD(2,3) [OF wf ls(1)] ls(2) by (auto simp: kv_fields split: if_splits)
next
  fix ls'
  assume "st_leases (fst (kv_set s k v l)) [] = Some ls'"
  then show "ls_keys ls' = {}"
    using wf_leasesD(2) [OF wf] by (auto simp: kv_fields)
qed

lemma wf_leases_del [kv_inv]:
  assumes wf: "wf_leases s"
  shows "wf_leases (fst (kv_del s k))"
proof (rule wf_leasesI)
  fix l' ls'
  assume "st_leases (fst (kv_del s k)) l' = Some ls'"
  then obtain ls where ls: "st_leases s l' = Some ls" "ls' = unbound s k l' ls"
    by (auto simp: kv_fields)
  show "ls_id ls' = l'"
    using wf_leasesD(1) [OF wf ls(1)] ls(2) by (simp add: kv_fields)
  show "map_option e_leaseID (st_entries (fst (kv_del s k)) k') = Some l'"
    if "k' \<in> ls_keys ls'" for k'
    using that wf_leasesD(2,3) [OF wf ls(1)] ls(2) by (auto simp: kv_fields split: if_splits)
next
  fix ls'
  assume "st_leases (fst (kv_del s k)) [] = Some ls'"
  then show "ls_keys ls' = {}"
    using wf_leasesD(2) [OF wf] by (auto simp: kv_fields)
qed

lemma wf_leases_lease [kv_inv]:
  "wf_leases s \<Longrightarrow> wf_leases (addLease s l t x)"
  "wf_leases s \<Longrightarrow> wf_leases (fst (removeLease it s l))"
  by (auto simp: wf_leases_def kv_fields)

lemma lease_complete_set [kv_inv]: "lease_complete s \<Longrightarrow> lease_complete (fst (kv_set s k v l))"
  by (auto simp: lease_complete_def kv_fields split: if_splits)

lemma lease_complete_del [kv_inv]: "lease_complete s \<Longrightarrow> lease_complete (fst (kv_del s k))"
  by (auto simp: lease_complete_def kv_fields split: if_splits)

lemma lease_complete_lease [kv_inv]:
  "lease_complete s \<Longrightarrow> (\<forall>k e. st_entries s k = Some e \<longrightarrow> e_leaseID e \<noteq> l) \<Longrightarrow>
     lease_complete (addLease s l t x)"
  "lease_complete s \<Longrightarrow> lease_complete (fst (removeLease it s l))"
  by (auto simp: lease_complete_def kv_fields split: if_splits)

text \<open>The keys of a lease are finitely many, so \<^verbatim>\<open>range\<close> visits each of them.\<close>

lemma lease_keys_finite:
  assumes "wf_entries s" "wf_leases s" "st_leases s l = Some ls"
  shows "finite (ls_keys ls)"
proof -
  have "ls_keys ls \<subseteq> dom (st_entries s)"
    using assms(2,3) by (fastforce simp: wf_leases_def)
  then show ?thesis
    using assms(1) by (auto simp: wf_entries_def dest: finite_subset)
qed

section \<open>Publication\<close>

text \<open>
  The publication invariant: the references of the last published snapshot are
  allocated, its shards hold only keys that hash to them, and every key that is not
  dirty reads from it as it does from the mutable state.
\<close>

definition shards_ok :: "(string \<Rightarrow> u64) \<Rightarrow> shard_heap \<Rightarrow> (nat \<Rightarrow> shard_ref option) \<Rightarrow> bool" where
  "shards_ok xxh h shards \<longleftrightarrow> (\<forall>i r. shards i = Some r \<longrightarrow> r < h_next h \<and>
     finite (dom (h_maps h r)) \<and> (\<forall>k \<in> dom (h_maps h r). snapshotShard xxh k = i))"

lemma shards_okD:
  assumes "shards_ok xxh h shards" and "shards i = Some r"
  shows "r < h_next h" and "finite (dom (h_maps h r))"
    and "k \<in> dom (h_maps h r) \<Longrightarrow> snapshotShard xxh k = i"
  using assms unfolding shards_ok_def by blast+

definition shards_get :: "(string \<Rightarrow> u64) \<Rightarrow> shard_heap \<Rightarrow> (nat \<Rightarrow> shard_ref option) \<Rightarrow> string \<Rightarrow> Entry option" where
  "shards_get xxh h shards key =
     (case shards (snapshotShard xxh key) of None \<Rightarrow> None | Some r \<Rightarrow> h_maps h r key)"

lemma sn_get_shards: "sn_get xxh h snap = shards_get xxh h (sn_shards snap)"
  by (simp add: sn_get_def shards_get_def fun_eq_iff)

definition pub_inv :: "(string \<Rightarrow> u64) \<Rightarrow> shard_heap \<Rightarrow> state \<Rightarrow> bool" where
  "pub_inv xxh h s \<longleftrightarrow> (case st_published s of None \<Rightarrow> True | Some p \<Rightarrow>
     shards_ok xxh h (sn_shards p) \<and>
     (\<forall>k. k \<notin> st_dirty s \<longrightarrow> sn_get xxh h p k = map_option to_Entry (st_entries s k)))"

lemma pub_inv_set [kv_inv]: "pub_inv xxh h s \<Longrightarrow> pub_inv xxh h (fst (kv_set s k v l))"
  by (auto simp: pub_inv_def kv_fields split: option.splits)

lemma pub_inv_del [kv_inv]: "pub_inv xxh h s \<Longrightarrow> pub_inv xxh h (fst (kv_del s k))"
  by (auto simp: pub_inv_def kv_fields split: option.splits if_splits)

lemma pub_inv_lease [kv_inv]:
  "pub_inv xxh h s \<Longrightarrow> pub_inv xxh h (addLease s l t x)"
  "pub_inv xxh h s \<Longrightarrow> pub_inv xxh h (fst (removeLease it s l))"
  by (auto simp: pub_inv_def kv_fields split: option.splits)

text \<open>
  The loop invariant of a publication that started from \<open>h0\<close> and \<open>shards0\<close> and has
  handled the keys \<open>P\<close>: nothing allocated before has changed, a cloned shard is a fresh
  map that no other shard refers to, and exactly the keys of \<open>P\<close> read as the entries do.
\<close>

definition pub_loop_inv ::
  "(string \<Rightarrow> u64) \<Rightarrow> shard_heap \<Rightarrow> (nat \<Rightarrow> shard_ref option) \<Rightarrow> (string \<rightharpoonup> entry) \<Rightarrow> string set
     \<Rightarrow> pub_loop \<Rightarrow> bool" where
  "pub_loop_inv xxh h0 shards0 entries P = (\<lambda>(h, shards, cloned).
     h_next h0 \<le> h_next h \<and> (\<forall>r < h_next h0. h_maps h r = h_maps h0 r) \<and>
     shards_ok xxh h shards \<and>
     (\<forall>i. cloned i \<longrightarrow> (\<exists>r. shards i = Some r \<and> h_next h0 \<le> r \<and> (\<forall>j. j \<noteq> i \<longrightarrow> shards j \<noteq> Some r))) \<and>
     (\<forall>k. shards_get xxh h shards k =
        (if k \<in> P then map_option to_Entry (entries k) else shards_get xxh h0 shards0 k)))"

lemma pub_loop_invD:
  assumes "pub_loop_inv xxh h0 shards0 entries P (h, shards, cloned)"
  shows "h_next h0 \<le> h_next h" "r < h_next h0 \<Longrightarrow> h_maps h r = h_maps h0 r"
    "shards_ok xxh h shards"
    "cloned i \<Longrightarrow> \<exists>r. shards i = Some r \<and> h_next h0 \<le> r \<and> (\<forall>j. j \<noteq> i \<longrightarrow> shards j \<noteq> Some r)"
    "shards_get xxh h shards k =
       (if k \<in> P then map_option to_Entry (entries k) else shards_get xxh h0 shards0 k)"
  using assms by (simp_all add: pub_loop_inv_def)

lemma pub_loop_invI:
  assumes "h_next h0 \<le> h_next h" "\<And>r. r < h_next h0 \<Longrightarrow> h_maps h r = h_maps h0 r"
    "shards_ok xxh h shards"
    "\<And>i. cloned i \<Longrightarrow> \<exists>r. shards i = Some r \<and> h_next h0 \<le> r \<and> (\<forall>j. j \<noteq> i \<longrightarrow> shards j \<noteq> Some r)"
    "\<And>k. shards_get xxh h shards k =
       (if k \<in> P then map_option to_Entry (entries k) else shards_get xxh h0 shards0 k)"
  shows "pub_loop_inv xxh h0 shards0 entries P (h, shards, cloned)"
  using assms by (simp add: pub_loop_inv_def)

lemma cloneShard_inv:
  assumes "pub_loop_inv xxh h0 shards0 entries P (h, shards, cloned)"
  shows "pub_loop_inv xxh h0 shards0 entries P (cloneShard i (h, shards, cloned))"
proof (cases "cloned i")
  case True
  with assms show ?thesis by (simp add: cloneShard_def)
next
  case False
  define m where "m = (case shards i of None \<Rightarrow> Map.empty | Some r \<Rightarrow> h_maps h r)"
  define h' where "h' = h\<lparr>h_maps := (h_maps h)(h_next h := m), h_next := Suc (h_next h)\<rparr>"
  have cl: "cloneShard i (h, shards, cloned) = (h', shards(i := Some (h_next h)), cloned(i := True))"
    using False by (simp add: cloneShard_def h_alloc_def Let_def m_def h'_def)
  note ok = pub_loop_invD(3) [OF assms] and le = pub_loop_invD(1) [OF assms]
  note old = pub_loop_invD(2) [OF assms] and cld = pub_loop_invD(4) [OF assms]
  have lt: "r < h_next h" if "shards j = Some r" for j r
    using ok that by (auto simp: shards_ok_def)
  have get: "shards_get xxh h' (shards(i := Some (h_next h))) k = shards_get xxh h shards k" for k
  proof (cases "snapshotShard xxh k = i")
    case True
    then show ?thesis by (simp add: shards_get_def h'_def m_def split: option.split)
  next
    case False
    with lt [of "snapshotShard xxh k"] show ?thesis
      by (auto simp: shards_get_def h'_def split: option.split)
  qed
  have "shards_ok xxh h' (shards(i := Some (h_next h)))"
    using ok by (auto simp: shards_ok_def h'_def m_def less_Suc_eq split: option.splits)
  moreover have "\<exists>r. (shards(i := Some (h_next h))) j = Some r \<and> h_next h0 \<le> r \<and>
      (\<forall>j'. j' \<noteq> j \<longrightarrow> (shards(i := Some (h_next h))) j' \<noteq> Some r)" if "(cloned(i := True)) j" for j
  proof (cases "j = i")
    case True
    with le lt show ?thesis by fastforce
  next
    case False
    with that cld obtain r where "shards j = Some r" "h_next h0 \<le> r" "\<forall>j'. j' \<noteq> j \<longrightarrow> shards j' \<noteq> Some r"
      by auto
    with False lt [of j r] show ?thesis by auto
  qed
  ultimately show ?thesis
    unfolding cl using le old get pub_loop_invD(5) [OF assms]
    by (intro pub_loop_invI) (simp_all add: h'_def)
qed

lemma cloneShard_cloned:
  "\<exists>h' shards' cloned'. cloneShard i (h, shards, cloned) = (h', shards', cloned') \<and> cloned' i"
  by (simp add: cloneShard_def h_alloc_def Let_def)

lemma publishKey_inv:
  assumes inv: "pub_loop_inv xxh h0 shards0 entries P st"
  shows "pub_loop_inv xxh h0 shards0 entries (insert key P) (publishKey xxh entries key st)"
proof -
  let ?i = "snapshotShard xxh key"
  obtain a b c where st: "st = (a, b, c)"
    by (cases st)
  obtain h shards cloned where cl: "cloneShard ?i st = (h, shards, cloned)" and c: "cloned ?i"
    using cloneShard_cloned [of ?i a b c] st by blast
  have i: "pub_loop_inv xxh h0 shards0 entries P (h, shards, cloned)"
    using cloneShard_inv [of xxh h0 shards0 entries P a b c ?i] inv cl st by simp
  then obtain r where r: "shards ?i = Some r" "h_next h0 \<le> r" "\<forall>j. j \<noteq> ?i \<longrightarrow> shards j \<noteq> Some r"
    using pub_loop_invD(4) [of _ _ _ _ _ h shards cloned ?i] c by blast
  define h' where "h' = h_write h r key (map_option to_Entry (entries key))"
  have pk: "publishKey xxh entries key st = (h', shards, cloned)"
    by (simp add: publishKey_def cl r h'_def)
  note ok = pub_loop_invD(3) [OF i]
  have uniq: "j = ?i" if "shards j = Some r" for j
    using r(3) that by blast
  have "shards_ok xxh h' shards"
    using ok r by (auto simp: shards_ok_def h'_def h_write_def split: if_splits dest: uniq)
  moreover have "shards_get xxh h' shards k =
      (if k = key then map_option to_Entry (entries key) else shards_get xxh h shards k)" for k
    using r by (auto simp: shards_get_def h'_def h_write_def split: option.splits)
  ultimately show ?thesis
    unfolding pk using pub_loop_invD [OF i] r(2)
    by (intro pub_loop_invI) (simp_all add: h'_def h_write_def)
qed

lemma fold_publishKey_inv:
  assumes "pub_loop_inv xxh h0 shards0 entries P st"
  shows "pub_loop_inv xxh h0 shards0 entries (P \<union> set ks) (fold (publishKey xxh entries) ks st)"
  using assms
proof (induction ks arbitrary: P st)
  case Nil
  then show ?case by simp
next
  case (Cons k ks)
  from publishKey_inv [OF Cons.prems, of k] show ?case
    using Cons.IH [of "insert k P" "publishKey xxh entries k st"] by simp
qed

lemma kv_snapshot_spec:
  assumes it: "map_order it" and wf: "wf_entries s" and inv: "pub_inv xxh h s"
    and snap: "kv_snapshot xxh it h s = (h', s', snap)"
  shows "sn_get xxh h' snap = (\<lambda>k. map_option to_Entry (st_entries s k))"
    and "h_next h \<le> h_next h'" and "\<And>r. r < h_next h \<Longrightarrow> h_maps h' r = h_maps h r"
    and "shards_ok xxh h' (sn_shards snap)"
    and "s' = s\<lparr>st_dirty := {}, st_published := Some snap\<rparr>"
    and "sn_version snap = st_revision s" and "sn_index snap = st_applyIndex s"
proof -
  define shards0 where "shards0 = (case st_published s of Some p \<Rightarrow> sn_shards p | None \<Rightarrow> \<lambda>_. None)"
  define dirty where
    "dirty = (case st_published s of Some p \<Rightarrow> st_dirty s | None \<Rightarrow> st_dirty s \<union> dom (st_entries s))"
  have "finite dirty"
    using wf by (simp add: dirty_def wf_entries_def split: option.split)
  then have d: "set (it dirty) = dirty"
    using it by (rule map_order_set [rotated])
  obtain cloned where f: "fold (publishKey xxh (st_entries s)) (it dirty) (h, shards0, \<lambda>_. False) =
      (h', sn_shards snap, cloned)"
    and rest: "s' = s\<lparr>st_dirty := {}, st_published := Some snap\<rparr>"
      "sn_version snap = st_revision s" "sn_index snap = st_applyIndex s"
    using snap by (auto simp: kv_snapshot_def Let_def shards0_def dirty_def split: option.splits prod.splits)
  have ok0: "shards_ok xxh h shards0"
    using inv by (auto simp: shards0_def pub_inv_def shards_ok_def split: option.splits)
  then have "pub_loop_inv xxh h shards0 (st_entries s) {} (h, shards0, \<lambda>_. False)"
    by (intro pub_loop_invI) simp_all
  from fold_publishKey_inv [OF this, of "it dirty"]
  have l: "pub_loop_inv xxh h shards0 (st_entries s) dirty (h', sn_shards snap, cloned)"
    by (simp add: f d)
  have clean: "shards_get xxh h shards0 k = map_option to_Entry (st_entries s k)" if "k \<notin> dirty" for k
  proof (cases "st_published s")
    case None
    with that show ?thesis by (auto simp: shards0_def dirty_def shards_get_def)
  next
    case (Some p)
    with inv that show ?thesis by (simp add: pub_inv_def sn_get_shards shards0_def dirty_def)
  qed
  show "sn_get xxh h' snap = (\<lambda>k. map_option to_Entry (st_entries s k))"
    using pub_loop_invD(5) [OF l] clean by (simp add: sn_get_shards fun_eq_iff)
  show "h_next h \<le> h_next h'" "\<And>r. r < h_next h \<Longrightarrow> h_maps h' r = h_maps h r"
    "shards_ok xxh h' (sn_shards snap)"
    using pub_loop_invD(1-3) [OF l] by simp_all
  show "s' = s\<lparr>st_dirty := {}, st_published := Some snap\<rparr>" "sn_version snap = st_revision s"
    "sn_index snap = st_applyIndex s"
    using rest by simp_all
qed

lemma pub_inv_snapshot:
  assumes "map_order it" "wf_entries s" "pub_inv xxh h s" "kv_snapshot xxh it h s = (h', s', snap)"
  shows "pub_inv xxh h' s'"
  using kv_snapshot_spec [OF assms] by (simp add: pub_inv_def)

lemma sn_get_older:
  assumes "\<And>r. r < h_next h \<Longrightarrow> h_maps h' r = h_maps h r" and "shards_ok xxh h (sn_shards old)"
  shows "sn_get xxh h' old k = sn_get xxh h old k"
  using assms(1) shards_okD(1) [OF assms(2)] by (simp add: sn_get_def split: option.split)

lemma pub_inv_newState [kv_inv]: "pub_inv xxh h newState"
  by (simp add: pub_inv_def newState_def)

text \<open>
  C4: publication is complete and isolated. The snapshot that \<^verbatim>\<open>snapshot()\<close> publishes
  reads, at every key, exactly as the mutable state does, although only the shards of
  dirty keys are rebuilt; and every snapshot taken before reads as it always did, although
  the unchanged shards are shared with it.
\<close>

theorem kv_snapshot_publishes:
  assumes "map_order it" and "wf_entries s" and "pub_inv xxh h s"
    and "kv_snapshot xxh it h s = (h', s', snap)"
    and "shards_ok xxh h (sn_shards old)"
  shows "sn_get xxh h' snap k = map_option to_Entry (st_entries s k) \<and>
     sn_get xxh h' old k = sn_get xxh h old k"
  using kv_snapshot_spec(1) [OF assms(1-4)] sn_get_older [OF kv_snapshot_spec(3) [OF assms(1-4)] assms(5)]
  by simp

theorem kv_snapshot_publishes_witness:
  "\<exists>h1 s1 snap1 h2 s2 snap2.
     kv_snapshot (\<lambda>_. 5) sorted_list_of_set \<lparr>h_maps = \<lambda>_. Map.empty, h_next = 0\<rparr>
       (fst (kv_set newState ''a'' [1] [])) = (h1, s1, snap1) \<and>
     kv_snapshot (\<lambda>_. 5) sorted_list_of_set h1 (fst (kv_set s1 ''a'' [2] [])) = (h2, s2, snap2) \<and>
     map_option E_Value (sn_get (\<lambda>_. 5) h2 snap2 ''a'') = Some [2] \<and>
     map_option E_Value (sn_get (\<lambda>_. 5) h2 snap1 ''a'') = Some [1]"
proof -
  let ?s0 = "fst (kv_set newState ''a'' [1] [])"
  let ?h0 = "\<lparr>h_maps = \<lambda>_. Map.empty, h_next = 0\<rparr>"
  obtain h1 s1 snap1 where e1: "kv_snapshot (\<lambda>_. 5) sorted_list_of_set ?h0 ?s0 = (h1, s1, snap1)"
    by (rule prod_cases3)
  note spec = kv_snapshot_spec [OF map_order_sorted wf_entries_set [OF newState_inv(1)]
      pub_inv_set [OF pub_inv_newState] e1]
  let ?s1 = "fst (kv_set s1 ''a'' [2] [])"
  have "wf_entries ?s1"
    using wf_entries_set [OF newState_inv(1), of "''a''" "[1]" "[]"] spec(5)
    by (intro wf_entries_set) (simp add: wf_entries_def)
  moreover have "pub_inv (\<lambda>_. 5) h1 ?s1"
    using spec by (intro pub_inv_set) (simp add: pub_inv_def)
  moreover obtain h2 s2 snap2 where
    e2: "kv_snapshot (\<lambda>_. 5) sorted_list_of_set h1 ?s1 = (h2, s2, snap2)"
    by (rule prod_cases3)
  ultimately have "sn_get (\<lambda>_. 5) h2 snap2 ''a'' = map_option to_Entry (st_entries ?s1 ''a'') \<and>
      sn_get (\<lambda>_. 5) h2 snap1 ''a'' = sn_get (\<lambda>_. 5) h1 snap1 ''a''"
    by (intro kv_snapshot_publishes [OF map_order_sorted _ _ e2 spec(4)])
  then show ?thesis
    using e1 e2 spec(1) by (simp add: kv_fields to_Entry_def)
qed

end
