(* ===== verification/Go_Heap.thy ===== *)
theory Go_Heap
  imports Prelude
begin

text \<open>
  The heap algorithms of Go's standard package \<^verbatim>\<open>container/heap\<close>, over any state that
  offers its \<^verbatim>\<open>Less\<close> and \<^verbatim>\<open>Swap\<close>: sifting up, sifting down and repairing one position.
  The locale states what the package asks of a client and proves once that the
  algorithms restore the heap order; clients interpret it on their own methods.
\<close>

section \<open>Sifting\<close>

text \<open>
  \<^verbatim>\<open>up\<close>: for the root Go computes \<open>(0 - 1) / 2 = 0\<close>, which is the natural-number
  parent as well.
\<close>

function heap_up ::
  "('s \<Rightarrow> nat \<Rightarrow> nat \<Rightarrow> bool) \<Rightarrow> ('s \<Rightarrow> nat \<Rightarrow> nat \<Rightarrow> 's) \<Rightarrow> 's \<Rightarrow> nat \<Rightarrow> 's" where
  "heap_up lt sw s j =
     (let i = (j - 1) div 2
      in if i = j \<or> \<not> lt s j i then s else heap_up lt sw (sw s i j) i)"
  by pat_completeness auto
termination
  by (relation "measure (\<lambda>(_, _, _, j). j)") auto

text \<open>\<^verbatim>\<open>down\<close> also returns whether the element moved.\<close>

function heap_down_loop ::
  "('s \<Rightarrow> nat \<Rightarrow> nat \<Rightarrow> bool) \<Rightarrow> ('s \<Rightarrow> nat \<Rightarrow> nat \<Rightarrow> 's) \<Rightarrow> 's \<Rightarrow> nat \<Rightarrow> nat \<Rightarrow> 's \<times> nat" where
  "heap_down_loop lt sw s i n =
     (let j1 = 2 * i + 1
      in if j1 \<ge> n then (s, i)
         else
           let j2 = j1 + 1; j = (if j2 < n \<and> lt s j2 j1 then j2 else j1)
           in if \<not> lt s j i then (s, i)
              else heap_down_loop lt sw (sw s i j) j n)"
  by pat_completeness auto
termination
  by (relation "measure (\<lambda>(_, _, _, i, n). n - i)") (auto simp: Let_def)

definition heap_down ::
  "('s \<Rightarrow> nat \<Rightarrow> nat \<Rightarrow> bool) \<Rightarrow> ('s \<Rightarrow> nat \<Rightarrow> nat \<Rightarrow> 's) \<Rightarrow> 's \<Rightarrow> nat \<Rightarrow> nat \<Rightarrow> 's \<times> bool" where
  "heap_down lt sw s i0 n =
     (let (s, i) = heap_down_loop lt sw s i0 n in (s, i > i0))"

text \<open>
  The common part of \<^verbatim>\<open>Fix\<close> and \<^verbatim>\<open>Remove\<close>: sift down within the first \<open>n\<close> positions,
  and up where that did not move the element.
\<close>

definition heap_fix ::
  "('s \<Rightarrow> nat \<Rightarrow> nat \<Rightarrow> bool) \<Rightarrow> ('s \<Rightarrow> nat \<Rightarrow> nat \<Rightarrow> 's) \<Rightarrow> 's \<Rightarrow> nat \<Rightarrow> nat \<Rightarrow> 's" where
  "heap_fix lt sw s i n =
     (let (s, moved) = heap_down lt sw s i n
      in if \<not> moved then heap_up lt sw s i else s)"

declare heap_up.simps [simp del] heap_down_loop.simps [simp del]

section \<open>Heap order on an array of keys\<close>

abbreviation parent :: "nat \<Rightarrow> nat" where
  "parent c \<equiv> (c - 1) div 2"

definition is_heap :: "nat \<Rightarrow> (nat \<Rightarrow> 'k::linorder) \<Rightarrow> bool" where
  "is_heap n k \<longleftrightarrow> (\<forall>c. 0 < c \<longrightarrow> c < n \<longrightarrow> k (parent c) \<le> k c)"

text \<open>Heap order everywhere but around position \<open>i\<close>, whose key may be anything.\<close>

definition almost_heap :: "nat \<Rightarrow> (nat \<Rightarrow> 'k::linorder) \<Rightarrow> nat \<Rightarrow> bool" where
  "almost_heap n k i \<longleftrightarrow>
     (\<forall>c. 0 < c \<longrightarrow> c < n \<longrightarrow> c \<noteq> i \<longrightarrow> parent c \<noteq> i \<longrightarrow> k (parent c) \<le> k c) \<and>
     (0 < i \<longrightarrow> (\<forall>c. 0 < c \<longrightarrow> c < n \<longrightarrow> parent c = i \<longrightarrow> k (parent i) \<le> k c))"

definition kids_ok :: "nat \<Rightarrow> (nat \<Rightarrow> 'k::linorder) \<Rightarrow> nat \<Rightarrow> bool" where
  "kids_ok n k i \<longleftrightarrow> (\<forall>c. 0 < c \<longrightarrow> c < n \<longrightarrow> parent c = i \<longrightarrow> k i \<le> k c)"

lemma is_heap_almost: "is_heap n k \<Longrightarrow> almost_heap n (k(i := x)) i"
proof -
  assume h: "is_heap n k"
  have "k (parent i) \<le> k c" if "0 < i" "0 < c" "c < n" "parent c = i" for c
  proof -
    have "i < c" using that by auto
    then have "k (parent i) \<le> k i" "k i \<le> k c"
      using h that by (auto simp: is_heap_def)
    then show ?thesis by simp
  qed
  moreover have "parent i \<noteq> i" if "0 < i" using that by auto
  ultimately show ?thesis
    using h by (auto simp: almost_heap_def is_heap_def)
qed

lemma almost_heap_done:
  "almost_heap n k i \<Longrightarrow> kids_ok n k i \<Longrightarrow> (0 < i \<Longrightarrow> i < n \<Longrightarrow> k (parent i) \<le> k i) \<Longrightarrow> is_heap n k"
  unfolding almost_heap_def kids_ok_def is_heap_def by metis

lemma is_heap_min:
  assumes "is_heap n k" and "i < n"
  shows "k 0 \<le> k i"
  using assms(2)
proof (induction i rule: less_induct)
  case (less i)
  show ?case
  proof (cases "i = 0")
    case True
    then show ?thesis by simp
  next
    case False
    then have "parent i < i" by auto
    with less have "k 0 \<le> k (parent i)" by simp
    also have "\<dots> \<le> k i"
      using assms(1) less.prems False by (simp add: is_heap_def)
    finally show ?thesis .
  qed
qed

lemma is_heap_prefix: "is_heap n k \<Longrightarrow> m \<le> n \<Longrightarrow> is_heap m k"
  by (simp add: is_heap_def)

lemma is_heap_cong: "(\<And>i. i < n \<Longrightarrow> f i = g i) \<Longrightarrow> is_heap n f = is_heap n g"
proof -
  assume eq: "\<And>i. i < n \<Longrightarrow> f i = g i"
  have "parent c < n" if "c < n" for c :: nat
    using that by linarith
  with eq show ?thesis by (auto simp: is_heap_def)
qed

lemma almost_heap_cong:
  assumes eq: "\<And>c. c < n \<Longrightarrow> f c = g c" and i: "i < n"
  shows "almost_heap n f i = almost_heap n g i"
proof -
  have "parent c < n" if "c < n" for c :: nat
    using that by linarith
  with eq i show ?thesis by (auto simp: almost_heap_def)
qed

lemma swap_up_step:
  assumes al: "almost_heap n k j" and kids: "kids_ok n k j" and j: "0 < j" "j < n"
    and less: "k j < k (parent j)"
  defines "k' \<equiv> k(parent j := k j, j := k (parent j))"
  shows "almost_heap n k' (parent j) \<and> kids_ok n k' (parent j)"
proof -
  let ?i = "parent j"
  have ij: "?i < j" "?i \<noteq> j" using j by auto
  have edge: "k (parent c) \<le> k c" if "0 < c" "c < n" "c \<noteq> j" "parent c \<noteq> j" for c
    using al that by (auto simp: almost_heap_def)
  have grand: "k ?i \<le> k c" if "0 < c" "c < n" "parent c = j" for c
    using al that j by (auto simp: almost_heap_def)
  have up: "k (parent ?i) \<le> k ?i" if "0 < ?i"
  proof -
    have "parent ?i < ?i" using that by auto
    then show ?thesis using that ij j by (intro edge) auto
  qed
  have "k' (parent c) \<le> k' c" if "0 < c" "c < n" "c \<noteq> ?i" "parent c \<noteq> ?i" for c
    using that edge [of c] grand [of c] by (auto simp: k'_def)
  moreover have "k' (parent ?i) \<le> k' c" if "0 < ?i" "0 < c" "c < n" "parent c = ?i" for c
  proof -
    have p: "parent ?i < ?i" using that(1) by auto
    have "k (parent ?i) \<le> k c" if "c \<noteq> j"
      using that \<open>0 < c\<close> \<open>c < n\<close> \<open>parent c = ?i\<close> edge [of c] up [OF \<open>0 < ?i\<close>] ij by auto
    then show ?thesis
      using p ij up [OF \<open>0 < ?i\<close>] that by (auto simp: k'_def)
  qed
  moreover have "k' ?i \<le> k' c" if "0 < c" "c < n" "parent c = ?i" for c
    using that edge [of c] less ij by (auto simp: k'_def)
  ultimately show ?thesis
    by (auto simp: almost_heap_def kids_ok_def)
qed

lemma swap_down_step:
  assumes al: "almost_heap n k i" and j: "0 < j" "j < n" "parent j = i"
    and least: "\<And>c. 0 < c \<Longrightarrow> c < n \<Longrightarrow> parent c = i \<Longrightarrow> k j \<le> k c" and less: "k j < k i"
  defines "k' \<equiv> k(i := k j, j := k i)"
  shows "almost_heap n k' j \<and> k' i \<le> k' j \<and> (0 < i \<longrightarrow> k' (parent i) \<le> k' i)"
proof -
  have ij: "i < j" "i \<noteq> j" using j by auto
  have edge: "k (parent c) \<le> k c" if "0 < c" "c < n" "c \<noteq> i" "parent c \<noteq> i" for c
    using al that by (auto simp: almost_heap_def)
  have top: "k (parent i) \<le> k c" if "0 < i" "0 < c" "c < n" "parent c = i" for c
    using al that by (auto simp: almost_heap_def)
  have pi: "parent i < i" if "0 < i" using that by auto
  have "k' (parent c) \<le> k' c" if "0 < c" "c < n" "c \<noteq> j" "parent c \<noteq> j" for c
    using that edge [of c] top [of j] least [of c] j pi ij by (auto simp: k'_def)
  moreover have "k' i \<le> k' c" if "0 < c" "c < n" "parent c = j" for c
  proof -
    have "c \<noteq> i" using that ij by auto
    then show ?thesis using that edge [of c] ij by (auto simp: k'_def)
  qed
  moreover have "k' (parent i) \<le> k' i" if "0 < i"
    using top [OF that j] pi [OF that] ij by (simp add: k'_def)
  ultimately show ?thesis
    using j less ij by (auto simp: almost_heap_def k'_def)
qed

section \<open>What sifting preserves\<close>

text \<open>Within the first \<open>n\<close> positions sifting only swaps, so it keeps whatever swaps keep.\<close>

lemma heap_up_pres:
  assumes sw: "\<And>s i j. P s \<Longrightarrow> i < n \<Longrightarrow> j < n \<Longrightarrow> i \<noteq> j \<Longrightarrow> P (sw s i j)"
    and "P s" and "j < n"
  shows "P (heap_up lt sw s j)"
  using assms(2,3)
proof (induction j arbitrary: s rule: less_induct)
  case (less j)
  show ?case
  proof (cases "parent j = j \<or> \<not> lt s j (parent j)")
    case True
    with less.prems show ?thesis by (subst heap_up.simps) simp
  next
    case False
    then have ij: "parent j < j" "parent j < n" using less.prems by auto
    with less.prems have "P (sw s (parent j) j)" by (auto intro: sw)
    with less.IH [OF ij(1)] ij False show ?thesis
      by (subst heap_up.simps) (simp add: Let_def)
  qed
qed

lemma heap_down_loop_pres:
  assumes sw: "\<And>s i j. P s \<Longrightarrow> i < n \<Longrightarrow> j < n \<Longrightarrow> i \<noteq> j \<Longrightarrow> P (sw s i j)"
    and "P s" and "i < n"
  shows "P (fst (heap_down_loop lt sw s i n))"
  using assms(2,3)
proof (induction "n - i" arbitrary: s i rule: less_induct)
  case less
  let ?j = "if 2 * i + 2 < n \<and> lt s (2 * i + 2) (2 * i + 1) then 2 * i + 2 else 2 * i + 1"
  show ?case
  proof (cases "2 * i + 1 < n \<and> lt s ?j i")
    case False
    with less.prems show ?thesis
      by (subst heap_down_loop.simps) (auto simp: Let_def)
  next
    case True
    then have j: "?j < n" "i < ?j" by auto
    then have "P (sw s i ?j)" using less.prems by (auto intro!: sw)
    then have "P (fst (heap_down_loop lt sw (sw s i ?j) ?j n))"
      using less.hyps [of ?j "sw s i ?j"] less.prems j by auto
    with True show ?thesis
      by (subst heap_down_loop.simps) (auto simp: Let_def)
  qed
qed

lemma heap_down_pres:
  assumes "\<And>s i j. P s \<Longrightarrow> i < n \<Longrightarrow> j < n \<Longrightarrow> i \<noteq> j \<Longrightarrow> P (sw s i j)" and "P s" and "i < n"
  shows "P (fst (heap_down lt sw s i n))"
  using heap_down_loop_pres [of P n sw, OF assms] by (simp add: heap_down_def split_def Let_def)

lemma heap_fix_pres:
  assumes sw: "\<And>s i j. P s \<Longrightarrow> i < n \<Longrightarrow> j < n \<Longrightarrow> i \<noteq> j \<Longrightarrow> P (sw s i j)" and "P s" and "i < n"
  shows "P (heap_fix lt sw s i n)"
proof -
  have "P (fst (heap_down lt sw s i n))"
    by (rule heap_down_pres [of P n sw, OF assms])
  with heap_up_pres [of P n sw, OF sw _ assms(3)] show ?thesis
    by (simp add: heap_fix_def split_def Let_def)
qed

section \<open>The interface and its contract\<close>

text \<open>
  A client has a length, compares two positions by their keys and swaps them.
\<close>

locale heap_client =
  fixes len :: "'s \<Rightarrow> nat"
    and key :: "'s \<Rightarrow> nat \<Rightarrow> 'k::linorder"
    and lt :: "'s \<Rightarrow> nat \<Rightarrow> nat \<Rightarrow> bool"
    and sw :: "'s \<Rightarrow> nat \<Rightarrow> nat \<Rightarrow> 's"
  assumes lt_key: "i < len s \<Longrightarrow> j < len s \<Longrightarrow> lt s i j \<longleftrightarrow> key s i < key s j"
    and key_sw: "i < len s \<Longrightarrow> j < len s \<Longrightarrow> i \<noteq> j \<Longrightarrow>
      key (sw s i j) = (key s)(i := key s j, j := key s i)"
    and len_sw: "i < len s \<Longrightarrow> j < len s \<Longrightarrow> len (sw s i j) = len s"
begin

lemma up_heap:
  "almost_heap n (key s) j \<Longrightarrow> kids_ok n (key s) j \<Longrightarrow> j < n \<Longrightarrow> n \<le> len s \<Longrightarrow>
     is_heap n (key (heap_up lt sw s j))"
proof (induction j arbitrary: s rule: less_induct)
  case (less j)
  show ?case
  proof (cases "parent j = j \<or> \<not> lt s j (parent j)")
    case True
    have "is_heap n (key s)"
      using less.prems True lt_key [of j s "parent j"]
      by (intro almost_heap_done [of n "key s" j]) auto
    with True show ?thesis by (subst heap_up.simps) simp
  next
    case False
    then have ij: "parent j < j" "0 < j" "parent j < len s" "j < len s" using less.prems by auto
    then have "key s j < key s (parent j)"
      using False lt_key by auto
    note st = swap_up_step [OF less.prems(1,2) ij(2) less.prems(3) this]
    have k: "key (sw s (parent j) j) = (key s)(parent j := key s j, j := key s (parent j))"
      using key_sw [OF ij(3,4)] ij(1) by simp
    have "almost_heap n (key (sw s (parent j) j)) (parent j)" "kids_ok n (key (sw s (parent j) j)) (parent j)"
      unfolding k using st by simp_all
    then have "is_heap n (key (heap_up lt sw (sw s (parent j) j) (parent j)))"
      using less.prems ij len_sw [OF ij(3,4)] by (intro less.IH) simp_all
    with False show ?thesis by (subst heap_up.simps) (simp add: Let_def)
  qed
qed

text \<open>The child that \<^verbatim>\<open>down\<close> compares with: the smaller of the two.\<close>

lemma down_child:
  assumes "n \<le> len s" and "2 * i + 1 < n"
  defines "j \<equiv> if 2 * i + 2 < n \<and> lt s (2 * i + 2) (2 * i + 1) then 2 * i + 2 else 2 * i + 1"
  shows "0 < j" "j < n" "parent j = i" "i < j"
    and "\<And>c. 0 < c \<Longrightarrow> c < n \<Longrightarrow> parent c = i \<Longrightarrow> key s j \<le> key s c"
proof -
  show "0 < j" "j < n" "parent j = i" "i < j"
    using assms by auto
  fix c
  assume c: "0 < c" "c < n" "parent c = i"
  then have "c = 2 * i + 1 \<or> c = 2 * i + 2" by auto
  then show "key s j \<le> key s c"
    using c assms lt_key [of "2 * i + 2" s "2 * i + 1"] by (auto simp: j_def)
qed

lemma down_heap:
  assumes "almost_heap n (key s) i" "i < n" "n \<le> len s" "0 < i \<longrightarrow> moved \<longrightarrow> key s (parent i) \<le> key s i"
    and "heap_down_loop lt sw s i n = (s', i')"
  shows "almost_heap n (key s') i' \<and> kids_ok n (key s') i' \<and> i \<le> i' \<and> i' < n \<and>
     (i' = i \<longrightarrow> s' = s) \<and> (0 < i' \<longrightarrow> moved \<or> i < i' \<longrightarrow> key s' (parent i') \<le> key s' i')"
  using assms
proof (induction "n - i" arbitrary: s i moved rule: less_induct)
  case less
  let ?j = "if 2 * i + 2 < n \<and> lt s (2 * i + 2) (2 * i + 1) then 2 * i + 2 else 2 * i + 1"
  show ?case
  proof (cases "2 * i + 1 < n \<and> lt s ?j i")
    case False
    have e: "s' = s" "i' = i"
      using less.prems(5) False by (auto simp: heap_down_loop.simps [of lt sw s i n] Let_def split: if_splits)
    have "kids_ok n (key s) i"
    proof (cases "2 * i + 1 < n")
      case True
      note j = down_child [OF less.prems(3) True]
      have "key s i \<le> key s ?j"
        using False True lt_key [of ?j s i] j(2) less.prems by auto
      then show ?thesis using j(5) by (meson kids_ok_def order_trans)
    next
      case False
      then show ?thesis by (auto simp: kids_ok_def)
    qed
    with less.prems e show ?thesis by auto
  next
    case True
    note j = down_child [OF less.prems(3) conjunct1 [OF True]]
    have jl: "?j < len s" and il: "i < len s" using j(2) less.prems by linarith+
    have "key s ?j < key s i"
      using True lt_key [OF jl il] by simp
    note st = swap_down_step [OF less.prems(1) j(1-3) j(5) this]
    have k: "key (sw s i ?j) = (key s)(i := key s ?j, ?j := key s i)"
      using key_sw [OF il jl] j(4) by auto
    have r: "heap_down_loop lt sw (sw s i ?j) ?j n = (s', i')"
      using less.prems(5) True
      by (auto simp: heap_down_loop.simps [of lt sw s i n] Let_def split: if_splits)
    have al: "almost_heap n (key (sw s i ?j)) ?j"
      unfolding k using st by simp
    have ed: "key (sw s i ?j) (parent ?j) \<le> key (sw s i ?j) ?j"
      unfolding k j(3) using st by simp
    have "almost_heap n (key s') i' \<and> kids_ok n (key s') i' \<and> ?j \<le> i' \<and> i' < n \<and>
     (i' = ?j \<longrightarrow> s' = sw s i ?j) \<and> (0 < i' \<longrightarrow> True \<or> ?j < i' \<longrightarrow> key s' (parent i') \<le> key s' i')"
      using less.prems(3) len_sw [OF il jl] j(2,4) ed
      by (intro less.hyps [OF _ al _ _ _ r]) auto
    with j(4) show ?thesis by auto
  qed
qed

text \<open>
  Repairing position \<open>i\<close> gives a heap whatever key the position holds: this is what
  \<^verbatim>\<open>Fix\<close> promises after an update and \<^verbatim>\<open>Remove\<close> relies on.
\<close>

lemma fix_heap:
  assumes "almost_heap n (key s) i" "i < n" "n \<le> len s"
  shows "is_heap n (key (heap_fix lt sw s i n))"
proof -
  obtain s' i' where d: "heap_down_loop lt sw s i n = (s', i')"
    by (cases "heap_down_loop lt sw s i n")
  from down_heap [OF assms, of False s' i'] d
  have r: "almost_heap n (key s') i'" "kids_ok n (key s') i'" "i \<le> i'" "i' < n" "i' = i \<longrightarrow> s' = s"
    "0 < i' \<longrightarrow> i < i' \<longrightarrow> key s' (parent i') \<le> key s' i'"
    by auto
  show ?thesis
  proof (cases "i < i'")
    case True
    with r have "is_heap n (key s')" by (intro almost_heap_done [of n "key s'" i']) auto
    with True d show ?thesis by (simp add: heap_fix_def heap_down_def)
  next
    case False
    with r have "i' = i" "s' = s" by auto
    with r d assms show ?thesis
      using up_heap [of n s i] by (simp add: heap_fix_def heap_down_def)
  qed
qed

lemma down_root_heap:
  assumes "almost_heap n (key s) 0" "0 < n" "n \<le> len s"
  shows "is_heap n (key (fst (heap_down lt sw s 0 n)))"
proof -
  obtain s' i' where d: "heap_down_loop lt sw s 0 n = (s', i')"
    by (cases "heap_down_loop lt sw s 0 n")
  from down_heap [OF assms, of True s' i'] d
  have "almost_heap n (key s') i'" "kids_ok n (key s') i'" "0 < i' \<longrightarrow> key s' (parent i') \<le> key s' i'"
    by auto
  then have "is_heap n (key s')" by (intro almost_heap_done [of n "key s'" i']) auto
  with d show ?thesis by (simp add: heap_down_def)
qed

end

end
