(* ===== verification/Kv_Lease.thy ===== *)
theory Kv_Lease
  imports Go_Heap "HOL-Library.Multiset"
begin

text \<open>
  The lease timers of the key-value store (\<^verbatim>\<open>system/kv/lease.go\<close>): lease handles, and
  the manager that keeps a min-heap of deadlines.

  A heap entry is one Go object reached from two places, the heap slice and the
  manager's map by lease id, and swapping two heap positions writes the \<open>index\<close> field of
  both objects. So heap entries live in an object store and the slice and the map hold
  references; lease handles, which callers keep and whose \<open>Done\<close> channel they watch, live
  in a store as well. Time is an integer count of nanoseconds.
\<close>

section \<open>Data\<close>

record lease =
  l_id :: string
  l_ttl :: int
  l_done :: bool

record leaseHeapEntry =
  le_expiresAt :: int
  le_id :: string
  le_index :: int

type_synonym ref = nat

record leaseManager =
  lm_objs :: "ref \<Rightarrow> leaseHeapEntry"
  lm_next :: ref
  lm_leases :: "ref \<Rightarrow> lease"
  lm_lnext :: ref
  lm_entries :: "string \<rightharpoonup> ref"
  lm_handles :: "string \<rightharpoonup> ref"
  lm_heap :: "ref list"

definition newLease :: "string \<Rightarrow> int \<Rightarrow> lease" where
  "newLease lid ttl = \<lparr>l_id = lid, l_ttl = ttl, l_done = False\<rparr>"

text \<open>\<^verbatim>\<open>closeOnce\<close> makes closing idempotent.\<close>

definition lease_close :: "lease \<Rightarrow> lease" where
  "lease_close l = l\<lparr>l_done := True\<rparr>"

definition newLeaseManager :: leaseManager where
  "newLeaseManager = \<lparr>lm_objs = \<lambda>_. \<lparr>le_expiresAt = 0, le_id = [], le_index = 0\<rparr>, lm_next = 0,
     lm_leases = \<lambda>_. newLease [] 0, lm_lnext = 0,
     lm_entries = Map.empty, lm_handles = Map.empty, lm_heap = []\<rparr>"

section \<open>The heap methods\<close>

abbreviation lm_at :: "leaseManager \<Rightarrow> nat \<Rightarrow> leaseHeapEntry" where
  "lm_at m i \<equiv> lm_objs m (lm_heap m ! i)"

definition lh_len :: "leaseManager \<Rightarrow> nat" where
  "lh_len m = length (lm_heap m)"

definition lh_less :: "leaseManager \<Rightarrow> nat \<Rightarrow> nat \<Rightarrow> bool" where
  "lh_less m i j = (le_expiresAt (lm_at m i) < le_expiresAt (lm_at m j))"

definition set_index :: "leaseManager \<Rightarrow> ref \<Rightarrow> int \<Rightarrow> leaseManager" where
  "set_index m r x = m\<lparr>lm_objs := (lm_objs m)(r := (lm_objs m r)\<lparr>le_index := x\<rparr>)\<rparr>"

definition lh_swap :: "leaseManager \<Rightarrow> nat \<Rightarrow> nat \<Rightarrow> leaseManager" where
  "lh_swap m i j =
     (let h = lm_heap m;
          m = m\<lparr>lm_heap := h[i := h ! j, j := h ! i]\<rparr>;
          m = set_index m (lm_heap m ! i) (int i)
      in set_index m (lm_heap m ! j) (int j))"

definition lh_push :: "leaseManager \<Rightarrow> ref \<Rightarrow> leaseManager" where
  "lh_push m r =
     (let m = set_index m r (int (length (lm_heap m)))
      in m\<lparr>lm_heap := lm_heap m @ [r]\<rparr>)"

definition lh_pop :: "leaseManager \<Rightarrow> leaseManager \<times> ref" where
  "lh_pop m =
     (let r = last (lm_heap m); m = set_index m r (- 1)
      in (m\<lparr>lm_heap := butlast (lm_heap m)\<rparr>, r))"

text \<open>\<^verbatim>\<open>heap.Push\<close>, \<^verbatim>\<open>heap.Pop\<close>, \<^verbatim>\<open>heap.Remove\<close> and \<^verbatim>\<open>heap.Fix\<close> at these methods.\<close>

definition heap_Push :: "leaseManager \<Rightarrow> ref \<Rightarrow> leaseManager" where
  "heap_Push m r = (let m = lh_push m r in heap_up lh_less lh_swap m (lh_len m - 1))"

definition heap_Pop :: "leaseManager \<Rightarrow> leaseManager \<times> ref" where
  "heap_Pop m =
     (let n = lh_len m - 1;
          m = lh_swap m 0 n;
          (m, _) = heap_down lh_less lh_swap m 0 n
      in lh_pop m)"

definition heap_Remove :: "leaseManager \<Rightarrow> nat \<Rightarrow> leaseManager \<times> ref" where
  "heap_Remove m i =
     (let n = lh_len m - 1;
          m = (if n \<noteq> i then heap_fix lh_less lh_swap (lh_swap m i n) i n else m)
      in lh_pop m)"

definition heap_Fix :: "leaseManager \<Rightarrow> nat \<Rightarrow> leaseManager" where
  "heap_Fix m i = heap_fix lh_less lh_swap m i (lh_len m)"

section \<open>Manager operations\<close>

definition lm_grant :: "leaseManager \<Rightarrow> string \<Rightarrow> int \<Rightarrow> int \<Rightarrow> leaseManager \<times> ref" where
  "lm_grant m lid ttl now =
     (let r = lm_next m;
          m = m\<lparr>lm_objs := (lm_objs m)(r := \<lparr>le_expiresAt = now + ttl, le_id = lid, le_index = 0\<rparr>),
                 lm_next := Suc r\<rparr>;
          m = heap_Push m r;
          m = m\<lparr>lm_entries := (lm_entries m)(lid \<mapsto> r)\<rparr>;
          hr = lm_lnext m;
          m = m\<lparr>lm_leases := (lm_leases m)(hr := newLease lid ttl), lm_lnext := Suc hr\<rparr>
      in (m\<lparr>lm_handles := (lm_handles m)(lid \<mapsto> hr)\<rparr>, hr))"

definition lm_renew :: "leaseManager \<Rightarrow> string \<Rightarrow> int \<Rightarrow> leaseManager \<times> bool" where
  "lm_renew m lid now =
     (case lm_entries m lid of
        None \<Rightarrow> (m, False)
      | Some r \<Rightarrow>
          (case lm_handles m lid of
             None \<Rightarrow> (m, False)
           | Some hr \<Rightarrow>
               let m = m\<lparr>lm_objs := (lm_objs m)
                     (r := (lm_objs m r)\<lparr>le_expiresAt := now + l_ttl (lm_leases m hr)\<rparr>)\<rparr>
               in (heap_Fix m (nat (le_index (lm_objs m r))), True)))"

definition close_handle :: "leaseManager \<Rightarrow> string \<Rightarrow> leaseManager" where
  "close_handle m lid =
     (case lm_handles m lid of
        None \<Rightarrow> m
      | Some hr \<Rightarrow> m\<lparr>lm_leases := (lm_leases m)(hr := lease_close (lm_leases m hr)),
                       lm_handles := (lm_handles m)(lid := None)\<rparr>)"

definition lm_revoke :: "leaseManager \<Rightarrow> string \<Rightarrow> leaseManager \<times> bool" where
  "lm_revoke m lid =
     (case lm_entries m lid of
        None \<Rightarrow> (m, False)
      | Some r \<Rightarrow>
          (let (m, _) = heap_Remove m (nat (le_index (lm_objs m r)));
               m = m\<lparr>lm_entries := (lm_entries m)(lid := None)\<rparr>
           in (close_handle m lid, True)))"

definition lm_nextExpiry :: "leaseManager \<Rightarrow> int option" where
  "lm_nextExpiry m = (if lh_len m = 0 then None else Some (le_expiresAt (lm_at m 0)))"

definition lm_getHandle :: "leaseManager \<Rightarrow> string \<Rightarrow> ref option" where
  "lm_getHandle m lid = lm_handles m lid"

section \<open>The lease heap meets the heap contract\<close>

definition lh_key :: "leaseManager \<Rightarrow> nat \<Rightarrow> int" where
  "lh_key m i = le_expiresAt (lm_at m i)"

text \<open>Every object of the heap knows its position.\<close>

definition idx_ok :: "leaseManager \<Rightarrow> bool" where
  "idx_ok m \<longleftrightarrow> distinct (lm_heap m) \<and> (\<forall>i < length (lm_heap m). le_index (lm_at m i) = int i)"

text \<open>Equal up to the heap slice and the objects' positions in it.\<close>

definition same_leases :: "leaseManager \<Rightarrow> leaseManager \<Rightarrow> bool" where
  "same_leases m0 m \<longleftrightarrow>
     (\<forall>r. le_expiresAt (lm_objs m r) = le_expiresAt (lm_objs m0 r) \<and> le_id (lm_objs m r) = le_id (lm_objs m0 r)) \<and>
     lm_next m = lm_next m0 \<and> lm_leases m = lm_leases m0 \<and> lm_lnext m = lm_lnext m0 \<and>
     lm_entries m = lm_entries m0 \<and> lm_handles m = lm_handles m0"

text \<open>What every sifting within the first \<open>n\<close> positions keeps.\<close>

definition lh_frame :: "nat \<Rightarrow> leaseManager \<Rightarrow> leaseManager \<Rightarrow> bool" where
  "lh_frame n m0 m \<longleftrightarrow> same_leases m0 m \<and> mset (lm_heap m) = mset (lm_heap m0) \<and>
     (idx_ok m0 \<longrightarrow> idx_ok m) \<and> (\<forall>c. n \<le> c \<longrightarrow> lm_heap m ! c = lm_heap m0 ! c)"

lemma same_leases_refl [simp]: "same_leases m m"
  by (simp add: same_leases_def)

lemma same_leases_trans: "same_leases a b \<Longrightarrow> same_leases b c \<Longrightarrow> same_leases a c"
  by (simp add: same_leases_def)

lemma same_leases_set_index [simp]: "same_leases m0 (set_index m r x) = same_leases m0 m"
  by (auto simp: same_leases_def set_index_def)

lemma same_leases_heap [simp]: "same_leases m0 (m\<lparr>lm_heap := h\<rparr>) = same_leases m0 m"
  by (simp add: same_leases_def)

lemma lm_heap_set_index [simp]: "lm_heap (set_index m r x) = lm_heap m"
  by (simp add: set_index_def)

lemma lh_swap_heap [simp]:
  "lm_heap (lh_swap m i j) = (lm_heap m)[i := lm_heap m ! j, j := lm_heap m ! i]"
  by (simp add: lh_swap_def Let_def)

lemma lh_swap_same [simp]: "same_leases m0 (lh_swap m i j) = same_leases m0 m"
  by (simp add: lh_swap_def Let_def)

lemma lh_swap_idx:
  assumes "idx_ok m" "i < length (lm_heap m)" "j < length (lm_heap m)" "i \<noteq> j"
  shows "idx_ok (lh_swap m i j)"
proof -
  have d: "distinct ((lm_heap m)[i := lm_heap m ! j, j := lm_heap m ! i])"
    using assms by (simp add: idx_ok_def distinct_swap)
  have "lm_heap m ! c \<noteq> lm_heap m ! i" "lm_heap m ! c \<noteq> lm_heap m ! j"
    if "c < length (lm_heap m)" "c \<noteq> i" "c \<noteq> j" for c
    using assms that by (simp_all add: idx_ok_def nth_eq_iff_index_eq)
  moreover have "lm_heap m ! i \<noteq> lm_heap m ! j"
    using assms by (simp add: idx_ok_def nth_eq_iff_index_eq)
  ultimately show ?thesis
    using assms d by (auto simp: idx_ok_def lh_swap_def Let_def set_index_def nth_list_update)
qed

interpretation lh: heap_client lh_len lh_key lh_less lh_swap
proof (unfold_locales, goal_cases)
  case (1 i s j)
  then show ?case by (simp add: lh_less_def lh_key_def)
next
  case (2 i s j)
  then have "lh_key (lh_swap s i j) c = ((lh_key s)(i := lh_key s j, j := lh_key s i)) c" for c
    by (simp add: lh_key_def lh_swap_def Let_def set_index_def lh_len_def nth_list_update)
  then show ?case by blast
next
  case (3 i s j)
  then show ?case by (simp add: lh_len_def)
qed

section \<open>What the heap operations do\<close>

definition heap_ok :: "leaseManager \<Rightarrow> bool" where
  "heap_ok m \<longleftrightarrow> idx_ok m \<and> is_heap (lh_len m) (lh_key m)"

lemma lh_frame_refl [simp]: "lh_frame n m m"
  by (simp add: lh_frame_def)

lemma lh_frame_trans: "lh_frame n a b \<Longrightarrow> lh_frame n b c \<Longrightarrow> lh_frame n a c"
  by (auto simp: lh_frame_def intro: same_leases_trans)

lemma lh_frame_mono: "lh_frame n a b \<Longrightarrow> n \<le> n' \<Longrightarrow> lh_frame n' a b"
  by (simp add: lh_frame_def)

lemma lh_frame_len: "lh_frame n m0 m \<Longrightarrow> lh_len m = lh_len m0"
  by (auto simp: lh_frame_def lh_len_def dest: mset_eq_length)

lemma lh_frame_swap:
  assumes "n \<le> lh_len m0" "lh_frame n m0 m" "i < n" "j < n" "i \<noteq> j"
  shows "lh_frame n m0 (lh_swap m i j)"
proof -
  have l: "i < length (lm_heap m)" "j < length (lm_heap m)"
    using assms lh_frame_len [OF assms(2)] by (simp_all add: lh_len_def)
  have "mset ((lm_heap m)[i := lm_heap m ! j, j := lm_heap m ! i]) = mset (lm_heap m)"
    using mset_swap [of j "lm_heap m" i] l by simp
  with assms l lh_swap_idx [of m i j] show ?thesis
    by (simp add: lh_frame_def)
qed

lemma lh_up_frame: "j < n \<Longrightarrow> n \<le> lh_len m \<Longrightarrow> lh_frame n m (heap_up lh_less lh_swap m j)"
  by (rule heap_up_pres [where P = "lh_frame n m" and n = n]) (simp_all add: lh_frame_swap)

lemma lh_down_frame: "i < n \<Longrightarrow> n \<le> lh_len m \<Longrightarrow> lh_frame n m (fst (heap_down lh_less lh_swap m i n))"
  by (rule heap_down_pres [where P = "lh_frame n m" and n = n]) (simp_all add: lh_frame_swap)

lemma lh_fix_frame: "i < n \<Longrightarrow> n \<le> lh_len m \<Longrightarrow> lh_frame n m (heap_fix lh_less lh_swap m i n)"
  by (rule heap_fix_pres [where P = "lh_frame n m" and n = n]) (simp_all add: lh_frame_swap)

lemma heap_Push_spec:
  assumes ok: "heap_ok m" and r: "r \<notin> set (lm_heap m)"
  shows "heap_ok (heap_Push m r)" and "same_leases m (heap_Push m r)"
    and "mset (lm_heap (heap_Push m r)) = add_mset r (mset (lm_heap m))"
proof -
  define m1 where "m1 = lh_push m r"
  let ?n = "length (lm_heap m)"
  have h1: "lm_heap m1 = lm_heap m @ [r]" and s1: "same_leases m m1"
    by (simp_all add: m1_def lh_push_def Let_def)
  have i1: "idx_ok m1"
    using ok r by (auto simp: heap_ok_def idx_ok_def m1_def lh_push_def Let_def set_index_def nth_append
        nth_eq_iff_index_eq in_set_conv_nth)
  have k1: "lh_key m1 c = lh_key m c" if "c < ?n" for c
    using that s1 by (simp add: lh_key_def h1 nth_append same_leases_def)
  have "is_heap ?n (lh_key m1)"
    using ok is_heap_cong [of ?n "lh_key m1" "lh_key m"] k1 by (simp add: heap_ok_def lh_len_def)
  moreover have "parent c \<noteq> ?n" if "0 < c" "c < Suc ?n" for c
    using that by linarith
  ultimately have al: "almost_heap (Suc ?n) (lh_key m1) ?n" and kids: "kids_ok (Suc ?n) (lh_key m1) ?n"
    by (auto simp: almost_heap_def kids_ok_def is_heap_def less_Suc_eq)
  have len: "lh_len m1 = Suc ?n" by (simp add: lh_len_def h1)
  have P: "heap_Push m r = heap_up lh_less lh_swap m1 ?n"
    by (simp add: heap_Push_def m1_def [symmetric] len)
  have f: "lh_frame (Suc ?n) m1 (heap_Push m r)"
    unfolding P using len by (simp add: lh_up_frame)
  show "heap_ok (heap_Push m r)"
    using lh.up_heap [OF al kids] f i1 len lh_frame_len [OF f]
    by (simp add: heap_ok_def lh_frame_def P)
  show "same_leases m (heap_Push m r)"
    using f s1 by (auto simp: lh_frame_def intro: same_leases_trans)
  show "mset (lm_heap (heap_Push m r)) = add_mset r (mset (lm_heap m))"
    using f h1 by (simp add: lh_frame_def)
qed

text \<open>Both removals shrink the heap by its last position once the removed element is there.\<close>

lemma lh_pop_spec:
  assumes ok: "idx_ok m" and n: "lh_len m = Suc n" and h: "is_heap n (lh_key m)"
  shows "heap_ok (fst (lh_pop m))" and "same_leases m (fst (lh_pop m))"
    and "mset (lm_heap (fst (lh_pop m))) = mset (lm_heap m) - {#lm_heap m ! n#}"
    and "snd (lh_pop m) = lm_heap m ! n"
proof -
  have len: "length (lm_heap m) = Suc n" using n by (simp add: lh_len_def)
  then have ne: "lm_heap m \<noteq> []" by auto
  have l: "last (lm_heap m) = lm_heap m ! n"
    using ne len by (simp add: last_conv_nth)
  show s: "same_leases m (fst (lh_pop m))" and "snd (lh_pop m) = lm_heap m ! n"
    by (simp_all add: lh_pop_def Let_def l)
  have b: "lm_heap (fst (lh_pop m)) = butlast (lm_heap m)"
    by (simp add: lh_pop_def Let_def)
  have "mset (butlast xs) = mset xs - {#xs ! n#}" if "length xs = Suc n" for xs :: "ref list"
    using that by (cases xs rule: rev_cases) (auto simp: nth_append)
  with len show "mset (lm_heap (fst (lh_pop m))) = mset (lm_heap m) - {#lm_heap m ! n#}"
    by (simp add: b)
  have "lm_heap m ! c \<noteq> lm_heap m ! n" if "c < n" for c
    using ok that len by (simp add: idx_ok_def nth_eq_iff_index_eq)
  then have i: "idx_ok (fst (lh_pop m))"
    using ok len by (auto simp: idx_ok_def lh_pop_def Let_def l set_index_def nth_butlast distinct_butlast)
  have "lh_key (fst (lh_pop m)) c = lh_key m c" if "c < n" for c
    using that s len by (simp add: lh_key_def b nth_butlast same_leases_def)
  then have "is_heap n (lh_key (fst (lh_pop m)))"
    using h is_heap_cong by blast
  then show "heap_ok (fst (lh_pop m))"
    using i len by (simp add: heap_ok_def lh_len_def b)
qed

lemma heap_Fix_spec:
  assumes i: "idx_ok m" and al: "almost_heap (lh_len m) (lh_key m) i" and lt: "i < lh_len m"
  shows "heap_ok (heap_Fix m i)" and "same_leases m (heap_Fix m i)"
    and "mset (lm_heap (heap_Fix m i)) = mset (lm_heap m)"
proof -
  have f: "lh_frame (lh_len m) m (heap_Fix m i)"
    unfolding heap_Fix_def using lt by (simp add: lh_fix_frame)
  with i lh.fix_heap [OF al lt] lh_frame_len [OF f] show "heap_ok (heap_Fix m i)"
    by (simp add: heap_ok_def lh_frame_def heap_Fix_def)
  from f show "same_leases m (heap_Fix m i)" "mset (lm_heap (heap_Fix m i)) = mset (lm_heap m)"
    by (simp_all add: lh_frame_def)
qed

text \<open>
  The state in which a removal of position \<open>i\<close> calls \<open>lh_pop\<close>: position \<open>i\<close> swapped with
  the last one and the rest repaired.
\<close>

lemma removal_swapped:
  assumes ok: "heap_ok m" and n: "lh_len m = Suc n" and lt: "i < n"
  shows "lh_frame (Suc n) m (lh_swap m i n)" and "lm_heap (lh_swap m i n) ! n = lm_heap m ! i"
    and "almost_heap n (lh_key (lh_swap m i n)) i"
proof -
  have lens: "i < lh_len m" "n < lh_len m" "i \<noteq> n" using n lt by auto
  show "lh_frame (Suc n) m (lh_swap m i n)"
    using n lt by (intro lh_frame_swap) auto
  show "lm_heap (lh_swap m i n) ! n = lm_heap m ! i"
    using n by (simp add: lh_len_def)
  have k: "lh_key (lh_swap m i n) = (lh_key m)(i := lh_key m n, n := lh_key m i)"
    using lh.key_sw [OF lens] .
  have "is_heap n (lh_key m)"
    using ok n is_heap_prefix [of "Suc n" "lh_key m" n] by (simp add: heap_ok_def)
  then have "almost_heap n ((lh_key m)(i := lh_key m n)) i" by (rule is_heap_almost)
  then show "almost_heap n (lh_key (lh_swap m i n)) i"
    unfolding k almost_heap_def using lt by auto
qed

lemma removal_popped:
  assumes ok: "heap_ok m" and n: "lh_len m = Suc n" and lt: "i \<le> n"
    and f: "lh_frame (Suc n) m m2" "is_heap n (lh_key m2)" "lm_heap m2 ! n = lm_heap m ! i"
  shows "heap_ok (fst (lh_pop m2))" and "same_leases m (fst (lh_pop m2))"
    and "mset (lm_heap (fst (lh_pop m2))) = mset (lm_heap m) - {#lm_heap m ! i#}"
    and "snd (lh_pop m2) = lm_heap m ! i"
proof -
  have "idx_ok m2" "lh_len m2 = Suc n"
    using ok f n lh_frame_len [OF f(1)] by (auto simp: heap_ok_def lh_frame_def)
  note p = lh_pop_spec [OF this f(2)]
  show "heap_ok (fst (lh_pop m2))" by (rule p(1))
  show "same_leases m (fst (lh_pop m2))"
    using p(2) f(1) by (auto simp: lh_frame_def intro: same_leases_trans)
  show "mset (lm_heap (fst (lh_pop m2))) = mset (lm_heap m) - {#lm_heap m ! i#}"
    "snd (lh_pop m2) = lm_heap m ! i"
    using p(3,4) f by (simp_all add: lh_frame_def)
qed

lemma heap_Remove_spec:
  assumes ok: "heap_ok m" and lt: "i < lh_len m"
  shows "heap_ok (fst (heap_Remove m i))" and "same_leases m (fst (heap_Remove m i))"
    and "mset (lm_heap (fst (heap_Remove m i))) = mset (lm_heap m) - {#lm_heap m ! i#}"
    and "snd (heap_Remove m i) = lm_heap m ! i"
proof -
  define n where "n = lh_len m - 1"
  have n: "lh_len m = Suc n" "i \<le> n" using lt by (auto simp: n_def)
  define m2 where "m2 = (if n \<noteq> i then heap_fix lh_less lh_swap (lh_swap m i n) i n else m)"
  have R: "heap_Remove m i = lh_pop m2"
    by (simp add: heap_Remove_def m2_def n_def Let_def)
  have "lh_frame (Suc n) m m2 \<and> is_heap n (lh_key m2) \<and> lm_heap m2 ! n = lm_heap m ! i"
  proof (cases "n = i")
    case True
    then show ?thesis
      using ok n is_heap_prefix [of "Suc n" "lh_key m" n] by (simp add: m2_def heap_ok_def)
  next
    case False
    then have lti: "i < n" using n by simp
    note sw = removal_swapped [OF ok n(1) lti]
    have l: "lh_len (lh_swap m i n) = Suc n" using lh_frame_len [OF sw(1)] n by simp
    have g: "lh_frame n (lh_swap m i n) m2"
      using False lti l by (simp add: m2_def lh_fix_frame)
    have "is_heap n (lh_key m2)"
      using lh.fix_heap [OF sw(3) lti] l False by (simp add: m2_def)
    then show ?thesis
      using g sw lh_frame_trans [OF sw(1) lh_frame_mono [OF g]] by (simp add: lh_frame_def)
  qed
  then show "heap_ok (fst (heap_Remove m i))" "same_leases m (fst (heap_Remove m i))"
    "mset (lm_heap (fst (heap_Remove m i))) = mset (lm_heap m) - {#lm_heap m ! i#}"
    "snd (heap_Remove m i) = lm_heap m ! i"
    unfolding R using removal_popped [OF ok n] by auto
qed

lemma heap_Pop_spec:
  assumes ok: "heap_ok m" and ne: "0 < lh_len m"
  shows "heap_ok (fst (heap_Pop m))" and "same_leases m (fst (heap_Pop m))"
    and "mset (lm_heap (fst (heap_Pop m))) = mset (lm_heap m) - {#lm_heap m ! 0#}"
    and "snd (heap_Pop m) = lm_heap m ! 0"
proof -
  define n where "n = lh_len m - 1"
  have n: "lh_len m = Suc n" "0 \<le> n" using ne by (auto simp: n_def)
  define m2 where "m2 = fst (heap_down lh_less lh_swap (lh_swap m 0 n) 0 n)"
  have R: "heap_Pop m = lh_pop m2"
    by (simp add: heap_Pop_def m2_def n_def Let_def split_def)
  have "lh_frame (Suc n) m m2 \<and> is_heap n (lh_key m2) \<and> lm_heap m2 ! n = lm_heap m ! 0"
  proof (cases "n = 0")
    case True
    have "m2 = lh_swap m 0 0"
      by (simp add: m2_def True heap_down_def heap_down_loop.simps)
    moreover have "lh_frame (Suc 0) m (lh_swap m 0 0)"
      using ok n True
      by (auto simp: lh_frame_def same_leases_def heap_ok_def idx_ok_def lh_swap_def Let_def set_index_def lh_len_def)
    ultimately show ?thesis
      using True n by (simp add: is_heap_def lh_len_def)
  next
    case False
    then have lti: "0 < n" by simp
    note sw = removal_swapped [OF ok n(1) lti]
    have l: "lh_len (lh_swap m 0 n) = Suc n" using lh_frame_len [OF sw(1)] n by simp
    have g: "lh_frame n (lh_swap m 0 n) m2"
      using lti l by (simp add: m2_def lh_down_frame)
    have "is_heap n (lh_key m2)"
      using lh.down_root_heap [OF sw(3) lti] l by (simp add: m2_def)
    then show ?thesis
      using g sw lh_frame_trans [OF sw(1) lh_frame_mono [OF g]] by (simp add: lh_frame_def)
  qed
  then show "heap_ok (fst (heap_Pop m))" "same_leases m (fst (heap_Pop m))"
    "mset (lm_heap (fst (heap_Pop m))) = mset (lm_heap m) - {#lm_heap m ! 0#}"
    "snd (heap_Pop m) = lm_heap m ! 0"
    unfolding R using removal_popped [OF ok n(1), of 0] by auto
qed

section \<open>Expiry\<close>

text \<open>
  Popping shortens the heap in any state, so the loop of \<^verbatim>\<open>expired\<close> ends. It removes the
  due leases from the heap and from the entry map; their handles stay registered.
\<close>

lemma lh_len_swap [simp]: "lh_len (lh_swap m i j) = lh_len m"
  by (simp add: lh_len_def)

lemma heap_Pop_len: "0 < lh_len m \<Longrightarrow> lh_len (fst (heap_Pop m)) = lh_len m - 1"
proof -
  assume ne: "0 < lh_len m"
  let ?n = "lh_len m - 1"
  let ?d = "heap_down lh_less lh_swap (lh_swap m 0 ?n) 0 ?n"
  have "lh_len (fst ?d) = lh_len m"
  proof (cases "?n = 0")
    case True
    then show ?thesis by (simp add: heap_down_def heap_down_loop.simps)
  next
    case False
    then show ?thesis
      using lh_frame_len [OF lh_down_frame [of 0 ?n "lh_swap m 0 ?n"]] by simp
  qed
  then show ?thesis
    by (simp add: heap_Pop_def Let_def split_def lh_pop_def lh_len_def)
qed

function lm_expired :: "leaseManager \<Rightarrow> int \<Rightarrow> leaseManager \<times> string list" where
  "lm_expired m now =
     (if lh_len m > 0
      then
        let top = lm_at m 0
        in if le_expiresAt top > now then (m, [])
           else
             let (m, _) = heap_Pop m;
                 m = m\<lparr>lm_entries := (lm_entries m)(le_id top := None)\<rparr>;
                 (m, result) = lm_expired m now
             in (m, le_id top # result)
      else (m, []))"
  by pat_completeness auto
termination
proof (relation "measure (\<lambda>(m, _). lh_len m)", goal_cases)
  case 1
  then show ?case by simp
next
  case (2 m now top x m1 r m2)
  then have "m1 = fst (heap_Pop m)" by (metis fst_conv)
  with 2 heap_Pop_len [of m] show ?case by (simp add: lh_len_def)
qed

declare lm_expired.simps [simp del]

section \<open>Invariant of the manager\<close>

text \<open>
  The heap is a heap whose objects know their positions; the entry map leads to heap
  objects with the right id; every tracked lease has an open handle of its own.
\<close>

definition lm_inv :: "leaseManager \<Rightarrow> bool" where
  "lm_inv m \<longleftrightarrow> heap_ok m \<and> (\<forall>r \<in> set (lm_heap m). r < lm_next m) \<and>
     (\<forall>lid r. lm_entries m lid = Some r \<longrightarrow> r \<in> set (lm_heap m) \<and> le_id (lm_objs m r) = lid) \<and>
     (\<forall>lid hr. lm_handles m lid = Some hr \<longrightarrow>
        hr < lm_lnext m \<and> l_id (lm_leases m hr) = lid \<and> \<not> l_done (lm_leases m hr)) \<and>
     dom (lm_entries m) \<subseteq> dom (lm_handles m)"

text \<open>One heap object per tracked lease: no id has been granted twice while alive.\<close>

definition lm_tracked :: "leaseManager \<Rightarrow> bool" where
  "lm_tracked m \<longleftrightarrow> (\<forall>r \<in> set (lm_heap m). lm_entries m (le_id (lm_objs m r)) = Some r)"

lemma lm_inv_new: "lm_inv newLeaseManager" "lm_tracked newLeaseManager"
  by (simp_all add: lm_inv_def lm_tracked_def newLeaseManager_def heap_ok_def idx_ok_def is_heap_def lh_len_def)

lemma entry_position:
  assumes "heap_ok m" and "r \<in> set (lm_heap m)"
  shows "nat (le_index (lm_objs m r)) < lh_len m" and "lm_heap m ! nat (le_index (lm_objs m r)) = r"
  using assms by (auto simp: heap_ok_def idx_ok_def lh_len_def in_set_conv_nth)

text \<open>Fields of the manager outside the heap do not matter to the heap.\<close>

lemma heap_ok_cong:
  "lm_objs m' = lm_objs m \<Longrightarrow> lm_heap m' = lm_heap m \<Longrightarrow> heap_ok m' = heap_ok m"
  by (simp add: heap_ok_def idx_ok_def lh_len_def lh_key_def [abs_def])

lemma lm_grant_inv:
  assumes inv: "lm_inv m"
  shows "lm_inv (fst (lm_grant m lid ttl now))"
    and "lm_tracked m \<Longrightarrow> lm_entries m lid = None \<Longrightarrow> lm_tracked (fst (lm_grant m lid ttl now))"
    and "lm_entries (fst (lm_grant m lid ttl now)) = (lm_entries m)(lid \<mapsto> lm_next m)"
    and "lm_handles (fst (lm_grant m lid ttl now)) = (lm_handles m)(lid \<mapsto> lm_lnext m)"
proof -
  let ?r = "lm_next m"
  let ?o = "\<lparr>le_expiresAt = now + ttl, le_id = lid, le_index = 0\<rparr>"
  define m0 where "m0 = m\<lparr>lm_objs := (lm_objs m)(?r := ?o), lm_next := Suc ?r\<rparr>"
  define m1 where "m1 = heap_Push m0 ?r"
  have fresh: "?r \<notin> set (lm_heap m)" using inv by (auto simp: lm_inv_def)
  then have "lm_heap m ! i \<noteq> ?r" if "i < length (lm_heap m)" for i
    using that nth_mem by metis
  then have at: "lm_at m0 i = lm_at m i" if "i < length (lm_heap m)" for i
    using that by (simp add: m0_def)
  have "is_heap (lh_len m) (lh_key m0) = is_heap (lh_len m) (lh_key m)"
    using at by (intro is_heap_cong) (simp add: lh_key_def lh_len_def)
  then have ok0: "heap_ok m0"
    using inv at by (simp add: lm_inv_def heap_ok_def idx_ok_def lh_len_def m0_def)
  have fr0: "?r \<notin> set (lm_heap m0)" using fresh by (simp add: m0_def)
  note p = heap_Push_spec [OF ok0 fr0, folded m1_def]
  have set1: "set (lm_heap m1) = insert ?r (set (lm_heap m))"
    using arg_cong [OF p(3), of set_mset] by (simp add: m0_def)
  have s1: "lm_next m1 = Suc ?r" "lm_leases m1 = lm_leases m" "lm_lnext m1 = lm_lnext m"
    "lm_entries m1 = lm_entries m" "lm_handles m1 = lm_handles m"
    and i1: "le_id (lm_objs m1 r) = (if r = ?r then lid else le_id (lm_objs m r))" for r
    using p(2) by (simp_all add: same_leases_def m0_def)
  have G: "fst (lm_grant m lid ttl now) = m1\<lparr>lm_entries := (lm_entries m)(lid \<mapsto> ?r),
      lm_leases := (lm_leases m)(lm_lnext m := newLease lid ttl), lm_lnext := Suc (lm_lnext m),
      lm_handles := (lm_handles m)(lid \<mapsto> lm_lnext m)\<rparr>"
    using s1 by (simp add: lm_grant_def Let_def m0_def [symmetric] m1_def [symmetric])
  have ok: "heap_ok (fst (lm_grant m lid ttl now))"
    using p(1) heap_ok_cong [of "fst (lm_grant m lid ttl now)" m1] by (simp add: G)
  show "lm_inv (fst (lm_grant m lid ttl now))"
    using inv ok fresh by (fastforce simp: lm_inv_def G set1 s1 i1 newLease_def)
  show "lm_tracked m \<Longrightarrow> lm_entries m lid = None \<Longrightarrow> lm_tracked (fst (lm_grant m lid ttl now))"
    using fresh by (auto simp: lm_tracked_def G set1 i1)
  show "lm_entries (fst (lm_grant m lid ttl now)) = (lm_entries m)(lid \<mapsto> lm_next m)"
    "lm_handles (fst (lm_grant m lid ttl now)) = (lm_handles m)(lid \<mapsto> lm_lnext m)"
    by (simp_all add: G)
qed

lemma lm_renew_inv:
  assumes inv: "lm_inv m"
  shows "lm_inv (fst (lm_renew m lid now))"
    and "lm_tracked m \<Longrightarrow> lm_tracked (fst (lm_renew m lid now))"
    and "lm_entries (fst (lm_renew m lid now)) = lm_entries m"
    and "lm_handles (fst (lm_renew m lid now)) = lm_handles m"
    and "snd (lm_renew m lid now) \<longleftrightarrow> lm_entries m lid \<noteq> None"
proof -
  have "lm_inv (fst (lm_renew m lid now)) \<and> (lm_tracked m \<longrightarrow> lm_tracked (fst (lm_renew m lid now))) \<and>
    lm_entries (fst (lm_renew m lid now)) = lm_entries m \<and>
    lm_handles (fst (lm_renew m lid now)) = lm_handles m \<and>
    (snd (lm_renew m lid now) \<longleftrightarrow> lm_entries m lid \<noteq> None)"
  proof (cases "lm_entries m lid")
    case None
    with inv show ?thesis by (simp add: lm_renew_def)
  next
    case (Some r)
    with inv obtain hr where hr: "lm_handles m lid = Some hr"
      by (auto simp: lm_inv_def)
    have r: "r \<in> set (lm_heap m)" "heap_ok m" using inv Some by (auto simp: lm_inv_def)
    define m0 where "m0 = m\<lparr>lm_objs := (lm_objs m)
      (r := (lm_objs m r)\<lparr>le_expiresAt := now + l_ttl (lm_leases m hr)\<rparr>)\<rparr>"
    define i where "i = nat (le_index (lm_objs m r))"
    have i: "i < lh_len m" "lm_heap m ! i = r" using entry_position [OF r(2,1)] by (simp_all add: i_def)
    have d: "distinct (lm_heap m)" using r by (simp add: heap_ok_def idx_ok_def)
    have k: "lh_key m0 c = ((lh_key m)(i := lh_key m0 i)) c" if "c < lh_len m" for c
      using that i d by (auto simp: lh_key_def m0_def lh_len_def nth_eq_iff_index_eq)
    have "almost_heap (lh_len m) ((lh_key m)(i := lh_key m0 i)) i"
      using r(2) by (intro is_heap_almost) (simp add: heap_ok_def)
    moreover have "almost_heap (lh_len m) (lh_key m0) i = almost_heap (lh_len m) ((lh_key m)(i := lh_key m0 i)) i"
      by (rule almost_heap_cong, erule k, rule i(1))
    moreover have "lh_len m0 = lh_len m" by (simp add: m0_def lh_len_def)
    ultimately have al: "almost_heap (lh_len m0) (lh_key m0) i" by simp
    have id0: "idx_ok m0" using r(2) by (auto simp: heap_ok_def idx_ok_def m0_def)
    have l0: "i < lh_len m0" using i by (simp add: m0_def lh_len_def)
    note f = heap_Fix_spec [OF id0 al l0]
    have R: "lm_renew m lid now = (heap_Fix m0 i, True)"
      using Some hr by (simp add: lm_renew_def m0_def i_def Let_def)
    have s: "set (lm_heap (heap_Fix m0 i)) = set (lm_heap m)"
      using mset_eq_setD [OF f(3)] by (simp add: m0_def)
    have sl: "lm_handles (heap_Fix m0 i) = lm_handles m" "lm_leases (heap_Fix m0 i) = lm_leases m"
      "lm_next (heap_Fix m0 i) = lm_next m" "lm_lnext (heap_Fix m0 i) = lm_lnext m"
      "lm_entries (heap_Fix m0 i) = lm_entries m"
      "le_id (lm_objs (heap_Fix m0 i) r') = le_id (lm_objs m r')" for r'
      using f(2) by (simp_all add: same_leases_def m0_def)
    show ?thesis
      using inv f(1) Some by (simp add: R lm_inv_def lm_tracked_def s sl)
  qed
  then show "lm_inv (fst (lm_renew m lid now))"
    "lm_tracked m \<Longrightarrow> lm_tracked (fst (lm_renew m lid now))"
    "lm_entries (fst (lm_renew m lid now)) = lm_entries m"
    "lm_handles (fst (lm_renew m lid now)) = lm_handles m"
    "snd (lm_renew m lid now) \<longleftrightarrow> lm_entries m lid \<noteq> None"
    by simp_all
qed

lemma set_mset_minus_distinct: "distinct xs \<Longrightarrow> set_mset (mset xs - {#r#}) = set xs - {r}"
  by (metis mset_remove1 set_mset_mset set_remove1_eq)

lemma close_handle_fields [simp]:
  "lm_objs (close_handle m lid) = lm_objs m" "lm_heap (close_handle m lid) = lm_heap m"
  "lm_next (close_handle m lid) = lm_next m" "lm_lnext (close_handle m lid) = lm_lnext m"
  "lm_entries (close_handle m lid) = lm_entries m"
  "lm_handles (close_handle m lid) = (lm_handles m)(lid := None)"
  by (auto simp: close_handle_def split: option.split)

lemma lm_revoke_inv:
  assumes inv: "lm_inv m"
  shows "lm_inv (fst (lm_revoke m lid))"
    and "lm_tracked m \<Longrightarrow> lm_tracked (fst (lm_revoke m lid))"
    and "lm_entries (fst (lm_revoke m lid)) = (lm_entries m)(lid := None)"
    and "lm_handles (fst (lm_revoke m lid)) =
           (if lm_entries m lid = None then lm_handles m else (lm_handles m)(lid := None))"
    and "snd (lm_revoke m lid) \<longleftrightarrow> lm_entries m lid \<noteq> None"
    and "\<And>hr. lm_entries m lid \<noteq> None \<Longrightarrow> lm_handles m lid = Some hr \<Longrightarrow>
           l_done (lm_leases (fst (lm_revoke m lid)) hr)"
proof -
  have *: "lm_inv (fst (lm_revoke m lid)) \<and> (lm_tracked m \<longrightarrow> lm_tracked (fst (lm_revoke m lid))) \<and>
    lm_entries (fst (lm_revoke m lid)) = (lm_entries m)(lid := None) \<and>
    lm_handles (fst (lm_revoke m lid)) = (lm_handles m)(lid := None) \<and>
    l_done (lm_leases (fst (lm_revoke m lid)) hr) \<and> snd (lm_revoke m lid)"
    if e: "lm_entries m lid = Some r" and hr: "lm_handles m lid = Some hr" for r hr
  proof -
    have r: "r \<in> set (lm_heap m)" "heap_ok m" "le_id (lm_objs m r) = lid"
      using inv e by (auto simp: lm_inv_def)
    define i where "i = nat (le_index (lm_objs m r))"
    have i: "i < lh_len m" "lm_heap m ! i = r" using entry_position [OF r(2,1)] by (simp_all add: i_def)
    define m1 where "m1 = fst (heap_Remove m i)"
    note f = heap_Remove_spec [OF r(2) i(1), folded m1_def]
    define m2 where "m2 = m1\<lparr>lm_entries := (lm_entries m)(lid := None)\<rparr>"
    have R: "lm_revoke m lid = (close_handle m2 lid, True)"
      using e f(2) by (simp add: lm_revoke_def i_def [symmetric] m1_def m2_def Let_def split_def same_leases_def)
    have "distinct (lm_heap m)" using r(2) by (simp add: heap_ok_def idx_ok_def)
    then have s: "set (lm_heap m1) = set (lm_heap m) - {r}"
      using arg_cong [OF f(3), of set_mset] i(2) by (simp add: set_mset_minus_distinct)
    have ok: "heap_ok (close_handle m2 lid)"
      using f(1) heap_ok_cong [of "close_handle m2 lid" m1] by (simp add: m2_def)
    define F where "F = close_handle m2 lid"
    have sl: "lm_handles m2 = lm_handles m" "lm_leases m2 = lm_leases m"
      using f(2) by (simp_all add: m2_def same_leases_def)
    have L: "lm_leases F = (lm_leases m)(hr := lease_close (lm_leases m hr))"
      using hr sl by (simp add: F_def close_handle_def)
    have F: "set (lm_heap F) = set (lm_heap m) - {r}" "lm_entries F = (lm_entries m)(lid := None)"
      "lm_handles F = (lm_handles m)(lid := None)" "lm_next F = lm_next m" "lm_lnext F = lm_lnext m"
      "le_id (lm_objs F r') = le_id (lm_objs m r')" for r'
      using f(2) s by (simp_all add: F_def m2_def same_leases_def)
    have other: "lm_entries m lid' \<noteq> Some r" if "lid' \<noteq> lid" for lid'
      using inv that r(3) by (auto simp: lm_inv_def)
    have hdl: "hr' \<noteq> hr" if "lm_handles m lid' = Some hr'" "lid' \<noteq> lid" for lid' hr'
    proof -
      have "l_id (lm_leases m hr') = lid'" "l_id (lm_leases m hr) = lid"
        using inv that hr by (simp_all add: lm_inv_def)
      with that show ?thesis by auto
    qed
    have "lm_inv F"
      using inv ok [folded F_def] other hdl by (auto simp: lm_inv_def F L)
    moreover have "lm_tracked F" if "lm_tracked m"
      using that r(3) e by (auto simp: lm_tracked_def F)
    ultimately show ?thesis
      unfolding R F_def [symmetric] using L by (simp add: F lease_close_def)
  qed
  have "lm_inv (fst (lm_revoke m lid)) \<and> (lm_tracked m \<longrightarrow> lm_tracked (fst (lm_revoke m lid))) \<and>
    lm_entries (fst (lm_revoke m lid)) = (lm_entries m)(lid := None) \<and>
    lm_handles (fst (lm_revoke m lid)) =
      (if lm_entries m lid = None then lm_handles m else (lm_handles m)(lid := None)) \<and>
    (snd (lm_revoke m lid) \<longleftrightarrow> lm_entries m lid \<noteq> None) \<and>
    (\<forall>hr. lm_entries m lid \<noteq> None \<longrightarrow> lm_handles m lid = Some hr \<longrightarrow>
       l_done (lm_leases (fst (lm_revoke m lid)) hr))"
  proof (cases "lm_entries m lid")
    case None
    with inv show ?thesis by (simp add: lm_revoke_def fun_upd_idem)
  next
    case (Some r)
    with inv obtain hr where "lm_handles m lid = Some hr"
      by (auto simp: lm_inv_def)
    with * [OF Some] Some show ?thesis by simp
  qed
  then show "lm_inv (fst (lm_revoke m lid))"
    "lm_tracked m \<Longrightarrow> lm_tracked (fst (lm_revoke m lid))"
    "lm_entries (fst (lm_revoke m lid)) = (lm_entries m)(lid := None)"
    "lm_handles (fst (lm_revoke m lid)) =
           (if lm_entries m lid = None then lm_handles m else (lm_handles m)(lid := None))"
    "snd (lm_revoke m lid) \<longleftrightarrow> lm_entries m lid \<noteq> None"
    "\<And>hr. lm_entries m lid \<noteq> None \<Longrightarrow> lm_handles m lid = Some hr \<Longrightarrow>
           l_done (lm_leases (fst (lm_revoke m lid)) hr)"
    by simp_all
qed

section \<open>Expiry is exact\<close>

definition due :: "leaseManager \<Rightarrow> int \<Rightarrow> string \<Rightarrow> bool" where
  "due m now lid \<longleftrightarrow> (case lm_entries m lid of None \<Rightarrow> False
     | Some r \<Rightarrow> le_expiresAt (lm_objs m r) \<le> now)"

text \<open>The state after the loop body has popped the top of the heap.\<close>

definition pop_top :: "leaseManager \<Rightarrow> leaseManager" where
  "pop_top m = (let m' = fst (heap_Pop m)
     in m'\<lparr>lm_entries := (lm_entries m')(le_id (lm_at m 0) := None)\<rparr>)"

lemma lm_expired_unfold:
  "lm_expired m now =
     (if lh_len m > 0 \<and> le_expiresAt (lm_at m 0) \<le> now
      then let (m', ids) = lm_expired (pop_top m) now in (m', le_id (lm_at m 0) # ids)
      else (m, []))"
  by (subst lm_expired.simps) (auto simp: pop_top_def Let_def split_def not_less)

lemma pop_top_inv:
  assumes inv: "lm_inv m" and tr: "lm_tracked m" and ne: "0 < lh_len m"
  shows "lm_inv (pop_top m)" and "lm_tracked (pop_top m)"
    and "lm_entries (pop_top m) = (lm_entries m)(le_id (lm_at m 0) := None)"
    and "lm_handles (pop_top m) = lm_handles m" and "lm_leases (pop_top m) = lm_leases m"
    and "le_expiresAt (lm_objs (pop_top m) r) = le_expiresAt (lm_objs m r)"
proof -
  define r where "r = lm_heap m ! 0"
  define lid where "lid = le_id (lm_objs m r)"
  have ok: "heap_ok m" using inv by (simp add: lm_inv_def)
  note p = heap_Pop_spec [OF ok ne, folded r_def]
  have "distinct (lm_heap m)" using ok by (simp add: heap_ok_def idx_ok_def)
  then have s: "set (lm_heap (pop_top m)) = set (lm_heap m) - {r}"
    using arg_cong [OF p(3), of set_mset] by (simp add: set_mset_minus_distinct pop_top_def Let_def)
  have F: "lm_entries (pop_top m) = (lm_entries m)(lid := None)" "lm_handles (pop_top m) = lm_handles m"
    "lm_leases (pop_top m) = lm_leases m" "lm_next (pop_top m) = lm_next m"
    "lm_lnext (pop_top m) = lm_lnext m" "le_id (lm_objs (pop_top m) r') = le_id (lm_objs m r')"
    "le_expiresAt (lm_objs (pop_top m) r') = le_expiresAt (lm_objs m r')" for r'
    using p(2) by (simp_all add: pop_top_def Let_def same_leases_def lid_def r_def)
  have ok': "heap_ok (pop_top m)"
    using p(1) heap_ok_cong [of "pop_top m" "fst (heap_Pop m)"] by (simp add: pop_top_def Let_def)
  have "lm_entries m lid' \<noteq> Some r" if "lid' \<noteq> lid" for lid'
    using inv that by (auto simp: lm_inv_def lid_def)
  then show "lm_inv (pop_top m)"
    using inv ok' by (auto simp: lm_inv_def F s)
  show "lm_tracked (pop_top m)"
  proof -
    have "le_id (lm_objs m r') \<noteq> lid" if "r' \<in> set (lm_heap m)" "r' \<noteq> r" for r'
      using tr that ne by (metis lid_def lm_tracked_def lh_len_def nth_mem option.inject r_def)
    then show ?thesis using tr by (auto simp: lm_tracked_def F s)
  qed
  show "lm_entries (pop_top m) = (lm_entries m)(le_id (lm_at m 0) := None)"
    "lm_handles (pop_top m) = lm_handles m" "lm_leases (pop_top m) = lm_leases m"
    "le_expiresAt (lm_objs (pop_top m) r) = le_expiresAt (lm_objs m r)" for r
    using F by (simp_all add: lid_def r_def)
qed

lemma top_is_tracked: "lm_tracked m \<Longrightarrow> 0 < lh_len m \<Longrightarrow> lm_entries m (le_id (lm_at m 0)) = Some (lm_heap m ! 0)"
  by (simp add: lm_tracked_def lh_len_def)

lemma none_due:
  assumes inv: "lm_inv m" and top: "0 < lh_len m \<Longrightarrow> now < le_expiresAt (lm_at m 0)"
  shows "\<not> due m now lid"
proof (cases "lm_entries m lid")
  case None
  then show ?thesis by (simp add: due_def)
next
  case (Some r)
  with inv have r: "r \<in> set (lm_heap m)" "heap_ok m" by (auto simp: lm_inv_def)
  then obtain i where i: "i < lh_len m" "lm_heap m ! i = r"
    by (auto simp: in_set_conv_nth lh_len_def)
  have "lh_key m 0 \<le> lh_key m i"
    using r(2) i(1) by (intro is_heap_min [of "lh_len m"]) (auto simp: heap_ok_def)
  with top i Some show ?thesis by (auto simp: due_def lh_key_def)
qed

lemma lm_expired_spec:
  assumes "lm_inv m" and "lm_tracked m"
  shows "lm_inv (fst (lm_expired m now)) \<and> lm_tracked (fst (lm_expired m now)) \<and>
    set (snd (lm_expired m now)) = Collect (due m now) \<and> distinct (snd (lm_expired m now)) \<and>
    lm_entries (fst (lm_expired m now)) = (\<lambda>lid. if due m now lid then None else lm_entries m lid) \<and>
    lm_handles (fst (lm_expired m now)) = lm_handles m \<and>
    lm_leases (fst (lm_expired m now)) = lm_leases m"
  using assms
proof (induction "lh_len m" arbitrary: m rule: less_induct)
  case less
  show ?case
  proof (cases "0 < lh_len m \<and> le_expiresAt (lm_at m 0) \<le> now")
    case False
    then have "\<not> due m now lid" for lid
      using none_due [OF less.prems(1)] by (auto simp: not_le)
    moreover have "lm_expired m now = (m, [])"
      using False by (subst lm_expired_unfold) auto
    ultimately show ?thesis using less.prems by simp
  next
    case True
    let ?m = "pop_top m" and ?t = "le_id (lm_at m 0)"
    have ne: "0 < lh_len m" using True by simp
    note p = pop_top_inv [OF less.prems ne]
    have "lh_len ?m < lh_len m"
      using heap_Pop_len [OF ne] ne by (simp add: pop_top_def Let_def lh_len_def)
    note IH = less.hyps [OF this p(1,2)]
    have d: "due m now lid \<longleftrightarrow> lid = ?t \<or> due ?m now lid" for lid
      using top_is_tracked [OF less.prems(2) ne] True by (auto simp: due_def p(3,6) split: option.splits)
    have t: "\<not> due ?m now ?t" by (simp add: due_def p(3))
    have u: "lm_expired m now = (fst (lm_expired ?m now), ?t # snd (lm_expired ?m now))"
      using True by (subst lm_expired_unfold) (simp add: split_def Let_def)
    show ?thesis
      unfolding u using IH d t p(3-5) by (auto simp: fun_eq_iff)
  qed
qed

definition two_leases :: leaseManager where
  "two_leases = fst (lm_grant (fst (lm_grant newLeaseManager ''a'' 10 0)) ''b'' 5 0)"

lemma two_leases_inv: "lm_inv two_leases" "lm_tracked two_leases"
  "lm_entries two_leases = [''a'' \<mapsto> 0, ''b'' \<mapsto> 1]"
proof -
  note g = lm_grant_inv [OF lm_inv_new(1), of "''a''" 10 0]
  have n: "lm_entries newLeaseManager = Map.empty" "lm_next newLeaseManager = 0"
    by (simp_all add: newLeaseManager_def)
  have nx: "lm_next (fst (lm_grant newLeaseManager ''a'' 10 0)) = 1"
    by code_simp
  show "lm_inv two_leases" "lm_tracked two_leases" "lm_entries two_leases = [''a'' \<mapsto> 0, ''b'' \<mapsto> 1]"
    unfolding two_leases_def
    using lm_grant_inv [OF g(1), of "''b''" 5 0] g(2) lm_inv_new(2) g(3) n nx by auto
qed

lemma two_leases_deadlines:
  "le_expiresAt (lm_objs two_leases 0) = 10" "le_expiresAt (lm_objs two_leases (Suc 0)) = 5"
  by code_simp+

text \<open>
  C5: the expiry loop is exact. On a manager whose ids were granted once each, \<^verbatim>\<open>expired\<close>
  returns, without repetition, exactly the tracked leases whose deadline has passed;
  exactly these stop being tracked, and the heap stays a heap with correct positions.
\<close>

theorem lm_expired_exact:
  assumes "lm_inv m" and "lm_tracked m" and "lm_expired m now = (m', ids)"
  shows "distinct ids \<and> set ids = {lid. \<exists>r. lm_entries m lid = Some r \<and> le_expiresAt (lm_objs m r) \<le> now} \<and>
     lm_entries m' = (lm_entries m) |` (- set ids) \<and> lm_inv m' \<and> lm_tracked m'"
proof -
  have "Collect (due m now) = {lid. \<exists>r. lm_entries m lid = Some r \<and> le_expiresAt (lm_objs m r) \<le> now}"
    by (auto simp: due_def split: option.splits)
  then show ?thesis
    using lm_expired_spec [OF assms(1,2), of now] assms(3) by (auto simp: restrict_map_def fun_eq_iff)
qed

theorem lm_expired_exact_witness:
  "\<exists>m' ids. lm_expired two_leases 7 = (m', ids) \<and> set ids = {''b''} \<and> distinct ids"
proof -
  obtain m' ids where e: "lm_expired two_leases 7 = (m', ids)"
    by (cases "lm_expired two_leases 7")
  from lm_expired_exact [OF two_leases_inv(1,2) e] e show ?thesis
    by (auto simp: two_leases_inv(3) two_leases_deadlines split: if_splits)
qed

text \<open>
  The comment on \<^verbatim>\<open>expired\<close> says it removes nothing and that the caller must call
  \<^verbatim>\<open>revoke\<close> for each returned lease. The loop has already dropped the entry, so such a
  \<^verbatim>\<open>revoke\<close> reports failure, changes nothing and leaves the lease's handle open.
\<close>

theorem revoke_after_expired:
  assumes "lm_inv m" and "lm_tracked m" and "lm_expired m now = (m', ids)" and "lid \<in> set ids"
  shows "lm_revoke m' lid = (m', False) \<and>
     (\<exists>hr. lm_getHandle m' lid = Some hr \<and> \<not> l_done (lm_leases m' hr))"
proof -
  have sp: "lm_inv m'" "due m now lid" "lm_entries m' lid = None" "lm_handles m' = lm_handles m"
    "lm_leases m' = lm_leases m"
    using lm_expired_spec [OF assms(1,2), of now] assms(3,4) by auto
  then have "lm_entries m lid \<noteq> None" by (auto simp: due_def split: option.splits)
  then obtain hr where hr: "lm_handles m lid = Some hr"
    using assms(1) by (auto simp: lm_inv_def)
  then have "\<not> l_done (lm_leases m hr)"
    using assms(1) by (simp add: lm_inv_def)
  with sp hr show ?thesis
    by (simp add: lm_revoke_def lm_getHandle_def)
qed

theorem revoke_after_expired_witness:
  "\<exists>m' ids. lm_expired two_leases 7 = (m', ids) \<and> lm_revoke m' ''b'' = (m', False)"
proof -
  obtain m' ids where e: "lm_expired two_leases 7 = (m', ids)"
    by (cases "lm_expired two_leases 7")
  have "''b'' \<in> set ids"
    using lm_expired_spec [OF two_leases_inv(1,2), of 7] e
    by (simp add: due_def two_leases_inv(3) two_leases_deadlines)
  from revoke_after_expired [OF two_leases_inv(1,2) e this] e show ?thesis by blast
qed

end
