(* ===== verification/Kv_Fsm.thy ===== *)
theory Kv_Fsm
  imports Kv_State Kv_Lease
begin

text \<open>
  The replicated state machine of the key-value store (\<^verbatim>\<open>system/kv/raft_fsm.go\<close>): applying
  committed commands and transactions, emitting watch records, publishing snapshots,
  and the snapshot/restore pair that Raft uses to bring up a replica.

  The environment of a replica is explicit: \<open>xxh\<close> (key hash), \<open>it\<close> (map iteration order)
  and \<open>now\<close> (its clock at the call). Snapshot contents are the value that is gob-encoded;
  the gob bytes themselves are not modelled. The watch feed receives the records that a
  flush returns.
\<close>

section \<open>Data\<close>

datatype WatchEventType = WatchPut | WatchDelete | WatchExpired

record watchRecord =
  wr_typ :: WatchEventType
  wr_current :: "entry option"
  wr_previous :: "entry option"
  wr_index :: u64
  wr_revision :: u64

record applyResult =
  ar_Err :: "kv_error option"
  ar_Version :: u64
  ar_OK :: bool

record RaftFSM =
  f_state :: state
  f_leases :: leaseManager
  f_heap :: shard_heap
  f_snap :: "stateSnapshot option"
  f_outbox :: "watchRecord list"

record raft_log =
  log_Index :: u64
  log_Data :: "byte list"

definition res_err :: "kv_error \<Rightarrow> applyResult" where
  "res_err e = \<lparr>ar_Err = Some e, ar_Version = 0, ar_OK = False\<rparr>"

definition res_ok :: "u64 \<Rightarrow> bool \<Rightarrow> applyResult" where
  "res_ok ver ok = \<lparr>ar_Err = None, ar_Version = ver, ar_OK = ok\<rparr>"

text \<open>\<^verbatim>\<open>time.Duration(ms) * time.Millisecond\<close>: a 64-bit product that wraps.\<close>

definition msToDuration :: "i64 \<Rightarrow> int" where
  "msToDuration ms = sint (ms * 1000000 :: i64)"

definition NewRaftFSM :: "(string \<Rightarrow> u64) \<Rightarrow> (string set \<Rightarrow> string list) \<Rightarrow> RaftFSM" where
  "NewRaftFSM xxh it =
     (let (h, s, snap) = kv_snapshot xxh it \<lparr>h_maps = \<lambda>_. Map.empty, h_next = 0\<rparr> newState
      in \<lparr>f_state = s, f_leases = newLeaseManager, f_heap = h, f_snap = Some snap, f_outbox = []\<rparr>)"

section \<open>Events\<close>

definition emitEvent :: "RaftFSM \<Rightarrow> WatchEventType \<Rightarrow> entry option \<Rightarrow> entry option \<Rightarrow> RaftFSM" where
  "emitEvent f typ cur prev =
     f\<lparr>f_outbox := f_outbox f @
        [\<lparr>wr_typ = typ, wr_current = cur, wr_previous = prev,
          wr_index = st_applyIndex (f_state f), wr_revision = 0\<rparr>]\<rparr>"

definition emitPut :: "RaftFSM \<Rightarrow> string \<Rightarrow> entry option \<Rightarrow> RaftFSM" where
  "emitPut f key prev =
     (case kv_get (f_state f) key of
        None \<Rightarrow> f
      | Some cur \<Rightarrow> emitEvent f WatchPut (Some cur) prev)"

text \<open>
  \<^verbatim>\<open>flush\<close> builds and publishes the snapshot and hands the buffered records, stamped with
  its index, to the watch feed.
\<close>

definition flush ::
  "(string \<Rightarrow> u64) \<Rightarrow> (string set \<Rightarrow> string list) \<Rightarrow> RaftFSM \<Rightarrow> RaftFSM \<times> watchRecord list" where
  "flush xxh it f =
     (let (h, s, published) = kv_snapshot xxh it (f_heap f) (f_state f);
          records = map (\<lambda>r. r\<lparr>wr_revision := sn_index published\<rparr>) (f_outbox f)
      in (f\<lparr>f_heap := h, f_state := s, f_snap := Some published, f_outbox := []\<rparr>, records))"

section \<open>Applying\<close>

definition with_state :: "RaftFSM \<Rightarrow> state \<Rightarrow> RaftFSM" where
  "with_state f s = f\<lparr>f_state := s\<rparr>"

text \<open>
  Deleting a key with its watch event: the body shared by transaction deletes and by the
  loop over a revoked lease's keys.
\<close>

definition delKey :: "WatchEventType \<Rightarrow> string \<Rightarrow> RaftFSM \<Rightarrow> RaftFSM" where
  "delKey typ key f =
     (let (s, prev) = kv_del (f_state f) key; f = with_state f s
      in case prev of None \<Rightarrow> f | Some p \<Rightarrow> emitEvent f typ None (Some p))"

definition txnStep :: "TxnOp \<Rightarrow> RaftFSM \<Rightarrow> RaftFSM" where
  "txnStep op f =
     (if t_Kind op = TxnPut
      then
        let prev = kv_get (f_state f) (t_Key op);
            (s, _, _) = kv_set (f_state f) (t_Key op) (t_Value op) []
        in emitPut (with_state f s) (t_Key op) prev
      else if t_Kind op = TxnDelete then delKey WatchDelete (t_Key op) f
      else f)"

definition applyTxn :: "RaftFSM \<Rightarrow> TxnOp list \<Rightarrow> RaftFSM \<times> applyResult" where
  "applyTxn f ops =
     (if \<not> list_all (\<lambda>op. condHolds (t_Cond op) (t_Expect op) (kv_get (f_state f) (t_Key op))) ops
      then (f, res_ok 0 False)
      else (fold txnStep ops f, res_ok 0 True))"

definition applyCommand ::
  "(string set \<Rightarrow> string list) \<Rightarrow> int \<Rightarrow> RaftFSM \<Rightarrow> command \<Rightarrow> RaftFSM \<times> applyResult" where
  "applyCommand it now f c =
     (if c_Op c = opSet then
        let (s, prev, ver) = kv_set (f_state f) (c_Key c) (c_Value c) []
        in (emitPut (with_state f s) (c_Key c) prev, res_ok ver True)
      else if c_Op c = opDelete then
        case kv_del (f_state f) (c_Key c) of
          (s, None) \<Rightarrow> (with_state f s, res_err ErrKeyNotFound)
        | (s, Some p) \<Rightarrow> (emitEvent (with_state f s) WatchDelete None (Some p), res_ok 0 True)
      else if c_Op c = opCAS then
        let prev = kv_get (f_state f) (c_Key c);
            (s, ver, ok) = cas (f_state f) (c_Key c) (c_Expect c) (c_Value c);
            f = with_state f s
        in (if ok then emitPut f (c_Key c) prev else f, res_ok ver ok)
      else if c_Op c = opSetIfAbsent then
        let (s, ver, ok) = setIfAbsent (f_state f) (c_Key c) (c_Value c) [];
            f = with_state f s
        in (if ok then emitPut f (c_Key c) None else f, res_ok ver ok)
      else if c_Op c = opCompareAndDelete then
        let prev = kv_get (f_state f) (c_Key c);
            (s, deleted, _) = compareAndDelete (f_state f) (c_Key c) (c_Expect c);
            f = with_state f s
        in (if deleted then emitEvent f WatchDelete None prev else f, res_ok 0 deleted)
      else if c_Op c = opSetWithLease then
        (if lm_getHandle (f_leases f) (c_LeaseID c) = None then (f, res_err ErrLeaseNotFound)
         else
           let (s, prev, ver) = kv_set (f_state f) (c_Key c) (c_Value c) (c_LeaseID c)
           in (emitPut (with_state f s) (c_Key c) prev, res_ok ver True))
      else if c_Op c = opSetIfAbsentWithLease then
        (if lm_getHandle (f_leases f) (c_LeaseID c) = None then (f, res_err ErrLeaseNotFound)
         else
           let (s, ver, ok) = setIfAbsent (f_state f) (c_Key c) (c_Value c) (c_LeaseID c);
               f = with_state f s
           in (if ok then emitPut f (c_Key c) None else f, res_ok ver ok))
      else if c_Op c = opLeaseGrant then
        (f\<lparr>f_state := addLease (f_state f) (c_LeaseID c) (c_TTLms c) (c_ExpiresAtMs c),
            f_leases := fst (lm_grant (f_leases f) (c_LeaseID c) (msToDuration (c_TTLms c)) now)\<rparr>,
         res_ok 0 True)
      else if c_Op c = opLeaseRenew then
        let (m, ok) = lm_renew (f_leases f) (c_LeaseID c) now; f = f\<lparr>f_leases := m\<rparr>
        in if \<not> ok then (f, res_err ErrLeaseNotFound)
           else
             (case st_leases (f_state f) (c_LeaseID c) of
                None \<Rightarrow> f
              | Some ls \<Rightarrow> with_state f ((f_state f)\<lparr>st_leases :=
                  (st_leases (f_state f))(c_LeaseID c \<mapsto> ls\<lparr>ls_expiresAtMs := c_ExpiresAtMs c\<rparr>)\<rparr>),
              res_ok 0 True)
      else if c_Op c = opLeaseRevoke then
        let (s, keys) = removeLease it (f_state f) (c_LeaseID c);
            f = fold (delKey WatchExpired) keys (with_state f s)
        in (f\<lparr>f_leases := fst (lm_revoke (f_leases f) (c_LeaseID c))\<rparr>, res_ok 0 True)
      else (f, res_err (ErrUnknownOp (c_Op c))))"

definition Apply ::
  "(string \<Rightarrow> u64) \<Rightarrow> (string set \<Rightarrow> string list) \<Rightarrow> int \<Rightarrow> RaftFSM \<Rightarrow> raft_log
     \<Rightarrow> RaftFSM \<times> applyResult \<times> watchRecord list" where
  "Apply xxh it now f lg =
     (let f = with_state f ((f_state f)\<lparr>st_applyIndex := log_Index lg\<rparr>)
      in if log_Data lg \<noteq> [] \<and> hd (log_Data lg) = opTxn
         then
           case decodeTxn (log_Data lg) of
             Inl e \<Rightarrow> (f, res_err (ErrCodec e), [])
           | Inr ops \<Rightarrow>
               (let (f, res) = applyTxn f ops; (f, records) = flush xxh it f in (f, res, records))
         else
           case decodeCommand (log_Data lg) of
             Inl e \<Rightarrow> (f, res_err (ErrCodec e), [])
           | Inr c \<Rightarrow>
               (let (f, res) = applyCommand it now f c; (f, records) = flush xxh it f
                in (f, res, records)))"

lemma applyCommand_cas:
  "c_Op c = opCAS \<Longrightarrow> applyCommand it now f c =
     (let prev = kv_get (f_state f) (c_Key c);
          (s, ver, ok) = cas (f_state f) (c_Key c) (c_Expect c) (c_Value c);
          f = with_state f s
      in (if ok then emitPut f (c_Key c) prev else f, res_ok ver ok))"
  by (simp add: applyCommand_def opcode_defs)

lemma applyCommand_grant:
  "c_Op c = opLeaseGrant \<Longrightarrow> applyCommand it now f c =
     (f\<lparr>f_state := addLease (f_state f) (c_LeaseID c) (c_TTLms c) (c_ExpiresAtMs c),
        f_leases := fst (lm_grant (f_leases f) (c_LeaseID c) (msToDuration (c_TTLms c)) now)\<rparr>,
      res_ok 0 True)"
  by (simp add: applyCommand_def opcode_defs)

lemma applyCommand_revoke:
  "c_Op c = opLeaseRevoke \<Longrightarrow> applyCommand it now f c =
     (let (s, keys) = removeLease it (f_state f) (c_LeaseID c);
          f = fold (delKey WatchExpired) keys (with_state f s)
      in (f\<lparr>f_leases := fst (lm_revoke (f_leases f) (c_LeaseID c))\<rparr>, res_ok 0 True))"
  by (simp add: applyCommand_def opcode_defs)

section \<open>Local reads\<close>

definition fsm_get :: "(string \<Rightarrow> u64) \<Rightarrow> RaftFSM \<Rightarrow> string \<Rightarrow> Entry option" where
  "fsm_get xxh f key =
     (case f_snap f of None \<Rightarrow> None | Some snap \<Rightarrow> sn_get xxh (f_heap f) snap key)"

definition fsm_scan ::
  "(string set \<Rightarrow> string list) \<Rightarrow> RaftFSM \<Rightarrow> string \<Rightarrow> (Entry \<Rightarrow> 'acc \<Rightarrow> 'acc \<times> bool) \<Rightarrow> 'acc \<Rightarrow> 'acc" where
  "fsm_scan it f prefix fn acc = sn_scan it (f_heap f) (f_snap f) prefix fn acc"

definition leaseSnapshot :: "RaftFSM \<Rightarrow> string \<rightharpoonup> i64" where
  "leaseSnapshot f = (\<lambda>lid. map_option ls_expiresAtMs (st_leases (f_state f) lid))"

section \<open>Snapshot and restore\<close>

record snapEntry =
  se_Key :: string
  se_LeaseID :: string
  se_Value :: "byte list"
  se_Version :: u64
  se_Epoch :: u64

record snapLease =
  sl_ID :: string
  sl_Keys :: "string list"
  sl_TTLms :: i64
  sl_ExpiresAtMs :: i64

record fsmState =
  fs_Entries :: "snapEntry list"
  fs_Leases :: "snapLease list"
  fs_ApplyIndex :: u64
  fs_Version :: u64

definition fsm_Snapshot :: "(string set \<Rightarrow> string list) \<Rightarrow> RaftFSM \<Rightarrow> fsmState" where
  "fsm_Snapshot it f =
     (let s = f_state f in
      \<lparr>fs_Entries = List.map_filter (\<lambda>k. map_option (\<lambda>e. \<lparr>se_Key = e_key e, se_LeaseID = e_leaseID e,
          se_Value = e_value e, se_Version = e_version e, se_Epoch = e_epoch e\<rparr>) (st_entries s k))
         (it (dom (st_entries s))),
       fs_Leases = List.map_filter (\<lambda>l. map_option (\<lambda>ls. \<lparr>sl_ID = l, sl_Keys = it (ls_keys ls),
          sl_TTLms = ls_ttl ls, sl_ExpiresAtMs = ls_expiresAtMs ls\<rparr>) (st_leases s l))
         (it (dom (st_leases s))),
       fs_ApplyIndex = st_applyIndex s, fs_Version = st_version s\<rparr>)"

text \<open>
  The two loops of \<^verbatim>\<open>Restore\<close>. The lease loop reads the clock for each lease's timer; one
  reading \<open>now\<close> stands for all. The saved key lists of the leases are not read: keys are
  attached again from the entries.
\<close>

definition restoreLease :: "int \<Rightarrow> snapLease \<Rightarrow> state \<times> leaseManager \<Rightarrow> state \<times> leaseManager" where
  "restoreLease now l = (\<lambda>(s, m).
     (addLease s (sl_ID l) (sl_TTLms l) (sl_ExpiresAtMs l),
      fst (lm_grant m (sl_ID l) (msToDuration (sl_TTLms l)) now)))"

definition restoreEntry :: "snapEntry \<Rightarrow> state \<Rightarrow> state" where
  "restoreEntry e s =
     (let s = (if se_Epoch e > st_applyIndex s then s\<lparr>st_applyIndex := se_Epoch e\<rparr> else s);
          s = s\<lparr>st_entries := (st_entries s)(se_Key e \<mapsto>
                 \<lparr>e_key = se_Key e, e_leaseID = se_LeaseID e, e_value = se_Value e,
                  e_version = se_Version e, e_epoch = se_Epoch e\<rparr>)\<rparr>
      in if se_LeaseID e \<noteq> [] then attach s (se_LeaseID e) (se_Key e) else s)"

text \<open>An empty stream (\<open>None\<close>) resets to empty: the zero \<^verbatim>\<open>fsmState\<close>.\<close>

definition fsm_Restore ::
  "(string \<Rightarrow> u64) \<Rightarrow> (string set \<Rightarrow> string list) \<Rightarrow> int \<Rightarrow> RaftFSM \<Rightarrow> fsmState option \<Rightarrow> RaftFSM" where
  "fsm_Restore xxh it now f stream =
     (let st = (case stream of None \<Rightarrow> \<lparr>fs_Entries = [], fs_Leases = [], fs_ApplyIndex = 0, fs_Version = 0\<rparr>
                | Some st \<Rightarrow> st);
          fresh = newState\<lparr>st_version := fs_Version st, st_revision := fs_Version st,
                           st_applyIndex := fs_ApplyIndex st\<rparr>;
          (fresh, leases) = fold (restoreLease now) (fs_Leases st) (fresh, newLeaseManager);
          fresh = fold restoreEntry (fs_Entries st) fresh;
          (h, fresh, published) = kv_snapshot xxh it (f_heap f) fresh
      in f\<lparr>f_state := fresh, f_leases := leases, f_heap := h, f_snap := Some published\<rparr>)"

section \<open>Mutations\<close>

text \<open>
  Every command changes the mutable state by a sequence of a few primitive mutations.
  \<open>kv_muts g n s s'\<close>: such a sequence leads from \<open>s\<close> to \<open>s'\<close>, with at most \<open>n\<close> writes (each
  advances the version counter), and with lease grants only if \<open>g\<close>.
\<close>

inductive kv_muts :: "bool \<Rightarrow> nat \<Rightarrow> state \<Rightarrow> state \<Rightarrow> bool" for g :: bool where
  mut_refl [intro]: "kv_muts g n s s"
| mut_set: "kv_muts g n s s' \<Longrightarrow> kv_muts g (Suc n) s (fst (kv_set s' k v l))"
| mut_del: "kv_muts g n s s' \<Longrightarrow> kv_muts g n s (fst (kv_del s' k))"
| mut_grant: "g \<Longrightarrow> kv_muts g n s s' \<Longrightarrow> kv_muts g n s (addLease s' l t x)"
| mut_remove: "kv_muts g n s s' \<Longrightarrow> kv_muts g n s (fst (removeLease it s' l))"
| mut_renew: "kv_muts g n s s' \<Longrightarrow> st_leases s' l = Some ls \<Longrightarrow>
    kv_muts g n s (s'\<lparr>st_leases := (st_leases s')(l \<mapsto> ls\<lparr>ls_expiresAtMs := x\<rparr>)\<rparr>)"

lemma kv_muts_mono: "kv_muts g n s s' \<Longrightarrow> n \<le> n' \<Longrightarrow> kv_muts g n' s s'"
proof (induction arbitrary: n' rule: kv_muts.induct)
  case (mut_set n s s' k v l)
  then obtain m where "n' = Suc m" "n \<le> m"
    by (cases n') auto
  with mut_set show ?case by (auto intro: kv_muts.intros)
qed (auto intro: kv_muts.intros)

lemma kv_muts_trans: "kv_muts g n' s' s'' \<Longrightarrow> kv_muts g n s s' \<Longrightarrow> kv_muts g (n + n') s s''"
  by (induction rule: kv_muts.induct) (auto intro: kv_muts.intros kv_muts_mono)

lemma wf_entries_renew [kv_inv]: "wf_entries (s\<lparr>st_leases := x\<rparr>) = wf_entries s"
  by (simp add: wf_entries_def)

lemma wf_versions_renew [kv_inv]: "wf_versions (s\<lparr>st_leases := x\<rparr>) = wf_versions s"
  by (simp add: wf_versions_def)

lemma pub_inv_renew [kv_inv]: "pub_inv xxh h (s\<lparr>st_leases := x\<rparr>) = pub_inv xxh h s"
  by (simp add: pub_inv_def split: option.split)

lemma wf_leases_renew:
  "wf_leases s \<Longrightarrow> st_leases s l = Some ls \<Longrightarrow>
     wf_leases (s\<lparr>st_leases := (st_leases s)(l \<mapsto> ls\<lparr>ls_expiresAtMs := x\<rparr>)\<rparr>)"
  by (simp add: wf_leases_def)

lemma lease_complete_renew:
  "lease_complete s \<Longrightarrow> st_leases s l = Some ls \<Longrightarrow>
     lease_complete (s\<lparr>st_leases := (st_leases s)(l \<mapsto> ls\<lparr>ls_expiresAtMs := x\<rparr>)\<rparr>)"
  by (auto simp: lease_complete_def)

lemma kv_muts_wf:
  assumes "kv_muts g n s s'"
  shows "wf_entries s \<Longrightarrow> wf_entries s'" and "wf_leases s \<Longrightarrow> wf_leases s'"
    and "pub_inv xxh h s \<Longrightarrow> pub_inv xxh h s'" and "st_applyIndex s' = st_applyIndex s"
  using assms
  by (induction rule: kv_muts.induct) (simp_all add: kv_inv kv_fields wf_leases_renew)

lemma kv_muts_complete: "kv_muts g n s s' \<Longrightarrow> \<not> g \<Longrightarrow> lease_complete s \<Longrightarrow> lease_complete s'"
  by (induction rule: kv_muts.induct) (simp_all add: kv_inv lease_complete_renew)

text \<open>
  With room in the version counter: it never goes down, live versions stay unique, and an
  entry with an old version is the old entry (no write is ever given a version that was
  handed out before).
\<close>

lemma kv_muts_versions:
  assumes "kv_muts g n s s'" and "wf_versions s" and "unat (st_version s) + n < 2 ^ 64"
  shows "wf_versions s' \<and> unat (st_version s') \<le> unat (st_version s) + n \<and>
     st_version s \<le> st_version s' \<and>
     (\<forall>k e. st_entries s' k = Some e \<longrightarrow> e_version e \<le> st_version s \<longrightarrow> st_entries s k = Some e)"
  using assms
proof (induction rule: kv_muts.induct)
  case (mut_set n s s' k v l)
  then have IH: "wf_versions s'" "unat (st_version s') \<le> unat (st_version s) + n"
      "st_version s \<le> st_version s'"
      "\<forall>k e. st_entries s' k = Some e \<longrightarrow> e_version e \<le> st_version s \<longrightarrow> st_entries s k = Some e"
    by auto
  have lt: "unat (st_version s') < 2 ^ 64 - 1"
    using IH(2) mut_set.prems by simp
  then have b: "can_bump s'"
    by (simp add: can_bump_def word_less_nat_alt unsigned_minus_1_eq_mask mask_eq_exp_minus_1)
  have u: "unat (st_version s' + 1) = Suc (unat (st_version s'))"
    using lt by (simp add: unat_word_ariths)
  have "st_version s < st_version s' + 1"
    using IH(3) u by (simp add: word_less_nat_alt word_le_nat_alt)
  with IH b u show ?case
    by (auto simp: kv_fields kv_inv word_le_nat_alt)
qed (auto simp: kv_inv kv_fields)

section \<open>Every command is a sequence of mutations\<close>

named_theorems fsm_fields \<open>the effect of each step on the fields of the machine\<close>

lemma emit_fields [fsm_fields, simp]:
  "f_state (emitEvent f t c p) = f_state f" "f_leases (emitEvent f t c p) = f_leases f"
  "f_heap (emitEvent f t c p) = f_heap f" "f_snap (emitEvent f t c p) = f_snap f"
  "f_state (emitPut f k p) = f_state f" "f_leases (emitPut f k p) = f_leases f"
  "f_heap (emitPut f k p) = f_heap f" "f_snap (emitPut f k p) = f_snap f"
  by (auto simp: emitEvent_def emitPut_def split: option.split)

lemma with_state_fields [fsm_fields, simp]:
  "f_state (with_state f s) = s" "f_leases (with_state f s) = f_leases f"
  "f_heap (with_state f s) = f_heap f" "f_snap (with_state f s) = f_snap f"
  "f_outbox (with_state f s) = f_outbox f"
  by (simp_all add: with_state_def)

lemma delKey_fields [fsm_fields, simp]:
  "f_state (delKey t k f) = fst (kv_del (f_state f) k)" "f_leases (delKey t k f) = f_leases f"
  "f_heap (delKey t k f) = f_heap f" "f_snap (delKey t k f) = f_snap f"
  by (auto simp: delKey_def Let_def split_def split: option.split)

lemma fold_delKey_fields [fsm_fields, simp]:
  "f_leases (fold (delKey t) ks f) = f_leases f" "f_heap (fold (delKey t) ks f) = f_heap f"
  "f_snap (fold (delKey t) ks f) = f_snap f"
  by (induction ks arbitrary: f) simp_all

lemma fold_delKey_muts: "kv_muts g n s (f_state f) \<Longrightarrow> kv_muts g n s (f_state (fold (delKey t) ks f))"
  by (induction ks arbitrary: f) (simp_all add: mut_del)

lemma fold_delKey_entries:
  "st_entries (f_state (fold (delKey t) ks f)) = (\<lambda>k. if k \<in> set ks then None else st_entries (f_state f) k)"
  by (induction ks arbitrary: f) (auto simp: kv_fields fun_eq_iff)

lemma fold_delKey_state:
  "st_version (f_state (fold (delKey t) ks f)) = st_version (f_state f)"
  "st_applyIndex (f_state (fold (delKey t) ks f)) = st_applyIndex (f_state f)"
  by (induction ks arbitrary: f) (auto simp: kv_fields)

lemma txnStep_fields [fsm_fields, simp]:
  "f_state (txnStep op f) =
     (if t_Kind op = TxnPut then fst (kv_set (f_state f) (t_Key op) (t_Value op) [])
      else if t_Kind op = TxnDelete then fst (kv_del (f_state f) (t_Key op)) else f_state f)"
  "f_leases (txnStep op f) = f_leases f" "f_heap (txnStep op f) = f_heap f"
  "f_snap (txnStep op f) = f_snap f"
  by (simp_all add: txnStep_def Let_def split_def)

lemma fold_txnStep_fields [fsm_fields, simp]:
  "f_leases (fold txnStep ops f) = f_leases f" "f_heap (fold txnStep ops f) = f_heap f"
  "f_snap (fold txnStep ops f) = f_snap f"
  by (induction ops arbitrary: f) simp_all

lemma fold_txnStep_muts:
  "kv_muts g n s (f_state f) \<Longrightarrow> kv_muts g (n + length ops) s (f_state (fold txnStep ops f))"
proof (induction ops arbitrary: f n)
  case Nil
  then show ?case by simp
next
  case (Cons op ops)
  have "kv_muts g (Suc n) s (f_state (txnStep op f))"
    using Cons.prems kv_muts_mono [OF mut_del [OF Cons.prems], of "Suc n" "t_Key op"]
      kv_muts_mono [OF Cons.prems, of "Suc n"]
    by (auto intro: mut_set)
  from Cons.IH [OF this] show ?case by simp
qed

lemma applyTxn_muts: "kv_muts g (length ops) (f_state f) (f_state (fst (applyTxn f ops)))"
  using fold_txnStep_muts [of g 0 "f_state f" f ops] by (auto simp: applyTxn_def)

lemma cas_mut: "kv_muts g (Suc 0) s (fst (cas s k x v))"
  by (auto simp: cas_def Let_def split_def intro!: mut_set mut_refl)

lemma setIfAbsent_mut: "kv_muts g (Suc 0) s (fst (setIfAbsent s k v l))"
  by (auto simp: setIfAbsent_def Let_def split_def intro!: mut_set mut_refl split: option.split)

lemma compareAndDelete_mut: "kv_muts g n s (fst (compareAndDelete s k x))"
  by (auto simp: compareAndDelete_def intro!: mut_del mut_refl split: option.split)

lemma set_mut: "kv_muts g (Suc 0) s (fst (kv_set s k v l))"
  by (intro mut_set mut_refl)

lemma muts_if:
  "(b \<Longrightarrow> kv_muts g n s (f_state (fst x))) \<Longrightarrow> (\<not> b \<Longrightarrow> kv_muts g n s (f_state (fst y))) \<Longrightarrow>
     kv_muts g n s (f_state (fst (if b then x else y)))"
  by simp

lemma revoke_muts: "kv_muts g n (f_state f) (f_state (fold (delKey t) ks
    (with_state f (fst (removeLease it (f_state f) l)))))"
  by (intro fold_delKey_muts) (simp add: mut_remove mut_refl)

lemmas muts_ops = set_mut cas_mut setIfAbsent_mut compareAndDelete_mut revoke_muts
  mut_grant mut_renew mut_remove mut_del mut_refl

lemma applyCommand_muts:
  "kv_muts (c_Op c = opLeaseGrant) (Suc 0) (f_state f) (f_state (fst (applyCommand it now f c)))"
  unfolding applyCommand_def
  by (intro muts_if; simp only: Let_def split_def fst_conv if_distrib [of fst] if_distrib [of f_state]
        emit_fields with_state_fields if_cancel)
    (simp_all add: muts_ops split: option.split prod.split)

section \<open>Agreement of replicas\<close>

text \<open>
  \<open>kv_eq s t\<close>: the replicated part of two states agrees. The dirty set, the published
  snapshot and the revision counter are local to a replica.
\<close>

definition kv_eq :: "state \<Rightarrow> state \<Rightarrow> bool" where
  "kv_eq s t \<longleftrightarrow> st_entries s = st_entries t \<and> st_leases s = st_leases t \<and>
     st_version s = st_version t \<and> st_applyIndex s = st_applyIndex t"

named_theorems kv_eqs \<open>operations on agreeing states agree\<close>

lemma kv_eq_refl [kv_eqs, simp]: "kv_eq s s"
  by (simp add: kv_eq_def)

lemma bound_cong:
  assumes "st_entries s k = st_entries t k"
  shows "unbound s k = unbound t k" and "rebound s k = rebound t k"
  by (intro ext, simp only: unbound_def assms)
    (intro ext, simp only: rebound_def unbound_def assms)

lemma kv_eq_set [kv_eqs]:
  assumes "kv_eq s t"
  shows "kv_eq (fst (kv_set s k v l)) (fst (kv_set t k v l))" "snd (kv_set s k v l) = snd (kv_set t k v l)"
proof -
  have "st_leases (fst (kv_set s k v l)) = st_leases (fst (kv_set t k v l))"
    using assms bound_cong [of s k t] by (intro ext) (simp add: kv_fields kv_eq_def)
  then show "kv_eq (fst (kv_set s k v l)) (fst (kv_set t k v l))"
    using assms by (simp add: kv_eq_def kv_fields)
  show "snd (kv_set s k v l) = snd (kv_set t k v l)"
    using assms by (simp add: kv_set_def nextVersion_def kv_eq_def Let_def)
qed

lemma kv_eq_del [kv_eqs]:
  assumes "kv_eq s t"
  shows "kv_eq (fst (kv_del s k)) (fst (kv_del t k))" "snd (kv_del s k) = snd (kv_del t k)"
proof -
  have "st_leases (fst (kv_del s k)) = st_leases (fst (kv_del t k))"
    using assms bound_cong [of s k t] by (intro ext) (simp add: kv_fields kv_eq_def)
  then show "kv_eq (fst (kv_del s k)) (fst (kv_del t k))" "snd (kv_del s k) = snd (kv_del t k)"
    using assms by (simp_all add: kv_eq_def kv_fields)
qed

lemma kv_eq_get: "kv_eq s t \<Longrightarrow> kv_get s k = kv_get t k"
  by (simp add: kv_eq_def kv_get_def)

lemma kv_eq_setIfAbsent [kv_eqs]:
  assumes "kv_eq s t"
  shows "kv_eq (fst (setIfAbsent s k v l)) (fst (setIfAbsent t k v l))"
    "snd (setIfAbsent s k v l) = snd (setIfAbsent t k v l)"
  using assms kv_eq_set [OF assms]
  by (auto simp: setIfAbsent_def Let_def split_def kv_eq_def split: option.split)

lemma kv_eq_cas [kv_eqs]:
  assumes "kv_eq s t"
  shows "kv_eq (fst (cas s k x v)) (fst (cas t k x v))" "snd (cas s k x v) = snd (cas t k x v)"
proof -
  have e: "st_entries s = st_entries t" using assms by (simp add: kv_eq_def)
  show "kv_eq (fst (cas s k x v)) (fst (cas t k x v))" "snd (cas s k x v) = snd (cas t k x v)"
    using assms by (simp_all add: cas_def Let_def split_def e kv_eq_set [OF assms])
qed

lemma kv_eq_compareAndDelete [kv_eqs]:
  assumes "kv_eq s t"
  shows "kv_eq (fst (compareAndDelete s k x)) (fst (compareAndDelete t k x))"
    "snd (compareAndDelete s k x) = snd (compareAndDelete t k x)"
proof -
  have e: "st_entries s = st_entries t" using assms by (simp add: kv_eq_def)
  show "kv_eq (fst (compareAndDelete s k x)) (fst (compareAndDelete t k x))"
    "snd (compareAndDelete s k x) = snd (compareAndDelete t k x)"
    using assms by (simp_all add: compareAndDelete_def e kv_eq_del [OF assms] split: option.split)
qed

lemma kv_eq_lease [kv_eqs]:
  "kv_eq s t \<Longrightarrow> kv_eq (addLease s l x y) (addLease t l x y)"
  "kv_eq s t \<Longrightarrow> kv_eq (fst (removeLease it s l)) (fst (removeLease it' t l))"
  by (simp_all add: kv_eq_def kv_fields)

text \<open>
  \<open>mid_eq f g\<close>: two replicas in the middle of the same command. Watch records may be buffered
  in a different order, because a revoked lease's keys are visited in map order.
\<close>

definition ids_eq :: "leaseManager \<Rightarrow> leaseManager \<Rightarrow> bool" where
  "ids_eq m m' \<longleftrightarrow> dom (lm_handles m) = dom (lm_handles m')"

definition mid_eq :: "RaftFSM \<Rightarrow> RaftFSM \<Rightarrow> bool" where
  "mid_eq f g \<longleftrightarrow> kv_eq (f_state f) (f_state g) \<and> mset (f_outbox f) = mset (f_outbox g)"

lemma outbox_emit:
  "f_outbox (emitEvent f t c p) = f_outbox f @ [\<lparr>wr_typ = t, wr_current = c, wr_previous = p,
     wr_index = st_applyIndex (f_state f), wr_revision = 0\<rparr>]"
  by (simp add: emitEvent_def)

lemma mid_eq_with_state: "mid_eq f g \<Longrightarrow> kv_eq s t \<Longrightarrow> mid_eq (with_state f s) (with_state g t)"
  by (simp add: mid_eq_def)

lemma mid_eq_emit: "mid_eq f g \<Longrightarrow> mid_eq (emitEvent f t c p) (emitEvent g t c p)"
  by (simp add: mid_eq_def outbox_emit kv_eq_def)

lemma mid_eq_put: "mid_eq f g \<Longrightarrow> mid_eq (emitPut f k p) (emitPut g k p)"
  unfolding emitPut_def
  using kv_eq_get [of "f_state f" "f_state g" k] mid_eq_emit [of f g]
  by (auto simp: mid_eq_def split: option.split)

lemma mid_eq_leases [simp]:
  "mid_eq (f\<lparr>f_leases := m\<rparr>) g = mid_eq f g" "mid_eq f (g\<lparr>f_leases := m\<rparr>) = mid_eq f g"
  by (simp_all add: mid_eq_def)

lemma mid_eq_delKey: "mid_eq f g \<Longrightarrow> mid_eq (delKey t k f) (delKey t k g)"
  unfolding delKey_def
  using kv_eq_del [of "f_state f" "f_state g" k]
  by (auto simp: mid_eq_def Let_def split_def outbox_emit kv_eq_def split: option.split)

lemma mid_eq_txnStep: "mid_eq f g \<Longrightarrow> mid_eq (txnStep op f) (txnStep op g)"
proof -
  assume e: "mid_eq f g"
  then have s: "kv_eq (f_state f) (f_state g)"
    by (simp add: mid_eq_def)
  show ?thesis
    using e by (simp add: txnStep_def Let_def split_def kv_eq_get [OF s] mid_eq_delKey
        mid_eq_put mid_eq_with_state kv_eq_set [OF s])
qed

lemma mid_eq_fold_txnStep: "mid_eq f g \<Longrightarrow> mid_eq (fold txnStep ops f) (fold txnStep ops g)"
  by (induction ops arbitrary: f g) (simp_all add: mid_eq_txnStep)

lemma mid_eq_fold_delKey: "mid_eq f g \<Longrightarrow> mid_eq (fold (delKey t) ks f) (fold (delKey t) ks g)"
  by (induction ks arbitrary: f g) (simp_all add: mid_eq_delKey)

text \<open>Deleting a list of distinct keys: the result does not depend on their order.\<close>

definition delRecord :: "WatchEventType \<Rightarrow> state \<Rightarrow> string \<Rightarrow> watchRecord option" where
  "delRecord t s k = map_option (\<lambda>p. \<lparr>wr_typ = t, wr_current = None, wr_previous = Some p,
     wr_index = st_applyIndex s, wr_revision = 0\<rparr>) (st_entries s k)"

lemma map_filter_cong: "(\<And>x. x \<in> set xs \<Longrightarrow> f x = g x) \<Longrightarrow> List.map_filter f xs = List.map_filter g xs"
  by (induction xs) (simp_all add: map_filter_simps split: option.split)

lemma fold_delKey_outbox:
  "distinct ks \<Longrightarrow>
     f_outbox (fold (delKey t) ks f) = f_outbox f @ List.map_filter (delRecord t (f_state f)) ks"
proof (induction ks arbitrary: f)
  case Nil
  then show ?case by (simp add: map_filter_simps)
next
  case (Cons k ks)
  have "List.map_filter (delRecord t (f_state (delKey t k f))) ks = List.map_filter (delRecord t (f_state f)) ks"
    using Cons.prems by (intro map_filter_cong) (auto simp: delRecord_def kv_fields)
  moreover have "f_outbox (delKey t k f) = f_outbox f @ List.map_filter (delRecord t (f_state f)) [k]"
    by (auto simp: delKey_def Let_def split_def outbox_emit delRecord_def kv_fields map_filter_simps
        split: option.split)
  ultimately show ?case
    using Cons by (simp add: map_filter_simps split: option.split)
qed

definition lost_keys :: "state \<Rightarrow> string set \<Rightarrow> string \<Rightarrow> string set" where
  "lost_keys s K l = {k \<in> K. l \<noteq> [] \<and> map_option e_leaseID (st_entries s k) = Some l}"

lemma unbound_lost: "unbound s k l ls = ls\<lparr>ls_keys := ls_keys ls - lost_keys s {k} l\<rparr>"
proof (cases "l \<noteq> [] \<and> map_option e_leaseID (st_entries s k) = Some l")
  case True
  then have "lost_keys s {k} l = {k}" by (auto simp: lost_keys_def)
  with True show ?thesis by (simp add: unbound_def)
next
  case False
  then have "lost_keys s {k} l = {}" by (auto simp: lost_keys_def)
  with False show ?thesis by (auto simp: unbound_def)
qed

lemma fold_delKey_leases:
  "st_leases (f_state (fold (delKey t) ks f)) l =
     map_option (\<lambda>ls. ls\<lparr>ls_keys := ls_keys ls - lost_keys (f_state f) (set ks) l\<rparr>) (st_leases (f_state f) l)"
proof (induction ks arbitrary: f)
  case Nil
  then show ?case by (cases "st_leases (f_state f) l") (simp_all add: lost_keys_def)
next
  case (Cons k ks)
  have l: "lost_keys (f_state f) (set (k # ks)) l =
      lost_keys (f_state f) {k} l \<union> lost_keys (fst (kv_del (f_state f) k)) (set ks) l"
    by (auto simp: lost_keys_def kv_fields split: if_splits)
  show ?case
    unfolding l using Cons [of "delKey t k f"]
    by (cases "st_leases (f_state f) l") (simp_all add: kv_fields unbound_lost Diff_Un Diff_eq Int_assoc)
qed

lemma mset_map_filter: "mset (List.map_filter f xs) =
    image_mset (\<lambda>x. the (f x)) (filter_mset (\<lambda>x. f x \<noteq> None) (mset xs))"
  by (simp add: List.map_filter_def comp_def)

lemma mid_eq_fold_delKey_perm:
  assumes e: "mid_eq f g" and d: "distinct ks" "distinct ks'" "set ks = set ks'"
  shows "mid_eq (fold (delKey t) ks f) (fold (delKey t) ks' g)"
proof -
  have k: "kv_eq (f_state f) (f_state g)" and m: "mset ks = mset ks'"
    using e d by (simp_all add: mid_eq_def set_eq_iff_mset_eq_distinct)
  then have r: "delRecord t (f_state f) = delRecord t (f_state g)"
      "lost_keys (f_state f) = lost_keys (f_state g)"
    by (simp_all add: fun_eq_iff delRecord_def lost_keys_def kv_eq_def)
  have "st_leases (f_state (fold (delKey t) ks f)) = st_leases (f_state (fold (delKey t) ks' g))"
    using k by (intro ext) (simp add: fold_delKey_leases r d kv_eq_def)
  with k have "kv_eq (f_state (fold (delKey t) ks f)) (f_state (fold (delKey t) ks' g))"
    using d by (auto simp: kv_eq_def fold_delKey_entries fold_delKey_state)
  then show ?thesis
    using e m by (simp add: mid_eq_def fold_delKey_outbox d(1,2) r mset_map_filter)
qed

section \<open>The invariant of the machine\<close>

text \<open>
  At rest (between two log entries) the local lease manager tracks exactly the replicated
  leases, the published snapshot is the last one built, and no watch record is buffered.
\<close>

definition lm_ok :: "leaseManager \<Rightarrow> bool" where
  "lm_ok m \<longleftrightarrow> lm_inv m \<and> dom (lm_entries m) = dom (lm_handles m) \<and> finite (dom (lm_handles m))"

definition fsm_ok :: "(string \<Rightarrow> u64) \<Rightarrow> RaftFSM \<Rightarrow> bool" where
  "fsm_ok xxh f \<longleftrightarrow> wf_entries (f_state f) \<and> wf_leases (f_state f) \<and> pub_inv xxh (f_heap f) (f_state f) \<and>
     lm_ok (f_leases f) \<and> dom (lm_handles (f_leases f)) = dom (st_leases (f_state f)) \<and>
     f_outbox f = [] \<and> st_dirty (f_state f) = {} \<and> f_snap f = st_published (f_state f) \<and>
     st_published (f_state f) \<noteq> None"

lemma lm_ok_new: "lm_ok newLeaseManager"
  using lm_inv_new(1) by (simp add: lm_ok_def) (simp add: newLeaseManager_def)

lemma lm_ok_grant:
  assumes "lm_ok m"
  shows "lm_ok (fst (lm_grant m l ttl now))"
    and "dom (lm_handles (fst (lm_grant m l ttl now))) = insert l (dom (lm_handles m))"
  using assms lm_grant_inv [of m l ttl now] by (simp_all add: lm_ok_def)

lemma lm_ok_renew:
  assumes "lm_ok m"
  shows "lm_ok (fst (lm_renew m l now))"
    and "lm_handles (fst (lm_renew m l now)) = lm_handles m"
    and "snd (lm_renew m l now) \<longleftrightarrow> l \<in> dom (lm_handles m)"
proof -
  show "lm_ok (fst (lm_renew m l now))" "lm_handles (fst (lm_renew m l now)) = lm_handles m"
    using assms lm_renew_inv [of m l now] by (simp_all add: lm_ok_def)
  have "l \<in> dom (lm_entries m) \<longleftrightarrow> l \<in> dom (lm_handles m)"
    using assms by (simp add: lm_ok_def)
  then show "snd (lm_renew m l now) \<longleftrightarrow> l \<in> dom (lm_handles m)"
    by (auto simp: lm_renew_def Let_def split: option.split)
qed

lemma lm_ok_revoke:
  assumes "lm_ok m"
  shows "lm_ok (fst (lm_revoke m l))"
    and "dom (lm_handles (fst (lm_revoke m l))) = dom (lm_handles m) - {l}"
proof -
  have d: "lm_entries m l = None \<longleftrightarrow> lm_handles m l = None"
    using assms unfolding lm_ok_def by (metis domIff)
  then show "dom (lm_handles (fst (lm_revoke m l))) = dom (lm_handles m) - {l}"
    using assms lm_revoke_inv [of m l] by (auto simp: lm_ok_def)
  with d show "lm_ok (fst (lm_revoke m l))"
    using assms lm_revoke_inv [of m l] by (simp add: lm_ok_def)
qed

text \<open>The set of live lease ids after a command.\<close>

definition live_after :: "command \<Rightarrow> string set \<Rightarrow> string set" where
  "live_after c L = (if c_Op c = opLeaseGrant then insert (c_LeaseID c) L
     else if c_Op c = opLeaseRevoke then L - {c_LeaseID c} else L)"

lemma opcodes_distinct:
  "distinct [opSet, opDelete, opCAS, opSetIfAbsent, opCompareAndDelete, opSetWithLease,
     opSetIfAbsentWithLease, opLeaseGrant, opLeaseRenew, opLeaseRevoke]"
  by code_simp

lemma if_prop: "(b \<Longrightarrow> P x) \<Longrightarrow> (\<not> b \<Longrightarrow> P y) \<Longrightarrow> P (if b then x else y)"
  by simp

lemma if_rel: "(b \<Longrightarrow> R x x') \<Longrightarrow> (\<not> b \<Longrightarrow> R y y') \<Longrightarrow> R (if b then x else y) (if b then x' else y')"
  by simp

lemma applyCommand_lm:
  assumes "lm_ok (f_leases f)"
  shows "lm_ok (f_leases (fst (applyCommand it now f c))) \<and>
     dom (lm_handles (f_leases (fst (applyCommand it now f c)))) = live_after c (dom (lm_handles (f_leases f)))"
  unfolding applyCommand_def
  using assms opcodes_distinct
  by (intro if_prop [where P = "\<lambda>x. lm_ok (f_leases (fst x)) \<and>
        dom (lm_handles (f_leases (fst x))) = live_after c (dom (lm_handles (f_leases f)))"])
    (simp_all add: Let_def split_def live_after_def lm_ok_grant lm_ok_renew lm_ok_revoke
      if_distrib [of fst] if_distrib [of f_leases] split: option.split)

lemma leases_dom:
  "dom (st_leases (fst (kv_set s k v l))) = dom (st_leases s)"
  "dom (st_leases (fst (kv_del s k))) = dom (st_leases s)"
  "dom (st_leases (f_state (fold (delKey t) ks f))) = dom (st_leases (f_state f))"
  by (auto simp: dom_def kv_fields fold_delKey_leases)

lemma leases_dom_cond:
  "dom (st_leases (fst (setIfAbsent s k v l))) = dom (st_leases s)"
  "dom (st_leases (fst (cas s k x v))) = dom (st_leases s)"
  "dom (st_leases (fst (compareAndDelete s k x))) = dom (st_leases s)"
  by (simp_all add: setIfAbsent_def cas_def compareAndDelete_def Let_def split_def leases_dom split: option.split)

lemma applyCommand_leases:
  "dom (st_leases (f_state (fst (applyCommand it now f c)))) = live_after c (dom (st_leases (f_state f)))"
  unfolding applyCommand_def
  using opcodes_distinct
  by (intro if_prop [where P = "\<lambda>x. dom (st_leases (f_state (fst x))) = live_after c (dom (st_leases (f_state f)))"])
    (auto simp: Let_def split_def live_after_def leases_dom leases_dom_cond kv_fields
      if_distrib [of fst] if_distrib [of f_state] split: option.split prod.split)

lemma applyTxn_fields [simp]:
  "f_leases (fst (applyTxn f ops)) = f_leases f" "f_heap (fst (applyTxn f ops)) = f_heap f"
  "f_snap (fst (applyTxn f ops)) = f_snap f"
  by (simp_all add: applyTxn_def)

lemma applyCommand_fields [simp]:
  "f_heap (fst (applyCommand it now f c)) = f_heap f" "f_snap (fst (applyCommand it now f c)) = f_snap f"
  unfolding applyCommand_def
  by (rule if_prop [where P = "\<lambda>x. f_heap (fst x) = f_heap f"] if_prop [where P = "\<lambda>x. f_snap (fst x) = f_snap f"]; simp add: Let_def split_def if_distrib [of fst]
      if_distrib [of f_heap] if_distrib [of f_snap] split: option.split prod.split)+

lemma txnStep_leases_dom: "dom (st_leases (f_state (txnStep op f))) = dom (st_leases (f_state f))"
  by (simp add: leases_dom)

lemma applyTxn_leases: "dom (st_leases (f_state (fst (applyTxn f ops)))) = dom (st_leases (f_state f))"
proof -
  have "dom (st_leases (f_state (fold txnStep ops f))) = dom (st_leases (f_state f))"
    by (induction ops arbitrary: f) (simp_all add: leases_dom)
  then show ?thesis by (simp add: applyTxn_def)
qed

lemma kv_muts_published: "kv_muts g n s s' \<Longrightarrow> st_published s' = st_published s"
  by (induction rule: kv_muts.induct) (simp_all add: kv_fields)

lemma mid_eqD: "mid_eq f g \<Longrightarrow> kv_eq (f_state f) (f_state g)"
  by (simp add: mid_eq_def)

lemma removeLease_snd:
  "snd (removeLease it s l) = (case st_leases s l of None \<Rightarrow> [] | Some ls \<Rightarrow> it (ls_keys ls))"
  by (simp add: removeLease_def split: option.split)

lemma removeLease_orders:
  assumes "map_order it" "map_order it'" "kv_eq s t" "wf_entries s" "wf_leases s"
  shows "set (snd (removeLease it s l)) = set (snd (removeLease it' t l))"
    and "distinct (snd (removeLease it s l))" and "distinct (snd (removeLease it' t l))"
proof -
  have f: "finite (ls_keys ls)" if "st_leases s l = Some ls" for ls
    using lease_keys_finite [OF assms(4,5) that] .
  have e: "st_leases t = st_leases s"
    using assms(3) by (simp add: kv_eq_def)
  show "set (snd (removeLease it s l)) = set (snd (removeLease it' t l))"
    "distinct (snd (removeLease it s l))" "distinct (snd (removeLease it' t l))"
    using f assms(1,2)
    by (cases "st_leases s l"; simp add: removeLease_snd e map_order_set map_order_distinct)+
qed

lemma mid_eq_revoke:
  assumes e: "mid_eq f g" and it: "map_order it" "map_order it'"
    and wf: "wf_entries (f_state f)" "wf_leases (f_state f)"
  shows "mid_eq (fold (delKey t) (snd (removeLease it (f_state f) l)) (with_state f (fst (removeLease it (f_state f) l))))
    (fold (delKey t) (snd (removeLease it' (f_state g) l)) (with_state g (fst (removeLease it' (f_state g) l))))"
  using removeLease_orders [OF it mid_eqD [OF e] wf, of l]
  by (intro mid_eq_fold_delKey_perm mid_eq_with_state e kv_eq_lease mid_eqD)

lemma applyTxn_mid_eq:
  assumes e: "mid_eq f g"
  shows "mid_eq (fst (applyTxn f ops)) (fst (applyTxn g ops))" "snd (applyTxn f ops) = snd (applyTxn g ops)"
  using e mid_eq_fold_txnStep [OF e] kv_eq_get [OF mid_eqD [OF e]] by (simp_all add: applyTxn_def)

lemma applyCommand_mid_eq:
  assumes e: "mid_eq f g" and ids: "dom (lm_handles (f_leases f)) = dom (lm_handles (f_leases g))"
    and lm: "lm_ok (f_leases f)" "lm_ok (f_leases g)"
    and it: "map_order it" "map_order it'"
    and wf: "wf_entries (f_state f)" "wf_leases (f_state f)"
  shows "mid_eq (fst (applyCommand it now f c)) (fst (applyCommand it' now' g c)) \<and>
     snd (applyCommand it now f c) = snd (applyCommand it' now' g c)"
proof -
  have k: "kv_eq (f_state f) (f_state g)"
    using e by (rule mid_eqD)
  have h: "(lm_handles (f_leases f) l = None) = (lm_handles (f_leases g) l = None)" for l
    using ids by (metis domIff)
  have r: "snd (lm_renew (f_leases f) l now) = snd (lm_renew (f_leases g) l now')" for l
    using lm ids by (simp add: lm_ok_renew)
  have s: "st_leases (f_state f) = st_leases (f_state g)"
    using k by (simp add: kv_eq_def)
  have renew: "kv_eq ((f_state f)\<lparr>st_leases := x\<rparr>) ((f_state g)\<lparr>st_leases := x\<rparr>)" for x
    using k by (simp add: kv_eq_def)
  have upd: "mid_eq (f\<lparr>f_state := s\<rparr>) (g\<lparr>f_state := t\<rparr>)" if "kv_eq s t" for s t
    using e that by (simp add: mid_eq_def)
  note simps = kv_eq_get [OF k] kv_eq_set [OF k] kv_eq_del [OF k] kv_eq_setIfAbsent [OF k]
    kv_eq_cas [OF k] kv_eq_compareAndDelete [OF k] kv_eq_lease [OF k] mid_eq_with_state
    mid_eq_emit mid_eq_put mid_eq_revoke [OF e it wf] upd e
  show ?thesis
    unfolding applyCommand_def
    by (intro if_rel [where R = "\<lambda>x y. mid_eq (fst x) (fst y) \<and> snd x = snd y"])
      (simp_all add: Let_def split_def h r s lm_getHandle_def simps renew split: option.split)
qed

section \<open>One log entry\<close>

text \<open>\<^verbatim>\<open>Apply\<close> decodes, executes, and publishes.\<close>

type_synonym logOp = "TxnOp list + command"

definition decodeLog :: "byte list \<Rightarrow> codec_error + logOp" where
  "decodeLog data =
     (if data \<noteq> [] \<and> hd data = opTxn
      then case decodeTxn data of Inl e \<Rightarrow> Inl e | Inr ops \<Rightarrow> Inr (Inl ops)
      else case decodeCommand data of Inl e \<Rightarrow> Inl e | Inr c \<Rightarrow> Inr (Inr c))"

definition execLog :: "(string set \<Rightarrow> string list) \<Rightarrow> int \<Rightarrow> RaftFSM \<Rightarrow> logOp \<Rightarrow> RaftFSM \<times> applyResult" where
  "execLog it now f lop = (case lop of Inl ops \<Rightarrow> applyTxn f ops | Inr c \<Rightarrow> applyCommand it now f c)"

definition at_index :: "RaftFSM \<Rightarrow> u64 \<Rightarrow> RaftFSM" where
  "at_index f i = with_state f ((f_state f)\<lparr>st_applyIndex := i\<rparr>)"

lemma Apply_eq:
  "Apply xxh it now f lg =
     (case decodeLog (log_Data lg) of
        Inl e \<Rightarrow> (at_index f (log_Index lg), res_err (ErrCodec e), [])
      | Inr lop \<Rightarrow>
          (let x = execLog it now (at_index f (log_Index lg)) lop; y = flush xxh it (fst x)
           in (fst y, snd x, snd y)))"
  by (simp add: Apply_def decodeLog_def execLog_def at_index_def Let_def split_def split: sum.split)

definition is_grant :: "logOp \<Rightarrow> bool" where
  "is_grant lop = (case lop of Inl _ \<Rightarrow> False | Inr c \<Rightarrow> c_Op c = opLeaseGrant)"

definition writes :: "logOp \<Rightarrow> nat" where
  "writes lop = (case lop of Inl ops \<Rightarrow> length ops | Inr _ \<Rightarrow> 1)"

definition live_log :: "logOp \<Rightarrow> string set \<Rightarrow> string set" where
  "live_log lop L = (case lop of Inl _ \<Rightarrow> L | Inr c \<Rightarrow> live_after c L)"

lemma execLog_muts: "kv_muts (is_grant lop) (writes lop) (f_state f) (f_state (fst (execLog it now f lop)))"
  using applyCommand_muts [of _ f it now] applyTxn_muts [of False]
  by (simp add: execLog_def is_grant_def writes_def split: sum.split)

lemma execLog_fields [simp]:
  "f_heap (fst (execLog it now f lop)) = f_heap f" "f_snap (fst (execLog it now f lop)) = f_snap f"
  by (simp_all add: execLog_def split: sum.split)

lemma execLog_lm:
  assumes "lm_ok (f_leases f)"
  shows "lm_ok (f_leases (fst (execLog it now f lop)))"
    and "dom (lm_handles (f_leases (fst (execLog it now f lop)))) = live_log lop (dom (lm_handles (f_leases f)))"
    and "dom (st_leases (f_state (fst (execLog it now f lop)))) = live_log lop (dom (st_leases (f_state f)))"
  using assms applyCommand_lm [OF assms]
  by (simp_all add: execLog_def live_log_def applyTxn_leases applyCommand_leases split: sum.split)

lemma execLog_mid_eq:
  assumes "mid_eq f g" and "dom (lm_handles (f_leases f)) = dom (lm_handles (f_leases g))"
    and "lm_ok (f_leases f)" "lm_ok (f_leases g)" and "map_order it" "map_order it'"
    and "wf_entries (f_state f)" "wf_leases (f_state f)"
  shows "mid_eq (fst (execLog it now f lop)) (fst (execLog it' now' g lop))"
    and "snd (execLog it now f lop) = snd (execLog it' now' g lop)"
  using applyCommand_mid_eq [OF assms, of now _ now'] applyTxn_mid_eq [OF assms(1)]
  by (simp_all add: execLog_def split: sum.split)

lemma flush_spec:
  assumes it: "map_order it" and wf: "wf_entries (f_state f)" and inv: "pub_inv xxh (f_heap f) (f_state f)"
  shows "\<exists>snap. f_snap (fst (flush xxh it f)) = Some snap \<and>
      f_state (fst (flush xxh it f)) = (f_state f)\<lparr>st_dirty := {}, st_published := Some snap\<rparr> \<and>
      sn_get xxh (f_heap (fst (flush xxh it f))) snap = (\<lambda>k. map_option to_Entry (st_entries (f_state f) k)) \<and>
      shards_ok xxh (f_heap (fst (flush xxh it f))) (sn_shards snap) \<and>
      sn_index snap = st_applyIndex (f_state f)"
    and "f_leases (fst (flush xxh it f)) = f_leases f" and "f_outbox (fst (flush xxh it f)) = []"
    and "snd (flush xxh it f) = map (\<lambda>r. r\<lparr>wr_revision := st_applyIndex (f_state f)\<rparr>) (f_outbox f)"
proof -
  obtain h s snap where k: "kv_snapshot xxh it (f_heap f) (f_state f) = (h, s, snap)"
    by (rule prod_cases3)
  note spec = kv_snapshot_spec [OF it wf inv k]
  show "\<exists>snap. f_snap (fst (flush xxh it f)) = Some snap \<and>
      f_state (fst (flush xxh it f)) = (f_state f)\<lparr>st_dirty := {}, st_published := Some snap\<rparr> \<and>
      sn_get xxh (f_heap (fst (flush xxh it f))) snap = (\<lambda>k. map_option to_Entry (st_entries (f_state f) k)) \<and>
      shards_ok xxh (f_heap (fst (flush xxh it f))) (sn_shards snap) \<and>
      sn_index snap = st_applyIndex (f_state f)"
    using spec by (simp add: flush_def k)
  show "f_leases (fst (flush xxh it f)) = f_leases f" "f_outbox (fst (flush xxh it f)) = []"
    "snd (flush xxh it f) = map (\<lambda>r. r\<lparr>wr_revision := st_applyIndex (f_state f)\<rparr>) (f_outbox f)"
    using spec by (simp_all add: flush_def k)
qed

lemma at_index_fields [simp]:
  "f_state (at_index f i) = (f_state f)\<lparr>st_applyIndex := i\<rparr>" "f_leases (at_index f i) = f_leases f"
  "f_heap (at_index f i) = f_heap f" "f_snap (at_index f i) = f_snap f" "f_outbox (at_index f i) = f_outbox f"
  by (simp_all add: at_index_def)

lemma index_inv [simp]:
  "wf_entries (s\<lparr>st_applyIndex := i\<rparr>) = wf_entries s" "wf_leases (s\<lparr>st_applyIndex := i\<rparr>) = wf_leases s"
  "wf_versions (s\<lparr>st_applyIndex := i\<rparr>) = wf_versions s"
  "lease_complete (s\<lparr>st_applyIndex := i\<rparr>) = lease_complete s"
  "pub_inv xxh h (s\<lparr>st_applyIndex := i\<rparr>) = pub_inv xxh h s"
  by (simp_all add: wf_entries_def wf_leases_def wf_versions_def lease_complete_def pub_inv_def
      split: option.split)

lemma publish_inv [simp]:
  "wf_entries (s\<lparr>st_dirty := {}, st_published := p\<rparr>) \<longleftrightarrow> finite (dom (st_entries s)) \<and>
     (\<forall>k e. st_entries s k = Some e \<longrightarrow> e_key e = k)"
  "wf_leases (s\<lparr>st_dirty := D, st_published := p\<rparr>) = wf_leases s"
  "wf_versions (s\<lparr>st_dirty := D, st_published := p\<rparr>) = wf_versions s"
  "lease_complete (s\<lparr>st_dirty := D, st_published := p\<rparr>) = lease_complete s"
  by (simp_all add: wf_entries_def wf_leases_def wf_versions_def lease_complete_def)

text \<open>
  What a flush leaves behind: the invariant of the resting machine, provided the state it
  publishes is well-formed.
\<close>

lemma flush_ok:
  assumes it: "map_order it" and wf: "wf_entries (f_state f)" "wf_leases (f_state f)"
    and inv: "pub_inv xxh (f_heap f) (f_state f)"
    and lm: "lm_ok (f_leases f)" "dom (lm_handles (f_leases f)) = dom (st_leases (f_state f))"
  shows "fsm_ok xxh (fst (flush xxh it f))"
proof -
  obtain snap where snap: "f_snap (fst (flush xxh it f)) = Some snap"
      "f_state (fst (flush xxh it f)) = (f_state f)\<lparr>st_dirty := {}, st_published := Some snap\<rparr>"
      "sn_get xxh (f_heap (fst (flush xxh it f))) snap = (\<lambda>k. map_option to_Entry (st_entries (f_state f) k))"
      "shards_ok xxh (f_heap (fst (flush xxh it f))) (sn_shards snap)"
    using flush_spec(1) [OF it wf(1) inv] by blast
  have "pub_inv xxh (f_heap (fst (flush xxh it f))) (f_state (fst (flush xxh it f)))"
    using snap by (simp add: pub_inv_def)
  moreover have "wf_entries (f_state (fst (flush xxh it f)))"
    using wf(1) snap(2) by (simp add: wf_entries_def)
  ultimately show ?thesis
    using snap wf(2) lm flush_spec(2,3) [OF it wf(1) inv] by (simp add: fsm_ok_def)
qed

lemma execLog_ready:
  assumes "fsm_ok xxh f"
  shows "wf_entries (f_state (fst (execLog it now (at_index f i) lop)))"
    and "wf_leases (f_state (fst (execLog it now (at_index f i) lop)))"
    and "pub_inv xxh (f_heap (fst (execLog it now (at_index f i) lop))) (f_state (fst (execLog it now (at_index f i) lop)))"
    and "lm_ok (f_leases (fst (execLog it now (at_index f i) lop)))"
    and "dom (lm_handles (f_leases (fst (execLog it now (at_index f i) lop)))) =
           dom (st_leases (f_state (fst (execLog it now (at_index f i) lop))))"
    and "st_applyIndex (f_state (fst (execLog it now (at_index f i) lop))) = i"
  using assms kv_muts_wf [OF execLog_muts [of lop "at_index f i" it now]]
    execLog_lm [of "at_index f i" it now lop]
  by (simp_all add: fsm_ok_def)

lemma Apply_ok:
  assumes it: "map_order it" and ok: "fsm_ok xxh f"
  shows "fsm_ok xxh (fst (Apply xxh it now f lg))"
proof (cases "decodeLog (log_Data lg)")
  case (Inl e)
  then show ?thesis
    using ok by (simp add: Apply_eq) (auto simp: fsm_ok_def)
next
  case (Inr lop)
  then show ?thesis
    using flush_ok [OF it execLog_ready(1-5) [OF ok, of it now "log_Index lg" lop]] by (simp add: Apply_eq Let_def)
qed

lemma NewRaftFSM_ok: "map_order it \<Longrightarrow> fsm_ok xxh (NewRaftFSM xxh it)"
proof -
  assume it: "map_order it"
  define f where "f = \<lparr>f_state = newState, f_leases = newLeaseManager,
    f_heap = \<lparr>h_maps = \<lambda>_. Map.empty, h_next = 0\<rparr>, f_snap = None, f_outbox = []\<rparr>"
  have e: "NewRaftFSM xxh it = fst (flush xxh it f)"
    by (simp add: NewRaftFSM_def flush_def f_def Let_def split_def)
  have "dom (lm_handles newLeaseManager) = dom (st_leases newState)"
    by (simp add: newLeaseManager_def newState_def)
  then show ?thesis
    unfolding e by (intro flush_ok it) (simp_all add: f_def kv_inv lm_ok_new)
qed

section \<open>Replicas applying the same log\<close>

text \<open>A step of a replica: the map order and the clock it happens to see, and the log entry.\<close>

type_synonym log_step = "(string set \<Rightarrow> string list) \<times> int \<times> raft_log"

fun fsm_run :: "(string \<Rightarrow> u64) \<Rightarrow> RaftFSM \<Rightarrow> log_step list \<Rightarrow> RaftFSM \<times> (applyResult \<times> watchRecord list) list" where
  "fsm_run xxh f [] = (f, [])"
| "fsm_run xxh f ((it, now, lg) # steps) =
     (let (f1, res, records) = Apply xxh it now f lg; (f2, outs) = fsm_run xxh f1 steps
      in (f2, (res, records) # outs))"

definition logs_of :: "log_step list \<Rightarrow> raft_log list" where
  "logs_of steps = map (\<lambda>s. snd (snd s)) steps"

definition orders_ok :: "log_step list \<Rightarrow> bool" where
  "orders_ok steps = list_all (\<lambda>(it, _, _). map_order it) steps"

text \<open>Two resting replicas agree on what clients can observe and what later commands read.\<close>

definition rep_eq :: "RaftFSM \<Rightarrow> RaftFSM \<Rightarrow> bool" where
  "rep_eq f g \<longleftrightarrow> st_entries (f_state f) = st_entries (f_state g) \<and>
     st_leases (f_state f) = st_leases (f_state g) \<and> st_version (f_state f) = st_version (f_state g)"

definition out_eq :: "applyResult \<times> watchRecord list \<Rightarrow> applyResult \<times> watchRecord list \<Rightarrow> bool" where
  "out_eq x y \<longleftrightarrow> fst x = fst y \<and> mset (snd x) = mset (snd y)"

lemma Apply_agree:
  assumes it: "map_order it" "map_order it'" and ok: "fsm_ok xxh f" "fsm_ok xxh' g" and e: "rep_eq f g"
  shows "rep_eq (fst (Apply xxh it now f lg)) (fst (Apply xxh' it' now' g lg)) \<and>
    out_eq (snd (Apply xxh it now f lg)) (snd (Apply xxh' it' now' g lg))"
proof (cases "decodeLog (log_Data lg)")
  case (Inl err)
  then show ?thesis using e by (simp add: Apply_eq rep_eq_def out_eq_def)
next
  case (Inr lop)
  let ?f = "at_index f (log_Index lg)" and ?g = "at_index g (log_Index lg)"
  let ?x = "execLog it now ?f lop" and ?y = "execLog it' now' ?g lop"
  have m: "mid_eq ?f ?g" and d: "dom (lm_handles (f_leases ?f)) = dom (lm_handles (f_leases ?g))"
    using e ok by (simp_all add: rep_eq_def mid_eq_def kv_eq_def fsm_ok_def)
  have "mid_eq (fst ?x) (fst ?y)" and r: "snd ?x = snd ?y"
    using execLog_mid_eq [OF m d _ _ it] ok by (simp_all add: fsm_ok_def)
  then have k: "kv_eq (f_state (fst ?x)) (f_state (fst ?y))"
      and o: "mset (f_outbox (fst ?x)) = mset (f_outbox (fst ?y))"
    by (simp_all add: mid_eq_def)
  note rx = execLog_ready [OF ok(1), of it now "log_Index lg" lop]
  note ry = execLog_ready [OF ok(2), of it' now' "log_Index lg" lop]
  have "rep_eq (fst (flush xxh it (fst ?x))) (fst (flush xxh' it' (fst ?y)))"
    using flush_spec(1) [OF it(1) rx(1,3)] flush_spec(1) [OF it(2) ry(1,3)] k
    by (auto simp: rep_eq_def kv_eq_def)
  moreover have "mset (snd (flush xxh it (fst ?x))) = mset (snd (flush xxh' it' (fst ?y)))"
    using o by (simp add: flush_spec(4) [OF it(1) rx(1,3)] flush_spec(4) [OF it(2) ry(1,3)] rx(6) ry(6))
  ultimately show ?thesis
    using Inr r by (simp add: Apply_eq Let_def out_eq_def)
qed

lemma fsm_run_ok: "fsm_ok xxh f \<Longrightarrow> orders_ok steps \<Longrightarrow> fsm_ok xxh (fst (fsm_run xxh f steps))"
  by (induction steps arbitrary: f) (auto simp: orders_ok_def Let_def split_def Apply_ok)

lemma fsm_run_agree:
  assumes "fsm_ok xxh f" "fsm_ok xxh' g" "rep_eq f g" "orders_ok steps" "orders_ok steps'"
    and "logs_of steps = logs_of steps'"
  shows "rep_eq (fst (fsm_run xxh f steps)) (fst (fsm_run xxh' g steps')) \<and>
    list_all2 out_eq (snd (fsm_run xxh f steps)) (snd (fsm_run xxh' g steps'))"
  using assms
proof (induction steps arbitrary: f g steps')
  case Nil
  then show ?case by (simp add: logs_of_def)
next
  case (Cons st steps)
  obtain it now lg where st: "st = (it, now, lg)"
    by (rule prod_cases3)
  obtain it' now' steps'' where s: "steps' = (it', now', lg) # steps''" "logs_of steps = logs_of steps''"
    using Cons.prems(6) by (cases steps') (auto simp: st logs_of_def)
  have it: "map_order it" "map_order it'" "orders_ok steps" "orders_ok steps''"
    using Cons.prems(4,5) s(1) by (simp_all add: orders_ok_def st)
  note a = Apply_agree [OF it(1,2) Cons.prems(1-3), of now lg now']
  have "rep_eq (fst (fsm_run xxh (fst (Apply xxh it now f lg)) steps))
        (fst (fsm_run xxh' (fst (Apply xxh' it' now' g lg)) steps'')) \<and>
      list_all2 out_eq (snd (fsm_run xxh (fst (Apply xxh it now f lg)) steps))
        (snd (fsm_run xxh' (fst (Apply xxh' it' now' g lg)) steps''))"
    using Cons.IH [OF Apply_ok [OF it(1) Cons.prems(1)] Apply_ok [OF it(2) Cons.prems(2)] _ it(3,4) s(2)]
      a by simp
  then show ?case
    using a by (simp add: s(1) st Let_def split_def)
qed

section \<open>Restoring a snapshot\<close>

definition saveEntry :: "entry \<Rightarrow> snapEntry" where
  "saveEntry e = \<lparr>se_Key = e_key e, se_LeaseID = e_leaseID e, se_Value = e_value e,
     se_Version = e_version e, se_Epoch = e_epoch e\<rparr>"

definition saveLease :: "(string set \<Rightarrow> string list) \<Rightarrow> string \<Rightarrow> leaseState \<Rightarrow> snapLease" where
  "saveLease it l ls = \<lparr>sl_ID = l, sl_Keys = it (ls_keys ls), sl_TTLms = ls_ttl ls,
     sl_ExpiresAtMs = ls_expiresAtMs ls\<rparr>"

lemma fsm_Snapshot_save:
  "fs_Entries (fsm_Snapshot it f) = List.map_filter (\<lambda>k. map_option saveEntry (st_entries (f_state f) k))
     (it (dom (st_entries (f_state f))))"
  "fs_Leases (fsm_Snapshot it f) = List.map_filter (\<lambda>l. map_option (saveLease it l) (st_leases (f_state f) l))
     (it (dom (st_leases (f_state f))))"
  by (simp_all add: fsm_Snapshot_def saveEntry_def [abs_def] saveLease_def [abs_def] Let_def)

lemma fsm_Snapshot_counters:
  "fs_Version (fsm_Snapshot it f) = st_version (f_state f)"
  "fs_ApplyIndex (fsm_Snapshot it f) = st_applyIndex (f_state f)"
  by (simp_all add: fsm_Snapshot_def Let_def)

definition emptied :: "leaseState \<Rightarrow> leaseState" where
  "emptied ls = ls\<lparr>ls_keys := {}\<rparr>"

text \<open>\<open>overlay F K m\<close>: the map \<open>m\<close> after storing the bindings of \<open>F\<close> at the keys \<open>K\<close>.\<close>

definition overlay :: "('k \<rightharpoonup> 'v) \<Rightarrow> 'k set \<Rightarrow> ('k \<rightharpoonup> 'v) \<Rightarrow> ('k \<rightharpoonup> 'v)" where
  "overlay F K m = (\<lambda>k. if k \<in> K \<and> F k \<noteq> None then F k else m k)"

lemma overlay_empty [simp]: "overlay F {} m = m"
  by (simp add: overlay_def)

lemma overlay_insert:
  "F k = None \<Longrightarrow> overlay F (insert k K) m = overlay F K m"
  "F k = Some v \<Longrightarrow> overlay F (insert k K) m = overlay F K (m(k \<mapsto> v))"
  by (auto simp: overlay_def fun_eq_iff)

lemma overlay_dom: "overlay F (dom F) Map.empty = F"
  by (rule ext) (simp add: overlay_def domIff)

lemma restoreLease_step:
  "ls_id ls = l \<Longrightarrow> fst (restoreLease now (saveLease it l ls) (s, m)) =
     s\<lparr>st_leases := (st_leases s)(l \<mapsto> emptied ls)\<rparr>"
  "snd (restoreLease now (saveLease it l ls) (s, m)) = fst (lm_grant m l (msToDuration (ls_ttl ls)) now)"
  by (cases ls, simp add: restoreLease_def saveLease_def addLease_def emptied_def)+

lemma fold_restoreLease:
  assumes "\<And>l ls. L l = Some ls \<Longrightarrow> ls_id ls = l" and "lm_ok m"
  shows "fst (fold (restoreLease now) (List.map_filter (\<lambda>l. map_option (saveLease it l) (L l)) xs) (s, m)) =
      s\<lparr>st_leases := overlay (\<lambda>l. map_option emptied (L l)) (set xs) (st_leases s)\<rparr> \<and>
    lm_ok (snd (fold (restoreLease now) (List.map_filter (\<lambda>l. map_option (saveLease it l) (L l)) xs) (s, m))) \<and>
    dom (lm_handles (snd (fold (restoreLease now) (List.map_filter (\<lambda>l. map_option (saveLease it l) (L l)) xs) (s, m)))) =
      dom (lm_handles m) \<union> (set xs \<inter> dom L)"
  using assms(2)
proof (induction xs arbitrary: s m)
  case Nil
  then show ?case by (simp add: map_filter_simps)
next
  case (Cons l xs)
  show ?case
  proof (cases "L l")
    case None
    then have "insert l (set xs) \<inter> dom L = set xs \<inter> dom L" by auto
    with Cons None show ?thesis by (simp add: map_filter_simps overlay_insert)
  next
    case (Some ls)
    let ?s = "s\<lparr>st_leases := (st_leases s)(l \<mapsto> emptied ls)\<rparr>" and ?m = "fst (lm_grant m l (msToDuration (ls_ttl ls)) now)"
    have st: "restoreLease now (saveLease it l ls) (s, m) = (?s, ?m)"
      using restoreLease_step(1) [OF assms(1) [OF Some]] by (simp add: prod_eq_iff restoreLease_step(2))
    show ?thesis
      using Cons.IH [of ?m ?s] lm_ok_grant [OF Cons.prems, of l "msToDuration (ls_ttl ls)" now] Some
      by (simp add: map_filter_simps st overlay_insert Int_insert_left insert_absorb domI fun_upd_def)
  qed
qed

definition reattached :: "(string \<rightharpoonup> entry) \<Rightarrow> string set \<Rightarrow> string \<Rightarrow> string set" where
  "reattached E K l = {k \<in> K. l \<noteq> [] \<and> map_option e_leaseID (E k) = Some l}"

lemma reattached_simps:
  "reattached E {} l = {}"
  "reattached E (insert k K) l = reattached E {k} l \<union> reattached E K l"
  "E k = None \<Longrightarrow> reattached E {k} l = {}"
  "E k = Some e \<Longrightarrow> reattached E {k} l = (if l \<noteq> [] \<and> e_leaseID e = l then {k} else {})"
  by (auto simp: reattached_def)

lemma restoreEntry_fields:
  assumes "e_key e = k" and "E k = Some e"
  shows "st_entries (restoreEntry (saveEntry e) s) = (st_entries s)(k \<mapsto> e)"
    and "st_leases (restoreEntry (saveEntry e) s) l = map_option (\<lambda>ls.
       ls\<lparr>ls_keys := ls_keys ls \<union> reattached E {k} l\<rparr>) (st_leases s l)"
    and "st_version (restoreEntry (saveEntry e) s) = st_version s"
    and "st_published (restoreEntry (saveEntry e) s) = st_published s"
    and "st_dirty (restoreEntry (saveEntry e) s) = st_dirty s"
proof -
  show "st_entries (restoreEntry (saveEntry e) s) = (st_entries s)(k \<mapsto> e)"
    using assms(1) by (cases e) (simp add: restoreEntry_def saveEntry_def Let_def kv_fields)
  show "st_leases (restoreEntry (saveEntry e) s) l = map_option (\<lambda>ls.
       ls\<lparr>ls_keys := ls_keys ls \<union> reattached E {k} l\<rparr>) (st_leases s l)"
    using assms by (cases "st_leases s l")
      (auto simp: restoreEntry_def saveEntry_def Let_def kv_fields reattached_simps(4))
  show "st_version (restoreEntry (saveEntry e) s) = st_version s"
    "st_published (restoreEntry (saveEntry e) s) = st_published s"
    "st_dirty (restoreEntry (saveEntry e) s) = st_dirty s"
    by (simp_all add: restoreEntry_def saveEntry_def Let_def kv_fields)
qed

lemma fold_restoreEntry:
  assumes "\<And>k e. E k = Some e \<Longrightarrow> e_key e = k"
  shows "st_entries (fold restoreEntry (List.map_filter (\<lambda>k. map_option saveEntry (E k)) xs) s) =
      overlay E (set xs) (st_entries s) \<and>
    (\<forall>l. st_leases (fold restoreEntry (List.map_filter (\<lambda>k. map_option saveEntry (E k)) xs) s) l =
      map_option (\<lambda>ls. ls\<lparr>ls_keys := ls_keys ls \<union> reattached E (set xs) l\<rparr>) (st_leases s l)) \<and>
    st_version (fold restoreEntry (List.map_filter (\<lambda>k. map_option saveEntry (E k)) xs) s) = st_version s \<and>
    st_published (fold restoreEntry (List.map_filter (\<lambda>k. map_option saveEntry (E k)) xs) s) = st_published s \<and>
    st_dirty (fold restoreEntry (List.map_filter (\<lambda>k. map_option saveEntry (E k)) xs) s) = st_dirty s"
proof (induction xs arbitrary: s)
  case Nil
  have "map_option (\<lambda>ls. ls\<lparr>ls_keys := ls_keys ls\<rparr>) x = x" for x :: "leaseState option"
    by (cases x) simp_all
  then show ?case by (simp add: map_filter_simps reattached_simps)
next
  case (Cons k xs)
  show ?case
  proof (cases "E k")
    case None
    with Cons show ?thesis
      by (simp add: map_filter_simps reattached_simps(2) [of E k "set xs"] reattached_simps(3) overlay_insert)
  next
    case (Some e)
    note st = restoreEntry_fields [where E = E, OF assms [OF Some] Some]
    show ?thesis
      using Cons.IH [of "restoreEntry (saveEntry e) s"] Some
      by (simp add: map_filter_simps st reattached_simps(2) [of E k "set xs"] overlay_insert Un_assoc
          option.map_comp comp_def fun_upd_def)
  qed
qed

lemma restored_keys:
  assumes "wf_leases s" "lease_complete s" "st_leases s l = Some ls"
  shows "reattached (st_entries s) (dom (st_entries s)) l = ls_keys ls"
proof
  show "reattached (st_entries s) (dom (st_entries s)) l \<subseteq> ls_keys ls"
    using assms by (auto simp: reattached_def lease_complete_def)
  show "ls_keys ls \<subseteq> reattached (st_entries s) (dom (st_entries s)) l"
    using wf_leasesD [OF assms(1,3)] by (cases "l = []") (auto simp: reattached_def)
qed

lemma restore_ready:
  assumes it: "map_order it" and wf: "wf_entries s" "wf_leases s" "finite (dom (st_leases s))"
    and f: "f_state f = s"
    and x: "x = fold (restoreLease now) (fs_Leases (fsm_Snapshot it f))
       (newState\<lparr>st_version := v, st_revision := v, st_applyIndex := i\<rparr>, newLeaseManager)"
    and t: "t = fold restoreEntry (fs_Entries (fsm_Snapshot it f)) (fst x)"
  shows "st_entries t = st_entries s"
    and "st_leases t l = map_option (\<lambda>ls. ls\<lparr>ls_keys := reattached (st_entries s) (dom (st_entries s)) l\<rparr>) (st_leases s l)"
    and "st_version t = v" and "st_published t = None" and "st_dirty t = {}"
    and "lm_ok (snd x)" and "dom (lm_handles (snd x)) = dom (st_leases s)"
proof -
  have ids: "\<And>l ls. st_leases s l = Some ls \<Longrightarrow> ls_id ls = l" and keys: "\<And>k e. st_entries s k = Some e \<Longrightarrow> e_key e = k"
    using wf(1,2) by (auto simp: wf_leases_def wf_entries_def)
  have L: "set (it (dom (st_leases s))) = dom (st_leases s)" and K: "set (it (dom (st_entries s))) = dom (st_entries s)"
    using map_order_set [OF it] wf(1,3) by (simp_all add: wf_entries_def)
  note fl = fold_restoreLease [of "st_leases s", OF ids lm_ok_new, of now it "it (dom (st_leases s))"
      "newState\<lparr>st_version := v, st_revision := v, st_applyIndex := i\<rparr>"]
  have x1: "fst x = newState\<lparr>st_version := v, st_revision := v, st_applyIndex := i,
      st_leases := \<lambda>l. map_option emptied (st_leases s l)\<rparr>"
    using fl overlay_dom [of "\<lambda>l. map_option emptied (st_leases s l)"]
    by (simp add: x fsm_Snapshot_save f L newState_def dom_map_option)
  show "lm_ok (snd x)" "dom (lm_handles (snd x)) = dom (st_leases s)"
    using fl by (simp_all add: x fsm_Snapshot_save f L newLeaseManager_def)
  note fe = fold_restoreEntry [of "st_entries s", OF keys, of "it (dom (st_entries s))" "fst x"]
  show "st_entries t = st_entries s" "st_version t = v" "st_published t = None" "st_dirty t = {}"
    using fe by (simp_all add: t fsm_Snapshot_save f K x1 newState_def overlay_dom)
  show "st_leases t l = map_option (\<lambda>ls. ls\<lparr>ls_keys := reattached (st_entries s) (dom (st_entries s)) l\<rparr>) (st_leases s l)"
    using fe by (cases "st_leases s l") (simp_all add: t fsm_Snapshot_save f K x1 emptied_def)
qed

text \<open>What a replica is after a restore, whatever the snapshot's leases hold.\<close>

lemma fsm_Restore_state:
  assumes it: "map_order it" "map_order it'" and ok: "fsm_ok xxh f" and g: "fsm_ok xxh' g"
    and r: "r = fsm_Restore xxh' it' now g (Some (fsm_Snapshot it f))"
  shows "fsm_ok xxh' r" and "st_entries (f_state r) = st_entries (f_state f)"
    and "st_version (f_state r) = st_version (f_state f)"
    and "st_leases (f_state r) l = map_option (\<lambda>ls. ls\<lparr>ls_keys :=
           reattached (st_entries (f_state f)) (dom (st_entries (f_state f))) l\<rparr>) (st_leases (f_state f) l)"
proof -
  let ?v = "st_version (f_state f)" and ?i = "st_applyIndex (f_state f)"
  define x where "x = fold (restoreLease now) (fs_Leases (fsm_Snapshot it f))
    (newState\<lparr>st_version := ?v, st_revision := ?v, st_applyIndex := ?i\<rparr>, newLeaseManager)"
  define t where "t = fold restoreEntry (fs_Entries (fsm_Snapshot it f)) (fst x)"
  have wf: "wf_entries (f_state f)" "wf_leases (f_state f)" "finite (dom (st_leases (f_state f)))"
    using ok unfolding fsm_ok_def lm_ok_def by metis+
  note s = restore_ready [OF it(1) wf refl x_def t_def]
  define g' where "g' = g\<lparr>f_state := t, f_leases := snd x\<rparr>"
  have e: "r = fst (flush xxh' it' g')"
    using g by (cases g) (simp add: r fsm_Restore_def flush_def Let_def split_def x_def t_def
        g'_def fsm_Snapshot_counters fsm_ok_def)
  have ready: "wf_entries t" "wf_leases t" "pub_inv xxh' (f_heap g) t"
    using wf s(1,2,4,5) by (auto simp: wf_entries_def wf_leases_def pub_inv_def reattached_def)
  have d: "dom (st_leases t) = dom (st_leases (f_state f))"
    using s(2) by (auto simp: dom_def)
  show "fsm_ok xxh' r"
    unfolding e using ready s(6,7) d by (intro flush_ok it(2)) (simp_all add: g'_def)
  have "\<exists>snap. f_state r = t\<lparr>st_dirty := {}, st_published := Some snap\<rparr>"
    unfolding e using flush_spec(1) [OF it(2), of g' xxh'] ready by (auto simp: g'_def)
  then show "st_entries (f_state r) = st_entries (f_state f)" "st_version (f_state r) = ?v"
    "st_leases (f_state r) l = map_option (\<lambda>ls. ls\<lparr>ls_keys :=
       reattached (st_entries (f_state f)) (dom (st_entries (f_state f))) l\<rparr>) (st_leases (f_state f) l)"
    using s(1-3) by auto
qed

lemma fsm_Restore_rep_eq:
  assumes "map_order it" "map_order it'" "fsm_ok xxh f" "fsm_ok xxh' g" and c: "lease_complete (f_state f)"
  shows "rep_eq (fsm_Restore xxh' it' now g (Some (fsm_Snapshot it f))) f"
proof -
  note s = fsm_Restore_state [OF assms(1-4) refl, of now]
  have wf: "wf_leases (f_state f)" using assms(3) by (simp add: fsm_ok_def)
  have "st_leases (f_state (fsm_Restore xxh' it' now g (Some (fsm_Snapshot it f)))) l = st_leases (f_state f) l" for l
    using s(4) [of l] restored_keys [OF wf c, of l] by (cases "st_leases (f_state f) l") simp_all
  then show ?thesis using s(2,3) by (simp add: rep_eq_def fun_eq_iff)
qed

end
