(* ===== verification/Kv_Replica.thy ===== *)
theory Kv_Replica
  imports Kv_Fsm
begin

text \<open>
  What replicas of the key-value store promise (\<^verbatim>\<open>system/kv/raft_fsm.go\<close>): convergence of
  replicas that apply one log, restore from a snapshot, complete watch records, versions
  that are never reused, and what a transaction and a lease revocation do to the entries.
\<close>

section \<open>Watch records replay to the state\<close>

text \<open>
  A subscriber's view: a record replaces the binding of its key, and its previous value is
  what the subscriber already has there.
\<close>

definition rec_key :: "watchRecord \<Rightarrow> string" where
  "rec_key r = (case wr_current r of Some e \<Rightarrow> e_key e
     | None \<Rightarrow> (case wr_previous r of Some p \<Rightarrow> e_key p | None \<Rightarrow> []))"

fun replay :: "watchRecord list \<Rightarrow> (string \<rightharpoonup> entry) \<Rightarrow> (string \<rightharpoonup> entry) option" where
  "replay [] E = Some E"
| "replay (r # rs) E =
     (if E (rec_key r) = wr_previous r then replay rs (E(rec_key r := wr_current r)) else None)"

lemma replay_append: "replay (xs @ ys) E = Option.bind (replay xs E) (replay ys)"
  by (induction xs arbitrary: E) simp_all

lemma rec_key_revision [simp]: "rec_key (r\<lparr>wr_revision := i\<rparr>) = rec_key r"
  by (simp add: rec_key_def split: option.split)

lemma replay_revision: "replay (map (\<lambda>r. r\<lparr>wr_revision := i\<rparr>) rs) E = replay rs E"
  by (induction rs arbitrary: E) simp_all

definition traced :: "(string \<rightharpoonup> entry) \<Rightarrow> RaftFSM \<Rightarrow> bool" where
  "traced E f \<longleftrightarrow> replay (f_outbox f) E = Some (st_entries (f_state f)) \<and> wf_entries (f_state f)"

lemma traced_leases [simp]: "traced E (f\<lparr>f_leases := m\<rparr>) = traced E f"
  by (simp add: traced_def)

lemma traced_same:
  "traced E f \<Longrightarrow> wf_entries s \<Longrightarrow> st_entries s = st_entries (f_state f) \<Longrightarrow> traced E (with_state f s)"
  by (simp add: traced_def)

lemma traced_set:
  assumes "traced E f" and "prev = st_entries (f_state f) k"
  shows "traced E (emitPut (with_state f (fst (kv_set (f_state f) k v l))) k prev)"
  using assms wf_entries_set [of "f_state f" k v l]
  by (simp add: traced_def emitPut_def kv_get_def kv_fields outbox_emit replay_append rec_key_def)

lemma traced_del:
  assumes "traced E f" and "st_entries (f_state f) k = Some p"
  shows "traced E (emitEvent (with_state f (fst (kv_del (f_state f) k))) t None (Some p))"
proof -
  have "e_key p = k" using assms by (simp add: traced_def wf_entries_def)
  then show ?thesis
    using assms wf_entries_del [of "f_state f" k]
    by (simp add: traced_def kv_fields outbox_emit replay_append rec_key_def)
qed

lemma kv_del_None: "st_entries s k = None \<Longrightarrow> kv_del s k = (s, None)"
  by (simp add: kv_del_def)

lemma with_state_same [simp]: "with_state f (f_state f) = f"
  by (simp add: with_state_def)

lemma traced_delKey: "traced E f \<Longrightarrow> traced E (delKey t k f)"
  by (cases "st_entries (f_state f) k")
    (simp_all add: delKey_def Let_def split_def kv_fields traced_del kv_del_None)

lemma traced_fold_delKey: "traced E f \<Longrightarrow> traced E (fold (delKey t) ks f)"
  by (induction ks arbitrary: f) (simp_all add: traced_delKey)

lemma traced_txn: "traced E f \<Longrightarrow> traced E (fst (applyTxn f ops))"
proof -
  have "traced E (fold txnStep ops f)" if "traced E f"
    using that by (induction ops arbitrary: f)
      (simp_all add: txnStep_def Let_def split_def traced_delKey traced_set kv_get_def)
  then show "traced E f \<Longrightarrow> traced E (fst (applyTxn f ops))" by (simp add: applyTxn_def)
qed

lemma traced_setIfAbsent:
  assumes "traced E f"
  shows "traced E (if snd (snd (setIfAbsent (f_state f) k v l))
      then emitPut (with_state f (fst (setIfAbsent (f_state f) k v l))) k None
      else with_state f (fst (setIfAbsent (f_state f) k v l)))"
  using assms traced_set [OF assms, of None k v l]
  by (cases "st_entries (f_state f) k") (simp_all add: setIfAbsent_def Let_def split_def)

lemma traced_cas:
  assumes "traced E f"
  shows "traced E (if snd (snd (cas (f_state f) k x v))
      then emitPut (with_state f (fst (cas (f_state f) k x v))) k (kv_get (f_state f) k)
      else with_state f (fst (cas (f_state f) k x v)))"
  using assms traced_set [OF assms refl, of k v]
  by (simp add: cas_def Let_def split_def kv_get_def)

lemma traced_compareAndDelete:
  assumes "traced E f"
  shows "traced E (if fst (snd (compareAndDelete (f_state f) k x))
      then emitEvent (with_state f (fst (compareAndDelete (f_state f) k x))) WatchDelete None (kv_get (f_state f) k)
      else with_state f (fst (compareAndDelete (f_state f) k x)))"
  using assms traced_del [OF assms, of k]
  by (cases "st_entries (f_state f) k") (simp_all add: compareAndDelete_def kv_get_def)

lemma traced_delete:
  "traced E f \<Longrightarrow> traced E (fst (case kv_del (f_state f) k of
       (s, None) \<Rightarrow> (with_state f s, x)
     | (s, Some p) \<Rightarrow> (emitEvent (with_state f s) WatchDelete None (Some p), y)))"
  by (cases "st_entries (f_state f) k")
    (simp_all add: kv_del_None split_def kv_fields traced_del)

lemma traced_applyCommand:
  assumes t: "traced E f"
  shows "traced E (fst (applyCommand it now f c))"
proof -
  have wf: "wf_entries (f_state f)" using t by (simp add: traced_def)
  have lease: "traced E (f\<lparr>f_state := addLease (f_state f) l ttl x\<rparr>)" for l ttl x
    using t wf_entries_lease(1) [OF wf] by (simp add: traced_def kv_fields)
  have revoke: "traced E (with_state f (fst (removeLease it (f_state f) l)))" for l
    using t wf wf_entries_lease(2) by (intro traced_same) (simp_all add: kv_fields)
  have renew: "traced E (with_state (f\<lparr>f_leases := m\<rparr>) ((f_state f)\<lparr>st_leases := x\<rparr>))" for m x
    using t wf by (intro traced_same) (simp_all add: wf_entries_renew)
  have set: "traced E (emitPut (with_state f (fst (kv_set (f_state f) k v l))) k (fst (snd (kv_set (f_state f) k v l))))" for k v l
    using traced_set [OF t, of _ k v l] by (simp add: kv_set_def nextVersion_def Let_def)
  show ?thesis
    unfolding applyCommand_def
    using t by (intro if_prop [where P = "\<lambda>x. traced E (fst x)"])
      (simp_all add: Let_def split_def lease revoke renew traced_fold_delKey set traced_cas traced_setIfAbsent
        traced_compareAndDelete traced_delete [unfolded split_def] split: option.split)
qed

lemma Apply_traced:
  assumes it: "map_order it" and ok: "fsm_ok xxh f" and a: "Apply xxh it now f lg = (f', res, records)"
  shows "replay records (st_entries (f_state f)) = Some (st_entries (f_state f'))"
    and "\<forall>r \<in> set records. wr_revision r = log_Index lg"
proof -
  have "replay records (st_entries (f_state f)) = Some (st_entries (f_state f')) \<and>
    (\<forall>r \<in> set records. wr_revision r = log_Index lg)"
  proof (cases "decodeLog (log_Data lg)")
    case (Inl e)
    with a show ?thesis by (auto simp: Apply_eq)
  next
    case (Inr lop)
    let ?x = "fst (execLog it now (at_index f (log_Index lg)) lop)"
    have f: "f' = fst (flush xxh it ?x)" "records = snd (flush xxh it ?x)"
      using a Inr by (auto simp: Apply_eq Let_def)
    note r = execLog_ready [OF ok, of it now "log_Index lg" lop]
    have "traced (st_entries (f_state f)) (at_index f (log_Index lg))"
      using ok by (simp add: traced_def fsm_ok_def)
    then have "traced (st_entries (f_state f)) ?x"
      by (simp add: execLog_def traced_applyCommand traced_txn split: sum.split)
    moreover have "st_entries (f_state f') = st_entries (f_state ?x)"
      using flush_spec(1) [OF it r(1,3)] f(1) by auto
    ultimately show ?thesis
      by (auto simp: f(2) flush_spec(4) [OF it r(1,3)] replay_revision traced_def r(6))
  qed
  then show "replay records (st_entries (f_state f)) = Some (st_entries (f_state f'))"
    "\<forall>r \<in> set records. wr_revision r = log_Index lg" by blast+
qed

lemma fsm_get_published:
  "fsm_ok xxh f \<Longrightarrow> fsm_get xxh f k = map_option to_Entry (st_entries (f_state f) k)"
  by (auto simp: fsm_get_def fsm_ok_def pub_inv_def split: option.split)

lemma Apply_exec:
  assumes it: "map_order it" and ok: "fsm_ok xxh f" and d: "decodeLog (log_Data lg) = Inr lop"
  obtains snap where "f_state (fst (Apply xxh it now f lg)) =
    (f_state (fst (execLog it now (at_index f (log_Index lg)) lop)))\<lparr>st_dirty := {}, st_published := Some snap\<rparr>"
  using flush_spec(1) [OF it execLog_ready(1,3) [OF ok, of it now "log_Index lg" lop]] d
  by (auto simp: Apply_eq Let_def)

section \<open>Versions along a log\<close>

definition log_writes :: "raft_log \<Rightarrow> nat" where
  "log_writes lg = (case decodeLog (log_Data lg) of Inl _ \<Rightarrow> 0 | Inr lop \<Rightarrow> writes lop)"

definition run_writes :: "log_step list \<Rightarrow> nat" where
  "run_writes steps = sum_list (map log_writes (logs_of steps))"

text \<open>A log grants each lease id at most once: no live entry is bound to an id when it is granted.\<close>

definition fresh_grant :: "RaftFSM \<Rightarrow> raft_log \<Rightarrow> bool" where
  "fresh_grant f lg = (case decodeLog (log_Data lg) of
      Inr (Inr c) \<Rightarrow> c_Op c = opLeaseGrant \<longrightarrow>
        (\<forall>k \<in> dom (st_entries (f_state f)). map_option e_leaseID (st_entries (f_state f) k) \<noteq> Some (c_LeaseID c))
    | _ \<Rightarrow> True)"

definition no_aba :: "state \<Rightarrow> state \<Rightarrow> nat \<Rightarrow> bool" where
  "no_aba s s' n \<longleftrightarrow> wf_versions s' \<and> unat (st_version s') \<le> unat (st_version s) + n \<and>
     st_version s \<le> st_version s' \<and>
     (\<forall>k e. st_entries s' k = Some e \<longrightarrow> e_version e \<le> st_version s \<longrightarrow> st_entries s k = Some e)"

lemma no_aba_trans: "no_aba s s' n \<Longrightarrow> no_aba s' s'' n' \<Longrightarrow> no_aba s s'' (n + n')"
  unfolding no_aba_def by (auto dest: order_trans)

lemma Apply_no_aba:
  assumes it: "map_order it" and ok: "fsm_ok xxh f" and v: "wf_versions (f_state f)"
    and n: "unat (st_version (f_state f)) + log_writes lg < 2 ^ 64"
  shows "no_aba (f_state f) (f_state (fst (Apply xxh it now f lg))) (log_writes lg)"
proof (cases "decodeLog (log_Data lg)")
  case (Inl e)
  then show ?thesis using v by (auto simp: Apply_eq no_aba_def wf_versions_def)
next
  case (Inr lop)
  let ?f = "at_index f (log_Index lg)"
  let ?x = "fst (execLog it now ?f lop)"
  have "no_aba (f_state ?f) (f_state ?x) (writes lop)"
    using kv_muts_versions [OF execLog_muts [of lop ?f it now]] v n Inr
    by (simp add: no_aba_def log_writes_def)
  moreover obtain snap where "f_state (fst (Apply xxh it now f lg)) = (f_state ?x)\<lparr>st_dirty := {}, st_published := Some snap\<rparr>"
    using Apply_exec [OF it ok Inr] by blast
  ultimately show ?thesis using Inr by (simp add: no_aba_def log_writes_def)
qed

lemma fsm_run_no_aba:
  assumes "fsm_ok xxh f" "wf_versions (f_state f)" "orders_ok steps"
    and "unat (st_version (f_state f)) + run_writes steps < 2 ^ 64"
  shows "no_aba (f_state f) (f_state (fst (fsm_run xxh f steps))) (run_writes steps)"
  using assms
proof (induction steps arbitrary: f)
  case Nil
  then show ?case by (simp add: no_aba_def)
next
  case (Cons st steps)
  obtain it now lg where st: "st = (it, now, lg)"
    by (rule prod_cases3)
  have it: "map_order it" "orders_ok steps" and n: "run_writes (st # steps) = log_writes lg + run_writes steps"
    using Cons.prems(3) by (simp_all add: orders_ok_def st run_writes_def logs_of_def)
  let ?f = "fst (Apply xxh it now f lg)"
  have a: "no_aba (f_state f) (f_state ?f) (log_writes lg)"
    using Cons.prems n by (intro Apply_no_aba it) simp_all
  then have "wf_versions (f_state ?f)" "unat (st_version (f_state ?f)) + run_writes steps < 2 ^ 64"
    using Cons.prems(4) n by (simp_all add: no_aba_def)
  then have "no_aba (f_state ?f) (f_state (fst (fsm_run xxh ?f steps))) (run_writes steps)"
    by (intro Cons.IH Apply_ok it Cons.prems)
  from no_aba_trans [OF a this] show ?case
    by (simp add: n) (simp add: st Let_def split_def)
qed

lemma Apply_complete:
  assumes it: "map_order it" and ok: "fsm_ok xxh f" and c: "lease_complete (f_state f)" and g: "fresh_grant f lg"
  shows "lease_complete (f_state (fst (Apply xxh it now f lg)))"
proof (cases "decodeLog (log_Data lg)")
  case (Inl e)
  then show ?thesis using c by (simp add: Apply_eq)
next
  case (Inr lop)
  let ?f = "at_index f (log_Index lg)"
  let ?x = "fst (execLog it now ?f lop)"
  have "lease_complete (f_state ?x)"
  proof (cases "is_grant lop")
    case True
    then obtain cm where cm: "lop = Inr cm" "c_Op cm = opLeaseGrant"
      by (auto simp: is_grant_def split: sum.splits)
    have "f_state ?x = addLease (f_state ?f) (c_LeaseID cm) (c_TTLms cm) (c_ExpiresAtMs cm)"
      using cm by (simp add: execLog_def applyCommand_grant)
    moreover have "\<forall>k e. st_entries (f_state f) k = Some e \<longrightarrow> e_leaseID e \<noteq> c_LeaseID cm"
      using g cm Inr by (auto simp: fresh_grant_def)
    ultimately show ?thesis using c by (simp add: lease_complete_lease(1))
  next
    case False
    then show ?thesis
      using kv_muts_complete [OF execLog_muts [of lop ?f it now]] c by simp
  qed
  moreover obtain snap where "f_state (fst (Apply xxh it now f lg)) = (f_state ?x)\<lparr>st_dirty := {}, st_published := Some snap\<rparr>"
    using Apply_exec [OF it ok Inr] by blast
  ultimately show ?thesis by simp
qed

fun fresh_run :: "(string \<Rightarrow> u64) \<Rightarrow> RaftFSM \<Rightarrow> log_step list \<Rightarrow> bool" where
  "fresh_run xxh f [] = True"
| "fresh_run xxh f ((it, now, lg) # steps) =
     (fresh_grant f lg \<and> fresh_run xxh (fst (Apply xxh it now f lg)) steps)"

lemma fsm_run_complete:
  "fsm_ok xxh f \<Longrightarrow> lease_complete (f_state f) \<Longrightarrow> orders_ok steps \<Longrightarrow> fresh_run xxh f steps \<Longrightarrow>
     lease_complete (f_state (fst (fsm_run xxh f steps)))"
  by (induction steps arbitrary: f) (auto simp: orders_ok_def Let_def split_def Apply_ok Apply_complete)

lemma NewRaftFSM_state:
  assumes "map_order it"
  shows "st_entries (f_state (NewRaftFSM xxh it)) = Map.empty" "st_leases (f_state (NewRaftFSM xxh it)) = Map.empty"
    "st_version (f_state (NewRaftFSM xxh it)) = 0"
proof -
  obtain h s snap where k: "kv_snapshot xxh it \<lparr>h_maps = \<lambda>_. Map.empty, h_next = 0\<rparr> newState = (h, s, snap)"
    by (rule prod_cases3)
  have "f_state (NewRaftFSM xxh it) = s"
    by (simp add: NewRaftFSM_def k)
  also have "s = newState\<lparr>st_dirty := {}, st_published := Some snap\<rparr>"
    using kv_snapshot_spec(5) [OF assms newState_inv(1) pub_inv_newState k] .
  finally have f: "f_state (NewRaftFSM xxh it) = newState\<lparr>st_dirty := {}, st_published := Some snap\<rparr>" .
  show "st_entries (f_state (NewRaftFSM xxh it)) = Map.empty" "st_leases (f_state (NewRaftFSM xxh it)) = Map.empty"
    "st_version (f_state (NewRaftFSM xxh it)) = 0"
    by (simp_all add: f newState_def)
qed

lemma NewRaftFSM_inv:
  assumes "map_order it"
  shows "wf_versions (f_state (NewRaftFSM xxh it))" "lease_complete (f_state (NewRaftFSM xxh it))"
  by (simp_all add: wf_versions_def lease_complete_def NewRaftFSM_state [OF assms])

section \<open>Properties\<close>

text \<open>A put command, a lease grant, a bound put and a revoke, as log entries for examples.\<close>

definition mk_command :: "opcode \<Rightarrow> string \<Rightarrow> byte list \<Rightarrow> string \<Rightarrow> command" where
  "mk_command op k v l = \<lparr>c_Key = k, c_LeaseID = l, c_Value = v, c_Expect = 0, c_TTLms = 1000, c_ExpiresAtMs = 0, c_Op = op\<rparr>"

definition mk_log :: "u64 \<Rightarrow> command \<Rightarrow> raft_log" where
  "mk_log i c = \<lparr>log_Index = i, log_Data = encodeCommand c\<rparr>"

definition demo_log :: "raft_log list" where
  "demo_log = [mk_log 1 (mk_command opLeaseGrant [] [] ''L''), mk_log 2 (mk_command opSetWithLease ''a'' [1] ''L''),
     mk_log 3 (mk_command opSet ''b'' [2] []), mk_log 4 (mk_command opLeaseRevoke [] [] ''L'')]"

definition demo_steps :: "int \<Rightarrow> log_step list" where
  "demo_steps now = map (\<lambda>lg. (sorted_list_of_set, now, lg)) demo_log"

lemma demo_orders: "orders_ok (demo_steps now)"
  by (simp add: orders_ok_def demo_steps_def list_all_iff map_order_sorted)

lemma demo_logs: "logs_of (demo_steps now) = demo_log"
  by (simp add: logs_of_def demo_steps_def comp_def)

text \<open>
  C7: replicas converge. Two replicas that apply the same log from the start end with the
  same entries, leases and version counter, and answer every command alike and emit the same
  watch records for it (in some order), whatever their clocks, hash functions and map orders.
\<close>

theorem replicas_converge:
  assumes "map_order it" "map_order it'" "orders_ok steps" "orders_ok steps'" "logs_of steps = logs_of steps'"
  shows "rep_eq (fst (fsm_run xxh (NewRaftFSM xxh it) steps)) (fst (fsm_run xxh' (NewRaftFSM xxh' it') steps')) \<and>
    list_all2 out_eq (snd (fsm_run xxh (NewRaftFSM xxh it) steps)) (snd (fsm_run xxh' (NewRaftFSM xxh' it') steps'))"
proof -
  have "rep_eq (NewRaftFSM xxh it) (NewRaftFSM xxh' it')"
    by (simp add: rep_eq_def NewRaftFSM_state assms(1,2))
  then show ?thesis
    using assms by (intro fsm_run_agree NewRaftFSM_ok)
qed

theorem replicas_converge_witness:
  "rep_eq (fst (fsm_run (\<lambda>_. 1) (NewRaftFSM (\<lambda>_. 1) sorted_list_of_set) (demo_steps 5)))
     (fst (fsm_run (\<lambda>_. 2) (NewRaftFSM (\<lambda>_. 2) sorted_list_of_set) (demo_steps 99)))"
  using replicas_converge [OF map_order_sorted map_order_sorted demo_orders demo_orders, of 5 99]
  by (simp add: demo_logs)

lemma mk_log_decode:
  assumes "c_Op c \<noteq> opTxn" "short (c_Key c)" "short (c_Value c)" "short (c_LeaseID c)"
  shows "decodeLog (log_Data (mk_log i c)) = Inr (Inr c)"
  using assms decodeCommand_body [OF encodeCommand_layout assms(2-4)]
  by (simp add: decodeLog_def mk_log_def encodeCommand_layout)

lemma demo_decode:
  "decodeLog (log_Data (demo_log ! 0)) = Inr (Inr (mk_command opLeaseGrant [] [] ''L''))"
  "decodeLog (log_Data (demo_log ! Suc 0)) = Inr (Inr (mk_command opSetWithLease ''a'' [1] ''L''))"
  "decodeLog (log_Data (demo_log ! 2)) = Inr (Inr (mk_command opSet ''b'' [2] []))"
  "decodeLog (log_Data (demo_log ! 3)) = Inr (Inr (mk_command opLeaseRevoke [] [] ''L''))"
  by (simp_all add: demo_log_def) (rule mk_log_decode; simp add: mk_command_def opcode_defs short_def)+

lemma demo_fresh: "fresh_run xxh (NewRaftFSM xxh sorted_list_of_set) (demo_steps now)"
proof -
  note d = demo_decode
  have "fresh_grant f (demo_log ! Suc 0)" "fresh_grant f (demo_log ! 2)" "fresh_grant f (demo_log ! 3)" for f
    by (simp_all add: d fresh_grant_def mk_command_def opcode_defs)
  moreover have "fresh_grant (NewRaftFSM xxh sorted_list_of_set) (demo_log ! 0)"
    using d(1) by (simp add: fresh_grant_def NewRaftFSM_state map_order_sorted)
  ultimately show ?thesis
    by (simp add: demo_steps_def) (simp add: demo_log_def)
qed

text \<open>
  C8: a restored replica is indistinguishable, unless a lease id was granted again while entries were
  bound to it. After any log without such a grant, a replica that restores the snapshot another one
  took agrees with it, and goes on agreeing, result by result and watch record by watch record, over
  every continuation of the log. The condition is on the log before the snapshot and it is needed:
  \<open>regrant_diverges\<close> below.
\<close>

theorem restored_replica_agrees:
  assumes "map_order it0" "map_order it" "map_order it'" "orders_ok steps"
    and "fresh_run xxh (NewRaftFSM xxh it0) steps" and "f = fst (fsm_run xxh (NewRaftFSM xxh it0) steps)"
    and "fsm_ok xxh' g" and "r = fsm_Restore xxh' it' now g (Some (fsm_Snapshot it f))"
    and "orders_ok rest" "orders_ok rest'" "logs_of rest' = logs_of rest"
  shows "rep_eq (fst (fsm_run xxh' r rest')) (fst (fsm_run xxh f rest)) \<and>
    list_all2 out_eq (snd (fsm_run xxh' r rest')) (snd (fsm_run xxh f rest))"
proof -
  have f: "fsm_ok xxh f" "lease_complete (f_state f)"
    unfolding assms(6) using assms(1,4,5)
    by (intro fsm_run_ok fsm_run_complete NewRaftFSM_ok NewRaftFSM_inv(2); simp)+
  have "fsm_ok xxh' r" "rep_eq r f"
    using fsm_Restore_state(1) [OF assms(2,3) f(1) assms(7,8)] fsm_Restore_rep_eq [OF assms(2,3) f(1) assms(7) f(2)] assms(8)
    by simp_all
  with f assms(9-11) show ?thesis
    by (intro fsm_run_agree)
qed

theorem restored_replica_agrees_witness:
  "let f = fst (fsm_run (\<lambda>_. 1) (NewRaftFSM (\<lambda>_. 1) sorted_list_of_set) (demo_steps 0));
       r = fsm_Restore (\<lambda>_. 2) sorted_list_of_set 9 (NewRaftFSM (\<lambda>_. 2) sorted_list_of_set)
             (Some (fsm_Snapshot sorted_list_of_set f))
   in rep_eq (fst (fsm_run (\<lambda>_. 2) r (demo_steps 7))) (fst (fsm_run (\<lambda>_. 1) f (demo_steps 3)))"
  using restored_replica_agrees [OF map_order_sorted map_order_sorted map_order_sorted demo_orders demo_fresh refl
      NewRaftFSM_ok [OF map_order_sorted] refl demo_orders demo_orders]
  by (simp add: demo_logs Let_def)

text \<open>
  C9: versions are never reused, so compare-and-swap is free of the ABA problem. However many
  commands run between a read of \<open>e\<close> and a compare-and-swap that expects \<open>e\<close>'s version, the
  swap succeeds exactly when the key still holds \<open>e\<close> itself (up to \<open>2 ^ 64\<close> writes).
\<close>

theorem cas_no_aba:
  assumes "fsm_ok xxh f" "wf_versions (f_state f)" "orders_ok steps"
    and "unat (st_version (f_state f)) + run_writes steps < 2 ^ 64"
    and "f' = fst (fsm_run xxh f steps)" and "st_entries (f_state f) k = Some e"
    and "c_Op c = opCAS" "c_Key c = k" "c_Expect c = e_version e"
  shows "ar_OK (snd (applyCommand it now f' c)) \<longleftrightarrow> st_entries (f_state f') k = Some e"
proof -
  have n: "no_aba (f_state f) (f_state f') (run_writes steps)"
    unfolding assms(5) by (intro fsm_run_no_aba assms(1-4))
  have v: "0 < e_version e" "e_version e \<le> st_version (f_state f)"
    using assms(2,6) by (auto simp: wf_versions_def)
  have "ar_OK (snd (applyCommand it now f' c)) \<longleftrightarrow>
      (case st_entries (f_state f') k of None \<Rightarrow> 0 | Some x \<Rightarrow> e_version x) = e_version e"
    using assms(7-9) by (simp add: applyCommand_cas cas_def Let_def split_def res_ok_def)
  then show ?thesis
    using n v assms(6) by (auto simp: no_aba_def split: option.splits)
qed

lemma Apply_set:
  assumes "map_order it" "fsm_ok xxh f" "short k" "short v"
  shows "st_entries (f_state (fst (Apply xxh it now f (mk_log i (mk_command opSet k v []))))) =
     (st_entries (f_state f))(k \<mapsto> \<lparr>e_key = k, e_leaseID = [], e_value = v,
        e_version = st_version (f_state f) + 1, e_epoch = i\<rparr>)"
    and "st_version (f_state (fst (Apply xxh it now f (mk_log i (mk_command opSet k v []))))) = st_version (f_state f) + 1"
proof -
  let ?c = "mk_command opSet k v []"
  have d: "decodeLog (log_Data (mk_log i ?c)) = Inr (Inr ?c)"
    using assms by (intro mk_log_decode) (simp_all add: mk_command_def opcode_defs short_def)
  obtain snap where "f_state (fst (Apply xxh it now f (mk_log i ?c))) =
      (f_state (fst (execLog it now (at_index f i) (Inr ?c))))\<lparr>st_dirty := {}, st_published := Some snap\<rparr>"
    using Apply_exec [OF assms(1,2) d] by (auto simp: mk_log_def)
  moreover have "f_state (fst (execLog it now (at_index f i) (Inr ?c))) =
      fst (kv_set ((f_state f)\<lparr>st_applyIndex := i\<rparr>) k v [])"
    by (simp add: execLog_def applyCommand_def mk_command_def Let_def split_def)
  ultimately show "st_entries (f_state (fst (Apply xxh it now f (mk_log i ?c)))) =
     (st_entries (f_state f))(k \<mapsto> \<lparr>e_key = k, e_leaseID = [], e_value = v,
        e_version = st_version (f_state f) + 1, e_epoch = i\<rparr>)"
    "st_version (f_state (fst (Apply xxh it now f (mk_log i ?c)))) = st_version (f_state f) + 1"
    by (simp_all add: kv_fields)
qed

definition demo_set :: RaftFSM where
  "demo_set = fst (Apply (\<lambda>_. 1) sorted_list_of_set 0 (NewRaftFSM (\<lambda>_. 1) sorted_list_of_set)
     (mk_log 1 (mk_command opSet ''b'' [2] [])))"

lemma demo_set_facts:
  "fsm_ok (\<lambda>_. 1) demo_set" "wf_versions (f_state demo_set)" "st_version (f_state demo_set) = 1"
  "st_entries (f_state demo_set) ''b'' =
     Some \<lparr>e_key = ''b'', e_leaseID = [], e_value = [2], e_version = 1, e_epoch = 1\<rparr>"
proof -
  note new = NewRaftFSM_ok [OF map_order_sorted, of "\<lambda>_. 1"] NewRaftFSM_inv(1) [OF map_order_sorted, of "\<lambda>_. 1"]
  note a = Apply_set [OF map_order_sorted new(1), of "''b''" "[2]" 0 1]
  show "fsm_ok (\<lambda>_. 1) demo_set"
    unfolding demo_set_def by (intro Apply_ok map_order_sorted new)
  show "st_version (f_state demo_set) = 1" "st_entries (f_state demo_set) ''b'' =
     Some \<lparr>e_key = ''b'', e_leaseID = [], e_value = [2], e_version = 1, e_epoch = 1\<rparr>"
    using a by (simp_all add: demo_set_def NewRaftFSM_state map_order_sorted short_def)
  have "st_entries (f_state demo_set) = [''b'' \<mapsto> \<lparr>e_key = ''b'', e_leaseID = [], e_value = [2], e_version = 1, e_epoch = 1\<rparr>]"
    using a by (simp add: demo_set_def NewRaftFSM_state map_order_sorted short_def)
  with \<open>st_version (f_state demo_set) = 1\<close> show "wf_versions (f_state demo_set)"
    by (simp add: wf_versions_def)
qed

theorem cas_no_aba_witness:
  "ar_OK (snd (applyCommand sorted_list_of_set 0
       (fst (fsm_run (\<lambda>_. 1) demo_set [(sorted_list_of_set, 3, mk_log 2 (mk_command opSet ''z'' [7] []))]))
       \<lparr>c_Key = ''b'', c_LeaseID = [], c_Value = [9], c_Expect = 1, c_TTLms = 0, c_ExpiresAtMs = 0, c_Op = opCAS\<rparr>))"
proof -
  let ?st = "[(sorted_list_of_set, 3, mk_log 2 (mk_command opSet ''z'' [7] []))] :: log_step list"
  have "decodeLog (log_Data (mk_log 2 (mk_command opSet ''z'' [7] []))) = Inr (Inr (mk_command opSet ''z'' [7] []))"
    by (rule mk_log_decode) (simp_all add: mk_command_def opcode_defs short_def)
  then have w: "run_writes ?st = 1"
    by (simp add: run_writes_def logs_of_def log_writes_def writes_def)
  have "st_entries (f_state (fst (fsm_run (\<lambda>_. 1) demo_set ?st))) ''b'' = st_entries (f_state demo_set) ''b''"
    using Apply_set(1) [OF map_order_sorted demo_set_facts(1), of "''z''" "[7]" 3 2]
    by (simp add: Let_def split_def short_def)
  then show ?thesis
    by (subst cas_no_aba [OF demo_set_facts(1,2) _ _ refl demo_set_facts(4)])
      (simp_all add: orders_ok_def map_order_sorted w demo_set_facts(3,4))
qed

text \<open>The entries bound to a lease.\<close>

definition bound_to :: "state \<Rightarrow> string \<Rightarrow> string \<Rightarrow> bool" where
  "bound_to s l k \<longleftrightarrow> map_option e_leaseID (st_entries s k) = Some l"

lemma revoke_state:
  assumes "map_order it" "fsm_ok xxh f" "c_Op c = opLeaseRevoke" "c_LeaseID c = l"
    and "f' = fst (applyCommand it now f c)"
  shows "st_entries (f_state f') = (\<lambda>k. if \<exists>ls. st_leases (f_state f) l = Some ls \<and> k \<in> ls_keys ls then None
      else st_entries (f_state f) k)"
    and "st_leases (f_state f') = (st_leases (f_state f))(l := None)"
proof -
  let ?s = "f_state f" and ?ks = "snd (removeLease it (f_state f) l)"
  let ?f = "fold (delKey WatchExpired) ?ks (with_state f (fst (removeLease it ?s l)))"
  have wf: "wf_entries ?s" "wf_leases ?s" using assms(2) by (simp_all add: fsm_ok_def)
  have f': "f_state f' = f_state ?f"
    using assms(3-5) by (simp add: applyCommand_revoke Let_def split_def)
  have ks: "set ?ks = {k. \<exists>ls. st_leases ?s l = Some ls \<and> k \<in> ls_keys ls}"
    using lease_keys_finite [OF wf] map_order_set [OF assms(1)]
    by (cases "st_leases ?s l") (auto simp: removeLease_snd)
  show "st_entries (f_state f') = (\<lambda>k. if \<exists>ls. st_leases ?s l = Some ls \<and> k \<in> ls_keys ls then None
      else st_entries ?s k)"
    unfolding f' fold_delKey_entries by (simp only: ks mem_Collect_eq with_state_fields removeLease_fields(1))
  show "st_leases (f_state f') = (st_leases ?s)(l := None)"
  proof
    fix l'
    have "lost_keys ?s (set ?ks) l' = {}" if "l' \<noteq> l"
      using that wf_leasesD(3) [OF wf(2)] by (fastforce simp: lost_keys_def ks)
    moreover have "lost_keys (fst (removeLease it ?s l)) = lost_keys ?s"
      by (simp add: fun_eq_iff lost_keys_def kv_fields)
    ultimately show "st_leases (f_state f') l' = ((st_leases ?s)(l := None)) l'"
      unfolding f' fold_delKey_leases by (cases "st_leases ?s l'") (auto simp: kv_fields)
  qed
qed

text \<open>
  C10: what revoking a live lease does after any log. It deletes exactly the keys the lease has
  recorded, all of them bound to it, leaves every other entry and every other lease as it was, and
  closes the lease. If the log granted no lease id while entries were still bound to it, the recorded
  keys are all the keys bound to the lease, so the revoke deletes exactly those.
\<close>

theorem revoke_deletes_bound:
  assumes "map_order it0" "map_order it" "orders_ok steps" "f = fst (fsm_run xxh (NewRaftFSM xxh it0) steps)"
    and "c_Op c = opLeaseRevoke" "c_LeaseID c = l" "st_leases (f_state f) l = Some ls" "l \<noteq> []"
    and "f' = fst (applyCommand it now f c)"
  shows "st_entries (f_state f') = (\<lambda>k. if k \<in> ls_keys ls then None else st_entries (f_state f) k) \<and>
    ls_keys ls \<subseteq> {k. bound_to (f_state f) l k} \<and>
    st_leases (f_state f') = (st_leases (f_state f))(l := None) \<and> lm_handles (f_leases f') l = None \<and>
    (fresh_run xxh (NewRaftFSM xxh it0) steps \<longrightarrow> ls_keys ls = {k. bound_to (f_state f) l k})"
proof -
  have ok: "fsm_ok xxh f"
    unfolding assms(4) using assms(1,3) by (intro fsm_run_ok NewRaftFSM_ok; simp)
  have c: "lease_complete (f_state f)" if "fresh_run xxh (NewRaftFSM xxh it0) steps"
    unfolding assms(4) using assms(1,3) that by (intro fsm_run_complete NewRaftFSM_ok NewRaftFSM_inv(2); simp)
  have wf: "wf_leases (f_state f)" and lm: "lm_ok (f_leases f)" using ok by (simp_all add: fsm_ok_def)
  have sub: "ls_keys ls \<subseteq> {k. bound_to (f_state f) l k}"
    using wf_leasesD(3) [OF wf assms(7)] by (fastforce simp: bound_to_def)
  have all: "{k. bound_to (f_state f) l k} \<subseteq> ls_keys ls" if "lease_complete (f_state f)"
    using that assms(7,8) by (fastforce simp: bound_to_def lease_complete_def)
  have "lm_handles (f_leases f') l = None"
    using applyCommand_lm [OF lm, of it now c] assms(5,6,9) opcodes_distinct by (auto simp: live_after_def domIff)
  then show ?thesis
    using revoke_state [OF assms(2) ok assms(5,6,9)] assms(7) sub all c by auto
qed

text \<open>
  Granting a live lease id again breaks that. The grant forgets the keys bound to the id,
  so a later revoke leaves them in the store; but a replica that restored a snapshot in
  between attaches the keys again and deletes them. The two replicas then disagree.
\<close>

theorem regrant_diverges:
  assumes "map_order it" "map_order it'" "fsm_ok xxh f" "fsm_ok xxh' g"
    and "st_entries (f_state f) k = Some e" "e_leaseID e = l" "l \<noteq> []"
    and "decodeLog (log_Data lg) = Inr (Inr c1)" "c_Op c1 = opLeaseGrant" "c_LeaseID c1 = l"
    and "f1 = fst (Apply xxh it now f lg)"
    and "r1 = fsm_Restore xxh' it' now' g (Some (fsm_Snapshot it f1))"
    and "c_Op c2 = opLeaseRevoke" "c_LeaseID c2 = l"
  shows "st_entries (f_state (fst (applyCommand it now f1 c2))) k = Some e \<and>
    st_entries (f_state (fst (applyCommand it' now' r1 c2))) k = None"
proof -
  have ok: "fsm_ok xxh f1"
    unfolding assms(11) by (intro Apply_ok assms)
  obtain snap where "f_state f1 = (f_state (fst (execLog it now (at_index f (log_Index lg)) (Inr c1))))\<lparr>
      st_dirty := {}, st_published := Some snap\<rparr>"
    unfolding assms(11) using Apply_exec [OF assms(1,3,8)] by blast
  then have e: "st_entries (f_state f1) = st_entries (f_state f)"
    and l: "\<exists>ls. st_leases (f_state f1) l = Some ls \<and> ls_keys ls = {}"
    using assms(9,10) by (simp_all add: execLog_def applyCommand_grant kv_fields)
  have "st_entries (f_state (fst (applyCommand it now f1 c2))) k = Some e"
    using revoke_state(1) [OF assms(1) ok assms(13,14) refl, of now] e l assms(5) by auto
  moreover have r: "fsm_ok xxh' r1" "st_entries (f_state r1) = st_entries (f_state f1)"
      "st_leases (f_state r1) l = map_option (\<lambda>ls. ls\<lparr>ls_keys :=
           reattached (st_entries (f_state f1)) (dom (st_entries (f_state f1))) l\<rparr>) (st_leases (f_state f1) l)"
    using fsm_Restore_state [OF assms(1,2) ok assms(4,12)] by simp_all
  moreover have "k \<in> reattached (st_entries (f_state f1)) (dom (st_entries (f_state f1))) l"
    using assms(5-7) e by (auto simp: reattached_def)
  ultimately show ?thesis
    using revoke_state(1) [OF assms(2) r(1) assms(13,14) refl, of now'] l by auto
qed

text \<open>
  C11: reads are current and the watch feed is complete. After a log entry the published
  snapshot reads as the state; and the records handed to the watch feed, all stamped with the
  entry's index, replay from the old entries to the new ones, each record's previous value
  being the one it replaces.
\<close>

theorem Apply_publishes:
  assumes "map_order it" "fsm_ok xxh f" "Apply xxh it now f lg = (f', res, records)"
  shows "fsm_get xxh f' k = map_option to_Entry (st_entries (f_state f') k) \<and>
    replay records (st_entries (f_state f)) = Some (st_entries (f_state f')) \<and>
    (\<forall>r \<in> set records. wr_revision r = log_Index lg)"
proof -
  have "fsm_ok xxh f'" using Apply_ok [OF assms(1,2), of now lg] assms(3) by simp
  then show ?thesis using Apply_traced [OF assms] by (simp add: fsm_get_published)
qed

theorem Apply_publishes_witness:
  "map_option E_Value (fsm_get (\<lambda>_. 1)
     (fst (Apply (\<lambda>_. 1) sorted_list_of_set 0 demo_set (mk_log 2 (mk_command opSet ''b'' [5] [])))) ''b'') = Some [5]"
proof -
  obtain f' res records where a: "Apply (\<lambda>_. 1) sorted_list_of_set 0 demo_set (mk_log 2 (mk_command opSet ''b'' [5] [])) = (f', res, records)"
    by (rule prod_cases3)
  have "fsm_get (\<lambda>_. 1) f' ''b'' = map_option to_Entry (st_entries (f_state f') ''b'')"
    using Apply_publishes [OF map_order_sorted demo_set_facts(1) a] by blast
  moreover have "map_option e_value (st_entries (f_state f') ''b'') = Some [5]"
    using Apply_set(1) [OF map_order_sorted demo_set_facts(1), of "''b''" "[5]" 0 2] a by (simp add: short_def)
  ultimately show ?thesis by (auto simp: a to_Entry_def)
qed

text \<open>
  The entry an operation of a transaction leaves at its key when \<open>pre\<close> ran before it: a put takes the
  next version, so its version counts the puts before it.
\<close>

definition txn_writes :: "TxnOp \<Rightarrow> bool" where
  "txn_writes op \<longleftrightarrow> t_Kind op = TxnPut \<or> t_Kind op = TxnDelete"

definition txn_entry :: "state \<Rightarrow> TxnOp list \<Rightarrow> TxnOp \<Rightarrow> entry option" where
  "txn_entry s pre op = (if t_Kind op = TxnPut
     then Some \<lparr>e_key = t_Key op, e_leaseID = [], e_value = t_Value op,
                e_version = st_version s + of_nat (length (filter (\<lambda>o'. t_Kind o' = TxnPut) pre)) + 1,
                e_epoch = st_applyIndex s\<rparr>
     else None)"

lemma txnStep_entries:
  "\<not> (txn_writes op \<and> t_Key op = k) \<Longrightarrow> st_entries (f_state (txnStep op f)) k = st_entries (f_state f) k"
  "txn_writes op \<Longrightarrow> st_entries (f_state (txnStep op f)) (t_Key op) = txn_entry (f_state f) [] op"
  "st_applyIndex (f_state (txnStep op f)) = st_applyIndex (f_state f)"
  "st_version (f_state (txnStep op f)) = st_version (f_state f) + (if t_Kind op = TxnPut then 1 else 0)"
  by (auto simp: txn_writes_def txn_entry_def kv_fields)

lemma fold_txnStep_counters:
  "st_applyIndex (f_state (fold txnStep ops f)) = st_applyIndex (f_state f)"
  "st_version (f_state (fold txnStep ops f)) =
     st_version (f_state f) + of_nat (length (filter (\<lambda>o'. t_Kind o' = TxnPut) ops))"
  by (induction ops arbitrary: f) (simp_all add: txnStep_entries(3,4) del: txnStep_fields)

lemma fold_txnStep_other:
  assumes "\<forall>op \<in> set ops. \<not> (txn_writes op \<and> t_Key op = k)"
  shows "st_entries (f_state (fold txnStep ops f)) k = st_entries (f_state f) k"
  using assms by (induction ops arbitrary: f) (simp_all add: txnStep_entries(1) del: txnStep_fields)

lemma fold_txnStep_last:
  assumes "txn_writes op" "\<forall>o' \<in> set post. \<not> (txn_writes o' \<and> t_Key o' = t_Key op)"
  shows "st_entries (f_state (fold txnStep (pre @ op # post) f)) (t_Key op) = txn_entry (f_state f) pre op"
proof -
  have "st_entries (f_state (fold txnStep (pre @ op # post) f)) (t_Key op) = txn_entry (f_state (fold txnStep pre f)) [] op"
    using fold_txnStep_other [OF assms(2)] txnStep_entries(2) [OF assms(1)] by (simp del: txnStep_fields)
  then show ?thesis by (simp add: txn_entry_def fold_txnStep_counters)
qed

text \<open>
  C12: transactions are atomic and their operations run in order. All preconditions are judged
  against the state before the transaction: if one fails, nothing changes and the result says so.
  Otherwise a key that no operation writes keeps its entry, and every other key holds what the last
  operation that writes it leaves there, however often the key occurs: nothing after a delete, and
  after a put its value, without a lease, stamped with the log index and with a version that counts
  every put of the transaction up to it.
\<close>

theorem applyTxn_atomic:
  assumes "conds = list_all (\<lambda>op. condHolds (t_Cond op) (t_Expect op) (st_entries (f_state f) (t_Key op))) ops"
    and "s' = f_state (fst (applyTxn f ops))"
  shows "ar_OK (snd (applyTxn f ops)) = conds \<and> (\<not> conds \<longrightarrow> fst (applyTxn f ops) = f) \<and>
    (conds \<longrightarrow>
      (\<forall>k. (\<forall>op \<in> set ops. \<not> (txn_writes op \<and> t_Key op = k)) \<longrightarrow> st_entries s' k = st_entries (f_state f) k) \<and>
      (\<forall>pre op post. ops = pre @ op # post \<and> txn_writes op \<and> (\<forall>o' \<in> set post. \<not> (txn_writes o' \<and> t_Key o' = t_Key op)) \<longrightarrow>
        st_entries s' (t_Key op) = txn_entry (f_state f) pre op) \<and>
      st_version s' = st_version (f_state f) + of_nat (length (filter (\<lambda>op. t_Kind op = TxnPut) ops)))"
proof (cases conds)
  case True
  then have a: "applyTxn f ops = (fold txnStep ops f, res_ok 0 True)"
    using assms(1) by (simp add: applyTxn_def kv_get_def)
  show ?thesis
    using True fold_txnStep_other [of ops _ f] fold_txnStep_last [of _ _ _ f] fold_txnStep_counters(2) [of ops f]
    unfolding assms(2) a by (simp add: res_ok_def del: fold_append)
next
  case False
  then have "applyTxn f ops = (f, res_ok 0 False)"
    using assms(1) by (simp add: applyTxn_def kv_get_def)
  then show ?thesis using False by (simp add: res_ok_def)
qed

definition put_twice :: "TxnOp list" where
  "put_twice = [\<lparr>t_Key = ''b'', t_Value = [1], t_Expect = 1, t_Kind = TxnPut, t_Cond = CondVersion\<rparr>,
     \<lparr>t_Key = ''b'', t_Value = [], t_Expect = 0, t_Kind = TxnDelete, t_Cond = CondAny\<rparr>,
     \<lparr>t_Key = ''b'', t_Value = [3], t_Expect = 0, t_Kind = TxnPut, t_Cond = CondAny\<rparr>]"

theorem applyTxn_atomic_witness:
  "ar_OK (snd (applyTxn demo_set put_twice)) \<and>
   st_entries (f_state (fst (applyTxn demo_set put_twice))) ''b'' =
     Some \<lparr>e_key = ''b'', e_leaseID = [], e_value = [3], e_version = 3, e_epoch = st_applyIndex (f_state demo_set)\<rparr>"
proof -
  have c: "list_all (\<lambda>op. condHolds (t_Cond op) (t_Expect op) (st_entries (f_state demo_set) (t_Key op))) put_twice"
    by (simp add: put_twice_def condHolds_def demo_set_facts(4) txn_code_defs)
  let ?op = "\<lparr>t_Key = ''b'', t_Value = [3], t_Expect = 0, t_Kind = TxnPut, t_Cond = CondAny\<rparr>"
  have p: "put_twice = butlast put_twice @ ?op # []" "txn_writes ?op" by (simp_all add: put_twice_def txn_writes_def)
  note T = applyTxn_atomic [OF refl refl, of demo_set put_twice]
  have "put_twice = butlast put_twice @ ?op # [] \<and> txn_writes ?op \<and> (\<forall>o' \<in> set []. \<not> (txn_writes o' \<and> t_Key o' = t_Key ?op))"
    using p by simp
  with T c have "st_entries (f_state (fst (applyTxn demo_set put_twice))) (t_Key ?op) = txn_entry (f_state demo_set) (butlast put_twice) ?op"
    by blast
  then show ?thesis
    using T c by (simp add: txn_entry_def put_twice_def demo_set_facts(3) txn_code_defs)
qed

definition demo_granted :: RaftFSM where
  "demo_granted = fst (Apply (\<lambda>_. 1) sorted_list_of_set 0 (NewRaftFSM (\<lambda>_. 1) sorted_list_of_set) (demo_log ! 0))"

definition demo_leased :: RaftFSM where
  "demo_leased = fst (Apply (\<lambda>_. 1) sorted_list_of_set 0 demo_granted (demo_log ! Suc 0))"

lemma demo_leased_facts:
  "fsm_ok (\<lambda>_. 1) demo_leased" "lease_complete (f_state demo_leased)"
  "''L'' \<in> dom (st_leases (f_state demo_leased))"
  "\<exists>e. st_entries (f_state demo_leased) ''a'' = Some e \<and> e_leaseID e = ''L''"
proof -
  note new = NewRaftFSM_ok [OF map_order_sorted, of "\<lambda>_. 1"]
  have g: "fsm_ok (\<lambda>_. 1) demo_granted"
    unfolding demo_granted_def by (intro Apply_ok map_order_sorted new)
  show "fsm_ok (\<lambda>_. 1) demo_leased"
    unfolding demo_leased_def by (intro Apply_ok map_order_sorted g)
  have fr: "fresh_grant (NewRaftFSM (\<lambda>_. 1) sorted_list_of_set) (demo_log ! 0)" "fresh_grant demo_granted (demo_log ! Suc 0)"
    by (simp_all add: fresh_grant_def demo_decode NewRaftFSM_state map_order_sorted mk_command_def opcode_defs)
  have "lease_complete (f_state demo_granted)"
    unfolding demo_granted_def by (intro Apply_complete map_order_sorted new NewRaftFSM_inv fr)
  then show "lease_complete (f_state demo_leased)"
    unfolding demo_leased_def by (intro Apply_complete map_order_sorted g fr)
  obtain s1 where "f_state demo_granted = (f_state (fst (execLog sorted_list_of_set 0 (at_index (NewRaftFSM (\<lambda>_. 1) sorted_list_of_set)
      (log_Index (demo_log ! 0))) (Inr (mk_command opLeaseGrant [] [] ''L'')))))\<lparr>st_dirty := {}, st_published := Some s1\<rparr>"
    unfolding demo_granted_def using Apply_exec [OF map_order_sorted new demo_decode(1)] by blast
  then have l: "''L'' \<in> dom (st_leases (f_state demo_granted))"
    by (simp add: execLog_def applyCommand_grant mk_command_def kv_fields)
  then have h: "lm_handles (f_leases demo_granted) ''L'' \<noteq> None"
    using g unfolding fsm_ok_def by (metis domIff)
  obtain s2 where e: "f_state demo_leased = (f_state (fst (execLog sorted_list_of_set 0 (at_index demo_granted
      (log_Index (demo_log ! Suc 0))) (Inr (mk_command opSetWithLease ''a'' [1] ''L'')))))\<lparr>st_dirty := {}, st_published := Some s2\<rparr>"
    unfolding demo_leased_def using Apply_exec [OF map_order_sorted g demo_decode(2)] by blast
  have s: "f_state (fst (execLog sorted_list_of_set 0 (at_index demo_granted (log_Index (demo_log ! Suc 0)))
      (Inr (mk_command opSetWithLease ''a'' [1] ''L'')))) =
      fst (kv_set ((f_state demo_granted)\<lparr>st_applyIndex := log_Index (demo_log ! Suc 0)\<rparr>) ''a'' [1] ''L'')"
    using h by (auto simp: execLog_def applyCommand_def mk_command_def opcode_defs lm_getHandle_def Let_def split_def)
  show "''L'' \<in> dom (st_leases (f_state demo_leased))" "\<exists>e. st_entries (f_state demo_leased) ''a'' = Some e \<and> e_leaseID e = ''L''"
    using l by (auto simp: e s kv_fields leases_dom)
qed

lemma demo_leased_run:
  "demo_leased = fst (fsm_run (\<lambda>_. 1) (NewRaftFSM (\<lambda>_. 1) sorted_list_of_set) (take 2 (demo_steps 0)))"
  "orders_ok (take 2 (demo_steps 0))" "fresh_run (\<lambda>_. 1) (NewRaftFSM (\<lambda>_. 1) sorted_list_of_set) (take 2 (demo_steps 0))"
proof -
  have t: "take 2 (demo_steps 0) = [(sorted_list_of_set, 0, demo_log ! 0), (sorted_list_of_set, 0, demo_log ! Suc 0)]"
    by (simp add: demo_steps_def demo_log_def)
  show "demo_leased = fst (fsm_run (\<lambda>_. 1) (NewRaftFSM (\<lambda>_. 1) sorted_list_of_set) (take 2 (demo_steps 0)))"
    unfolding t by (simp add: demo_leased_def demo_granted_def Let_def split_def)
  show "orders_ok (take 2 (demo_steps 0))"
    unfolding t by (simp add: orders_ok_def map_order_sorted)
  show "fresh_run (\<lambda>_. 1) (NewRaftFSM (\<lambda>_. 1) sorted_list_of_set) (take 2 (demo_steps 0))"
    unfolding t by (simp add: fresh_grant_def demo_decode NewRaftFSM_state map_order_sorted mk_command_def opcode_defs)
qed

theorem revoke_deletes_bound_witness:
  "st_entries (f_state (fst (applyCommand sorted_list_of_set 5 demo_leased (mk_command opLeaseRevoke [] [] ''L'')))) ''a'' = None"
proof -
  obtain ls where ls: "st_leases (f_state demo_leased) ''L'' = Some ls" using demo_leased_facts(3) by blast
  from revoke_deletes_bound [OF map_order_sorted map_order_sorted demo_leased_run(2,1) _ _ ls _ refl,
      of "mk_command opLeaseRevoke [] [] ''L''" 5] demo_leased_facts(4) demo_leased_run(3)
  show ?thesis by (auto simp: mk_command_def bound_to_def)
qed

theorem regrant_diverges_witness:
  "\<exists>e f1 r1. f1 = fst (Apply (\<lambda>_. 1) sorted_list_of_set 0 demo_leased (demo_log ! 0)) \<and>
     r1 = fsm_Restore (\<lambda>_. 1) sorted_list_of_set 0 demo_set (Some (fsm_Snapshot sorted_list_of_set f1)) \<and>
     st_entries (f_state (fst (applyCommand sorted_list_of_set 0 f1 (mk_command opLeaseRevoke [] [] ''L'')))) ''a'' = Some e \<and>
     st_entries (f_state (fst (applyCommand sorted_list_of_set 0 r1 (mk_command opLeaseRevoke [] [] ''L'')))) ''a'' = None"
proof -
  obtain e where e: "st_entries (f_state demo_leased) ''a'' = Some e" "e_leaseID e = ''L''"
    using demo_leased_facts(4) by blast
  show ?thesis
    using regrant_diverges [OF map_order_sorted map_order_sorted demo_leased_facts(1) demo_set_facts(1) e _ demo_decode(1) _ _ refl refl,
        of "mk_command opLeaseRevoke [] [] ''L''" 0 0] by (simp add: mk_command_def)
qed

end
