(* ===== verification/Go_Strings.thy ===== *)
theory Go_Strings
  imports Prelude "HOL-Library.Char_ord" "HOL-Library.List_Lexorder"
begin

text \<open>
  The parts of Go's \<^verbatim>\<open>strings\<close> and \<^verbatim>\<open>strconv\<close> packages that the modelled code uses, on
  strings as lists of bytes. White space is the ASCII white space of \<^verbatim>\<open>strings.Fields\<close> and
  \<^verbatim>\<open>strings.TrimSpace\<close>; the white space runes outside ASCII are not modelled. An \<^verbatim>\<open>int\<close> is a
  signed 64-bit integer: \<^verbatim>\<open>Atoi\<close> saturates and reports an error outside its range.
\<close>

section \<open>Splitting\<close>

fun split_on :: "char \<Rightarrow> string \<Rightarrow> string list" where
  "split_on c [] = [[]]"
| "split_on c (x # xs) =
     (if x = c then [] # split_on c xs
      else case split_on c xs of [] \<Rightarrow> [[x]] | p # ps \<Rightarrow> (x # p) # ps)"

fun join_with :: "char \<Rightarrow> string list \<Rightarrow> string" where
  "join_with c [] = []"
| "join_with c [p] = p"
| "join_with c (p # q # ps) = p @ [c] @ join_with c (q # ps)"

lemma split_on_nonempty [simp]: "split_on c s \<noteq> []"
  by (cases s) (auto split: list.split)

lemma join_split [simp]: "join_with c (split_on c s) = s"
proof (induction s)
  case Nil
  then show ?case by simp
next
  case (Cons x s)
  obtain p ps where p: "split_on c s = p # ps"
    using split_on_nonempty [of c s] by (cases "split_on c s") blast+
  show ?case
    using Cons p by (cases ps) auto
qed

lemma split_on_append_sep: "c \<notin> set p \<Longrightarrow> split_on c (p @ c # s) = p # split_on c s"
  by (induction p) auto

lemma split_on_none: "c \<notin> set p \<Longrightarrow> split_on c p = [p]"
  by (induction p) auto

lemma split_join: "ps \<noteq> [] \<Longrightarrow> (\<And>p. p \<in> set ps \<Longrightarrow> c \<notin> set p) \<Longrightarrow> split_on c (join_with c ps) = ps"
  by (induction c ps rule: join_with.induct) (auto simp: split_on_append_sep split_on_none)

lemma split_on_parts: "p \<in> set (split_on c s) \<Longrightarrow> c \<notin> set p \<and> set p \<subseteq> set s"
proof (induction s arbitrary: p)
  case Nil
  then show ?case by simp
next
  case (Cons x s)
  obtain q qs where q: "split_on c s = q # qs"
    using split_on_nonempty [of c s] by (cases "split_on c s") blast+
  show ?case
    using Cons q by (fastforce split: if_splits)
qed

section \<open>White space\<close>

definition isSpace :: "char \<Rightarrow> bool" where
  "isSpace c = (of_char c \<in> {9, 10, 11, 12, 13, 32 :: nat})"

definition trimSpace :: "string \<Rightarrow> string" where
  "trimSpace s = rev (dropWhile isSpace (rev (dropWhile isSpace s)))"

text \<open>\<^verbatim>\<open>strings.Fields\<close>: the maximal runs of characters that are not white space.\<close>

function strings_Fields :: "string \<Rightarrow> string list" where
  "strings_Fields s =
     (case dropWhile isSpace s of
        [] \<Rightarrow> []
      | x # xs \<Rightarrow> (x # takeWhile (\<lambda>c. \<not> isSpace c) xs) # strings_Fields (dropWhile (\<lambda>c. \<not> isSpace c) xs))"
  by auto
termination
proof (relation "measure length")
  fix s x xs
  assume "dropWhile isSpace s = x # xs"
  then have "length (x # xs) \<le> length s"
    by (metis length_dropWhile_le)
  moreover have "length (dropWhile (\<lambda>c. \<not> isSpace c) xs) \<le> length xs"
    by (rule length_dropWhile_le)
  ultimately show "(dropWhile (\<lambda>c. \<not> isSpace c) xs, s) \<in> measure length"
    by simp
qed simp

declare strings_Fields.simps [simp del]

section \<open>Decimal numbers\<close>

definition isDigit :: "char \<Rightarrow> bool" where
  "isDigit c = (48 \<le> (of_char c :: nat) \<and> (of_char c :: nat) \<le> 57)"

definition digit_char :: "nat \<Rightarrow> char" where
  "digit_char d = char_of (48 + d)"

definition digit_val :: "char \<Rightarrow> nat" where
  "digit_val c = of_char c - 48"

definition dec_val :: "string \<Rightarrow> nat" where
  "dec_val s = foldl (\<lambda>n c. n * 10 + digit_val c) 0 s"

fun nat_digits :: "nat \<Rightarrow> string" where
  "nat_digits n = (if n < 10 then [digit_char n] else nat_digits (n div 10) @ [digit_char (n mod 10)])"

declare nat_digits.simps [simp del]

definition itoa :: "int \<Rightarrow> string" where
  "itoa i = (if i < 0 then CHR ''-'' # nat_digits (nat (- i)) else nat_digits (nat i))"

definition maxInt :: int where "maxInt = 2 ^ 63 - 1"
definition minInt :: int where "minInt = - (2 ^ 63)"

text \<open>
  \<^verbatim>\<open>strconv.Atoi\<close>: the value (saturated when out of range) and whether there was an error.
\<close>

definition Atoi :: "string \<Rightarrow> int \<times> bool" where
  "Atoi s =
     (let neg = (s \<noteq> [] \<and> hd s = CHR ''-'');
          ds = (if s \<noteq> [] \<and> (hd s = CHR ''-'' \<or> hd s = CHR ''+'') then tl s else s)
      in if ds = [] \<or> \<not> list_all isDigit ds then (0, True)
         else
           let n = int (dec_val ds)
           in if neg then (if - n < minInt then (minInt, True) else (- n, False))
              else (if maxInt < n then (maxInt, True) else (n, False)))"

lemma digit_char_props:
  assumes "d < 10"
  shows "isDigit (digit_char d)" "digit_val (digit_char d) = d"
proof -
  have "of_char (digit_char d) = 48 + d"
    using assms by (simp add: digit_char_def)
  then show "isDigit (digit_char d)" "digit_val (digit_char d) = d"
    using assms by (simp_all add: isDigit_def digit_val_def)
qed

lemma digit_val_less: "isDigit c \<Longrightarrow> digit_val c < 10"
  unfolding isDigit_def digit_val_def by linarith

lemma digit_char_val: "isDigit c \<Longrightarrow> digit_char (digit_val c) = c"
  by (simp add: isDigit_def digit_val_def digit_char_def)

lemma of_char_zero: "of_char c = (48 :: nat) \<longleftrightarrow> c = CHR ''0''"
proof -
  have "(48 :: nat) = of_char CHR ''0''" by simp
  then show ?thesis by (simp only: of_char_eq_iff)
qed

lemma digit_val_zero: "isDigit c \<Longrightarrow> digit_val c = 0 \<longleftrightarrow> c = CHR ''0''"
  unfolding of_char_zero [symmetric] isDigit_def digit_val_def by linarith

lemma dec_val_base [simp]: "dec_val [] = 0" "dec_val [c] = digit_val c"
  by (simp_all add: dec_val_def)

lemma dec_val_snoc [simp]: "dec_val (s @ [c]) = dec_val s * 10 + digit_val c"
  by (simp add: dec_val_def)

lemma nat_digits_props: "list_all isDigit (nat_digits n) \<and> nat_digits n \<noteq> [] \<and> dec_val (nat_digits n) = n \<and>
    (hd (nat_digits n) = CHR ''0'' \<longleftrightarrow> n = 0)"
proof (induction n rule: nat_digits.induct)
  case (1 n)
  show ?case
  proof (cases "n < 10")
    case True
    then show ?thesis
      using digit_char_props [OF True] digit_val_zero [of "digit_char n"]
      by (simp add: nat_digits.simps [of n] dec_val_def)
  next
    case False
    then show ?thesis
      using 1 [OF False] digit_char_props [of "n mod 10"] by (simp add: nat_digits.simps [of n])
  qed
qed

text \<open>The decimal numerals without leading zeros are exactly what \<^verbatim>\<open>itoa\<close> prints.\<close>

definition numIdent :: "string \<Rightarrow> bool" where
  "numIdent s = (s \<noteq> [] \<and> list_all isDigit s \<and> (s = ''0'' \<or> hd s \<noteq> CHR ''0''))"

lemma nat_digits_numIdent: "numIdent (nat_digits n)"
  using nat_digits_props [of n] by (auto simp: numIdent_def nat_digits.simps digit_char_def)

lemma dec_val_pos: "s \<noteq> [] \<Longrightarrow> list_all isDigit s \<Longrightarrow> hd s \<noteq> CHR ''0'' \<Longrightarrow> 0 < dec_val s"
proof (induction s rule: rev_induct)
  case (snoc c s)
  then show ?case
    using digit_val_zero [of c] by (cases "s = []") auto
qed simp

lemma numIdent_digits: "numIdent s \<Longrightarrow> nat_digits (dec_val s) = s"
proof (induction s rule: rev_induct)
  case Nil
  then show ?case by (simp add: numIdent_def)
next
  case (snoc c s)
  have c: "isDigit c" using snoc.prems by (simp add: numIdent_def)
  show ?case
  proof (cases "s = []")
    case True
    with c show ?thesis
      by (simp add: dec_val_def nat_digits.simps digit_val_less digit_char_val)
  next
    case False
    then have h: "hd s \<noteq> CHR ''0''" and d: "list_all isDigit s"
      using snoc.prems by (auto simp: numIdent_def)
    then have "nat_digits (dec_val s) = s"
      using snoc.IH False by (simp add: numIdent_def)
    moreover have "\<not> dec_val s * 10 + digit_val c < 10"
      using dec_val_pos [OF False d h] by simp
    ultimately show ?thesis
      using digit_val_less [OF c] digit_char_val [OF c] by (simp add: nat_digits.simps [of "dec_val s * 10 + digit_val c"])
  qed
qed

lemma sign_not_digit: "\<not> isDigit CHR ''-''" "\<not> isDigit CHR ''+''" "\<not> isDigit CHR ''.''"
  by (simp_all add: isDigit_def)

lemma Atoi_digits:
  assumes "s \<noteq> []" "list_all isDigit s"
  shows "Atoi s = (if maxInt < int (dec_val s) then (maxInt, True) else (int (dec_val s), False))"
proof -
  have "hd s \<noteq> CHR ''-''" "hd s \<noteq> CHR ''+''"
    using assms sign_not_digit by (cases s; auto)+
  then show ?thesis using assms by (simp add: Atoi_def Let_def)
qed

end
