(* ===== verification/Semver.thy ===== *)
theory Semver
  imports Go_Strings "HOL-Library.Product_Lexorder"
begin

text \<open>
  Semantic versions and version constraints (\<^verbatim>\<open>api/semver/version.go\<close>,
  \<^verbatim>\<open>api/semver/constraint.go\<close>): parsing, printing, precedence, the constraint language and
  the choice of the best match. The anchored regular expressions are written as the
  recognisers they are.
\<close>

section \<open>Versions\<close>

record Version =
  v_Prerelease :: string
  v_Build :: string
  v_Major :: int
  v_Minor :: int
  v_Patch :: int

datatype semver_error = ErrInvalidVersion | ErrInvalidConstraint | ErrNoMatchingVersion
  | errNumberTooLarge | errNotANumber

text \<open>
  \<^verbatim>\<open>versionRegex\<close>: three numbers without leading zeros, an optional prerelease of dot-separated
  identifiers and optional build metadata. Digits and identifiers contain none of the
  separators that follow them, so the leftmost match takes maximal runs.
\<close>

definition isAlnumHyphen :: "char \<Rightarrow> bool" where
  "isAlnumHyphen c =
     (let n = of_char c :: nat in isDigit c \<or> c = CHR ''-'' \<or> (65 \<le> n \<and> n \<le> 90) \<or> (97 \<le> n \<and> n \<le> 122))"

definition preIdent :: "string \<Rightarrow> bool" where
  "preIdent s = (s \<noteq> [] \<and> list_all isAlnumHyphen s \<and> (list_all isDigit s \<longrightarrow> numIdent s))"

definition buildIdent :: "string \<Rightarrow> bool" where
  "buildIdent s = (s \<noteq> [] \<and> list_all isAlnumHyphen s)"

definition validPre :: "string \<Rightarrow> bool" where
  "validPre s = list_all preIdent (split_on (CHR ''.'') s)"

definition validBuild :: "string \<Rightarrow> bool" where
  "validBuild s = list_all buildIdent (split_on (CHR ''.'') s)"

definition takeNum :: "string \<Rightarrow> (string \<times> string) option" where
  "takeNum s =
     (let ds = takeWhile isDigit s
      in if numIdent ds then Some (ds, dropWhile isDigit s) else None)"

definition takeDot :: "string \<Rightarrow> string option" where
  "takeDot s = (case s of [] \<Rightarrow> None | x # xs \<Rightarrow> if x = CHR ''.'' then Some xs else None)"

text \<open>The optional suffixes: the prerelease and build groups (empty when absent).\<close>

definition matchBuild :: "string \<Rightarrow> string option" where
  "matchBuild s =
     (case s of [] \<Rightarrow> Some []
      | x # xs \<Rightarrow> if x = CHR ''+'' \<and> validBuild xs then Some xs else None)"

definition matchTail :: "string \<Rightarrow> (string \<times> string) option" where
  "matchTail s =
     (case s of
        [] \<Rightarrow> Some ([], [])
      | x # xs \<Rightarrow>
          if x = CHR ''-''
          then
            let p = takeWhile (\<lambda>c. c \<noteq> CHR ''+'') xs; r = dropWhile (\<lambda>c. c \<noteq> CHR ''+'') xs
            in if validPre p then map_option (\<lambda>b. (p, b)) (matchBuild r) else None
          else map_option (\<lambda>b. ([], b)) (matchBuild s))"

definition versionRegex :: "string \<Rightarrow> (string \<times> string \<times> string \<times> string \<times> string) option" where
  "versionRegex s =
     Option.bind (takeNum s) (\<lambda>(major, s).
     Option.bind (takeDot s) (\<lambda>s.
     Option.bind (takeNum s) (\<lambda>(minor, s).
     Option.bind (takeDot s) (\<lambda>s.
     Option.bind (takeNum s) (\<lambda>(patch, s).
     map_option (\<lambda>(pre, build). (major, minor, patch, pre, build)) (matchTail s))))))"

definition trimV :: "string \<Rightarrow> string" where
  "trimV s = (case s of [] \<Rightarrow> [] | x # xs \<Rightarrow> if x = CHR ''v'' then xs else s)"

definition ParseVersion :: "string \<Rightarrow> semver_error + Version" where
  "ParseVersion s =
     (if s = [] then Inl ErrInvalidVersion
      else
        case versionRegex (trimV s) of
          None \<Rightarrow> Inl ErrInvalidVersion
        | Some (major, minor, patch, pre, build) \<Rightarrow>
            Inr \<lparr>v_Prerelease = pre, v_Build = build, v_Major = fst (Atoi major),
                 v_Minor = fst (Atoi minor), v_Patch = fst (Atoi patch)\<rparr>)"

definition Version_String :: "Version \<Rightarrow> string" where
  "Version_String v =
     (let s = itoa (v_Major v) @ ''.'' @ itoa (v_Minor v) @ ''.'' @ itoa (v_Patch v);
          s = (if v_Prerelease v \<noteq> [] then s @ ''-'' @ v_Prerelease v else s)
      in if v_Build v \<noteq> [] then s @ ''+'' @ v_Build v else s)"

section \<open>Precedence\<close>

definition cmpInt :: "int \<Rightarrow> int \<Rightarrow> int" where
  "cmpInt a b = (if a < b then -1 else if a > b then 1 else 0)"

text \<open>\<^verbatim>\<open>strings.Compare\<close>: bytewise lexicographic order.\<close>

definition strings_Compare :: "string \<Rightarrow> string \<Rightarrow> int" where
  "strings_Compare a b = (if a = b then 0 else if a < b then -1 else 1)"

definition comparePrereleaseIdentifier :: "string \<Rightarrow> string \<Rightarrow> int" where
  "comparePrereleaseIdentifier a b =
     (let (numA, errA) = Atoi a; (numB, errB) = Atoi b
      in if \<not> errA \<and> \<not> errB then cmpInt numA numB
         else if \<not> errA then -1
         else if \<not> errB then 1
         else strings_Compare a b)"

fun comparePrereleases_loop :: "string list \<Rightarrow> string list \<Rightarrow> int option" where
  "comparePrereleases_loop (a # as) (b # bs) =
     (let c = comparePrereleaseIdentifier a b
      in if c \<noteq> 0 then Some c else comparePrereleases_loop as bs)"
| "comparePrereleases_loop _ _ = None"

definition comparePrereleases :: "string \<Rightarrow> string \<Rightarrow> int" where
  "comparePrereleases a b =
     (let partsA = split_on (CHR ''.'') a; partsB = split_on (CHR ''.'') b
      in case comparePrereleases_loop partsA partsB of
           Some c \<Rightarrow> c
         | None \<Rightarrow> cmpInt (int (length partsA)) (int (length partsB)))"

definition Version_Compare :: "Version \<Rightarrow> Version \<Rightarrow> int" where
  "Version_Compare v other =
     (if v_Major v \<noteq> v_Major other then cmpInt (v_Major v) (v_Major other)
      else if v_Minor v \<noteq> v_Minor other then cmpInt (v_Minor v) (v_Minor other)
      else if v_Patch v \<noteq> v_Patch other then cmpInt (v_Patch v) (v_Patch other)
      else if v_Prerelease v = [] \<and> v_Prerelease other = [] then 0
      else if v_Prerelease v = [] then 1
      else if v_Prerelease other = [] then -1
      else comparePrereleases (v_Prerelease v) (v_Prerelease other))"

definition LessThan :: "Version \<Rightarrow> Version \<Rightarrow> bool" where
  "LessThan v other = (Version_Compare v other < 0)"

definition LessOrEqual :: "Version \<Rightarrow> Version \<Rightarrow> bool" where
  "LessOrEqual v other = (Version_Compare v other \<le> 0)"

definition GreaterThan :: "Version \<Rightarrow> Version \<Rightarrow> bool" where
  "GreaterThan v other = (Version_Compare v other > 0)"

definition GreaterOrEqual :: "Version \<Rightarrow> Version \<Rightarrow> bool" where
  "GreaterOrEqual v other = (Version_Compare v other \<ge> 0)"

definition Version_Equal :: "Version \<Rightarrow> Version \<Rightarrow> bool" where
  "Version_Equal v other = (Version_Compare v other = 0)"

definition IsPrerelease :: "Version \<Rightarrow> bool" where
  "IsPrerelease v = (v_Prerelease v \<noteq> [])"

section \<open>Constraints\<close>

definition maxConstraintLength :: nat where "maxConstraintLength = 256"
definition maxConstraintParts :: nat where "maxConstraintParts = 10"
definition maxVersionNumber :: int where "maxVersionNumber = 999999"

datatype operator = opEQ | opNE | opGT | opGTE | opLT | opLTE | opCaret | opTilde

datatype wildcardType = WNone | WAny | WMinor | WPatch

record constraintPart =
  cp_wildcardType :: wildcardType
  cp_version :: Version
  cp_major :: int
  cp_minor :: int
  cp_op :: operator
  cp_wildcard :: bool

type_synonym Constraint = "constraintPart list"

definition zeroVersion :: Version where
  "zeroVersion = \<lparr>v_Prerelease = [], v_Build = [], v_Major = 0, v_Minor = 0, v_Patch = 0\<rparr>"

definition zeroPart :: constraintPart where
  "zeroPart = \<lparr>cp_wildcardType = WNone, cp_version = zeroVersion, cp_major = 0, cp_minor = 0,
     cp_op = opEQ, cp_wildcard = False\<rparr>"

definition isWildcard :: "string \<Rightarrow> bool" where
  "isWildcard s = (s = ''*'' \<or> s = ''x'' \<or> s = ''X'')"

fun parseInt_loop :: "int \<Rightarrow> string \<Rightarrow> semver_error + int" where
  "parseInt_loop n [] = Inr n"
| "parseInt_loop n (c # s) =
     (if \<not> isDigit c then Inl errNotANumber
      else let n = n * 10 + int (digit_val c)
           in if n > maxVersionNumber then Inl errNumberTooLarge else parseInt_loop n s)"

definition parseInt :: "string \<Rightarrow> semver_error + int" where
  "parseInt s = (if length s > 6 then Inl errNumberTooLarge else parseInt_loop 0 s)"

text \<open>\<^verbatim>\<open>wildcardRegex\<close>: \<^verbatim>\<open>N.*\<close> or \<^verbatim>\<open>N.M.*\<close> (also with \<^verbatim>\<open>x\<close> and \<^verbatim>\<open>X\<close>).\<close>

definition digits1 :: "string \<Rightarrow> bool" where
  "digits1 s = (s \<noteq> [] \<and> list_all isDigit s)"

definition wildcardRegex :: "string \<Rightarrow> bool" where
  "wildcardRegex s =
     (case split_on (CHR ''.'') s of
        [a, w] \<Rightarrow> digits1 a \<and> isWildcard w
      | [a, b, w] \<Rightarrow> digits1 a \<and> digits1 b \<and> isWildcard w
      | _ \<Rightarrow> False)"

definition parseWildcard :: "string \<Rightarrow> semver_error + constraintPart" where
  "parseWildcard s =
     (let parts = split_on (CHR ''.'') s; cp = zeroPart\<lparr>cp_wildcard := True\<rparr>
      in case parseInt (hd parts) of
           Inl _ \<Rightarrow> Inl ErrInvalidConstraint
         | Inr major \<Rightarrow>
             (let cp = cp\<lparr>cp_major := major\<rparr>
              in if length parts = 2 then
                   (if isWildcard (parts ! 1) then Inr (cp\<lparr>cp_wildcardType := WMinor\<rparr>)
                    else Inl ErrInvalidConstraint)
                 else if length parts = 3 then
                   (case parseInt (parts ! 1) of
                      Inl _ \<Rightarrow> Inl ErrInvalidConstraint
                    | Inr minor \<Rightarrow>
                        (let cp = cp\<lparr>cp_minor := minor\<rparr>
                         in if isWildcard (parts ! 2) then Inr (cp\<lparr>cp_wildcardType := WPatch\<rparr>)
                            else Inl ErrInvalidConstraint))
                 else Inl ErrInvalidConstraint))"

definition parseOperator :: "string \<Rightarrow> operator option" where
  "parseOperator s =
     (if s = [] \<or> s = ''='' then Some opEQ
      else if s = ''!='' then Some opNE
      else if s = ''>'' then Some opGT
      else if s = ''>='' then Some opGTE
      else if s = ''<'' then Some opLT
      else if s = ''<='' then Some opLTE
      else if s = ''^'' then Some opCaret
      else if s = ''~'' then Some opTilde
      else None)"

text \<open>
  \<^verbatim>\<open>operatorRegex\<close>: the first alternative, in order, that leaves something for \<^verbatim>\<open>(.+)\<close>, or no
  operator at all. A part comes from \<^verbatim>\<open>Fields\<close>, so it has no newline for the dot to miss.
\<close>

fun first_op :: "string list \<Rightarrow> string \<Rightarrow> (string \<times> string) option" where
  "first_op [] s = (if s = [] then None else Some ([], s))"
| "first_op (p # ps) s =
     (if take (length p) s = p \<and> drop (length p) s \<noteq> [] then Some (p, drop (length p) s) else first_op ps s)"

definition operatorRegex :: "string \<Rightarrow> (string \<times> string) option" where
  "operatorRegex = first_op [''>='', ''<='', ''>'', ''<'', ''='', ''!='', ''^'', ''~'']"

definition parseConstraintPart :: "string \<Rightarrow> semver_error + constraintPart" where
  "parseConstraintPart s =
     (let s = trimSpace s
      in if s = [] then Inl ErrInvalidConstraint
         else if s = ''*'' then Inr (zeroPart\<lparr>cp_wildcard := True, cp_wildcardType := WAny\<rparr>)
         else if wildcardRegex s then parseWildcard s
         else
           case operatorRegex s of
             None \<Rightarrow> Inl ErrInvalidConstraint
           | Some (o1, rest) \<Rightarrow>
               (case parseOperator o1 of
                  None \<Rightarrow> Inl ErrInvalidConstraint
                | Some op \<Rightarrow>
                    (case ParseVersion rest of
                       Inl _ \<Rightarrow> Inl ErrInvalidConstraint
                     | Inr v \<Rightarrow> Inr (zeroPart\<lparr>cp_op := op, cp_version := v\<rparr>))))"

definition splitConstraint :: "string \<Rightarrow> string list" where
  "splitConstraint s = strings_Fields (map (\<lambda>c. if c = CHR '','' then CHR '' '' else c) s)"

fun parseParts :: "string list \<Rightarrow> semver_error + Constraint" where
  "parseParts [] = Inr []"
| "parseParts (p # ps) =
     (case parseConstraintPart p of
        Inl e \<Rightarrow> Inl e
      | Inr cp \<Rightarrow> (case parseParts ps of Inl e \<Rightarrow> Inl e | Inr cps \<Rightarrow> Inr (cp # cps)))"

definition ParseConstraint :: "string \<Rightarrow> semver_error + Constraint" where
  "ParseConstraint s =
     (let s = trimSpace s
      in if s = [] \<or> length s > maxConstraintLength then Inl ErrInvalidConstraint
         else
           let parts = splitConstraint s
           in if length parts = 0 \<or> length parts > maxConstraintParts then Inl ErrInvalidConstraint
              else parseParts parts)"

section \<open>Matching\<close>

definition matchWildcard :: "constraintPart \<Rightarrow> Version \<Rightarrow> bool" where
  "matchWildcard cp v =
     (case cp_wildcardType cp of
        WAny \<Rightarrow> True
      | WMinor \<Rightarrow> v_Major v = cp_major cp
      | WPatch \<Rightarrow> v_Major v = cp_major cp \<and> v_Minor v = cp_minor cp
      | WNone \<Rightarrow> False)"

definition matchCaret :: "constraintPart \<Rightarrow> Version \<Rightarrow> bool" where
  "matchCaret cp v =
     (let base = cp_version cp
      in if LessThan v base then False
         else if v_Major base \<noteq> 0 then v_Major v = v_Major base
         else if v_Minor base \<noteq> 0 then v_Major v = 0 \<and> v_Minor v = v_Minor base
         else v_Major v = 0 \<and> v_Minor v = 0 \<and> v_Patch v = v_Patch base)"

definition matchTilde :: "constraintPart \<Rightarrow> Version \<Rightarrow> bool" where
  "matchTilde cp v =
     (let base = cp_version cp
      in if LessThan v base then False
         else v_Major v = v_Major base \<and> v_Minor v = v_Minor base)"

definition part_match :: "constraintPart \<Rightarrow> Version \<Rightarrow> bool" where
  "part_match cp v =
     (if cp_wildcard cp then matchWildcard cp v
      else case cp_op cp of
          opEQ \<Rightarrow> Version_Equal v (cp_version cp)
        | opNE \<Rightarrow> \<not> Version_Equal v (cp_version cp)
        | opGT \<Rightarrow> GreaterThan v (cp_version cp)
        | opGTE \<Rightarrow> GreaterOrEqual v (cp_version cp)
        | opLT \<Rightarrow> LessThan v (cp_version cp)
        | opLTE \<Rightarrow> LessOrEqual v (cp_version cp)
        | opCaret \<Rightarrow> matchCaret cp v
        | opTilde \<Rightarrow> matchTilde cp v)"

definition Constraint_Match :: "Constraint \<Rightarrow> Version \<Rightarrow> bool" where
  "Constraint_Match c v = list_all (\<lambda>part. part_match part v) c"

text \<open>One turn of the loop of \<^verbatim>\<open>findMatches\<close>; the pointers into the slice are the versions.\<close>

definition keepGreater :: "Version \<Rightarrow> Version option \<Rightarrow> Version option" where
  "keepGreater v best =
     (case best of None \<Rightarrow> Some v | Some b \<Rightarrow> if GreaterThan v b then Some v else Some b)"

definition matchStep :: "Constraint \<Rightarrow> Version \<Rightarrow> Version option \<times> Version option \<Rightarrow> Version option \<times> Version option" where
  "matchStep c v = (\<lambda>(best, bestStable).
     if \<not> Constraint_Match c v then (best, bestStable)
     else (keepGreater v best, if \<not> IsPrerelease v then keepGreater v bestStable else bestStable))"

definition findMatches :: "Constraint \<Rightarrow> Version list \<Rightarrow> Version option \<times> Version option" where
  "findMatches c versions = fold (matchStep c) versions (None, None)"

definition FindBestMatch :: "Constraint \<Rightarrow> Version list \<Rightarrow> semver_error + Version" where
  "FindBestMatch c versions =
     (if length versions = 0 then Inl ErrNoMatchingVersion
      else case findMatches c versions of
          (_, Some s) \<Rightarrow> Inr s
        | (Some b, None) \<Rightarrow> Inr b
        | (None, None) \<Rightarrow> Inl ErrNoMatchingVersion)"

definition ValidateConstraint :: "string \<Rightarrow> semver_error option" where
  "ValidateConstraint s = (case ParseConstraint s of Inl e \<Rightarrow> Some e | Inr _ \<Rightarrow> None)"

definition hasSuffix :: "string \<Rightarrow> string \<Rightarrow> bool" where
  "hasSuffix s x = (length x \<le> length s \<and> drop (length s - length x) s = x)"

definition IsConstraint :: "string \<Rightarrow> bool" where
  "IsConstraint s =
     (let s = trimSpace s
      in if s = [] then False
         else if list_ex (\<lambda>c. c \<in> set ''><=!^~'') s then True
         else if list_ex (\<lambda>c. c = CHR ''*'') s \<or> hasSuffix s ''.x'' \<or> hasSuffix s ''.X'' then True
         else if list_ex (\<lambda>c. c = CHR '' '') s \<or> list_ex (\<lambda>c. c = CHR '','') s then True
         else False)"

section \<open>Precedence is a total preorder\<close>

text \<open>
  Prerelease identifiers as the code orders them: those that \<^verbatim>\<open>Atoi\<close> accepts by value,
  below all others, which are ordered as strings.
\<close>

datatype preId = NumId int | AlnumId string

instantiation preId :: linorder
begin

definition less_eq_preId :: "preId \<Rightarrow> preId \<Rightarrow> bool" where
  "less_eq_preId x y = (case (x, y) of
      (NumId a, NumId b) \<Rightarrow> a \<le> b | (NumId _, AlnumId _) \<Rightarrow> True
    | (AlnumId _, NumId _) \<Rightarrow> False | (AlnumId a, AlnumId b) \<Rightarrow> a \<le> b)"

definition less_preId :: "preId \<Rightarrow> preId \<Rightarrow> bool" where
  "less_preId x y = (x \<le> y \<and> \<not> y \<le> x)"

instance
  by standard (auto simp: less_eq_preId_def less_preId_def split: preId.splits)

end

lemma preId_less [simp]:
  "NumId a < NumId b \<longleftrightarrow> a < b" "NumId a < AlnumId s" "\<not> AlnumId s < NumId a"
  "AlnumId s < AlnumId t \<longleftrightarrow> s < t"
  by (auto simp: less_preId_def less_eq_preId_def)

definition idKey :: "string \<Rightarrow> preId" where
  "idKey s = (let (n, err) = Atoi s in if err then AlnumId s else NumId n)"

text \<open>A version's place in the order: a release comes after its prereleases.\<close>

type_synonym versionKey = "int \<times> int \<times> int \<times> bool \<times> preId list"

definition version_key :: "Version \<Rightarrow> versionKey" where
  "version_key v = (v_Major v, v_Minor v, v_Patch v, v_Prerelease v = [],
     if v_Prerelease v = [] then [] else map idKey (split_on (CHR ''.'') (v_Prerelease v)))"

definition cmp_sign :: "'a::linorder \<Rightarrow> 'a \<Rightarrow> int" where
  "cmp_sign a b = (if a < b then -1 else if a = b then 0 else 1)"

lemma cmp_sign_swap: "cmp_sign a b = - cmp_sign b a"
  by (auto simp: cmp_sign_def)

lemma cmp_sign_le: "cmp_sign a b \<le> 0 \<longleftrightarrow> a \<le> b"
  by (auto simp: cmp_sign_def)

lemma cmpInt_sign: "cmpInt a b = cmp_sign a b"
  by (auto simp: cmpInt_def cmp_sign_def)

lemma compareIdent_sign: "comparePrereleaseIdentifier a b = cmp_sign (idKey a) (idKey b)"
  by (auto simp: comparePrereleaseIdentifier_def idKey_def cmp_sign_def strings_Compare_def cmpInt_def
      Let_def split: prod.split)

lemma cmp_sign_Cons:
  "cmp_sign (x # xs) (y # ys) = (if cmp_sign x y \<noteq> 0 then cmp_sign x y else cmp_sign xs ys)"
  by (auto simp: cmp_sign_def)

lemma cmp_sign_Nil: "cmp_sign [] (y # ys) = -1" "cmp_sign (x # xs) [] = 1" "cmp_sign [] [] = 0"
  by (auto simp: cmp_sign_def)

lemma comparePrereleases_loop_sign:
  "(case comparePrereleases_loop as bs of Some c \<Rightarrow> c | None \<Rightarrow> cmpInt (int (length as)) (int (length bs))) =
     cmp_sign (map idKey as) (map idKey bs)"
proof (induction as bs rule: comparePrereleases_loop.induct)
  case (1 a as b bs)
  have "cmpInt (int (length (a # as))) (int (length (b # bs))) = cmpInt (int (length as)) (int (length bs))"
    by (simp add: cmpInt_def)
  with 1 show ?case
    by (auto simp: compareIdent_sign cmp_sign_Cons Let_def split: option.splits)
qed (rename_tac bs, case_tac bs; simp add: cmpInt_def cmp_sign_Nil)+

lemma Compare_sign: "Version_Compare v w = cmp_sign (version_key v) (version_key w)"
  using comparePrereleases_loop_sign [of "split_on (CHR ''.'') (v_Prerelease v)" "split_on (CHR ''.'') (v_Prerelease w)"]
  by (simp add: Version_Compare_def version_key_def comparePrereleases_def Let_def cmpInt_sign)
    (auto simp: cmp_sign_def)

lemma order_ops:
  "LessThan v w \<longleftrightarrow> version_key v < version_key w" "LessOrEqual v w \<longleftrightarrow> version_key v \<le> version_key w"
  "GreaterThan v w \<longleftrightarrow> version_key w < version_key v" "GreaterOrEqual v w \<longleftrightarrow> version_key w \<le> version_key v"
  "Version_Equal v w \<longleftrightarrow> version_key v = version_key w"
  by (auto simp: LessThan_def LessOrEqual_def GreaterThan_def GreaterOrEqual_def Version_Equal_def
      Compare_sign cmp_sign_def split: if_splits)

section \<open>Parsing and printing\<close>

lemma alnum_chars: "\<not> isAlnumHyphen (CHR ''+'')" "\<not> isAlnumHyphen (CHR ''.'')"
  by (simp_all add: isAlnumHyphen_def isDigit_def Let_def)

lemma valid_no_plus:
  assumes "list_all (\<lambda>p. list_all isAlnumHyphen p) (split_on (CHR ''.'') s)"
  shows "CHR ''+'' \<notin> set s"
proof -
  have "CHR ''+'' \<notin> set (join_with (CHR ''.'') ps)" if "list_all (\<lambda>p. list_all isAlnumHyphen p) ps" for ps
    using that alnum_chars(1) by (induction "CHR ''.''" ps rule: join_with.induct) (auto simp: list_all_iff)
  from this [OF assms] show ?thesis by simp
qed

lemma validPre_no_plus: "validPre s \<Longrightarrow> CHR ''+'' \<notin> set s"
  by (rule valid_no_plus) (auto simp: validPre_def preIdent_def list_all_iff)

lemma valid_nonempty [simp]: "\<not> validPre []" "\<not> validBuild []"
  by (simp_all add: validPre_def validBuild_def preIdent_def buildIdent_def)

lemma takeNum_Some: "takeNum s = Some (ds, r) \<longleftrightarrow> s = ds @ r \<and> numIdent ds \<and> (r = [] \<or> \<not> isDigit (hd r))"
proof
  assume "takeNum s = Some (ds, r)"
  then show "s = ds @ r \<and> numIdent ds \<and> (r = [] \<or> \<not> isDigit (hd r))"
    using hd_dropWhile [of isDigit s] by (auto simp: takeNum_def Let_def split: if_splits)
next
  assume *: "s = ds @ r \<and> numIdent ds \<and> (r = [] \<or> \<not> isDigit (hd r))"
  then have "takeWhile isDigit s = ds" "dropWhile isDigit s = r"
    by (cases r; auto simp: numIdent_def list_all_iff takeWhile_append dropWhile_append3)+
  with * show "takeNum s = Some (ds, r)" by (simp add: takeNum_def)
qed

lemma takeDot_Some: "takeDot s = Some r \<longleftrightarrow> s = CHR ''.'' # r"
  by (auto simp: takeDot_def split: list.split)

text \<open>The text of the optional groups.\<close>

definition suffix_text :: "string \<Rightarrow> string \<Rightarrow> string" where
  "suffix_text pre build = (if pre \<noteq> [] then ''-'' @ pre else []) @ (if build \<noteq> [] then ''+'' @ build else [])"

lemma matchBuild_Some: "matchBuild s = Some b \<longleftrightarrow> s = suffix_text [] b \<and> (b = [] \<or> validBuild b)"
  by (auto simp: matchBuild_def suffix_text_def split: list.split)

lemma matchTail_Some:
  "matchTail s = Some (p, b) \<longleftrightarrow> s = suffix_text p b \<and> (p = [] \<or> validPre p) \<and> (b = [] \<or> validBuild b)"
proof (cases "s \<noteq> [] \<and> hd s = CHR ''-''")
  case True
  then obtain xs where s: "s = CHR ''-'' # xs" by (cases s) auto
  let ?p = "takeWhile (\<lambda>c. c \<noteq> CHR ''+'') xs" and ?r = "dropWhile (\<lambda>c. c \<noteq> CHR ''+'') xs"
  show ?thesis
  proof
    assume "matchTail s = Some (p, b)"
    then have m: "?p = p" "validPre p" "matchBuild ?r = Some b"
      by (auto simp: s matchTail_def Let_def split: if_splits)
    then have "xs = p @ suffix_text [] b" "b = [] \<or> validBuild b"
      using takeWhile_dropWhile_id [of "\<lambda>c. c \<noteq> CHR ''+''" xs] by (simp_all add: matchBuild_Some)
    moreover have "p \<noteq> []" using m(2) by auto
    ultimately show "s = suffix_text p b \<and> (p = [] \<or> validPre p) \<and> (b = [] \<or> validBuild b)"
      using m(2) by (simp add: s suffix_text_def)
  next
    assume *: "s = suffix_text p b \<and> (p = [] \<or> validPre p) \<and> (b = [] \<or> validBuild b)"
    then have p: "p \<noteq> []" and xs: "xs = p @ suffix_text [] b"
      by (auto simp: s suffix_text_def split: if_splits)
    then have "CHR ''+'' \<notin> set p" using * validPre_no_plus by auto
    then have "?p = p" "?r = suffix_text [] b"
      by (auto simp: xs suffix_text_def takeWhile_append dropWhile_append3)
    moreover have "validPre p" "matchBuild (suffix_text [] b) = Some b"
      using * p by (auto simp: matchBuild_Some)
    ultimately show "matchTail s = Some (p, b)"
      unfolding s by (simp add: matchTail_def)
  qed
next
  case False
  then have "matchTail s = map_option (\<lambda>b. ([], b)) (matchBuild s)"
    by (auto simp: matchTail_def matchBuild_def split: list.split)
  then show ?thesis
    using False by (auto simp: matchBuild_Some) (auto simp: suffix_text_def split: if_splits)
qed

lemma suffix_head: "r = suffix_text p b \<Longrightarrow> r = [] \<or> \<not> isDigit (hd r)"
  by (auto simp: suffix_text_def sign_not_digit)

lemma versionRegex_Some:
  "versionRegex s = Some (a, b, c, p, q) \<longleftrightarrow>
     s = a @ ''.'' @ b @ ''.'' @ c @ suffix_text p q \<and> numIdent a \<and> numIdent b \<and> numIdent c \<and>
     (p = [] \<or> validPre p) \<and> (q = [] \<or> validBuild q)"
  using suffix_head [OF refl, of p q]
  by (auto simp: versionRegex_def bind_eq_Some_conv takeNum_Some takeDot_Some matchTail_Some sign_not_digit)

lemma Version_String_text:
  "Version_String v = itoa (v_Major v) @ ''.'' @ itoa (v_Minor v) @ ''.'' @ itoa (v_Patch v) @
     suffix_text (v_Prerelease v) (v_Build v)"
  by (simp add: Version_String_def suffix_text_def Let_def)

definition fits_int :: "int \<Rightarrow> bool" where
  "fits_int i = (0 \<le> i \<and> i \<le> maxInt)"

definition wf_version :: "Version \<Rightarrow> bool" where
  "wf_version v = (fits_int (v_Major v) \<and> fits_int (v_Minor v) \<and> fits_int (v_Patch v) \<and>
     (v_Prerelease v = [] \<or> validPre (v_Prerelease v)) \<and> (v_Build v = [] \<or> validBuild (v_Build v)))"

lemma itoa_fits:
  assumes "fits_int i"
  shows "numIdent (itoa i)" "Atoi (itoa i) = (i, False)"
  using assms nat_digits_props [of "nat i"] nat_digits_numIdent [of "nat i"]
  by (simp_all add: fits_int_def itoa_def Atoi_digits)

lemma numIdent_Atoi:
  assumes "numIdent s"
  shows "0 \<le> fst (Atoi s)" "fst (Atoi s) \<le> maxInt" "fst (Atoi s) < maxInt \<Longrightarrow> itoa (fst (Atoi s)) = s"
  using assms numIdent_digits [OF assms] by (auto simp: numIdent_def Atoi_digits itoa_def maxInt_def)

lemma trimV_digit: "numIdent a \<Longrightarrow> trimV (a @ r) = a @ r"
  by (cases a) (auto simp: trimV_def numIdent_def isDigit_def)

lemma parse_printed:
  assumes "wf_version v"
  shows "ParseVersion (Version_String v) = Inr v"
    and "versionRegex (Version_String v) =
      Some (itoa (v_Major v), itoa (v_Minor v), itoa (v_Patch v), v_Prerelease v, v_Build v)"
proof -
  have fits: "fits_int (v_Major v)" "fits_int (v_Minor v)" "fits_int (v_Patch v)"
    using assms by (simp_all add: wf_version_def)
  show r: "versionRegex (Version_String v) =
      Some (itoa (v_Major v), itoa (v_Minor v), itoa (v_Patch v), v_Prerelease v, v_Build v)"
    using assms itoa_fits(1) [OF fits(1)] itoa_fits(1) [OF fits(2)] itoa_fits(1) [OF fits(3)]
    by (simp add: versionRegex_Some Version_String_text wf_version_def)
  have "trimV (Version_String v) = Version_String v" "Version_String v \<noteq> []"
    using trimV_digit [OF itoa_fits(1) [OF fits(1)]] by (simp_all add: Version_String_text)
  then show "ParseVersion (Version_String v) = Inr v"
    by (simp add: ParseVersion_def r itoa_fits(2) [OF fits(1)] itoa_fits(2) [OF fits(2)] itoa_fits(2) [OF fits(3)])
qed

text \<open>
  C14: printing then parsing a version gives it back, with or without the \<^verbatim>\<open>v\<close> prefix, for
  every version with non-negative 64-bit numbers and well-formed prerelease and build parts.
\<close>

theorem ParseVersion_String:
  assumes "wf_version v"
  shows "ParseVersion (Version_String v) = Inr v \<and> ParseVersion (CHR ''v'' # Version_String v) = Inr v"
proof -
  have "trimV (CHR ''v'' # s) = s" for s
    by (simp add: trimV_def)
  then show ?thesis
    using assms parse_printed [OF assms] by (simp add: ParseVersion_def wf_version_def itoa_fits(2))
qed

lemma demo_version: "wf_version \<lparr>v_Prerelease = ''rc.1'', v_Build = ''b-7'', v_Major = 1, v_Minor = 20, v_Patch = 3\<rparr>"
  by code_simp

theorem ParseVersion_String_witness:
  "ParseVersion ''v1.20.3-rc.1+b-7'' =
     Inr \<lparr>v_Prerelease = ''rc.1'', v_Build = ''b-7'', v_Major = 1, v_Minor = 20, v_Patch = 3\<rparr>"
proof -
  have "Version_String \<lparr>v_Prerelease = ''rc.1'', v_Build = ''b-7'', v_Major = 1, v_Minor = 20, v_Patch = 3\<rparr> =
      ''1.20.3-rc.1+b-7''"
    by code_simp
  then show ?thesis
    using ParseVersion_String [OF demo_version] by simp
qed

text \<open>
  C15: parsing accepts nothing else. What is accepted is a well-formed version, and printing
  it gives back the text without its \<^verbatim>\<open>v\<close>, unless a number was so large that it saturated.
\<close>

theorem String_ParseVersion:
  assumes "ParseVersion s = Inr v"
  shows "wf_version v \<and>
    (v_Major v < maxInt \<and> v_Minor v < maxInt \<and> v_Patch v < maxInt \<longrightarrow> Version_String v = trimV s)"
proof -
  obtain a b c p q where r: "versionRegex (trimV s) = Some (a, b, c, p, q)"
    and v: "v = \<lparr>v_Prerelease = p, v_Build = q, v_Major = fst (Atoi a), v_Minor = fst (Atoi b), v_Patch = fst (Atoi c)\<rparr>"
    using assms by (auto simp: ParseVersion_def split: if_splits option.splits)
  note t = r [unfolded versionRegex_Some]
  then show ?thesis
    using numIdent_Atoi [of a] numIdent_Atoi [of b] numIdent_Atoi [of c]
    by (auto simp: v wf_version_def fits_int_def Version_String_text)
qed

theorem String_ParseVersion_witness:
  "\<exists>v. ParseVersion ''v0.4.0+x'' = Inr v \<and> Version_String v = ''0.4.0+x''"
proof -
  have p: "ParseVersion ''v0.4.0+x'' =
      Inr \<lparr>v_Prerelease = [], v_Build = ''x'', v_Major = 0, v_Minor = 4, v_Patch = 0\<rparr>"
    by code_simp
  from String_ParseVersion [OF this] show ?thesis
    using p by (auto simp: maxInt_def trimV_def)
qed

section \<open>Precedence against the semantic versioning rules\<close>

text \<open>
  The rule of the specification for identifiers: those of digits only are numeric. The code
  asks \<^verbatim>\<open>Atoi\<close> instead. \<open>plainId\<close>: the identifiers on which that is the same.
\<close>

definition specKey :: "string \<Rightarrow> preId" where
  "specKey s = (if list_all isDigit s then NumId (int (dec_val s)) else AlnumId s)"

definition plainId :: "string \<Rightarrow> bool" where
  "plainId s = (preIdent s \<and>
     (list_all isDigit s \<longrightarrow> int (dec_val s) \<le> maxInt) \<and>
     (hd s = CHR ''-'' \<longrightarrow> tl s = [] \<or> \<not> list_all isDigit (tl s)))"

definition spec_version_key :: "Version \<Rightarrow> versionKey" where
  "spec_version_key v = (v_Major v, v_Minor v, v_Patch v, v_Prerelease v = [],
     if v_Prerelease v = [] then [] else map specKey (split_on (CHR ''.'') (v_Prerelease v)))"

definition plain_version :: "Version \<Rightarrow> bool" where
  "plain_version v = (v_Prerelease v = [] \<or> list_all plainId (split_on (CHR ''.'') (v_Prerelease v)))"

lemma plainId_key: "plainId s \<Longrightarrow> idKey s = specKey s"
proof -
  assume p: "plainId s"
  then have ne: "s \<noteq> []" and alnum: "list_all isAlnumHyphen s"
    by (simp_all add: plainId_def preIdent_def)
  show ?thesis
  proof (cases "list_all isDigit s")
    case True
    with p ne show ?thesis
      by (auto simp: idKey_def specKey_def plainId_def Atoi_digits)
  next
    case False
    have "hd s \<noteq> CHR ''+''" using alnum ne alnum_chars(1) by (cases s) auto
    then have "snd (Atoi s)"
      using False p ne by (auto simp: plainId_def Atoi_def Let_def)
    with False show ?thesis
      by (auto simp: idKey_def specKey_def split_def)
  qed
qed

lemma plain_version_key: "plain_version v \<Longrightarrow> version_key v = spec_version_key v"
  by (auto simp: plain_version_def version_key_def spec_version_key_def list_all_iff plainId_key)

text \<open>
  C16: \<^verbatim>\<open>Compare\<close> is a total preorder (antisymmetric in sign, transitive), and on versions whose
  prerelease identifiers are plain it is the precedence of the semantic versioning rules:
  the lexicographic order of major, minor, patch, a release above its prereleases, and then
  identifier by identifier, a prefix below its extensions.
\<close>

theorem Compare_precedence:
  "Version_Compare v w = - Version_Compare w v \<and>
   (Version_Compare u v \<le> 0 \<longrightarrow> Version_Compare v w \<le> 0 \<longrightarrow> Version_Compare u w \<le> 0) \<and>
   (plain_version v \<longrightarrow> plain_version w \<longrightarrow>
     Version_Compare v w = cmp_sign (spec_version_key v) (spec_version_key w))"
proof (intro conjI impI)
  show "Version_Compare v w = - Version_Compare w v"
    unfolding Compare_sign by (rule cmp_sign_swap)
  show "Version_Compare u w \<le> 0" if "Version_Compare u v \<le> 0" "Version_Compare v w \<le> 0"
    using that unfolding Compare_sign cmp_sign_le by (rule order_trans)
  show "Version_Compare v w = cmp_sign (spec_version_key v) (spec_version_key w)" if "plain_version v" "plain_version w"
    unfolding Compare_sign by (simp only: that plain_version_key)
qed

lemmas semver_eval = plain_version_def plainId_def preIdent_def numIdent_def isAlnumHyphen_def isDigit_def
  Version_Compare_def comparePrereleases_def comparePrereleaseIdentifier_def Atoi_def Let_def dec_val_def
  digit_val_def maxInt_def minInt_def cmpInt_def strings_Compare_def validPre_def specKey_def less_char_def

theorem Compare_precedence_witness:
  "let v = \<lparr>v_Prerelease = ''alpha.9'', v_Build = [], v_Major = 1, v_Minor = 0, v_Patch = 0\<rparr>;
       w = \<lparr>v_Prerelease = ''alpha.10'', v_Build = [], v_Major = 1, v_Minor = 0, v_Patch = 0\<rparr>
   in Version_Compare v w = cmp_sign (spec_version_key v) (spec_version_key w) \<and> Version_Compare v w = -1"
proof -
  let ?v = "\<lparr>v_Prerelease = ''alpha.9'', v_Build = [], v_Major = 1, v_Minor = 0, v_Patch = 0\<rparr>"
  let ?w = "\<lparr>v_Prerelease = ''alpha.10'', v_Build = [], v_Major = 1, v_Minor = 0, v_Patch = 0\<rparr>"
  have "plain_version ?v" "plain_version ?w" "Version_Compare ?v ?w = -1"
    by (simp_all add: semver_eval)
  then show ?thesis
    using Compare_precedence [of ?v ?w ?v] by simp
qed

text \<open>
  Outside the plain identifiers the order is not the specified one. A hyphen and digits,
  which is alphanumeric, is read as a negative number: so \<^verbatim>\<open>1.0.0--0\<close> equals \<^verbatim>\<open>1.0.0-0\<close> and
  \<^verbatim>\<open>1.0.0--5\<close> sorts below \<^verbatim>\<open>1.0.0-3\<close>. Numbers beyond 64 bits are compared as strings.
\<close>

theorem Compare_hyphen_numbers:
  "Version_Compare \<lparr>v_Prerelease = ''-0'', v_Build = [], v_Major = 1, v_Minor = 0, v_Patch = 0\<rparr>
     \<lparr>v_Prerelease = ''0'', v_Build = [], v_Major = 1, v_Minor = 0, v_Patch = 0\<rparr> = 0 \<and>
   validPre ''-5'' \<and>
   Version_Compare \<lparr>v_Prerelease = ''-5'', v_Build = [], v_Major = 1, v_Minor = 0, v_Patch = 0\<rparr>
     \<lparr>v_Prerelease = ''3'', v_Build = [], v_Major = 1, v_Minor = 0, v_Patch = 0\<rparr> = -1 \<and>
   specKey ''3'' < specKey ''-5'' \<and>
   Version_Compare \<lparr>v_Prerelease = ''100000000000000000000'', v_Build = [], v_Major = 1, v_Minor = 0, v_Patch = 0\<rparr>
     \<lparr>v_Prerelease = ''99999999999999999999'', v_Build = [], v_Major = 1, v_Minor = 0, v_Patch = 0\<rparr> = -1"
  by (simp add: semver_eval)

section \<open>The best match\<close>

definition is_best :: "(Version \<Rightarrow> bool) \<Rightarrow> Version list \<Rightarrow> Version option \<Rightarrow> bool" where
  "is_best P vs b = (case b of
      None \<Rightarrow> \<not> (\<exists>v \<in> set vs. P v)
    | Some v \<Rightarrow> v \<in> set vs \<and> P v \<and> (\<forall>w \<in> set vs. P w \<longrightarrow> LessOrEqual w v))"

lemma is_best_snoc:
  assumes "is_best P vs b"
  shows "is_best P (vs @ [v]) (if P v then keepGreater v b else b)"
  using assms by (auto simp: is_best_def keepGreater_def order_ops split: option.splits)

lemma findMatches_best:
  "is_best (Constraint_Match c) vs (fst (findMatches c vs)) \<and>
   is_best (\<lambda>v. Constraint_Match c v \<and> \<not> IsPrerelease v) vs (snd (findMatches c vs))"
proof (induction vs rule: rev_induct)
  case Nil
  then show ?case by (simp add: findMatches_def is_best_def)
next
  case (snoc v vs)
  then show ?case
    using is_best_snoc [of "Constraint_Match c" vs "fst (findMatches c vs)" v]
      is_best_snoc [of "\<lambda>v. Constraint_Match c v \<and> \<not> IsPrerelease v" vs "snd (findMatches c vs)" v]
    by (auto simp: findMatches_def matchStep_def split_def)
qed

text \<open>
  C18: \<^verbatim>\<open>FindBestMatch\<close> returns a version of the list that satisfies the constraint: the
  highest stable one if there is a stable one, else the highest; it fails exactly when no
  version of the list satisfies the constraint.
\<close>

theorem FindBestMatch_best:
  "case FindBestMatch c vs of
     Inl e \<Rightarrow> e = ErrNoMatchingVersion \<and> \<not> (\<exists>v \<in> set vs. Constraint_Match c v)
   | Inr v \<Rightarrow> v \<in> set vs \<and> Constraint_Match c v \<and>
       (if \<exists>w \<in> set vs. Constraint_Match c w \<and> \<not> IsPrerelease w
        then \<not> IsPrerelease v \<and> \<not> (\<exists>w \<in> set vs. Constraint_Match c w \<and> \<not> IsPrerelease w \<and> \<not> LessOrEqual w v)
        else \<not> (\<exists>w \<in> set vs. Constraint_Match c w \<and> \<not> LessOrEqual w v))"
  using findMatches_best [of c vs]
  by (cases "findMatches c vs") (auto simp: FindBestMatch_def is_best_def split: option.splits)

section \<open>Caret and tilde ranges\<close>

definition release :: "int \<Rightarrow> int \<Rightarrow> int \<Rightarrow> Version" where
  "release a b c = \<lparr>v_Prerelease = [], v_Build = [], v_Major = a, v_Minor = b, v_Patch = c\<rparr>"

definition caret_bound :: "Version \<Rightarrow> Version" where
  "caret_bound b = (if v_Major b \<noteq> 0 then release (v_Major b + 1) 0 0
     else if v_Minor b \<noteq> 0 then release 0 (v_Minor b + 1) 0
     else release 0 0 (v_Patch b + 1))"

definition tilde_bound :: "Version \<Rightarrow> Version" where
  "tilde_bound b = release (v_Major b) (v_Minor b + 1) 0"

definition pre_of :: "Version \<Rightarrow> Version \<Rightarrow> bool" where
  "pre_of v r = (IsPrerelease v \<and> v_Major v = v_Major r \<and> v_Minor v = v_Minor r \<and> v_Patch v = v_Patch r)"

definition nonneg :: "Version \<Rightarrow> bool" where
  "nonneg v = (0 \<le> v_Major v \<and> 0 \<le> v_Minor v \<and> 0 \<le> v_Patch v)"

lemma below_release:
  "LessThan v (release a b c) \<and> \<not> pre_of v (release a b c) \<longleftrightarrow> (v_Major v, v_Minor v, v_Patch v) < (a, b, c)"
  by (auto simp: order_ops version_key_def release_def pre_of_def IsPrerelease_def)

lemma not_less_numbers:
  "\<not> LessThan v b \<Longrightarrow> (v_Major b, v_Minor b, v_Patch b) \<le> (v_Major v, v_Minor v, v_Patch v)"
  by (auto simp: order_ops version_key_def)

text \<open>
  C19: \<^verbatim>\<open>^\<close> and \<^verbatim>\<open>~\<close> are the half-open ranges of their comments, from the base to the next
  version that may break compatibility, except that the prereleases of that next version are
  left out too, although they come before it.
\<close>

theorem caret_tilde_ranges:
  assumes "nonneg v" and "nonneg (cp_version cp)" and "base = cp_version cp"
  shows "(matchCaret cp v \<longleftrightarrow>
      LessOrEqual base v \<and> LessThan v (caret_bound base) \<and> \<not> pre_of v (caret_bound base)) \<and>
    (matchTilde cp v \<longleftrightarrow>
      LessOrEqual base v \<and> LessThan v (tilde_bound base) \<and> \<not> pre_of v (tilde_bound base))"
proof -
  have le: "LessOrEqual base v \<longleftrightarrow> \<not> LessThan v base"
    by (auto simp: order_ops)
  show ?thesis
  proof (cases "LessThan v base")
    case True
    then show ?thesis using assms(3) le by (simp add: matchCaret_def matchTilde_def)
  next
    case False
    note n = not_less_numbers [OF False]
    have "matchCaret cp v \<longleftrightarrow> LessThan v (caret_bound base) \<and> \<not> pre_of v (caret_bound base)"
      using False n assms unfolding caret_bound_def nonneg_def
      by (simp add: matchCaret_def Let_def below_release) auto
    moreover have "matchTilde cp v \<longleftrightarrow> LessThan v (tilde_bound base) \<and> \<not> pre_of v (tilde_bound base)"
      using False n assms unfolding tilde_bound_def nonneg_def
      by (simp add: matchTilde_def Let_def below_release) auto
    ultimately show ?thesis using False le by simp
  qed
qed

theorem caret_tilde_ranges_witness:
  "matchCaret (zeroPart\<lparr>cp_version := release 1 2 3\<rparr>) (release 1 9 0) \<and>
   \<not> matchCaret (zeroPart\<lparr>cp_version := release 1 2 3\<rparr>) ((release 2 0 0)\<lparr>v_Prerelease := ''a''\<rparr>)"
proof -
  let ?cp = "zeroPart\<lparr>cp_version := release 1 2 3\<rparr>"
  have "matchCaret ?cp (release 1 9 0)"
    using caret_tilde_ranges [of "release 1 9 0" ?cp, OF _ _ refl]
    by (simp add: nonneg_def release_def caret_bound_def pre_of_def IsPrerelease_def LessThan_def LessOrEqual_def
        Version_Compare_def cmpInt_def)
  moreover have "\<not> matchCaret ?cp ((release 2 0 0)\<lparr>v_Prerelease := ''a''\<rparr>)"
    using caret_tilde_ranges [of "(release 2 0 0)\<lparr>v_Prerelease := ''a''\<rparr>" ?cp, OF _ _ refl]
    by (simp add: nonneg_def release_def caret_bound_def pre_of_def IsPrerelease_def)
  ultimately show ?thesis by simp
qed

section \<open>Constraint texts\<close>

definition op_text :: "operator \<Rightarrow> string" where
  "op_text op = (case op of opEQ \<Rightarrow> ''='' | opNE \<Rightarrow> ''!='' | opGT \<Rightarrow> ''>'' | opGTE \<Rightarrow> ''>='' | opLT \<Rightarrow> ''<''
     | opLTE \<Rightarrow> ''<='' | opCaret \<Rightarrow> ''^'' | opTilde \<Rightarrow> ''~'')"

definition part_text :: "operator \<times> Version \<Rightarrow> string" where
  "part_text p = op_text (fst p) @ Version_String (snd p)"

definition part_of :: "operator \<times> Version \<Rightarrow> constraintPart" where
  "part_of p = zeroPart\<lparr>cp_op := fst p, cp_version := snd p\<rparr>"

definition inked :: "string \<Rightarrow> bool" where
  "inked s = (s \<noteq> [] \<and> (\<forall>c \<in> set s. \<not> isSpace c \<and> c \<noteq> CHR '',''))"

lemma trimSpace_inked: "s \<noteq> [] \<Longrightarrow> \<not> isSpace (hd s) \<Longrightarrow> \<not> isSpace (last s) \<Longrightarrow> trimSpace s = s"
proof -
  assume s: "s \<noteq> []" "\<not> isSpace (hd s)" "\<not> isSpace (last s)"
  have h: "dropWhile isSpace xs = xs" if "xs \<noteq> []" "\<not> isSpace (hd xs)" for xs
    using that by (cases xs) auto
  show ?thesis
    using s by (simp add: trimSpace_def h hd_rev)
qed

lemma fields_inked: "inked s \<Longrightarrow> strings_Fields s = [s]"
proof -
  assume s: "inked s"
  then obtain x xs where x: "s = x # xs" by (cases s) (auto simp: inked_def)
  have t: "takeWhile (\<lambda>c. \<not> isSpace c) xs = xs" "dropWhile (\<lambda>c. \<not> isSpace c) xs = []"
    using s x by (auto simp: inked_def)
  have "strings_Fields (dropWhile (\<lambda>c. \<not> isSpace c) xs) = []"
    by (simp add: t(2) strings_Fields.simps [of "[]"])
  then show ?thesis
    using s by (simp add: x t(1) inked_def strings_Fields.simps [of "x # xs"])
qed

lemma fields_Cons: "inked s \<Longrightarrow> strings_Fields (s @ CHR '' '' # r) = s # strings_Fields r"
proof -
  assume s: "inked s"
  then obtain x xs where x: "s = x # xs" by (cases s) (auto simp: inked_def)
  have sp: "isSpace (CHR '' '')" by (simp add: isSpace_def)
  have "takeWhile (\<lambda>c. \<not> isSpace c) (xs @ CHR '' '' # r) = xs" "dropWhile (\<lambda>c. \<not> isSpace c) (xs @ CHR '' '' # r) = CHR '' '' # r"
    using s x sp by (auto simp: inked_def takeWhile_append dropWhile_append3)
  moreover have "strings_Fields (CHR '' '' # r) = strings_Fields r"
    by (subst strings_Fields.simps, subst (2) strings_Fields.simps) (simp add: sp)
  ultimately show ?thesis
    using s by (simp add: x inked_def strings_Fields.simps [of "x # xs @ CHR '' '' # r"])
qed

lemma fields_join: "ps \<noteq> [] \<Longrightarrow> list_all inked ps \<Longrightarrow> strings_Fields (join_with (CHR '' '') ps) = ps"
  by (induction "CHR '' ''" ps rule: join_with.induct) (simp_all add: fields_inked fields_Cons)

lemma inked_append: "inked (a @ b) \<longleftrightarrow> (a \<noteq> [] \<or> b \<noteq> []) \<and> (a = [] \<or> inked a) \<and> (b = [] \<or> inked b)"
  by (cases "a = []"; cases "b = []") (simp_all add: inked_def ball_Un)

lemma inked_Cons: "inked (c # s) \<longleftrightarrow> \<not> isSpace c \<and> c \<noteq> CHR '','' \<and> (s = [] \<or> inked s)"
  by (auto simp: inked_def)

lemma punct_inked: "\<not> isSpace (CHR ''.'')" "\<not> isSpace (CHR ''-'')" "\<not> isSpace (CHR ''+'')"
  by (simp_all add: isSpace_def)

lemma alnum_inked: "isAlnumHyphen c \<Longrightarrow> \<not> isSpace c \<and> c \<noteq> CHR '',''"
  by (auto simp: isAlnumHyphen_def isSpace_def isDigit_def Let_def)

lemma digit_alnum: "isDigit c \<Longrightarrow> isAlnumHyphen c"
  by (simp add: isAlnumHyphen_def)

lemma numIdent_inked: "numIdent s \<Longrightarrow> inked s"
  using digit_alnum alnum_inked by (auto simp: numIdent_def inked_def list_all_iff)

lemma join_inked: "list_all (\<lambda>p. list_all isAlnumHyphen p) ps \<Longrightarrow>
    c \<in> set (join_with (CHR ''.'') ps) \<Longrightarrow> isAlnumHyphen c \<or> c = CHR ''.''"
  by (induction "CHR ''.''" ps rule: join_with.induct) (auto simp: list_all_iff)

lemma valid_inked:
  "validPre s \<Longrightarrow> inked s" "validBuild s \<Longrightarrow> inked s"
proof -
  have *: "inked s" if s: "s \<noteq> []" "list_all (\<lambda>p. list_all isAlnumHyphen p) (split_on (CHR ''.'') s)"
  proof -
    have "\<not> isSpace c \<and> c \<noteq> CHR '',''" if "c \<in> set s" for c
      using join_inked [OF s(2), of c] that alnum_inked [of c] by (auto simp: isSpace_def)
    with s(1) show ?thesis by (simp add: inked_def)
  qed
  show "validPre s \<Longrightarrow> inked s" "validBuild s \<Longrightarrow> inked s"
    by (rule *; auto simp: validPre_def validBuild_def preIdent_def buildIdent_def list_all_iff)+
qed

lemma Version_String_inked: "wf_version v \<Longrightarrow> inked (Version_String v)"
proof -
  assume v: "wf_version v"
  have n: "inked (itoa (v_Major v))" "inked (itoa (v_Minor v))" "inked (itoa (v_Patch v))"
    using v by (simp_all add: wf_version_def itoa_fits numIdent_inked)
  have "suffix_text (v_Prerelease v) (v_Build v) = [] \<or> inked (suffix_text (v_Prerelease v) (v_Build v))"
    using v valid_inked unfolding suffix_text_def wf_version_def by (auto simp: inked_append inked_Cons punct_inked)
  with n show ?thesis
    by (auto simp: Version_String_text inked_append inked_Cons punct_inked)
qed

lemma op_text_inked: "inked (op_text op)"
  by (cases op) (simp_all add: op_text_def inked_def isSpace_def)

lemma part_text_inked: "wf_version v \<Longrightarrow> inked (part_text (op, v))"
  using op_text_inked [of op] Version_String_inked [of v] by (auto simp: part_text_def inked_def)

lemma Version_String_head: "wf_version v \<Longrightarrow> \<exists>d r. Version_String v = d # r \<and> isDigit d"
proof -
  assume "wf_version v"
  then have "numIdent (itoa (v_Major v))" by (simp add: wf_version_def itoa_fits)
  then show ?thesis
    by (cases "itoa (v_Major v)") (auto simp: Version_String_text numIdent_def)
qed

lemma op_text_parse: "parseOperator (op_text op) = Some op"
  by (cases op) (simp_all add: op_text_def parseOperator_def)

lemma operatorRegex_text: "isDigit d \<Longrightarrow> operatorRegex (op_text op @ d # r) = Some (op_text op, d # r)"
  by (cases op) (auto simp: operatorRegex_def op_text_def isDigit_def)

lemma wildcardRegex_text: "\<not> wildcardRegex (op_text op @ r)"
proof -
  have "\<not> digits1 p" if "split_on (CHR ''.'') (op_text op @ r) = p # ps" for p ps
    using that by (cases op; cases "split_on (CHR ''.'') r")
      (auto simp: op_text_def digits1_def isDigit_def split: list.splits)
  then show ?thesis
    by (auto simp: wildcardRegex_def split: list.splits)
qed

lemma parse_part_text:
  assumes v: "wf_version v"
  shows "parseConstraintPart (part_text (op, v)) = Inr (part_of (op, v))"
proof -
  obtain d r where d: "Version_String v = d # r" "isDigit d"
    using Version_String_head [OF v] by blast
  have i: "inked (part_text (op, v))"
    by (rule part_text_inked [OF v])
  then have t: "trimSpace (part_text (op, v)) = part_text (op, v)"
    by (intro trimSpace_inked) (auto simp: inked_def)
  have ns: "part_text (op, v) \<noteq> ''*''" "part_text (op, v) \<noteq> []"
    using d(1) by (cases op; simp add: part_text_def op_text_def)+
  show ?thesis
    using parse_printed(1) [OF v] ns wildcardRegex_text [of op] operatorRegex_text [OF d(2), of op r] op_text_parse [of op]
    by (simp add: parseConstraintPart_def t Let_def) (simp add: part_text_def part_of_def d(1))
qed

lemma parse_parts_text:
  "list_all (\<lambda>p. wf_version (snd p)) ps \<Longrightarrow> parseParts (map part_text ps) = Inr (map part_of ps)"
  by (induction ps) (auto simp: parse_part_text)

definition constraint_text :: "(operator \<times> Version) list \<Rightarrow> string" where
  "constraint_text ps = join_with (CHR '' '') (map part_text ps)"

lemma join_ends:
  assumes "ps \<noteq> []" and "list_all inked ps"
  shows "join_with (CHR '' '') ps \<noteq> []" "\<not> isSpace (hd (join_with (CHR '' '') ps))"
    "\<not> isSpace (last (join_with (CHR '' '') ps))" "CHR '','' \<notin> set (join_with (CHR '' '') ps)"
proof -
  have "join_with (CHR '' '') ps \<noteq> [] \<and> \<not> isSpace (hd (join_with (CHR '' '') ps)) \<and>
      \<not> isSpace (last (join_with (CHR '' '') ps)) \<and> CHR '','' \<notin> set (join_with (CHR '' '') ps)"
    using assms by (induction "CHR '' ''" ps rule: join_with.induct) (auto simp: inked_def)
  then show "join_with (CHR '' '') ps \<noteq> []" "\<not> isSpace (hd (join_with (CHR '' '') ps))"
    "\<not> isSpace (last (join_with (CHR '' '') ps))" "CHR '','' \<notin> set (join_with (CHR '' '') ps)" by blast+
qed

text \<open>
  C20: a constraint means the conjunction of its parts. Writing up to ten comparisons one after
  the other, within the length limit, parses to a constraint that a version satisfies exactly
  when it satisfies each comparison.
\<close>

theorem ParseConstraint_conjunction:
  assumes "ps \<noteq> []" and "length ps \<le> 10" and "list_all (\<lambda>p. wf_version (snd p)) ps"
    and "length (constraint_text ps) \<le> 256"
  shows "\<exists>c. ParseConstraint (constraint_text ps) = Inr c \<and>
    (\<forall>v. Constraint_Match c v \<longleftrightarrow> list_all (\<lambda>p. part_match (part_of p) v) ps)"
proof -
  have i: "list_all inked (map part_text ps)" "map part_text ps \<noteq> []"
    using assms(1,3) part_text_inked by (auto simp: list_all_iff)
  note e = join_ends [OF i(2,1)]
  have t: "trimSpace (constraint_text ps) = constraint_text ps"
    unfolding constraint_text_def by (rule trimSpace_inked) (rule e)+
  have "map (\<lambda>c. if c = CHR '','' then CHR '' '' else c) (constraint_text ps) = constraint_text ps"
    using e(4) unfolding constraint_text_def by (intro map_idI) auto
  then have "splitConstraint (constraint_text ps) = map part_text ps"
    using fields_join [OF i(2,1)] by (simp add: splitConstraint_def constraint_text_def)
  then have "ParseConstraint (constraint_text ps) = Inr (map part_of ps)"
    using assms(1,2,4) e(1) parse_parts_text [OF assms(3)] t
    by (simp add: ParseConstraint_def Let_def maxConstraintLength_def maxConstraintParts_def) (simp add: constraint_text_def)
  then show ?thesis
    by (simp add: Constraint_Match_def list_all_iff)
qed

theorem ParseConstraint_conjunction_witness:
  "\<exists>c. ParseConstraint ''>=1.2.0 <2.0.0'' = Inr c \<and> Constraint_Match c (release 1 9 9) \<and> \<not> Constraint_Match c (release 2 0 0)"
proof -
  let ?ps = "[(opGTE, release 1 2 0), (opLT, release 2 0 0)]"
  have t: "constraint_text ?ps = ''>=1.2.0 <2.0.0''"
    by code_simp
  have "\<exists>c. ParseConstraint (constraint_text ?ps) = Inr c \<and>
      (\<forall>v. Constraint_Match c v \<longleftrightarrow> list_all (\<lambda>p. part_match (part_of p) v) ?ps)"
    by (rule ParseConstraint_conjunction; (simp only: t)?)
      (simp_all add: wf_version_def release_def fits_int_def maxInt_def)
  moreover have "list_all (\<lambda>p. part_match (part_of p) (release 1 9 9)) ?ps"
    "\<not> list_all (\<lambda>p. part_match (part_of p) (release 2 0 0)) ?ps"
    by code_simp+
  ultimately show ?thesis unfolding t by blast
qed

end
