(* ===== verification/Global_State.thy ===== *)
theory Global_State
  imports Go_Strings "HOL-Library.Multiset"
begin

unbundle bit_operations_syntax

text \<open>
  The sharded state of the cluster-wide name registry
  (\<^verbatim>\<open>system/topology/namereg/global/state.go\<close>): active names with their reverse index by process
  and by node, Strong reservations waiting for acknowledgements, and the ring of expired ones.

  Process ids come from decoded commands, so their cached string is empty and \<^verbatim>\<open>String\<close> is
  \<^verbatim>\<open>toString\<close>. Locks only serialise; \<open>it\<close> is the map iteration order.
\<close>

section \<open>Process ids\<close>

record PID =
  p_Node :: string
  p_Host :: string
  p_UniqID :: string

definition noPID :: PID where
  "noPID = \<lparr>p_Node = [], p_Host = [], p_UniqID = []\<rparr>"

definition PID_String :: "PID \<Rightarrow> string" where
  "PID_String p =
     ''{'' @ (if p_Node p \<noteq> [] then p_Node p @ ''@'' else []) @ p_Host p @ ''|'' @ p_UniqID p @ ''}''"

definition PID_Equal :: "PID \<Rightarrow> PID \<Rightarrow> bool" where
  "PID_Equal p q = (p_Node p = p_Node q \<and> p_Host p = p_Host q \<and> p_UniqID p = p_UniqID q)"

lemma PID_Equal_eq [simp]: "PID_Equal p q \<longleftrightarrow> p = q"
  by (cases p; cases q) (simp add: PID_Equal_def)

section \<open>State\<close>

record nameEntry =
  ne_PID :: PID
  ne_NodeID :: string
  ne_RequiredNodes :: "string list"
  ne_AppliedAt :: u64
  ne_Epoch :: u64

record pendingEntry =
  pe_AckSet :: "string set"
  pe_PID :: PID
  pe_Name :: string
  pe_NodeID :: string
  pe_RequiredNodes :: "string list"
  pe_Epoch :: u64
  pe_DeadlineUnixNano :: i64
  pe_CreatedAt :: i64

record ExpiredRecord =
  er_PID :: PID
  er_Name :: string
  er_Reason :: string
  er_RejectedBy :: string
  er_MissingAcks :: "string list"
  er_Epoch :: u64
  er_ExpiredAt :: i64

record shard =
  sh_names :: "string \<rightharpoonup> nameEntry"
  sh_pidNames :: "string \<rightharpoonup> string list"

record shardedState =
  ss_pending :: "string \<rightharpoonup> pendingEntry"
  ss_nodeIndex :: "string \<rightharpoonup> string set"
  ss_expired :: "ExpiredRecord list"
  ss_shards :: "nat \<Rightarrow> shard"

definition shardCount :: nat where "shardCount = 16"
definition expiredRingCap :: nat where "expiredRingCap = 64"

definition newShardedState :: shardedState where
  "newShardedState = \<lparr>ss_pending = Map.empty, ss_nodeIndex = Map.empty, ss_expired = [],
     ss_shards = \<lambda>_. \<lparr>sh_names = Map.empty, sh_pidNames = Map.empty\<rparr>\<rparr>"

text \<open>FNV-1a, 32 bits (\<^verbatim>\<open>hash/fnv\<close>).\<close>

definition fnv32a :: "byte list \<Rightarrow> u32" where
  "fnv32a bs = foldl (\<lambda>h b. (h XOR ucast b) * 16777619) 2166136261 bs"

definition shardFor :: "string \<Rightarrow> nat" where
  "shardFor name = unat (fnv32a (bytes_of name)) mod shardCount"

definition shard_of :: "shardedState \<Rightarrow> string \<Rightarrow> shard" where
  "shard_of s name = ss_shards s (shardFor name)"

definition upd_shard :: "shardedState \<Rightarrow> nat \<Rightarrow> (shard \<Rightarrow> shard) \<Rightarrow> shardedState" where
  "upd_shard s i f = s\<lparr>ss_shards := (ss_shards s)(i := f (ss_shards s i))\<rparr>"

section \<open>Reads\<close>

definition gr_Lookup :: "shardedState \<Rightarrow> string \<Rightarrow> PID option" where
  "gr_Lookup s name = map_option ne_PID (sh_names (shard_of s name) name)"

definition LookupWithIndex :: "shardedState \<Rightarrow> string \<Rightarrow> (PID \<times> u64) option" where
  "LookupWithIndex s name = map_option (\<lambda>e. (ne_PID e, ne_AppliedAt e)) (sh_names (shard_of s name) name)"

definition gr_Len :: "shardedState \<Rightarrow> nat" where
  "gr_Len s = sum_list (map (\<lambda>i. card (dom (sh_names (ss_shards s i)))) [0..<shardCount])"

definition LookupByPID :: "shardedState \<Rightarrow> PID \<Rightarrow> string list" where
  "LookupByPID s p =
     concat (map (\<lambda>i. case sh_pidNames (ss_shards s i) (PID_String p) of None \<Rightarrow> [] | Some names \<Rightarrow> names)
       [0..<shardCount])"

section \<open>Registration\<close>

datatype registerOutcome = registerInserted | registerDedupe | registerConflict
datatype pendingOutcome = pendingInserted | pendingDedupe | pendingConflictActive | pendingConflictPending

definition addToNodeIndex :: "shardedState \<Rightarrow> string \<Rightarrow> string \<Rightarrow> shardedState" where
  "addToNodeIndex s nodeID pidKey =
     s\<lparr>ss_nodeIndex := (ss_nodeIndex s)(nodeID \<mapsto>
        insert pidKey (case ss_nodeIndex s nodeID of None \<Rightarrow> {} | Some ps \<Rightarrow> ps))\<rparr>"

text \<open>Storing an active entry and appending its name to the process's names in the shard.\<close>

definition putName :: "string \<Rightarrow> nameEntry \<Rightarrow> shard \<Rightarrow> shard" where
  "putName name e sh =
     (let key = PID_String (ne_PID e); old = (case sh_pidNames sh key of None \<Rightarrow> [] | Some ns \<Rightarrow> ns)
      in sh\<lparr>sh_names := (sh_names sh)(name \<mapsto> e), sh_pidNames := (sh_pidNames sh)(key \<mapsto> old @ [name])\<rparr>)"

definition gr_register ::
  "shardedState \<Rightarrow> string \<Rightarrow> PID \<Rightarrow> string \<Rightarrow> u64 \<Rightarrow> shardedState \<times> PID \<times> u64 \<times> registerOutcome" where
  "gr_register s name p nodeID index =
     (case ss_pending s name of
        Some e \<Rightarrow> if PID_Equal (pe_PID e) p then (s, p, pe_Epoch e, registerDedupe)
                  else (s, pe_PID e, pe_Epoch e, registerConflict)
      | None \<Rightarrow>
          (case sh_names (shard_of s name) name of
             Some existing \<Rightarrow>
               if PID_Equal (ne_PID existing) p then (s, p, ne_AppliedAt existing, registerDedupe)
               else (s, ne_PID existing, ne_AppliedAt existing, registerConflict)
           | None \<Rightarrow>
               (let e = \<lparr>ne_PID = p, ne_NodeID = nodeID, ne_RequiredNodes = [], ne_AppliedAt = index, ne_Epoch = 0\<rparr>;
                    s = upd_shard s (shardFor name) (putName name e)
                in (addToNodeIndex s nodeID (PID_String p), p, index, registerInserted))))"

definition registerPending ::
  "shardedState \<Rightarrow> string \<Rightarrow> PID \<Rightarrow> string \<Rightarrow> u64 \<Rightarrow> string list \<Rightarrow> i64 \<Rightarrow> i64 \<Rightarrow> shardedState \<times> PID \<times> pendingOutcome" where
  "registerPending s name p nodeID epoch required deadline createdAt =
     (case sh_names (shard_of s name) name of
        Some existing \<Rightarrow> if PID_Equal (ne_PID existing) p then (s, p, pendingDedupe)
                         else (s, ne_PID existing, pendingConflictActive)
      | None \<Rightarrow>
          (case ss_pending s name of
             Some e \<Rightarrow> if PID_Equal (pe_PID e) p \<and> pe_Epoch e = epoch then (s, p, pendingDedupe)
                       else (s, pe_PID e, pendingConflictPending)
           | None \<Rightarrow>
               (s\<lparr>ss_pending := (ss_pending s)(name \<mapsto>
                   \<lparr>pe_AckSet = {}, pe_PID = p, pe_Name = name, pe_NodeID = nodeID, pe_RequiredNodes = required,
                    pe_Epoch = epoch, pe_DeadlineUnixNano = deadline, pe_CreatedAt = createdAt\<rparr>)\<rparr>,
                p, pendingInserted)))"

section \<open>Reservations\<close>

definition ackComplete :: "pendingEntry \<Rightarrow> bool" where
  "ackComplete e = list_all (\<lambda>n. n \<in> pe_AckSet e) (pe_RequiredNodes e)"

text \<open>A pending reservation of this epoch, if there is one.\<close>

definition pendingAt :: "shardedState \<Rightarrow> string \<Rightarrow> u64 \<Rightarrow> pendingEntry option" where
  "pendingAt s name epoch =
     (case ss_pending s name of None \<Rightarrow> None | Some e \<Rightarrow> if pe_Epoch e \<noteq> epoch then None else Some e)"

definition recordAck ::
  "shardedState \<Rightarrow> string \<Rightarrow> u64 \<Rightarrow> string \<Rightarrow> shardedState \<times> pendingEntry option \<times> bool \<times> bool" where
  "recordAck s name epoch acker =
     (case pendingAt s name epoch of
        None \<Rightarrow> (s, None, False, False)
      | Some e \<Rightarrow>
          if acker \<in> pe_AckSet e then (s, Some e, False, ackComplete e)
          else let e = e\<lparr>pe_AckSet := insert acker (pe_AckSet e)\<rparr>
               in (s\<lparr>ss_pending := (ss_pending s)(name \<mapsto> e)\<rparr>, Some e, True, ackComplete e))"

definition dropRequired ::
  "shardedState \<Rightarrow> string \<Rightarrow> u64 \<Rightarrow> string \<Rightarrow> shardedState \<times> pendingEntry option \<times> bool \<times> bool" where
  "dropRequired s name epoch node =
     (case pendingAt s name epoch of
        None \<Rightarrow> (s, None, False, False)
      | Some e \<Rightarrow>
          if node \<notin> set (pe_RequiredNodes e) then (s, Some e, False, ackComplete e)
          else let e = e\<lparr>pe_RequiredNodes := remove1 node (pe_RequiredNodes e)\<rparr>
               in (s\<lparr>ss_pending := (ss_pending s)(name \<mapsto> e)\<rparr>, Some e, True, ackComplete e))"

definition missingAcks :: "pendingEntry \<Rightarrow> string list" where
  "missingAcks e = filter (\<lambda>n. n \<notin> pe_AckSet e) (pe_RequiredNodes e)"

text \<open>The bounded ring: a full one drops its oldest record.\<close>

definition ringPush :: "ExpiredRecord list \<Rightarrow> ExpiredRecord \<Rightarrow> ExpiredRecord list" where
  "ringPush ring rec = (if length ring < expiredRingCap then ring @ [rec] else tl ring @ [rec])"

definition dropPending :: "shardedState \<Rightarrow> string \<Rightarrow> shardedState" where
  "dropPending s name = s\<lparr>ss_pending := (ss_pending s)(name := None)\<rparr>"

definition rejectPending ::
  "shardedState \<Rightarrow> string \<Rightarrow> u64 \<Rightarrow> string \<Rightarrow> string \<Rightarrow> i64 \<Rightarrow> shardedState \<times> pendingEntry option" where
  "rejectPending s name epoch rejecter reason expiredAt =
     (case pendingAt s name epoch of
        None \<Rightarrow> (s, None)
      | Some e \<Rightarrow>
          (let s = dropPending s name;
               rec = \<lparr>er_PID = pe_PID e, er_Name = name, er_Reason = reason, er_RejectedBy = rejecter,
                      er_MissingAcks = missingAcks e, er_Epoch = epoch, er_ExpiredAt = expiredAt\<rparr>
           in (s\<lparr>ss_expired := ringPush (ss_expired s) rec\<rparr>, Some e)))"

definition promotePending :: "shardedState \<Rightarrow> string \<Rightarrow> u64 \<Rightarrow> u64 \<Rightarrow> shardedState \<times> pendingEntry option" where
  "promotePending s name epoch activationIndex =
     (case pendingAt s name epoch of
        None \<Rightarrow> (s, None)
      | Some e \<Rightarrow>
          (let s = dropPending s name;
               ne = \<lparr>ne_PID = pe_PID e, ne_NodeID = pe_NodeID e, ne_RequiredNodes = pe_RequiredNodes e,
                     ne_AppliedAt = activationIndex, ne_Epoch = pe_Epoch e\<rparr>;
               s = upd_shard s (shardFor name) (putName name ne)
           in (addToNodeIndex s (pe_NodeID e) (PID_String (pe_PID e)), Some e)))"

definition expirePending ::
  "shardedState \<Rightarrow> string \<Rightarrow> u64 \<Rightarrow> string \<Rightarrow> i64 \<Rightarrow> shardedState \<times> (pendingEntry \<times> string list) option" where
  "expirePending s name epoch reason expiredAt =
     (case pendingAt s name epoch of
        None \<Rightarrow> (s, None)
      | Some e \<Rightarrow>
          (let s = dropPending s name;
               rec = \<lparr>er_PID = pe_PID e, er_Name = name, er_Reason = reason, er_RejectedBy = [],
                      er_MissingAcks = missingAcks e, er_Epoch = epoch, er_ExpiredAt = expiredAt\<rparr>
           in (s\<lparr>ss_expired := ringPush (ss_expired s) rec\<rparr>, Some (e, missingAcks e))))"

text \<open>The zero PID in a request matches any owner.\<close>

definition unreservePending :: "shardedState \<Rightarrow> string \<Rightarrow> PID \<Rightarrow> shardedState \<times> pendingEntry option \<times> bool" where
  "unreservePending s name p =
     (case ss_pending s name of
        None \<Rightarrow> (s, None, False)
      | Some e \<Rightarrow>
          if \<not> PID_Equal p noPID \<and> \<not> PID_Equal (pe_PID e) p then (s, Some e, False)
          else (dropPending s name, Some e, True))"

section \<open>Views\<close>

record PendingView =
  pv_PID :: PID
  pv_Name :: string
  pv_RequiredNodes :: "string list"
  pv_AckSet :: "string list"
  pv_MissingAcks :: "string list"
  pv_Epoch :: u64
  pv_DeadlineUnixNano :: i64
  pv_CreatedAt :: i64

definition pe_view :: "(string set \<Rightarrow> string list) \<Rightarrow> pendingEntry \<Rightarrow> PendingView" where
  "pe_view it e = \<lparr>pv_PID = pe_PID e, pv_Name = pe_Name e, pv_RequiredNodes = pe_RequiredNodes e,
     pv_AckSet = it (pe_AckSet e), pv_MissingAcks = missingAcks e, pv_Epoch = pe_Epoch e,
     pv_DeadlineUnixNano = pe_DeadlineUnixNano e, pv_CreatedAt = pe_CreatedAt e\<rparr>"

definition pendingByName :: "(string set \<Rightarrow> string list) \<Rightarrow> shardedState \<Rightarrow> string \<Rightarrow> PendingView option" where
  "pendingByName it s name = map_option (pe_view it) (ss_pending s name)"

text \<open>Ranging over the names of all shards, shard by shard.\<close>

definition shardEntries :: "(string set \<Rightarrow> string list) \<Rightarrow> shard \<Rightarrow> (string \<times> nameEntry) list" where
  "shardEntries it sh = List.map_filter (\<lambda>n. map_option (\<lambda>e. (n, e)) (sh_names sh n)) (it (dom (sh_names sh)))"

definition allEntries :: "(string set \<Rightarrow> string list) \<Rightarrow> shardedState \<Rightarrow> (string \<times> nameEntry) list" where
  "allEntries it s = concat (map (\<lambda>i. shardEntries it (ss_shards s i)) [0..<shardCount])"

definition listActiveConsistent :: "(string set \<Rightarrow> string list) \<Rightarrow> shardedState \<Rightarrow> (PID \<times> string \<times> u64) list" where
  "listActiveConsistent it s =
     map (\<lambda>(n, e). (ne_PID e, n, ne_AppliedAt e)) (filter (\<lambda>(n, e). \<not> length (ne_RequiredNodes e) > 0) (allEntries it s))"

definition allActiveNames :: "(string set \<Rightarrow> string list) \<Rightarrow> shardedState \<Rightarrow> string list" where
  "allActiveNames it s = map fst (allEntries it s)"

definition listActiveStrong :: "(string set \<Rightarrow> string list) \<Rightarrow> shardedState \<Rightarrow> (PID \<times> string \<times> u64) list" where
  "listActiveStrong it s =
     map (\<lambda>(n, e). (ne_PID e, n, ne_Epoch e)) (filter (\<lambda>(n, e). \<not> length (ne_RequiredNodes e) = 0) (allEntries it s))"

definition listPending :: "(string set \<Rightarrow> string list) \<Rightarrow> shardedState \<Rightarrow> PendingView list" where
  "listPending it s = List.map_filter (\<lambda>n. map_option (pe_view it) (ss_pending s n)) (it (dom (ss_pending s)))"

definition expiredSnapshot :: "shardedState \<Rightarrow> ExpiredRecord list" where
  "expiredSnapshot s = ss_expired s"

definition lookupPendingByPID :: "(string set \<Rightarrow> string list) \<Rightarrow> shardedState \<Rightarrow> PID \<Rightarrow> string list" where
  "lookupPendingByPID it s p =
     filter (\<lambda>n. case ss_pending s n of None \<Rightarrow> False | Some e \<Rightarrow> PID_Equal (pe_PID e) p) (it (dom (ss_pending s)))"

section \<open>Removal\<close>

record strongTerminal =
  st_Name :: string
  st_PID :: PID
  st_RequiredNodes :: "string list"
  st_Epoch :: u64

text \<open>
  \<^verbatim>\<open>removePIDName\<close>: drop the first occurrence of the name, and the key when no name is left.
\<close>

definition removePIDName :: "string \<Rightarrow> string \<Rightarrow> shard \<Rightarrow> shard" where
  "removePIDName pidKey name sh =
     (let names = (case sh_pidNames sh pidKey of None \<Rightarrow> [] | Some ns \<Rightarrow> ns);
          names' = (if name \<in> set names then remove1 name names else names)
      in if names' = [] then sh\<lparr>sh_pidNames := (sh_pidNames sh)(pidKey := None)\<rparr>
         else sh\<lparr>sh_pidNames := (sh_pidNames sh)(pidKey \<mapsto> names')\<rparr>)"

definition unregisterEntry :: "shardedState \<Rightarrow> string \<Rightarrow> shardedState \<times> nameEntry option" where
  "unregisterEntry s name =
     (case sh_names (shard_of s name) name of
        None \<Rightarrow> (s, None)
      | Some e \<Rightarrow>
          (upd_shard s (shardFor name) (\<lambda>sh.
             removePIDName (PID_String (ne_PID e)) name (sh\<lparr>sh_names := (sh_names sh)(name := None)\<rparr>)), Some e))"

definition gr_unregister :: "shardedState \<Rightarrow> string \<Rightarrow> shardedState \<times> bool" where
  "gr_unregister s name = (let (s, e) = unregisterEntry s name in (s, e \<noteq> None))"

definition dropNameLocked :: "shard \<Rightarrow> string \<Rightarrow> shard \<times> (nameEntry \<times> strongTerminal option) option" where
  "dropNameLocked sh name =
     (case sh_names sh name of
        None \<Rightarrow> (sh, None)
      | Some e \<Rightarrow>
          (sh\<lparr>sh_names := (sh_names sh)(name := None)\<rparr>,
           Some (e, if length (ne_RequiredNodes e) > 0
                    then Some \<lparr>st_Name = name, st_PID = ne_PID e, st_RequiredNodes = ne_RequiredNodes e, st_Epoch = ne_Epoch e\<rparr>
                    else None)))"

text \<open>What a removal has gathered: the removed names with their owners, and the Strong ones.\<close>

record removal =
  rm_names :: "(string \<times> PID) list"
  rm_strongs :: "strongTerminal list"

definition noRemoval :: removal where
  "noRemoval = \<lparr>rm_names = [], rm_strongs = []\<rparr>"

definition gather :: "string \<Rightarrow> nameEntry \<times> strongTerminal option \<Rightarrow> removal \<Rightarrow> removal" where
  "gather name r acc =
     acc\<lparr>rm_names := rm_names acc @ [(name, ne_PID (fst r))],
         rm_strongs := rm_strongs acc @ (case snd r of None \<Rightarrow> [] | Some st \<Rightarrow> [st])\<rparr>"

text \<open>
  The loop over one process's names in one shard, up to \<open>cap\<close> names removed in all (a negative
  \<open>cap\<close> is no limit); the result holds the names that were not visited. \<^verbatim>\<open>removePIDWithNames\<close>
  runs it without a limit.
\<close>

fun dropNames :: "int \<Rightarrow> shard \<Rightarrow> string list \<Rightarrow> removal \<Rightarrow> shard \<times> string list \<times> removal" where
  "dropNames cap sh [] acc = (sh, [], acc)"
| "dropNames cap sh (name # names) acc =
     (if cap \<ge> 0 \<and> int (length (rm_names acc)) \<ge> cap then (sh, name # names, acc)
      else case dropNameLocked sh name of
          (sh, None) \<Rightarrow> dropNames cap sh names acc
        | (sh, Some r) \<Rightarrow> dropNames cap sh names (gather name r acc))"

definition removePIDShard :: "string \<Rightarrow> nat \<Rightarrow> shardedState \<times> removal \<Rightarrow> shardedState \<times> removal" where
  "removePIDShard pidKey i = (\<lambda>(s, acc).
     case sh_pidNames (ss_shards s i) pidKey of
       None \<Rightarrow> (s, acc)
     | Some names \<Rightarrow>
         (let (sh, _, acc) = dropNames (-1) (ss_shards s i) names acc
          in (upd_shard s i (\<lambda>_. sh\<lparr>sh_pidNames := (sh_pidNames sh)(pidKey := None)\<rparr>), acc)))"

definition removePIDWithNames :: "shardedState \<Rightarrow> PID \<Rightarrow> shardedState \<times> removal" where
  "removePIDWithNames s p =
     (let pidKey = PID_String p;
          (s, acc) = fold (removePIDShard pidKey) [0..<shardCount] (s, noRemoval)
      in (s\<lparr>ss_nodeIndex := (\<lambda>n. case ss_nodeIndex s n of
                None \<Rightarrow> None
              | Some ps \<Rightarrow> (let ps = ps - {pidKey} in if ps = {} then None else Some ps))\<rparr>, acc))"

text \<open>The loop over the node's processes in one shard; it stops when the limit is hit.\<close>

fun drainKeys :: "int \<Rightarrow> shard \<Rightarrow> string list \<Rightarrow> removal \<Rightarrow> shard \<times> removal \<times> bool" where
  "drainKeys cap sh [] acc = (sh, acc, False)"
| "drainKeys cap sh (pidKey # pidKeys) acc =
     (case sh_pidNames sh pidKey of
        None \<Rightarrow> drainKeys cap sh pidKeys acc
      | Some names \<Rightarrow>
          (let (sh, rest, acc) = dropNames cap sh names acc
           in if rest = [] then drainKeys cap (sh\<lparr>sh_pidNames := (sh_pidNames sh)(pidKey := None)\<rparr>) pidKeys acc
              else (sh\<lparr>sh_pidNames := (sh_pidNames sh)(pidKey \<mapsto> rest)\<rparr>, acc, True)))"

fun drainShards :: "int \<Rightarrow> string list \<Rightarrow> nat list \<Rightarrow> shardedState \<times> removal \<Rightarrow> shardedState \<times> removal \<times> bool" where
  "drainShards cap pidKeys [] (s, acc) = (s, acc, False)"
| "drainShards cap pidKeys (i # is) (s, acc) =
     (let (sh, acc, hit) = drainKeys cap (ss_shards s i) pidKeys acc; s = upd_shard s i (\<lambda>_. sh)
      in if hit then (s, acc, True) else drainShards cap pidKeys is (s, acc))"

definition removeNodeWithNames ::
  "(string set \<Rightarrow> string list) \<Rightarrow> shardedState \<Rightarrow> string \<Rightarrow> int \<Rightarrow> shardedState \<times> removal \<times> bool" where
  "removeNodeWithNames it s nodeID limit =
     (case ss_nodeIndex s nodeID of
        None \<Rightarrow> (s, noRemoval, False)
      | Some ps \<Rightarrow>
          (let pidKeys = it ps;
               cap = (if limit \<le> 0 then -1 else limit);
               (s, acc, hitLimit) = drainShards cap pidKeys [0..<shardCount] (s, noRemoval)
           in if hitLimit then (s, acc, True)
              else
                let ps = ps - set pidKeys
                in (s\<lparr>ss_nodeIndex := (ss_nodeIndex s)(nodeID := (if ps = {} then None else Some ps))\<rparr>, acc, False)))"

section \<open>Snapshots\<close>

record snapshotEntry =
  sp_PID :: PID
  sp_Name :: string
  sp_NodeID :: string
  sp_RequiredNodes :: "string list"
  sp_Epoch :: u64
  sp_AppliedAt :: u64

record pendingSnapshotEntry =
  ps_PID :: PID
  ps_Name :: string
  ps_NodeID :: string
  ps_RequiredNodes :: "string list"
  ps_AckSet :: "string list"
  ps_Epoch :: u64
  ps_DeadlineUnixNano :: i64
  ps_CreatedAt :: i64

definition snapshotAbove :: "(string set \<Rightarrow> string list) \<Rightarrow> shardedState \<Rightarrow> u64 \<Rightarrow> snapshotEntry list \<times> u64" where
  "snapshotAbove it s threshold =
     (let es = filter (\<lambda>(n, e). \<not> ne_AppliedAt e \<le> threshold) (allEntries it s)
      in (map (\<lambda>(n, e). \<lparr>sp_PID = ne_PID e, sp_Name = n, sp_NodeID = ne_NodeID e, sp_RequiredNodes = [],
                sp_Epoch = 0, sp_AppliedAt = ne_AppliedAt e\<rparr>) es,
          fold (\<lambda>(n, e) highest. if ne_AppliedAt e > highest then ne_AppliedAt e else highest) es 0))"

definition gr_snapshot :: "(string set \<Rightarrow> string list) \<Rightarrow> shardedState \<Rightarrow> snapshotEntry list" where
  "gr_snapshot it s =
     map (\<lambda>(n, e). \<lparr>sp_PID = ne_PID e, sp_Name = n, sp_NodeID = ne_NodeID e, sp_RequiredNodes = ne_RequiredNodes e,
            sp_Epoch = ne_Epoch e, sp_AppliedAt = ne_AppliedAt e\<rparr>) (allEntries it s)"

definition pendingSnapshot :: "(string set \<Rightarrow> string list) \<Rightarrow> shardedState \<Rightarrow> pendingSnapshotEntry list" where
  "pendingSnapshot it s =
     List.map_filter (\<lambda>n. map_option (\<lambda>e. \<lparr>ps_PID = pe_PID e, ps_Name = pe_Name e, ps_NodeID = pe_NodeID e,
        ps_RequiredNodes = pe_RequiredNodes e, ps_AckSet = it (pe_AckSet e), ps_Epoch = pe_Epoch e,
        ps_DeadlineUnixNano = pe_DeadlineUnixNano e, ps_CreatedAt = pe_CreatedAt e\<rparr>) (ss_pending s n))
       (it (dom (ss_pending s)))"

definition restoreName :: "snapshotEntry \<Rightarrow> shardedState \<Rightarrow> shardedState" where
  "restoreName e s =
     (let ne = \<lparr>ne_PID = sp_PID e, ne_NodeID = sp_NodeID e, ne_RequiredNodes = sp_RequiredNodes e,
                ne_AppliedAt = sp_AppliedAt e, ne_Epoch = sp_Epoch e\<rparr>;
          s = upd_shard s (shardFor (sp_Name e)) (putName (sp_Name e) ne)
      in addToNodeIndex s (sp_NodeID e) (PID_String (sp_PID e)))"

definition restorePending :: "pendingSnapshotEntry \<Rightarrow> (string \<rightharpoonup> pendingEntry) \<Rightarrow> (string \<rightharpoonup> pendingEntry)" where
  "restorePending p m = m(ps_Name p \<mapsto>
     \<lparr>pe_AckSet = set (ps_AckSet p), pe_PID = ps_PID p, pe_Name = ps_Name p, pe_NodeID = ps_NodeID p,
      pe_RequiredNodes = ps_RequiredNodes p, pe_Epoch = ps_Epoch p,
      pe_DeadlineUnixNano = ps_DeadlineUnixNano p, pe_CreatedAt = ps_CreatedAt p\<rparr>)"

text \<open>\<^verbatim>\<open>restore\<close> replaces names, indexes and reservations; the expired ring stays.\<close>

definition gr_restore :: "shardedState \<Rightarrow> snapshotEntry list \<Rightarrow> pendingSnapshotEntry list \<Rightarrow> shardedState" where
  "gr_restore s entries pending =
     (let s = s\<lparr>ss_shards := \<lambda>_. \<lparr>sh_names = Map.empty, sh_pidNames = Map.empty\<rparr>, ss_nodeIndex := Map.empty\<rparr>
      in (fold restoreName entries s)\<lparr>ss_pending := fold restorePending pending Map.empty\<rparr>)"

section \<open>The invariant\<close>

text \<open>
  In shard \<open>i\<close>: only names that hash to \<open>i\<close>, and the reverse index lists, for each process key,
  exactly the names it owns in the shard, each once.
\<close>

definition owned :: "shard \<Rightarrow> string \<Rightarrow> string set" where
  "owned sh key = {n. \<exists>e. sh_names sh n = Some e \<and> PID_String (ne_PID e) = key}"

definition index_ok :: "shard \<Rightarrow> bool" where
  "index_ok sh \<longleftrightarrow> (\<forall>key. case sh_pidNames sh key of
      None \<Rightarrow> owned sh key = {}
    | Some ns \<Rightarrow> ns \<noteq> [] \<and> distinct ns \<and> set ns = owned sh key)"

definition shard_ok :: "nat \<Rightarrow> shard \<Rightarrow> bool" where
  "shard_ok i sh \<longleftrightarrow> (\<forall>n \<in> dom (sh_names sh). shardFor n = i) \<and> finite (dom (sh_names sh)) \<and> index_ok sh"

definition names_at :: "shardedState \<Rightarrow> string \<rightharpoonup> nameEntry" where
  "names_at s name = sh_names (shard_of s name) name"

definition node_index_ok :: "shardedState \<Rightarrow> bool" where
  "node_index_ok s \<longleftrightarrow> (\<forall>n e. names_at s n = Some e \<longrightarrow>
     (\<exists>ps. ss_nodeIndex s (ne_NodeID e) = Some ps \<and> PID_String (ne_PID e) \<in> ps)) \<and>
     (\<forall>d ps. ss_nodeIndex s d = Some ps \<longrightarrow> finite ps)"

definition pending_ok :: "shardedState \<Rightarrow> bool" where
  "pending_ok s \<longleftrightarrow> finite (dom (ss_pending s)) \<and> (\<forall>n p. ss_pending s n = Some p \<longrightarrow>
     pe_Name p = n \<and> names_at s n = None \<and> finite (pe_AckSet p))"

definition gr_inv :: "shardedState \<Rightarrow> bool" where
  "gr_inv s \<longleftrightarrow> (\<forall>i. shard_ok i (ss_shards s i)) \<and> node_index_ok s \<and> pending_ok s \<and>
     length (ss_expired s) \<le> expiredRingCap"

lemma shardFor_less: "shardFor n < shardCount"
  by (simp add: shardFor_def shardCount_def)

lemma index_okD:
  assumes "index_ok sh"
  shows "sh_pidNames sh key = None \<Longrightarrow> owned sh key = {}"
    and "sh_pidNames sh key = Some ns \<Longrightarrow> ns \<noteq> [] \<and> distinct ns \<and> set ns = owned sh key"
  using assms by (auto simp: index_ok_def split: option.splits dest: spec [where x = key])

lemma index_okI:
  assumes "\<And>key. sh_pidNames sh key = None \<Longrightarrow> owned sh key = {}"
    and "\<And>key ns. sh_pidNames sh key = Some ns \<Longrightarrow> ns \<noteq> [] \<and> distinct ns \<and> set ns = owned sh key"
  shows "index_ok sh"
  using assms by (auto simp: index_ok_def split: option.split)

lemma shards_names_at:
  assumes "\<forall>i. shard_ok i (ss_shards s i)"
  shows "sh_names (ss_shards s i) n = (if shardFor n = i then names_at s n else None)"
  using assms by (auto simp: names_at_def shard_of_def shard_ok_def)

lemma names_at_upd:
  assumes "\<forall>i. shard_ok i (ss_shards s i)" "shard_ok i (f (ss_shards s i))"
  shows "names_at (upd_shard s i f) n = (if shardFor n = i then sh_names (f (ss_shards s i)) n else names_at s n)"
  using assms by (simp add: names_at_def shard_of_def upd_shard_def)

lemma upd_shard_fields [simp]:
  "ss_pending (upd_shard s i f) = ss_pending s" "ss_nodeIndex (upd_shard s i f) = ss_nodeIndex s"
  "ss_expired (upd_shard s i f) = ss_expired s"
  "ss_shards (upd_shard s i f) j = (if j = i then f (ss_shards s i) else ss_shards s j)"
  by (simp_all add: upd_shard_def)

lemma owned_put: "n \<notin> dom (sh_names sh) \<Longrightarrow>
    owned (sh\<lparr>sh_names := (sh_names sh)(n \<mapsto> e), sh_pidNames := x\<rparr>) key =
      (if key = PID_String (ne_PID e) then insert n (owned sh key) else owned sh key)"
  by (auto simp: owned_def)

lemma shard_ok_put:
  assumes ok: "shard_ok i sh" and n: "n \<notin> dom (sh_names sh)" "shardFor n = i"
  shows "shard_ok i (putName n e sh)"
proof -
  have ix: "index_ok sh" using ok by (simp add: shard_ok_def)
  have no: "n \<notin> owned sh key" for key
    using n(1) by (auto simp: owned_def)
  have "index_ok (putName n e sh)"
    using index_okD [OF ix] n no
    by (intro index_okI) (auto simp: putName_def Let_def owned_put split: if_splits option.splits)
  then show ?thesis
    using ok n by (auto simp: shard_ok_def putName_def Let_def)
qed

lemma putName_names [simp]: "sh_names (putName n e sh) = (sh_names sh)(n \<mapsto> e)"
  by (simp add: putName_def Let_def)

lemma owned_del: "owned (sh\<lparr>sh_names := (sh_names sh)(n := None), sh_pidNames := x\<rparr>) key = owned sh key - {n}"
  by (auto simp: owned_def)

lemma shard_ok_remove:
  assumes ok: "shard_ok i sh" and e: "sh_names sh n = Some e"
  shows "shard_ok i (removePIDName (PID_String (ne_PID e)) n (sh\<lparr>sh_names := (sh_names sh)(n := None)\<rparr>))"
proof -
  let ?k = "PID_String (ne_PID e)"
  have ix: "index_ok sh" using ok by (simp add: shard_ok_def)
  have own: "n \<in> owned sh ?k" "\<And>k. k \<noteq> ?k \<Longrightarrow> n \<notin> owned sh k"
    using e by (auto simp: owned_def)
  then obtain ns where ns: "sh_pidNames sh ?k = Some ns"
    using index_okD(1) [OF ix, of ?k] by (cases "sh_pidNames sh ?k") auto
  have d: "distinct ns" "set ns = owned sh ?k"
    using index_okD(2) [OF ix ns] by auto
  have rm: "set (remove1 n ns) = owned sh ?k - {n}"
    using d by simp
  then have "remove1 n ns = [] \<Longrightarrow> owned sh ?k - {n} = {}"
    by simp
  then have "index_ok (removePIDName ?k n (sh\<lparr>sh_names := (sh_names sh)(n := None)\<rparr>))"
    using index_okD [OF ix] ns d own rm
    by (intro index_okI) (auto simp: removePIDName_def Let_def owned_del split: if_splits)
  then show ?thesis
    using ok by (auto simp: shard_ok_def removePIDName_def Let_def)
qed

section \<open>What the removal loops do\<close>

definition tagged :: "(string \<rightharpoonup> nameEntry) \<Rightarrow> string list \<Rightarrow> (string \<times> PID) list" where
  "tagged m X = map (\<lambda>n. (n, ne_PID (the (m n)))) X"

lemma tagged_append [simp]: "tagged m (X @ Y) = tagged m X @ tagged m Y"
  by (simp add: tagged_def)

lemma tagged_restrict: "set Y \<inter> set X = {} \<Longrightarrow> tagged (m |` (- set X)) Y = tagged m Y"
  by (auto simp: tagged_def restrict_map_def)

lemma length_tagged [simp]: "length (tagged m X) = length X"
  by (simp add: tagged_def)

definition within :: "int \<Rightarrow> removal \<Rightarrow> bool" where
  "within cap acc \<longleftrightarrow> (0 \<le> cap \<longrightarrow> int (length (rm_names acc)) \<le> cap)"

definition full :: "int \<Rightarrow> removal \<Rightarrow> bool" where
  "full cap acc \<longleftrightarrow> 0 \<le> cap \<and> cap \<le> int (length (rm_names acc))"

lemma restrict_UNIV [simp]: "m |` UNIV = m"
  by (simp add: restrict_map_def)

lemma gather_names [simp]: "rm_names (gather n r acc) = rm_names acc @ [(n, ne_PID (fst r))]"
  by (simp add: gather_def)

lemma dropNames_spec:
  assumes "distinct ns" "set ns \<subseteq> dom (sh_names sh)" "dropNames cap sh ns acc = (sh', rest, acc')"
  shows "\<exists>X. ns = X @ rest \<and> sh' = sh\<lparr>sh_names := sh_names sh |` (- set X)\<rparr> \<and>
     rm_names acc' = rm_names acc @ tagged (sh_names sh) X \<and> (rest \<noteq> [] \<longrightarrow> full cap acc') \<and> (within cap acc \<longrightarrow> within cap acc')"
  using assms
proof (induction cap sh ns acc arbitrary: sh' rest acc' rule: dropNames.induct)
  case (1 cap sh acc)
  then show ?case by (auto simp: tagged_def)
next
  case (2 cap sh n ns acc)
  show ?case
  proof (cases "full cap acc")
    case True
    then have "sh' = sh" "rest = n # ns" "acc' = acc"
      using "2.prems"(3) by (auto simp: full_def)
    with True show ?thesis by (intro exI [of _ "[]"]) (auto simp: tagged_def)
  next
    case False
    obtain e where e: "sh_names sh n = Some e" using "2.prems"(2) by auto
    let ?sh = "sh\<lparr>sh_names := (sh_names sh)(n := None)\<rparr>"
    obtain r where r: "dropNameLocked sh n = (?sh, Some r)" "fst r = e"
      using e by (auto simp: dropNameLocked_def)
    have nf: "\<not> (0 \<le> cap \<and> cap \<le> int (length (rm_names acc)))"
      using False by (simp add: full_def)
    have d: "dropNames cap ?sh ns (gather n r acc) = (sh', rest, acc')"
      using "2.prems"(3) nf r by simp
    have IH: "\<exists>X. ns = X @ rest \<and> sh' = ?sh\<lparr>sh_names := sh_names ?sh |` (- set X)\<rparr> \<and>
        rm_names acc' = rm_names (gather n r acc) @ tagged (sh_names ?sh) X \<and> (rest \<noteq> [] \<longrightarrow> full cap acc') \<and>
        (within cap (gather n r acc) \<longrightarrow> within cap acc')"
      using "2.prems"(1,2) nf r d by (intro "2.IH"(2)) auto
    then obtain X where X: "ns = X @ rest" "sh' = ?sh\<lparr>sh_names := sh_names ?sh |` (- set X)\<rparr>"
        "rm_names acc' = rm_names (gather n r acc) @ tagged (sh_names ?sh) X" "rest \<noteq> [] \<longrightarrow> full cap acc'"
        "within cap (gather n r acc) \<longrightarrow> within cap acc'"
      by blast
    have "n \<notin> set X" using "2.prems"(1) X(1) by auto
    then have t: "tagged (sh_names ?sh) X = tagged (sh_names sh) X" by (auto simp: tagged_def)
    have "(sh_names sh)(n := None) |` (- set X) = sh_names sh |` (- set (n # X))"
      by (auto simp: restrict_map_def fun_eq_iff)
    then have "sh' = sh\<lparr>sh_names := sh_names sh |` (- set (n # X))\<rparr>"
      using X(2) by simp
    moreover have "within cap acc \<longrightarrow> within cap (gather n r acc)"
      using False by (auto simp: within_def full_def)
    ultimately show ?thesis
      using X e r(2) t by (intro exI [of _ "n # X"]) (auto simp: tagged_def)
  qed
qed

text \<open>Dropping a prefix of one process's names from both maps of the shard.\<close>

definition cutNames :: "string \<Rightarrow> string list \<Rightarrow> string list \<Rightarrow> shard \<Rightarrow> shard" where
  "cutNames key X rest sh = sh\<lparr>sh_names := sh_names sh |` (- set X),
     sh_pidNames := (sh_pidNames sh)(key := (if rest = [] then None else Some rest))\<rparr>"

lemma owned_cut: "owned (cutNames key X rest sh) k = owned sh k - set X"
  by (auto simp: owned_def cutNames_def restrict_map_def)

lemma owned_disjoint: "k \<noteq> k' \<Longrightarrow> owned sh k \<inter> owned sh k' = {}"
  by (auto simp: owned_def)

lemma index_ok_cut:
  assumes ix: "index_ok sh" and ns: "sh_pidNames sh key = Some (X @ rest)"
  shows "index_ok (cutNames key X rest sh)"
proof (rule index_okI)
  note d = index_okD(2) [OF ix ns]
  have other: "owned sh k - set X = owned sh k" if "k \<noteq> key" for k
    using d owned_disjoint [OF that, of sh] by auto
  have here: "owned sh key - set X = set rest"
    using d by auto
  show "owned (cutNames key X rest sh) k = {}" if "sh_pidNames (cutNames key X rest sh) k = None" for k
    using that index_okD(1) [OF ix, of k] here other [of k]
    by (auto simp: owned_cut) (auto simp: cutNames_def split: if_splits)
  show "ys \<noteq> [] \<and> distinct ys \<and> set ys = owned (cutNames key X rest sh) k"
    if "sh_pidNames (cutNames key X rest sh) k = Some ys" for k ys
  proof (cases "k = key")
    case True
    with that d here show ?thesis
      by (auto simp: owned_cut) (auto simp: cutNames_def split: if_splits)
  next
    case False
    with that index_okD(2) [OF ix, of k ys] other [OF False] show ?thesis
      by (simp add: owned_cut) (simp add: cutNames_def)
  qed
qed

text \<open>
  One specification for the loops over names, processes and shards: the names \<open>X\<close>, all of them
  wanted by \<open>Q\<close>, have left the map and were reported; the limit is kept; and the loop stopped early
  exactly when the limit was reached with a wanted name left.
\<close>

definition wanted :: "(string \<Rightarrow> nameEntry \<Rightarrow> bool) \<Rightarrow> (string \<rightharpoonup> nameEntry) \<Rightarrow> string set" where
  "wanted Q m = {n. \<exists>e. m n = Some e \<and> Q n e}"

definition drained ::
  "int \<Rightarrow> (string \<Rightarrow> nameEntry \<Rightarrow> bool) \<Rightarrow> (string \<rightharpoonup> nameEntry) \<Rightarrow> removal \<Rightarrow>
   (string \<rightharpoonup> nameEntry) \<Rightarrow> removal \<Rightarrow> bool \<Rightarrow> string list \<Rightarrow> bool" where
  "drained cap Q m acc m' acc' hit X \<longleftrightarrow>
     distinct X \<and> set X \<subseteq> wanted Q m \<and> m' = m |` (- set X) \<and> rm_names acc' = rm_names acc @ tagged m X \<and>
     (within cap acc \<longrightarrow> within cap acc') \<and> (if hit then full cap acc' \<and> wanted Q m' \<noteq> {} else wanted Q m' = {})"

definition has_key :: "string set \<Rightarrow> nameEntry \<Rightarrow> bool" where
  "has_key K e \<longleftrightarrow> PID_String (ne_PID e) \<in> K"

lemma owned_wanted: "owned sh k = wanted (\<lambda>_. has_key {k}) (sh_names sh)"
  by (auto simp: owned_def wanted_def has_key_def)

lemma wanted_restrict: "wanted Q (m |` (- set X)) = wanted Q m - set X"
  by (auto simp: wanted_def restrict_map_def split: if_splits)

lemma drained_none: "wanted Q m = {} \<Longrightarrow> drained cap Q m acc m acc False []"
  by (simp add: drained_def tagged_def)

lemma drained_hit_mono:
  assumes d: "drained cap Q m acc m' acc' True X" and QR: "\<And>n e. Q n e \<Longrightarrow> R n e"
  shows "drained cap R m acc m' acc' True X"
proof -
  have "wanted Q m'' \<subseteq> wanted R m''" for m''
    using QR by (auto simp: wanted_def)
  with d show ?thesis unfolding drained_def by fastforce
qed

lemma drained_seq:
  assumes 1: "drained cap Q m acc m1 acc1 False X" and 2: "drained cap R m1 acc1 m2 acc2 hit Y"
    and T: "\<And>n e. m n = Some e \<Longrightarrow> T n e \<longleftrightarrow> Q n e \<or> R n e"
  shows "drained cap T m acc m2 acc2 hit (X @ Y)"
proof -
  have m1: "m1 = m |` (- set X)" using 1 by (simp add: drained_def)
  have m2: "m2 = m1 |` (- set Y)" using 2 by (simp add: drained_def)
  have disj: "set Y \<inter> set X = {}"
    using 2 m1 by (auto simp: drained_def wanted_restrict)
  have 3: "m2 = m |` (- set (X @ Y))"
    using m1 m2 by (simp add: Int_commute)
  have w: "wanted T m = wanted Q m \<union> wanted R m"
    using T by (auto simp: wanted_def)
  have q: "wanted Q m - set X = {}"
    using 1 m1 by (simp add: drained_def wanted_restrict)
  have r: "wanted T m2 = wanted R m2"
    unfolding 3 wanted_restrict w using q by auto
  have "set (X @ Y) \<subseteq> wanted T m"
    using 1 2 m1 w by (auto simp: drained_def wanted_restrict)
  moreover have "rm_names acc2 = rm_names acc @ tagged m (X @ Y)"
    using 1 2 m1 tagged_restrict [OF disj, of m] by (simp add: drained_def)
  ultimately show ?thesis
    using 1 2 disj 3 r by (auto simp: drained_def)
qed

lemma dropNames_drained:
  assumes ix: "index_ok sh" and ns: "sh_pidNames sh key = Some ns"
    and d: "dropNames cap sh ns acc = (sh', rest, acc')"
  shows "\<exists>X. sh'\<lparr>sh_pidNames := (sh_pidNames sh')(key := (if rest = [] then None else Some rest))\<rparr> = cutNames key X rest sh \<and>
      index_ok (cutNames key X rest sh) \<and>
      drained cap (\<lambda>_. has_key {key}) (sh_names sh) acc (sh_names sh') acc' (rest \<noteq> []) X"
proof -
  have o: "ns \<noteq> []" "distinct ns" "set ns = wanted (\<lambda>_. has_key {key}) (sh_names sh)"
    using index_okD(2) [OF ix ns] by (simp_all add: owned_wanted)
  then have "set ns \<subseteq> dom (sh_names sh)" by (auto simp: wanted_def)
  from dropNames_spec [OF o(2) this d] obtain X where X: "ns = X @ rest"
      "sh' = sh\<lparr>sh_names := sh_names sh |` (- set X)\<rparr>" "rm_names acc' = rm_names acc @ tagged (sh_names sh) X"
      "rest \<noteq> [] \<longrightarrow> full cap acc'" "within cap acc \<longrightarrow> within cap acc'"
    by blast
  have r: "wanted (\<lambda>_. has_key {key}) (sh_names sh) - set X = set rest"
    using o(2) unfolding o(3) [symmetric] X(1) by auto
  have "drained cap (\<lambda>_. has_key {key}) (sh_names sh) acc (sh_names sh') acc' (rest \<noteq> []) X"
    using X o unfolding drained_def by (auto simp: wanted_restrict r)
  then show ?thesis
    using X ns index_ok_cut [OF ix, of key X rest] by (intro exI [of _ X]) (simp add: cutNames_def)
qed

lemma cutNames_names [simp]: "sh_names (cutNames key X rest sh) = sh_names sh |` (- set X)"
  by (simp add: cutNames_def)

lemma drainKeys_drained:
  assumes "index_ok sh" "drainKeys cap sh keys acc = (sh', acc', hit)"
  shows "\<exists>X. index_ok sh' \<and> drained cap (\<lambda>_. has_key (set keys)) (sh_names sh) acc (sh_names sh') acc' hit X"
  using assms
proof (induction keys arbitrary: sh acc)
  case Nil
  have "wanted (\<lambda>_. has_key {}) (sh_names sh') = {}"
    by (simp add: wanted_def has_key_def)
  with Nil show ?case
    using drained_none [of "\<lambda>_. has_key {}" "sh_names sh'" cap acc'] by auto
next
  case (Cons key keys)
  show ?case
  proof (cases "sh_pidNames sh key")
    case None
    have 0: "drained cap (\<lambda>_. has_key {key}) (sh_names sh) acc (sh_names sh) acc False []"
      using index_okD(1) [OF Cons.prems(1) None] by (intro drained_none) (simp add: owned_wanted)
    obtain X where X: "index_ok sh'" "drained cap (\<lambda>_. has_key (set keys)) (sh_names sh) acc (sh_names sh') acc' hit X"
      using Cons.IH [of sh acc] Cons.prems None by auto
    have "drained cap (\<lambda>_. has_key (set (key # keys))) (sh_names sh) acc (sh_names sh') acc' hit ([] @ X)"
      by (rule drained_seq [OF 0 X(2)]) (auto simp: has_key_def)
    with X(1) show ?thesis by auto
  next
    case (Some ns)
    obtain sh1 rest acc1 where d: "dropNames cap sh ns acc = (sh1, rest, acc1)"
      by (cases "dropNames cap sh ns acc")
    from dropNames_drained [OF Cons.prems(1) Some d] obtain X where X:
      "sh1\<lparr>sh_pidNames := (sh_pidNames sh1)(key := (if rest = [] then None else Some rest))\<rparr> = cutNames key X rest sh"
      "index_ok (cutNames key X rest sh)"
      "drained cap (\<lambda>_. has_key {key}) (sh_names sh) acc (sh_names sh1) acc1 (rest \<noteq> []) X"
      by blast
    have n1: "sh_names (cutNames key X rest sh) = sh_names sh1"
      using X(3) by (simp add: drained_def)
    show ?thesis
    proof (cases "rest = []")
      case True
      have "drainKeys cap (cutNames key X rest sh) keys acc1 = (sh', acc', hit)"
        using Cons.prems(2) Some d True X(1) by simp
      from Cons.IH [OF X(2) this] obtain Y where Y: "index_ok sh'"
        "drained cap (\<lambda>_. has_key (set keys)) (sh_names sh1) acc1 (sh_names sh') acc' hit Y"
        unfolding n1 by blast
      have X3: "drained cap (\<lambda>_. has_key {key}) (sh_names sh) acc (sh_names sh1) acc1 False X"
        using X(3) True by simp
      have "drained cap (\<lambda>_. has_key (set (key # keys))) (sh_names sh) acc (sh_names sh') acc' hit (X @ Y)"
        by (rule drained_seq [OF X3 Y(2)]) (auto simp: has_key_def)
      with Y(1) show ?thesis by blast
    next
      case False
      have "drainKeys cap sh (key # keys) acc = (cutNames key X rest sh, acc1, True)"
        using Some d X(1) False by simp
      with Cons.prems(2) have e: "sh' = cutNames key X rest sh" "acc' = acc1" "hit = True"
        by (simp_all only: prod.inject)
      have X3: "drained cap (\<lambda>_. has_key {key}) (sh_names sh) acc (sh_names sh1) acc1 True X"
        using X(3) False by simp
      have "drained cap (\<lambda>_. has_key (set (key # keys))) (sh_names sh) acc (sh_names sh1) acc1 True X"
        by (rule drained_hit_mono [OF X3]) (simp add: has_key_def)
      with X(2) show ?thesis unfolding e n1 by blast
    qed
  qed
qed

definition gshards_ok :: "shardedState \<Rightarrow> bool" where
  "gshards_ok s \<longleftrightarrow> (\<forall>i. shard_ok i (ss_shards s i))"

lemma gshards_okD: "gshards_ok s \<Longrightarrow> shard_ok i (ss_shards s i)"
  by (simp add: gshards_ok_def)

lemma gshards_ok_upd: "gshards_ok s \<Longrightarrow> shard_ok i (f (ss_shards s i)) \<Longrightarrow> gshards_ok (upd_shard s i f)"
  by (simp add: gshards_ok_def)

lemma drained_shard:
  assumes ok: "gshards_ok s" and ix: "index_ok sh'"
    and d: "drained cap (\<lambda>_. Q) (sh_names (ss_shards s i)) acc (sh_names sh') acc' hit X"
  shows "gshards_ok (upd_shard s i (\<lambda>_. sh'))"
    and "drained cap (\<lambda>n e. shardFor n = i \<and> Q e) (names_at s) acc (names_at (upd_shard s i (\<lambda>_. sh'))) acc' hit X"
proof -
  let ?m = "sh_names (ss_shards s i)"
  have m: "?m n = (if shardFor n = i then names_at s n else None)" for n
    using shards_names_at ok by (simp add: gshards_ok_def)
  have w: "wanted (\<lambda>_. Q) ?m = wanted (\<lambda>n e. shardFor n = i \<and> Q e) (names_at s)"
    by (auto simp: wanted_def m)
  have X: "distinct X" "set X \<subseteq> wanted (\<lambda>_. Q) ?m" "sh_names sh' = ?m |` (- set X)"
    using d by (simp_all add: drained_def)
  have sX: "n \<in> set X \<Longrightarrow> shardFor n = i" for n
    using X(2) w by (auto simp: wanted_def)
  have ok': "shard_ok i sh'"
    using gshards_okD [OF ok, of i] ix X(3) by (auto simp: shard_ok_def)
  then show "gshards_ok (upd_shard s i (\<lambda>_. sh'))"
    by (intro gshards_ok_upd ok)
  have na: "names_at (upd_shard s i (\<lambda>_. sh')) = names_at s |` (- set X)"
  proof
    show "names_at (upd_shard s i (\<lambda>_. sh')) n = (names_at s |` (- set X)) n" for n
      using names_at_upd [of s i "\<lambda>_. sh'" n] ok ok' sX [of n]
      by (auto simp: gshards_ok_def X(3) restrict_map_def m)
  qed
  have t: "tagged ?m X = tagged (names_at s) X"
    using sX by (simp add: tagged_def m)
  have w': "wanted (\<lambda>n e. shardFor n = i \<and> Q e) (names_at (upd_shard s i (\<lambda>_. sh'))) = wanted (\<lambda>_. Q) (sh_names sh')"
    unfolding na X(3) wanted_restrict w ..
  show "drained cap (\<lambda>n e. shardFor n = i \<and> Q e) (names_at s) acc (names_at (upd_shard s i (\<lambda>_. sh'))) acc' hit X"
    using d unfolding drained_def w' unfolding w t na by (cases hit) (simp_all add: X(3))
qed

lemma drainShards_drained:
  assumes "gshards_ok s" "drainShards cap keys is (s, acc) = (s', acc', hit)"
  shows "\<exists>X. gshards_ok s' \<and>
    drained cap (\<lambda>n e. shardFor n \<in> set is \<and> has_key (set keys) e) (names_at s) acc (names_at s') acc' hit X"
  using assms
proof (induction "is" arbitrary: s acc)
  case Nil
  then show ?case
    using drained_none [of "\<lambda>n e. shardFor n \<in> set [] \<and> has_key (set keys) e" "names_at s'" cap acc']
    by (auto simp: wanted_def)
next
  case (Cons i "is")
  obtain sh1 acc1 hit1 where d: "drainKeys cap (ss_shards s i) keys acc = (sh1, acc1, hit1)"
    by (cases "drainKeys cap (ss_shards s i) keys acc")
  let ?s = "upd_shard s i (\<lambda>_. sh1)"
  have ix: "index_ok (ss_shards s i)"
    using gshards_okD [OF Cons.prems(1)] by (simp add: shard_ok_def)
  obtain X where X: "index_ok sh1"
      "drained cap (\<lambda>_. has_key (set keys)) (sh_names (ss_shards s i)) acc (sh_names sh1) acc1 hit1 X"
    using drainKeys_drained [OF ix d] by blast
  note D = drained_shard [OF Cons.prems(1) X]
  show ?case
  proof (cases hit1)
    case True
    have "drainShards cap keys (i # is) (s, acc) = (?s, acc1, True)"
      using d True by simp
    with Cons.prems(2) have e: "s' = ?s" "acc' = acc1" "hit = True"
      by (simp_all only: prod.inject)
    have "drained cap (\<lambda>n e. shardFor n \<in> set (i # is) \<and> has_key (set keys) e) (names_at s) acc (names_at ?s) acc1 True X"
      by (rule drained_hit_mono [where Q = "\<lambda>n e. shardFor n = i \<and> has_key (set keys) e"])
        (use D(2) True in simp_all)
    with D(1) show ?thesis unfolding e by blast
  next
    case False
    then have "drainShards cap keys is (?s, acc1) = (s', acc', hit)"
      using Cons.prems(2) d by simp
    from Cons.IH [OF D(1) this] obtain Y where Y: "gshards_ok s'"
      "drained cap (\<lambda>n e. shardFor n \<in> set is \<and> has_key (set keys) e) (names_at ?s) acc1 (names_at s') acc' hit Y"
      by blast
    have D2: "drained cap (\<lambda>n e. shardFor n = i \<and> has_key (set keys) e) (names_at s) acc (names_at ?s) acc1 False X"
      using D(2) False by simp
    have "drained cap (\<lambda>n e. shardFor n \<in> set (i # is) \<and> has_key (set keys) e) (names_at s) acc (names_at s') acc' hit (X @ Y)"
      by (rule drained_seq [OF D2 Y(2)]) auto
    with Y(1) show ?thesis by blast
  qed
qed

lemma upTo_shards [simp]: "shardFor n \<in> set [0..<shardCount]"
  by (simp add: shardFor_less)

lemma dropNames_unlimited: "cap < 0 \<Longrightarrow> fst (snd (dropNames cap sh ns acc)) = []"
  by (induction cap sh ns acc rule: dropNames.induct) (auto split: prod.split option.split)

lemma drainKeys_unlimited: "cap < 0 \<Longrightarrow> \<not> snd (snd (drainKeys cap sh keys acc))"
proof (induction keys arbitrary: sh acc)
  case (Cons k keys)
  then show ?case
    using dropNames_unlimited [OF Cons.prems, of sh "the (sh_pidNames sh k)" acc]
    by (auto simp: Let_def split: option.split prod.split)
qed simp

lemma drainShards_unlimited: "cap < 0 \<Longrightarrow> \<not> snd (snd (drainShards cap keys is (s, acc)))"
proof (induction "is" arbitrary: s acc)
  case (Cons i "is")
  then show ?case
    using drainKeys_unlimited [OF Cons.prems, of "ss_shards s i" keys acc]
    by (auto simp: Let_def split: prod.split)
qed simp

lemma upd_shard_same [simp]: "upd_shard s i (\<lambda>_. ss_shards s i) = s"
  by (simp add: upd_shard_def)

lemma removePID_drains:
  "fold (removePIDShard k) is (s, acc) =
     (fst (drainShards (-1) [k] is (s, acc)), fst (snd (drainShards (-1) [k] is (s, acc))))"
proof (induction "is" arbitrary: s acc)
  case (Cons i "is")
  have "removePIDShard k i (s, acc) =
      (let (sh, acc', hit) = drainKeys (-1) (ss_shards s i) [k] acc in (upd_shard s i (\<lambda>_. sh), acc'))"
    using dropNames_unlimited [of "-1" "ss_shards s i" "the (sh_pidNames (ss_shards s i) k)" acc]
    by (auto simp: removePIDShard_def Let_def split: option.split prod.split)
  then show ?case
    using Cons.IH drainKeys_unlimited [of "-1" "ss_shards s i" "[k]" acc]
    by (cases "drainKeys (-1) (ss_shards s i) [k] acc") (simp add: Let_def)
qed simp

lemma fold_shards_fields:
  "ss_pending (fst (drainShards cap keys is (s, acc))) = ss_pending s"
  "ss_nodeIndex (fst (drainShards cap keys is (s, acc))) = ss_nodeIndex s"
  "ss_expired (fst (drainShards cap keys is (s, acc))) = ss_expired s"
  by (induction "is" arbitrary: s acc) (auto simp: Let_def split: prod.split)

section \<open>Every operation keeps the invariant\<close>

lemma names_at_fields [simp]:
  "names_at (s\<lparr>ss_pending := m\<rparr>) = names_at s" "names_at (s\<lparr>ss_nodeIndex := ix\<rparr>) = names_at s"
  "names_at (s\<lparr>ss_expired := r\<rparr>) = names_at s"
  by (auto simp: names_at_def shard_of_def)

lemma gshards_ok_fields [simp]:
  "gshards_ok (s\<lparr>ss_pending := m\<rparr>) = gshards_ok s" "gshards_ok (s\<lparr>ss_nodeIndex := ix\<rparr>) = gshards_ok s"
  "gshards_ok (s\<lparr>ss_expired := r\<rparr>) = gshards_ok s"
  by (simp_all add: gshards_ok_def)

lemma gr_inv_iff: "gr_inv s \<longleftrightarrow>
    gshards_ok s \<and> node_index_ok s \<and> pending_ok s \<and> length (ss_expired s) \<le> expiredRingCap"
  by (simp add: gr_inv_def gshards_ok_def)

lemma newShardedState_inv: "gr_inv newShardedState"
  by (simp add: gr_inv_def newShardedState_def shard_ok_def index_ok_def owned_def node_index_ok_def
      pending_ok_def names_at_def shard_of_def)

lemma gr_inv_pending:
  assumes "gr_inv s" "finite (dom m)"
    and "\<And>n p. m n = Some p \<Longrightarrow> pe_Name p = n \<and> names_at s n = None \<and> finite (pe_AckSet p)"
  shows "gr_inv (s\<lparr>ss_pending := m\<rparr>)"
  using assms by (simp add: gr_inv_iff node_index_ok_def pending_ok_def)

lemma gr_inv_dropPending: "gr_inv s \<Longrightarrow> gr_inv (dropPending s n)"
  unfolding dropPending_def
  by (rule gr_inv_pending) (auto simp: gr_inv_iff pending_ok_def split: if_splits)

lemma gr_inv_setPending:
  assumes "gr_inv s" "names_at s n = None" "pe_Name p = n" "finite (pe_AckSet p)"
  shows "gr_inv (s\<lparr>ss_pending := (ss_pending s)(n \<mapsto> p)\<rparr>)"
  using assms by (intro gr_inv_pending) (auto simp: gr_inv_iff pending_ok_def split: if_splits)

lemma ringPush_length: "length r \<le> expiredRingCap \<Longrightarrow> length (ringPush r x) \<le> expiredRingCap"
  by (simp add: ringPush_def expiredRingCap_def)

lemma gr_inv_ring: "gr_inv s \<Longrightarrow> gr_inv (s\<lparr>ss_expired := ringPush (ss_expired s) x\<rparr>)"
  by (simp add: gr_inv_iff ringPush_length node_index_ok_def pending_ok_def)

lemma names_at_put:
  assumes "gshards_ok s" "names_at s n = None"
  shows "names_at (upd_shard s (shardFor n) (putName n e)) = (names_at s)(n \<mapsto> e)"
    and "gshards_ok (upd_shard s (shardFor n) (putName n e))"
proof -
  have "n \<notin> dom (sh_names (ss_shards s (shardFor n)))"
    using assms(2) by (auto simp: names_at_def shard_of_def)
  then have p: "shard_ok (shardFor n) (putName n e (ss_shards s (shardFor n)))"
    by (intro shard_ok_put gshards_okD assms(1)) simp_all
  then show "gshards_ok (upd_shard s (shardFor n) (putName n e))"
    by (intro gshards_ok_upd assms(1))
  show "names_at (upd_shard s (shardFor n) (putName n e)) = (names_at s)(n \<mapsto> e)"
  proof
    show "names_at (upd_shard s (shardFor n) (putName n e)) k = ((names_at s)(n \<mapsto> e)) k" for k
      using names_at_upd [of s "shardFor n" "putName n e" k] assms(1) p
      by (auto simp: gshards_ok_def names_at_def shard_of_def)
  qed
qed

lemma addToNodeIndex_fields [simp]:
  "names_at (addToNodeIndex s d k) = names_at s" "gshards_ok (addToNodeIndex s d k) = gshards_ok s"
  "ss_pending (addToNodeIndex s d k) = ss_pending s" "ss_expired (addToNodeIndex s d k) = ss_expired s"
  "ss_shards (addToNodeIndex s d k) = ss_shards s"
  by (simp_all add: addToNodeIndex_def)

lemma gr_inv_put:
  assumes inv: "gr_inv s" and free: "names_at s n = None" "ss_pending s n = None"
  shows "gr_inv (addToNodeIndex (upd_shard s (shardFor n) (putName n e)) (ne_NodeID e) (PID_String (ne_PID e)))"
    (is "gr_inv ?t")
proof -
  have ok: "gshards_ok s" using inv by (simp add: gr_inv_iff)
  note na = names_at_put [OF ok free(1), of e]
  have "node_index_ok ?t"
    using inv na(1) unfolding gr_inv_iff node_index_ok_def
    by (auto simp: addToNodeIndex_def split: option.split) fastforce+
  then show ?thesis
    using inv na free by (auto simp: gr_inv_iff pending_ok_def)
qed

lemma pendingAt_Some: "pendingAt s n ep = Some e \<longleftrightarrow> ss_pending s n = Some e \<and> pe_Epoch e = ep"
  by (auto simp: pendingAt_def split: option.splits)

lemma gr_inv_pendingD:
  assumes "gr_inv s" "ss_pending s n = Some p"
  shows "pe_Name p = n" "names_at s n = None" "finite (pe_AckSet p)"
  using assms by (auto simp: gr_inv_iff pending_ok_def)

lemma gr_register_inv: "gr_inv s \<Longrightarrow> gr_inv (fst (gr_register s n p d i))"
  using gr_inv_put [of s n "\<lparr>ne_PID = p, ne_NodeID = d, ne_RequiredNodes = [], ne_AppliedAt = i, ne_Epoch = 0\<rparr>"]
  by (auto simp: gr_register_def Let_def names_at_def split: option.split)

lemma registerPending_inv: "gr_inv s \<Longrightarrow> gr_inv (fst (registerPending s n p d ep req dl c))"
  using gr_inv_setPending [of s n]
  by (simp add: registerPending_def names_at_def split: option.split)

lemma recordAck_inv:
  assumes "gr_inv s"
  shows "gr_inv (fst (recordAck s n ep a))"
proof (cases "pendingAt s n ep")
  case (Some e)
  then have p: "ss_pending s n = Some e" by (simp add: pendingAt_Some)
  show ?thesis
    using gr_inv_setPending [OF assms gr_inv_pendingD(2) [OF assms p],
        of "e\<lparr>pe_AckSet := insert a (pe_AckSet e)\<rparr>"] gr_inv_pendingD [OF assms p] Some assms
    by (simp add: recordAck_def Let_def)
qed (simp add: recordAck_def assms)

lemma dropRequired_inv:
  assumes "gr_inv s"
  shows "gr_inv (fst (dropRequired s n ep a))"
proof (cases "pendingAt s n ep")
  case (Some e)
  then have p: "ss_pending s n = Some e" by (simp add: pendingAt_Some)
  show ?thesis
    using gr_inv_setPending [OF assms gr_inv_pendingD(2) [OF assms p],
        of "e\<lparr>pe_RequiredNodes := remove1 a (pe_RequiredNodes e)\<rparr>"] gr_inv_pendingD [OF assms p] Some assms
    by (simp add: dropRequired_def Let_def)
qed (simp add: dropRequired_def assms)

lemma rejectPending_inv: "gr_inv s \<Longrightarrow> gr_inv (fst (rejectPending s n ep r why at))"
  using gr_inv_ring [OF gr_inv_dropPending] by (simp add: rejectPending_def Let_def split: option.split)

lemma expirePending_inv: "gr_inv s \<Longrightarrow> gr_inv (fst (expirePending s n ep why at))"
  using gr_inv_ring [OF gr_inv_dropPending] by (simp add: expirePending_def Let_def split: option.split)

lemma unreservePending_inv: "gr_inv s \<Longrightarrow> gr_inv (fst (unreservePending s n p))"
  by (simp add: unreservePending_def gr_inv_dropPending split: option.split)

lemma promotePending_inv:
  assumes "gr_inv s"
  shows "gr_inv (fst (promotePending s n ep i))"
proof (cases "pendingAt s n ep")
  case (Some e)
  then have "names_at s n = None"
    using assms by (auto simp: pendingAt_Some dest: gr_inv_pendingD)
  then have "names_at (dropPending s n) n = None" "ss_pending (dropPending s n) n = None"
    by (simp_all add: dropPending_def)
  from gr_inv_put [OF gr_inv_dropPending [OF assms] this, of "\<lparr>ne_PID = pe_PID e, ne_NodeID = pe_NodeID e,
      ne_RequiredNodes = pe_RequiredNodes e, ne_AppliedAt = i, ne_Epoch = pe_Epoch e\<rparr>"]
  show ?thesis using Some by (simp add: promotePending_def Let_def)
qed (use assms in \<open>simp add: promotePending_def\<close>)

lemma node_index_finite: "gr_inv s \<Longrightarrow> ss_nodeIndex s d = Some ps \<Longrightarrow> finite ps"
  by (simp add: gr_inv_iff node_index_ok_def)

lemma node_index_holds: "gr_inv s \<Longrightarrow> names_at s n = Some e \<Longrightarrow>
    \<exists>ps. ss_nodeIndex s (ne_NodeID e) = Some ps \<and> PID_String (ne_PID e) \<in> ps"
  by (simp add: gr_inv_iff node_index_ok_def)

lemma gr_inv_shrink:
  assumes inv: "gr_inv s" and ok: "gshards_ok t" and sub: "names_at t \<subseteq>\<^sub>m names_at s"
    and same: "ss_pending t = ss_pending s" "ss_expired t = ss_expired s"
    and ix: "\<And>n e. names_at t n = Some e \<Longrightarrow>
      ss_nodeIndex t (ne_NodeID e) = ss_nodeIndex s (ne_NodeID e) \<or>
      (\<exists>ps. ss_nodeIndex t (ne_NodeID e) = Some ps \<and> PID_String (ne_PID e) \<in> ps)"
    and fin: "\<And>d ps. ss_nodeIndex t d = Some ps \<Longrightarrow> finite ps"
  shows "gr_inv t"
proof -
  have le: "names_at t n = Some e \<Longrightarrow> names_at s n = Some e" for n e
    using sub by (force simp: map_le_def dom_def)
  have "node_index_ok t"
    using inv ix fin le unfolding gr_inv_iff node_index_ok_def by metis
  moreover have "pending_ok t"
    using inv same le unfolding gr_inv_iff pending_ok_def by (metis option.exhaust option.distinct(1))
  ultimately show ?thesis
    using inv ok same by (simp add: gr_inv_iff)
qed

lemma unregisterEntry_names:
  assumes inv: "gr_inv s" and e: "names_at s n = Some e"
  shows "names_at (fst (unregisterEntry s n)) = (names_at s)(n := None)"
    and "gshards_ok (fst (unregisterEntry s n))"
proof -
  let ?f = "\<lambda>sh. removePIDName (PID_String (ne_PID e)) n (sh\<lparr>sh_names := (sh_names sh)(n := None)\<rparr>)"
  have e': "sh_names (ss_shards s (shardFor n)) n = Some e"
    using e by (simp add: names_at_def shard_of_def)
  have ok: "gshards_ok s" using inv by (simp add: gr_inv_iff)
  have u: "fst (unregisterEntry s n) = upd_shard s (shardFor n) ?f"
    using e' by (simp add: unregisterEntry_def shard_of_def)
  have k: "shard_ok (shardFor n) (?f (ss_shards s (shardFor n)))"
    by (rule shard_ok_remove [OF gshards_okD [OF ok] e'])
  show "gshards_ok (fst (unregisterEntry s n))"
    unfolding u by (rule gshards_ok_upd [where f = ?f, OF ok k])
  have nm: "sh_names (?f sh) = (sh_names sh)(n := None)" for sh
    by (simp add: removePIDName_def Let_def)
  show "names_at (fst (unregisterEntry s n)) = (names_at s)(n := None)"
  proof
    show "names_at (fst (unregisterEntry s n)) j = ((names_at s)(n := None)) j" for j
      unfolding u using names_at_upd [of s "shardFor n" ?f j] ok k nm
      by (simp add: gshards_ok_def) (simp add: names_at_def shard_of_def)
  qed
qed

lemma unregisterEntry_None: "names_at s n = None \<Longrightarrow> unregisterEntry s n = (s, None)"
  by (simp add: unregisterEntry_def names_at_def)

lemma unregisterEntry_fields:
  "ss_pending (fst (unregisterEntry s n)) = ss_pending s" "ss_expired (fst (unregisterEntry s n)) = ss_expired s"
  "ss_nodeIndex (fst (unregisterEntry s n)) = ss_nodeIndex s" "snd (unregisterEntry s n) = names_at s n"
  by (simp_all add: unregisterEntry_def names_at_def split: option.split)

lemma unregisterEntry_inv:
  assumes inv: "gr_inv s"
  shows "gr_inv (fst (unregisterEntry s n))"
proof (cases "names_at s n")
  case (Some e)
  note u = unregisterEntry_names [OF inv Some]
  show ?thesis
  proof (rule gr_inv_shrink [OF inv u(2)])
    show "names_at (fst (unregisterEntry s n)) \<subseteq>\<^sub>m names_at s"
      by (simp add: u(1) map_le_def)
    show "finite ps" if "ss_nodeIndex (fst (unregisterEntry s n)) d = Some ps" for d ps
      using that inv by (auto simp: unregisterEntry_fields gr_inv_iff node_index_ok_def)
  qed (simp_all add: unregisterEntry_fields)
qed (simp add: unregisterEntry_None inv)

text \<open>
  Removing a node's names: \<open>X\<close> is what left, all owned by processes of the node; it was cut short
  exactly when a name of such a process is left.
\<close>

definition node_cap :: "int \<Rightarrow> int" where
  "node_cap limit = (if limit \<le> 0 then -1 else limit)"

lemma restrict_le: "m |` A \<subseteq>\<^sub>m m"
  by (simp add: map_le_def)

lemma drained_sub: "drained cap Q m acc m' acc' hit X \<Longrightarrow> m' \<subseteq>\<^sub>m m"
  by (auto simp: drained_def restrict_le)

lemma drained_done: "drained cap Q m acc m' acc' False X \<Longrightarrow> wanted Q m' = {}"
  unfolding drained_def if_False by (elim conjE)

lemma removeNode_drained:
  assumes inv: "gr_inv s" and it: "map_order it" and ps: "ss_nodeIndex s d = Some ps"
    and r: "removeNodeWithNames it s d limit = (s', acc, left)"
  shows "gr_inv s'" "ss_pending s' = ss_pending s" "ss_expired s' = ss_expired s"
    "ss_nodeIndex s' = (if left then ss_nodeIndex s else (ss_nodeIndex s)(d := None))"
    "\<exists>X. drained (node_cap limit) (\<lambda>_. has_key ps) (names_at s) noRemoval (names_at s') acc left X"
proof -
  let ?r = "drainShards (node_cap limit) (it ps) [0..<shardCount] (s, noRemoval)"
  have set: "set (it ps) = ps"
    using inv ps it by (intro map_order_set) (auto simp: gr_inv_iff node_index_ok_def)
  obtain t acc' hit where t: "?r = (t, acc', hit)" by (cases ?r)
  have ok: "gshards_ok s" using inv by (simp add: gr_inv_iff)
  obtain X where X: "gshards_ok t" "drained (node_cap limit)
      (\<lambda>n e. shardFor n \<in> set [0..<shardCount] \<and> has_key (set (it ps)) e) (names_at s) noRemoval (names_at t) acc' hit X"
    using drainShards_drained [OF ok t] by blast
  have D: "drained (node_cap limit) (\<lambda>_. has_key ps) (names_at s) noRemoval (names_at t) acc' hit X"
    using X(2) by (simp add: set shardFor_less)
  have f: "ss_pending t = ss_pending s" "ss_nodeIndex t = ss_nodeIndex s" "ss_expired t = ss_expired s"
    using fold_shards_fields [of "node_cap limit" "it ps" "[0..<shardCount]" s noRemoval] t by simp_all
  let ?t = "if hit then t else t\<lparr>ss_nodeIndex := (ss_nodeIndex t)(d := None)\<rparr>"
  have "removeNodeWithNames it s d limit = (?t, acc', hit)"
    using ps t set by (simp add: removeNodeWithNames_def Let_def node_cap_def)
  then have "(s', acc, left) = (?t, acc', hit)"
    using r by metis
  then have e: "s' = ?t" "acc = acc'" "left = hit"
    by blast+
  show pe: "ss_pending s' = ss_pending s" "ss_expired s' = ss_expired s"
    and ix: "ss_nodeIndex s' = (if left then ss_nodeIndex s else (ss_nodeIndex s)(d := None))"
    using f by (simp_all add: e)
  have na: "names_at s' = names_at t" by (simp add: e)
  show "\<exists>X. drained (node_cap limit) (\<lambda>_. has_key ps) (names_at s) noRemoval (names_at s') acc left X"
    using D unfolding na e(2,3) by blast
  show "gr_inv s'"
  proof (rule gr_inv_shrink [OF inv])
    show "gshards_ok s'" using X(1) by (simp add: e)
    show "names_at s' \<subseteq>\<^sub>m names_at s" unfolding na by (rule drained_sub [OF D])
    show "finite qs" if "ss_nodeIndex s' d' = Some qs" for d' qs
      using that inv unfolding ix by (auto simp: gr_inv_iff node_index_ok_def split: if_splits)
    show "ss_nodeIndex s' (ne_NodeID e) = ss_nodeIndex s (ne_NodeID e) \<or>
        (\<exists>ps. ss_nodeIndex s' (ne_NodeID e) = Some ps \<and> PID_String (ne_PID e) \<in> ps)"
      if n: "names_at s' n = Some e" for n e
    proof (cases "left \<or> ne_NodeID e \<noteq> d")
      case False
      have "names_at s n = Some e"
        using drained_sub [OF D] n unfolding na by (force simp: map_le_def dom_def)
      then have "has_key ps e"
        using inv ps False by (fastforce simp: gr_inv_iff node_index_ok_def has_key_def)
      moreover have "wanted (\<lambda>_. has_key ps) (names_at t) = {}"
        using D False \<open>left = hit\<close> by (intro drained_done) simp
      ultimately show ?thesis using n na by (auto simp: wanted_def)
    qed (auto simp: ix)
  qed (use pe in auto)
qed

lemma removePID_drained:
  assumes inv: "gr_inv s" and r: "removePIDWithNames s p = (s', acc)"
  shows "gr_inv s'" "ss_pending s' = ss_pending s" "ss_expired s' = ss_expired s"
    "\<exists>X. drained (-1) (\<lambda>_. has_key {PID_String p}) (names_at s) noRemoval (names_at s') acc False X"
proof -
  let ?k = "PID_String p"
  let ?r = "drainShards (-1) [?k] [0..<shardCount] (s, noRemoval)"
  let ?ix = "\<lambda>n. case ss_nodeIndex s n of None \<Rightarrow> None
              | Some ps \<Rightarrow> (let ps = ps - {?k} in if ps = {} then None else Some ps)"
  obtain t acc' where t: "?r = (t, acc', False)"
    using drainShards_unlimited [of "-1" "[?k]" "[0..<shardCount]" s noRemoval] by (cases ?r) auto
  have ok: "gshards_ok s" using inv by (simp add: gr_inv_iff)
  obtain X where X: "gshards_ok t" "drained (-1)
      (\<lambda>n e. shardFor n \<in> set [0..<shardCount] \<and> has_key (set [?k]) e) (names_at s) noRemoval (names_at t) acc' False X"
    using drainShards_drained [OF ok t] by blast
  have D: "drained (-1) (\<lambda>_. has_key {?k}) (names_at s) noRemoval (names_at t) acc' False X"
    using X(2) by (simp add: shardFor_less)
  have f: "ss_pending t = ss_pending s" "ss_nodeIndex t = ss_nodeIndex s" "ss_expired t = ss_expired s"
    using fold_shards_fields [of "-1" "[?k]" "[0..<shardCount]" s noRemoval] t by simp_all
  have "removePIDWithNames s p = (t\<lparr>ss_nodeIndex := ?ix\<rparr>, acc')"
    unfolding removePIDWithNames_def removePID_drains Let_def t by (simp add: f Let_def)
  then have "(s', acc) = (t\<lparr>ss_nodeIndex := ?ix\<rparr>, acc')" using r by metis
  then have e: "s' = t\<lparr>ss_nodeIndex := ?ix\<rparr>" "acc = acc'" by blast+
  show pe: "ss_pending s' = ss_pending s" "ss_expired s' = ss_expired s"
    using f by (simp_all add: e)
  have na: "names_at s' = names_at t" by (simp add: e)
  show "\<exists>X. drained (-1) (\<lambda>_. has_key {?k}) (names_at s) noRemoval (names_at s') acc False X"
    using D unfolding na e(2) by blast
  show "gr_inv s'"
  proof (rule gr_inv_shrink [OF inv])
    show "gshards_ok s'" using X(1) by (simp add: e)
    show "names_at s' \<subseteq>\<^sub>m names_at s" unfolding na by (rule drained_sub [OF D])
    show "finite qs" if "ss_nodeIndex s' d' = Some qs" for d' qs
      using that node_index_finite [OF inv, of d'] by (auto simp: e Let_def split: if_splits option.splits)
    show "ss_nodeIndex s' (ne_NodeID e) = ss_nodeIndex s (ne_NodeID e) \<or>
        (\<exists>ps. ss_nodeIndex s' (ne_NodeID e) = Some ps \<and> PID_String (ne_PID e) \<in> ps)"
      if n: "names_at s' n = Some e" for n e
    proof -
      have "names_at s n = Some e"
        using drained_sub [OF D] n unfolding na by (force simp: map_le_def dom_def)
      then obtain ps where ps: "ss_nodeIndex s (ne_NodeID e) = Some ps" "PID_String (ne_PID e) \<in> ps"
        using node_index_holds [OF inv] by blast
      have "PID_String (ne_PID e) \<noteq> ?k"
        using drained_done [OF D] n unfolding na by (auto simp: wanted_def has_key_def)
      with ps show ?thesis by (auto simp: e Let_def)
    qed
  qed (use pe in auto)
qed

section \<open>Snapshots round-trip\<close>

lemma set_shardEntries:
  assumes it: "map_order it" and fin: "finite (dom (sh_names sh))"
  shows "set (shardEntries it sh) = {(n, e). sh_names sh n = Some e}"
    and "distinct (map fst (shardEntries it sh))"
proof -
  have s: "set (it (dom (sh_names sh))) = dom (sh_names sh)" "distinct (it (dom (sh_names sh)))"
    using it fin by (simp_all add: map_order_def)
  have eq: "shardEntries it sh = map (\<lambda>n. (n, the (sh_names sh n))) (it (dom (sh_names sh)))"
    unfolding shardEntries_def List.map_filter_def using s(1)
    by (auto simp: filter_id_conv intro!: map_cong)
  show "set (shardEntries it sh) = {(n, e). sh_names sh n = Some e}"
    unfolding eq using s(1) by force
  show "distinct (map fst (shardEntries it sh))"
    unfolding eq using s(2) by (simp add: comp_def)
qed

lemma allEntries_map:
  assumes it: "map_order it" and ok: "gshards_ok s"
  shows "distinct (map fst (allEntries it s))" "map_of (allEntries it s) = names_at s"
proof -
  have m: "sh_names (ss_shards s i) n = (if shardFor n = i then names_at s n else None)" for i n
    using shards_names_at ok by (simp add: gshards_ok_def)
  have fin: "finite (dom (sh_names (ss_shards s i)))" for i
    using gshards_okD [OF ok, of i] by (simp add: shard_ok_def)
  note S = set_shardEntries [OF it fin]
  have d: "distinct (map fst (concat (map (\<lambda>i. shardEntries it (ss_shards s i)) is)))" if "distinct is" for "is"
    using that by (induction "is") (auto simp: S m split: if_splits)
  show dist: "distinct (map fst (allEntries it s))"
    unfolding allEntries_def by (rule d) simp
  have set: "set (allEntries it s) = {(n, e). names_at s n = Some e}"
    by (auto simp: allEntries_def S m shardFor_less split: if_splits)
  show "map_of (allEntries it s) = names_at s"
  proof
    show "map_of (allEntries it s) n = names_at s n" for n
    proof (cases "names_at s n")
      case None
      then show ?thesis using set by (auto simp: map_of_eq_None_iff)
    next
      case (Some e)
      then show ?thesis using dist set by (auto intro: map_of_is_SomeI)
    qed
  qed
qed

definition restored :: "snapshotEntry \<Rightarrow> nameEntry" where
  "restored e = \<lparr>ne_PID = sp_PID e, ne_NodeID = sp_NodeID e, ne_RequiredNodes = sp_RequiredNodes e,
     ne_AppliedAt = sp_AppliedAt e, ne_Epoch = sp_Epoch e\<rparr>"

lemma fold_restoreName:
  assumes "gr_inv s" "ss_pending s = Map.empty" "distinct (map sp_Name es)"
    "\<And>e. e \<in> set es \<Longrightarrow> names_at s (sp_Name e) = None"
  shows "gr_inv (fold restoreName es s) \<and>
    names_at (fold restoreName es s) = names_at s ++ map_of (map (\<lambda>e. (sp_Name e, restored e)) es) \<and>
    ss_expired (fold restoreName es s) = ss_expired s"
  using assms
proof (induction es arbitrary: s)
  case (Cons e es)
  let ?n = "sp_Name e"
  let ?s = "restoreName e s"
  have free: "names_at s ?n = None" "ss_pending s ?n = None"
    using Cons.prems by auto
  have ok: "gshards_ok s" using Cons.prems(1) by (simp add: gr_inv_iff)
  have inv: "gr_inv ?s"
    using gr_inv_put [OF Cons.prems(1) free, of "restored e"] by (simp add: restoreName_def Let_def restored_def)
  have na: "names_at ?s = (names_at s)(?n \<mapsto> restored e)"
    using names_at_put(1) [OF ok free(1), of "restored e"] by (simp add: restoreName_def Let_def restored_def)
  have pe: "ss_pending ?s = Map.empty" "ss_expired ?s = ss_expired s"
    using Cons.prems(2) by (simp_all add: restoreName_def Let_def)
  have "names_at ?s (sp_Name e') = None" if "e' \<in> set es" for e'
  proof -
    have "sp_Name e' \<noteq> ?n" using that Cons.prems(3) by (metis distinct.simps(2) image_eqI list.simps(9) set_map)
    then show ?thesis using that Cons.prems(4) by (simp add: na)
  qed
  from Cons.IH [OF inv pe(1) _ this] Cons.prems(3)
  have IH: "gr_inv (fold restoreName es ?s)"
    "names_at (fold restoreName es ?s) = names_at ?s ++ map_of (map (\<lambda>e. (sp_Name e, restored e)) es)"
    "ss_expired (fold restoreName es ?s) = ss_expired ?s" by simp_all
  have "?n \<notin> dom (map_of (map (\<lambda>e. (sp_Name e, restored e)) es))"
    using Cons.prems(3) by (simp add: dom_map_of_conv_image_fst image_image)
  then show ?case
    using IH pe(2) by (auto simp: na map_add_upd_left fun_eq_iff map_add_def split: option.split)
qed simp

lemma gr_snapshot_names:
  assumes "map_order it" "gshards_ok s"
  shows "distinct (map sp_Name (gr_snapshot it s))"
    "map_of (map (\<lambda>e. (sp_Name e, restored e)) (gr_snapshot it s)) = names_at s"
proof -
  have r: "map (\<lambda>e. (sp_Name e, restored e)) (gr_snapshot it s) = allEntries it s"
    by (auto simp: gr_snapshot_def restored_def intro: map_idI)
  show "map_of (map (\<lambda>e. (sp_Name e, restored e)) (gr_snapshot it s)) = names_at s"
    unfolding r by (rule allEntries_map [OF assms])
  have "map sp_Name (gr_snapshot it s) = map fst (allEntries it s)"
    unfolding r [symmetric] by (simp add: comp_def)
  then show "distinct (map sp_Name (gr_snapshot it s))"
    using allEntries_map(1) [OF assms] by simp
qed

lemma pendingSnapshot_restores:
  assumes it: "map_order it" and inv: "gr_inv s"
  shows "fold restorePending (pendingSnapshot it s) Map.empty = ss_pending s"
proof -
  let ?ns = "it (dom (ss_pending s))"
  let ?e = "\<lambda>n. the (ss_pending s n)"
  let ?snap = "\<lambda>e. \<lparr>ps_PID = pe_PID e, ps_Name = pe_Name e, ps_NodeID = pe_NodeID e,
        ps_RequiredNodes = pe_RequiredNodes e, ps_AckSet = it (pe_AckSet e), ps_Epoch = pe_Epoch e,
        ps_DeadlineUnixNano = pe_DeadlineUnixNano e, ps_CreatedAt = pe_CreatedAt e\<rparr>"
  have fin: "finite (dom (ss_pending s))" using inv by (simp add: gr_inv_iff pending_ok_def)
  then have ns: "set ?ns = dom (ss_pending s)" using it by (simp add: map_order_def)
  have eq: "pendingSnapshot it s = map (\<lambda>n. ?snap (?e n)) ?ns"
    unfolding pendingSnapshot_def List.map_filter_def using ns by (auto simp: filter_id_conv intro!: map_cong)
  have step: "restorePending (?snap (?e n)) m = m(n \<mapsto> ?e n)" if n: "n \<in> dom (ss_pending s)" for n m
  proof -
    obtain p where p: "ss_pending s n = Some p" using n by auto
    have "set (it (pe_AckSet p)) = pe_AckSet p"
      using it gr_inv_pendingD(3) [OF inv p] by (simp add: map_order_def)
    then show ?thesis
      using p gr_inv_pendingD(1) [OF inv p] by (cases p) (simp add: restorePending_def)
  qed
  have "fold restorePending (map (\<lambda>n. ?snap (?e n)) ns) m = (\<lambda>n. if n \<in> set ns then ss_pending s n else m n)"
    if "set ns \<subseteq> dom (ss_pending s)" for ns m
    using that
  proof (induction ns arbitrary: m)
    case (Cons n ns)
    then show ?case using step [of n] by (auto simp: fun_eq_iff)
  qed simp
  from this [of ?ns Map.empty] show ?thesis
    unfolding eq using ns by (auto simp: fun_eq_iff)
qed

end
