(* ===== verification/Global_Fsm.thy ===== *)
theory Global_Fsm
  imports Global_State
begin

text \<open>
  The replicated state machine of the global name registry,
  \<^verbatim>\<open>src/system/topology/namereg/global/fsm.go\<close> with \<^verbatim>\<open>commands.go\<close>: one function per command, each
  returning the new state, the value of \<^verbatim>\<open>Apply\<close> and the events the wired hooks receive, in order.
  Parameters: \<open>it\<close> is the order in which a Go map is ranged over, \<open>now\<close> the clock
  (\<^verbatim>\<open>time.Now().UnixNano()\<close>), \<open>resolve\<close> the conflict resolver of the FSM, \<open>decode\<close> the msgpack decoder
  of the command. Telemetry is left out: it reads the state and changes nothing.
\<close>

section \<open>Commands, results and events\<close>

definition CmdRegister :: byte where "CmdRegister = 1"
definition CmdUnregister :: byte where "CmdUnregister = 2"
definition CmdRemovePID :: byte where "CmdRemovePID = 3"
definition CmdRemoveNode :: byte where "CmdRemoveNode = 4"
definition CmdRegisterPending :: byte where "CmdRegisterPending = 5"
definition CmdRegisterAck :: byte where "CmdRegisterAck = 6"
definition CmdRegisterExpired :: byte where "CmdRegisterExpired = 7"
definition CmdRegisterUnreserve :: byte where "CmdRegisterUnreserve = 8"
definition CmdDropRequired :: byte where "CmdDropRequired = 9"
definition CmdRegisterReject :: byte where "CmdRegisterReject = 10"

lemmas cmd_types = CmdRegister_def CmdUnregister_def CmdRemovePID_def CmdRemoveNode_def CmdRegisterPending_def
  CmdRegisterAck_def CmdRegisterExpired_def CmdRegisterUnreserve_def CmdDropRequired_def CmdRegisterReject_def

record grCommand =
  gc_PID :: PID
  gc_Name :: string
  gc_NodeID :: string
  gc_AckerNode :: string
  gc_Reason :: string
  gc_RequiredNodes :: "string list"
  gc_Epoch :: u64
  gc_DeadlineUnixNano :: i64
  gc_Limit :: int
  gc_Type :: byte

record PendingEvent =
  pev_PID :: PID
  pev_Name :: string
  pev_RequiredNodes :: "string list"
  pev_Epoch :: u64
  pev_DeadlineUnixNano :: i64

record ActiveEvent =
  aev_ActivationTime :: i64
  aev_PID :: PID
  aev_Name :: string
  aev_Epoch :: u64
  aev_ActivationIdx :: u64

record ExpiredEvent =
  xev_ExpiredAt :: i64
  xev_PID :: PID
  xev_Name :: string
  xev_Reason :: string
  xev_RejectedBy :: string
  xev_MissingAcks :: "string list"
  xev_RequiredNodes :: "string list"
  xev_Epoch :: u64

record BindingEvent =
  bev_Name :: string
  bev_PID :: PID
  bev_RaftIndex :: u64
  bev_Deleted :: bool

datatype fsmEvent = onPending PendingEvent | onActive ActiveEvent | onExpired ExpiredEvent | onBinding BindingEvent

definition strongRejectReason :: string where "strongRejectReason = ''rejected''"

datatype registerErr =
    AlreadyRegisteredTo string PID
  | ErrNameAlreadyRegistered
  | ErrPendingConflict

record RegisterResult =
  rr_Err :: "registerErr option"
  rr_PID :: PID
  rr_ExistingPID :: PID
  rr_ResolvedPID :: PID
  rr_FenceToken :: u64
  rr_State :: byte

record RemoveResult =
  rv_Count :: nat
  rv_HasMore :: bool

record AckResult =
  ar_Recognized :: bool
  ar_Complete :: bool
  ar_Activated :: bool

record ExpireResult =
  xr_MissingAcks :: "string list"
  xr_Removed :: bool

record DropRequiredResult =
  dr_Dropped :: bool
  dr_Activated :: bool

record RejectResult =
  jr_RejectedBy :: string
  jr_Rejected :: bool

datatype grResult =
    ResRegister RegisterResult
  | ResUnregister bool
  | ResRemove RemoveResult
  | ResAck AckResult
  | ResExpire ExpireResult
  | ResDrop DropRequiredResult
  | ResReject RejectResult
  | ResDecodeError
  | ResUnknown byte

type_synonym applied = "shardedState \<times> grResult \<times> fsmEvent list"

definition noRegister :: RegisterResult where
  "noRegister = \<lparr>rr_Err = None, rr_PID = noPID, rr_ExistingPID = noPID, rr_ResolvedPID = noPID, rr_FenceToken = 0,
     rr_State = 0\<rparr>"

definition DefaultResolve :: "string \<Rightarrow> PID \<Rightarrow> PID \<Rightarrow> PID" where
  "DefaultResolve name existing incoming = existing"

definition emitBinding :: "string \<Rightarrow> PID \<Rightarrow> u64 \<Rightarrow> bool \<Rightarrow> fsmEvent" where
  "emitBinding name p index deleted =
     onBinding \<lparr>bev_Name = name, bev_PID = p, bev_RaftIndex = index, bev_Deleted = deleted\<rparr>"

definition nodeOf :: "grCommand \<Rightarrow> string" where
  "nodeOf cmd = (if gc_NodeID cmd = [] then p_Node (gc_PID cmd) else gc_NodeID cmd)"

definition released :: "i64 \<Rightarrow> string \<Rightarrow> PID \<Rightarrow> u64 \<Rightarrow> string \<Rightarrow> string list \<Rightarrow> fsmEvent" where
  "released now name p epoch reason required =
     onExpired \<lparr>xev_ExpiredAt = now, xev_PID = p, xev_Name = name, xev_Reason = reason, xev_RejectedBy = [],
       xev_MissingAcks = [], xev_RequiredNodes = required, xev_Epoch = epoch\<rparr>"

section \<open>The commands\<close>

definition applyRegister :: "(string \<Rightarrow> PID \<Rightarrow> PID \<Rightarrow> PID) \<Rightarrow> shardedState \<Rightarrow> grCommand \<Rightarrow> u64 \<Rightarrow> applied" where
  "applyRegister resolve s cmd index =
     (let name = gc_Name cmd; p = gc_PID cmd;
          (s1, existing, established, outcome) = gr_register s name p (nodeOf cmd) index
      in case outcome of
           registerInserted \<Rightarrow>
             (s1, ResRegister (noRegister\<lparr>rr_PID := existing, rr_FenceToken := index\<rparr>), [emitBinding name p index False])
         | registerDedupe \<Rightarrow> (s1, ResRegister (noRegister\<lparr>rr_PID := existing, rr_FenceToken := established\<rparr>), [])
         | registerConflict \<Rightarrow>
             if PID_Equal (resolve name existing p) p then
               let (s2, _) = gr_unregister s1 name; (s3, _) = gr_register s2 name p (nodeOf cmd) index
               in (s3, ResRegister (noRegister\<lparr>rr_PID := p, rr_ResolvedPID := existing, rr_FenceToken := index\<rparr>),
                   [emitBinding name p index False])
             else (s1, ResRegister (noRegister\<lparr>rr_ExistingPID := existing,
                     rr_Err := Some (AlreadyRegisteredTo name existing)\<rparr>), []))"

text \<open>The release of an active name: holders of a Strong observation first, then the binding.\<close>

definition dropActive :: "i64 \<Rightarrow> string \<Rightarrow> string \<Rightarrow> u64 \<Rightarrow> nameEntry \<Rightarrow> fsmEvent list" where
  "dropActive now reason name index removed =
     (if length (ne_RequiredNodes removed) > 0
      then [released now name (ne_PID removed) (ne_Epoch removed) reason (ne_RequiredNodes removed)] else []) @
     [emitBinding name (ne_PID removed) index True]"

definition applyUnregister :: "i64 \<Rightarrow> shardedState \<Rightarrow> grCommand \<Rightarrow> u64 \<Rightarrow> applied" where
  "applyUnregister now s cmd index =
     (case unregisterEntry s (gc_Name cmd) of
        (s, None) \<Rightarrow> (s, ResUnregister False, [])
      | (s, Some removed) \<Rightarrow> (s, ResUnregister True, dropActive now ''unregister'' (gc_Name cmd) index removed))"

fun unreserveAll :: "i64 \<Rightarrow> PID \<Rightarrow> string list \<Rightarrow> shardedState \<Rightarrow> shardedState \<times> fsmEvent list" where
  "unreserveAll now p [] s = (s, [])"
| "unreserveAll now p (n # ns) s =
     (case unreservePending s n p of
        (s, Some e, True) \<Rightarrow>
          let (s, evs) = unreserveAll now p ns s
          in (s, released now n (pe_PID e) (pe_Epoch e) ''pid_exit'' (pe_RequiredNodes e) # evs)
      | (s, _) \<Rightarrow> unreserveAll now p ns s)"

definition strongReleases :: "i64 \<Rightarrow> string \<Rightarrow> strongTerminal list \<Rightarrow> fsmEvent list" where
  "strongReleases now reason sts =
     map (\<lambda>st. released now (st_Name st) (st_PID st) (st_Epoch st) reason (st_RequiredNodes st)) sts"

definition applyRemovePID ::
  "(string set \<Rightarrow> string list) \<Rightarrow> i64 \<Rightarrow> shardedState \<Rightarrow> grCommand \<Rightarrow> u64 \<Rightarrow> applied" where
  "applyRemovePID it now s cmd index =
     (let p = gc_PID cmd;
          pendingNames = lookupPendingByPID it s p;
          (s, evs) = unreserveAll now p pendingNames s;
          (s, rm) = removePIDWithNames s p
      in (s, ResRemove \<lparr>rv_Count = length (rm_names rm) + length pendingNames, rv_HasMore = False\<rparr>,
          evs @ strongReleases now ''pid_exit'' (rm_strongs rm) @
            map (\<lambda>(n, _). emitBinding n p index True) (rm_names rm)))"

definition applyRemoveNode ::
  "(string set \<Rightarrow> string list) \<Rightarrow> i64 \<Rightarrow> shardedState \<Rightarrow> grCommand \<Rightarrow> u64 \<Rightarrow> applied" where
  "applyRemoveNode it now s cmd index =
     (let (s, rm, hasMore) = removeNodeWithNames it s (gc_NodeID cmd) (gc_Limit cmd)
      in (s, ResRemove \<lparr>rv_Count = length (rm_names rm), rv_HasMore = hasMore\<rparr>,
          strongReleases now ''node_removed'' (rm_strongs rm) @
            map (\<lambda>(n, q). emitBinding n q index True) (rm_names rm)))"

definition applyRegisterPending :: "shardedState \<Rightarrow> grCommand \<Rightarrow> u64 \<Rightarrow> applied" where
  "applyRegisterPending s cmd index =
     (let name = gc_Name cmd; p = gc_PID cmd;
          epoch = (if gc_Epoch cmd = 0 then index else gc_Epoch cmd);
          (s, existing, outcome) = registerPending s name p (nodeOf cmd) epoch (gc_RequiredNodes cmd)
             (gc_DeadlineUnixNano cmd) index
      in case outcome of
           pendingInserted \<Rightarrow>
             (s, ResRegister (noRegister\<lparr>rr_PID := p, rr_FenceToken := epoch\<rparr>),
              [onPending \<lparr>pev_PID = p, pev_Name = name, pev_RequiredNodes = gc_RequiredNodes cmd, pev_Epoch = epoch,
                 pev_DeadlineUnixNano = gc_DeadlineUnixNano cmd\<rparr>])
         | pendingDedupe \<Rightarrow> (s, ResRegister (noRegister\<lparr>rr_PID := existing, rr_FenceToken := epoch\<rparr>), [])
         | pendingConflictActive \<Rightarrow>
             (s, ResRegister (noRegister\<lparr>rr_ExistingPID := existing, rr_Err := Some ErrNameAlreadyRegistered\<rparr>), [])
         | pendingConflictPending \<Rightarrow>
             (s, ResRegister (noRegister\<lparr>rr_ExistingPID := existing, rr_Err := Some ErrPendingConflict\<rparr>), []))"

definition activated :: "i64 \<Rightarrow> grCommand \<Rightarrow> u64 \<Rightarrow> pendingEntry \<Rightarrow> fsmEvent list" where
  "activated now cmd index promoted =
     [onActive \<lparr>aev_ActivationTime = now, aev_PID = pe_PID promoted, aev_Name = gc_Name cmd,
        aev_Epoch = gc_Epoch cmd, aev_ActivationIdx = index\<rparr>,
      emitBinding (gc_Name cmd) (pe_PID promoted) index False]"

definition applyRegisterAck :: "i64 \<Rightarrow> shardedState \<Rightarrow> grCommand \<Rightarrow> u64 \<Rightarrow> applied" where
  "applyRegisterAck now s cmd index =
     (case recordAck s (gc_Name cmd) (gc_Epoch cmd) (gc_AckerNode cmd) of
        (s, None, _) \<Rightarrow> (s, ResAck \<lparr>ar_Recognized = False, ar_Complete = False, ar_Activated = False\<rparr>, [])
      | (s, Some e, fresh, complete) \<Rightarrow>
          if \<not> complete then (s, ResAck \<lparr>ar_Recognized = True, ar_Complete = False, ar_Activated = False\<rparr>, [])
          else case promotePending s (gc_Name cmd) (gc_Epoch cmd) index of
                 (s, None) \<Rightarrow> (s, ResAck \<lparr>ar_Recognized = True, ar_Complete = True, ar_Activated = False\<rparr>, [])
               | (s, Some promoted) \<Rightarrow>
                   (s, ResAck \<lparr>ar_Recognized = True, ar_Complete = True, ar_Activated = True\<rparr>,
                    activated now cmd index promoted))"

definition applyRegisterExpired :: "i64 \<Rightarrow> shardedState \<Rightarrow> grCommand \<Rightarrow> u64 \<Rightarrow> applied" where
  "applyRegisterExpired now s cmd index =
     (case expirePending s (gc_Name cmd) (gc_Epoch cmd) (gc_Reason cmd) now of
        (s, None) \<Rightarrow> (s, ResExpire \<lparr>xr_MissingAcks = [], xr_Removed = False\<rparr>, [])
      | (s, Some (e, missing)) \<Rightarrow>
          (s, ResExpire \<lparr>xr_MissingAcks = missing, xr_Removed = True\<rparr>,
           [onExpired \<lparr>xev_ExpiredAt = now, xev_PID = pe_PID e, xev_Name = gc_Name cmd, xev_Reason = gc_Reason cmd,
              xev_RejectedBy = [], xev_MissingAcks = missing, xev_RequiredNodes = pe_RequiredNodes e,
              xev_Epoch = gc_Epoch cmd\<rparr>]))"

definition applyRegisterUnreserve :: "i64 \<Rightarrow> shardedState \<Rightarrow> grCommand \<Rightarrow> u64 \<Rightarrow> applied" where
  "applyRegisterUnreserve now s cmd index =
     (case unreservePending s (gc_Name cmd) (gc_PID cmd) of
        (s, Some e, True) \<Rightarrow>
          (s, ResUnregister True,
           [released now (gc_Name cmd) (pe_PID e) (pe_Epoch e) ''unreserve'' (pe_RequiredNodes e)])
      | (s, _) \<Rightarrow>
          (case unregisterEntry s (gc_Name cmd) of
             (s, None) \<Rightarrow> (s, ResUnregister False, [])
           | (s, Some removed) \<Rightarrow> (s, ResUnregister True, dropActive now ''unreserve'' (gc_Name cmd) index removed)))"

definition applyDropRequired :: "i64 \<Rightarrow> shardedState \<Rightarrow> grCommand \<Rightarrow> u64 \<Rightarrow> applied" where
  "applyDropRequired now s cmd index =
     (case dropRequired s (gc_Name cmd) (gc_Epoch cmd) (gc_NodeID cmd) of
        (s, None, _) \<Rightarrow> (s, ResDrop \<lparr>dr_Dropped = False, dr_Activated = False\<rparr>, [])
      | (s, Some e, dropped, complete) \<Rightarrow>
          if \<not> complete then (s, ResDrop \<lparr>dr_Dropped = dropped, dr_Activated = False\<rparr>, [])
          else case promotePending s (gc_Name cmd) (gc_Epoch cmd) index of
                 (s, None) \<Rightarrow> (s, ResDrop \<lparr>dr_Dropped = dropped, dr_Activated = False\<rparr>, [])
               | (s, Some promoted) \<Rightarrow>
                   (s, ResDrop \<lparr>dr_Dropped = dropped, dr_Activated = True\<rparr>, activated now cmd index promoted))"

definition applyRegisterReject :: "i64 \<Rightarrow> shardedState \<Rightarrow> grCommand \<Rightarrow> u64 \<Rightarrow> applied" where
  "applyRegisterReject now s cmd index =
     (let reason = (if gc_Reason cmd = [] then strongRejectReason else gc_Reason cmd)
      in case rejectPending s (gc_Name cmd) (gc_Epoch cmd) (gc_AckerNode cmd) reason now of
           (s, None) \<Rightarrow> (s, ResReject \<lparr>jr_RejectedBy = [], jr_Rejected = False\<rparr>, [])
         | (s, Some e) \<Rightarrow>
             (s, ResReject \<lparr>jr_RejectedBy = gc_AckerNode cmd, jr_Rejected = True\<rparr>,
              [onExpired \<lparr>xev_ExpiredAt = now, xev_PID = pe_PID e, xev_Name = gc_Name cmd, xev_Reason = reason,
                 xev_RejectedBy = gc_AckerNode cmd,
                 xev_MissingAcks = filter (\<lambda>n. n \<notin> pe_AckSet e) (pe_RequiredNodes e),
                 xev_RequiredNodes = pe_RequiredNodes e, xev_Epoch = gc_Epoch cmd\<rparr>]))"

definition gr_Apply ::
  "(string set \<Rightarrow> string list) \<Rightarrow> i64 \<Rightarrow> (string \<Rightarrow> PID \<Rightarrow> PID \<Rightarrow> PID) \<Rightarrow> shardedState \<Rightarrow> grCommand \<Rightarrow> u64 \<Rightarrow> applied" where
  "gr_Apply it now resolve s cmd index =
     (let t = gc_Type cmd
      in if t = CmdRegister then applyRegister resolve s cmd index
         else if t = CmdUnregister then applyUnregister now s cmd index
         else if t = CmdRemovePID then applyRemovePID it now s cmd index
         else if t = CmdRemoveNode then applyRemoveNode it now s cmd index
         else if t = CmdRegisterPending then applyRegisterPending s cmd index
         else if t = CmdRegisterAck then applyRegisterAck now s cmd index
         else if t = CmdRegisterExpired then applyRegisterExpired now s cmd index
         else if t = CmdRegisterUnreserve then applyRegisterUnreserve now s cmd index
         else if t = CmdDropRequired then applyDropRequired now s cmd index
         else if t = CmdRegisterReject then applyRegisterReject now s cmd index
         else (s, ResUnknown t, []))"

text \<open>\<^verbatim>\<open>FSM.Apply\<close> on a log entry: the data is decoded first.\<close>

definition FSM_Apply ::
  "(byte list \<Rightarrow> grCommand option) \<Rightarrow> (string set \<Rightarrow> string list) \<Rightarrow> i64 \<Rightarrow> (string \<Rightarrow> PID \<Rightarrow> PID \<Rightarrow> PID) \<Rightarrow>
   shardedState \<Rightarrow> byte list \<Rightarrow> u64 \<Rightarrow> applied" where
  "FSM_Apply decode it now resolve s bytes index =
     (case decode bytes of None \<Rightarrow> (s, ResDecodeError, []) | Some cmd \<Rightarrow> gr_Apply it now resolve s cmd index)"

definition PendingLen :: "shardedState \<Rightarrow> nat" where
  "PendingLen s = card (dom (ss_pending s))"

definition ackBucket :: "int \<Rightarrow> string" where
  "ackBucket n = (if n \<le> 1 then ''1'' else if n \<le> 3 then ''2-3'' else if n \<le> 5 then ''4-5''
     else if n \<le> 9 then ''6-9'' else ''10+'')"

record fsmSnapshotPayload =
  fp_Entries :: "snapshotEntry list"
  fp_Pending :: "pendingSnapshotEntry list"

definition FSM_Snapshot :: "(string set \<Rightarrow> string list) \<Rightarrow> shardedState \<Rightarrow> fsmSnapshotPayload" where
  "FSM_Snapshot it s = \<lparr>fp_Entries = gr_snapshot it s, fp_Pending = pendingSnapshot it s\<rparr>"

definition FSM_Restore :: "shardedState \<Rightarrow> fsmSnapshotPayload option \<Rightarrow> shardedState option" where
  "FSM_Restore s payload = map_option (\<lambda>p. gr_restore s (fp_Entries p) (fp_Pending p)) payload"

section \<open>Every command keeps the invariant\<close>

lemma gr_unregister_fst: "fst (gr_unregister s n) = fst (unregisterEntry s n)"
  by (simp add: gr_unregister_def Let_def case_prod_beta)

lemma applyRegister_inv:
  assumes "gr_inv s"
  shows "gr_inv (fst (applyRegister resolve s cmd i))"
proof -
  obtain s1 q t out where r: "gr_register s (gc_Name cmd) (gc_PID cmd) (nodeOf cmd) i = (s1, q, t, out)"
    by (cases "gr_register s (gc_Name cmd) (gc_PID cmd) (nodeOf cmd) i")
  have 1: "gr_inv s1"
    using gr_register_inv [OF assms, of "gc_Name cmd" "gc_PID cmd" "nodeOf cmd" i] r by simp
  obtain s2 b where u: "gr_unregister s1 (gc_Name cmd) = (s2, b)"
    by (cases "gr_unregister s1 (gc_Name cmd)")
  have 2: "gr_inv s2"
    using unregisterEntry_inv [OF 1, of "gc_Name cmd"] u gr_unregister_fst [of s1 "gc_Name cmd"] by simp
  show ?thesis
    using 1 gr_register_inv [OF 2, of "gc_Name cmd" "gc_PID cmd" "nodeOf cmd" i]
    by (simp add: applyRegister_def Let_def r u case_prod_beta split: registerOutcome.split)
qed

lemma applyUnregister_inv: "gr_inv s \<Longrightarrow> gr_inv (fst (applyUnregister now s cmd i))"
  using unregisterEntry_inv [of s "gc_Name cmd"]
  by (simp add: applyUnregister_def case_prod_beta split: option.split)

lemma unreserveAll_inv: "gr_inv s \<Longrightarrow> gr_inv (fst (unreserveAll now p ns s))"
proof (induction ns arbitrary: s)
  case (Cons n ns)
  have "gr_inv (fst (unreservePending s n p))"
    by (rule unreservePending_inv [OF Cons.prems])
  from Cons.IH [OF this] show ?case
    by (simp add: case_prod_beta Let_def split: option.split bool.split)
qed simp

lemma applyRemovePID_inv:
  assumes "gr_inv s"
  shows "gr_inv (fst (applyRemovePID it now s cmd i))"
proof -
  have "gr_inv (fst (unreserveAll now (gc_PID cmd) (lookupPendingByPID it s (gc_PID cmd)) s))"
    by (rule unreserveAll_inv [OF assms])
  from removePID_drained(1) [OF this prod.collapse [symmetric], of "gc_PID cmd"] show ?thesis
    by (simp add: applyRemovePID_def Let_def case_prod_beta)
qed

lemma removeNode_unknown: "ss_nodeIndex s d = None \<Longrightarrow> removeNodeWithNames it s d limit = (s, noRemoval, False)"
  by (simp add: removeNodeWithNames_def)

lemma removeNodeWithNames_inv:
  assumes "gr_inv s" "map_order it"
  shows "gr_inv (fst (removeNodeWithNames it s d limit))"
proof (cases "ss_nodeIndex s d")
  case (Some ps)
  then show ?thesis
    using removeNode_drained(1) [OF assms Some] by (metis prod.collapse)
qed (simp add: removeNode_unknown assms)

lemma applyRemoveNode_inv: "gr_inv s \<Longrightarrow> map_order it \<Longrightarrow> gr_inv (fst (applyRemoveNode it now s cmd i))"
  using removeNodeWithNames_inv [of s it "gc_NodeID cmd" "gc_Limit cmd"]
  by (simp add: applyRemoveNode_def Let_def case_prod_beta)

lemma applyRegisterPending_inv: "gr_inv s \<Longrightarrow> gr_inv (fst (applyRegisterPending s cmd i))"
  using registerPending_inv [of s "gc_Name cmd"]
  by (simp add: applyRegisterPending_def Let_def case_prod_beta split: pendingOutcome.split)

lemma applyRegisterAck_inv:
  assumes "gr_inv s"
  shows "gr_inv (fst (applyRegisterAck now s cmd i))"
proof -
  have 1: "gr_inv (fst (recordAck s (gc_Name cmd) (gc_Epoch cmd) (gc_AckerNode cmd)))"
    by (rule recordAck_inv [OF assms])
  from promotePending_inv [OF this] 1 show ?thesis
    by (simp add: applyRegisterAck_def case_prod_beta split: option.split)
qed

lemma applyDropRequired_inv:
  assumes "gr_inv s"
  shows "gr_inv (fst (applyDropRequired now s cmd i))"
proof -
  have 1: "gr_inv (fst (dropRequired s (gc_Name cmd) (gc_Epoch cmd) (gc_NodeID cmd)))"
    by (rule dropRequired_inv [OF assms])
  from promotePending_inv [OF this] 1 show ?thesis
    by (simp add: applyDropRequired_def case_prod_beta split: option.split)
qed

lemma applyRegisterExpired_inv: "gr_inv s \<Longrightarrow> gr_inv (fst (applyRegisterExpired now s cmd i))"
  using expirePending_inv [of s "gc_Name cmd" "gc_Epoch cmd" "gc_Reason cmd" now]
  by (simp add: applyRegisterExpired_def case_prod_beta split: option.split)

lemma applyRegisterReject_inv: "gr_inv s \<Longrightarrow> gr_inv (fst (applyRegisterReject now s cmd i))"
  using rejectPending_inv [of s "gc_Name cmd" "gc_Epoch cmd" "gc_AckerNode cmd"]
  by (simp add: applyRegisterReject_def Let_def case_prod_beta split: option.split)

lemma applyRegisterUnreserve_inv:
  assumes "gr_inv s"
  shows "gr_inv (fst (applyRegisterUnreserve now s cmd i))"
proof -
  have 1: "gr_inv (fst (unreservePending s (gc_Name cmd) (gc_PID cmd)))"
    by (rule unreservePending_inv [OF assms])
  from unregisterEntry_inv [OF this] 1 show ?thesis
    by (simp add: applyRegisterUnreserve_def case_prod_beta split: option.split bool.split)
qed

lemmas apply_inv = applyRegister_inv applyUnregister_inv applyRemovePID_inv applyRemoveNode_inv
  applyRegisterPending_inv applyRegisterAck_inv applyRegisterExpired_inv applyRegisterUnreserve_inv
  applyDropRequired_inv applyRegisterReject_inv

lemma gr_Apply_inv: "gr_inv s \<Longrightarrow> map_order it \<Longrightarrow> gr_inv (fst (gr_Apply it now resolve s cmd i))"
  by (simp add: gr_Apply_def Let_def apply_inv)

text \<open>
  C21. The registry's invariant holds after every log entry, whatever the command, the resolver, the
  clock and the order of map iteration: each name lies in the shard it hashes to and in the reverse
  index of its owner exactly once, its owner is in the index of its node, no name is both active and
  reserved, and the ring of expired attempts has at most 64 records.
\<close>

theorem FSM_Apply_inv:
  assumes "map_order it" "gr_inv s"
  shows "gr_inv (fst (FSM_Apply decode it now resolve s bytes index))"
  using assms by (simp add: FSM_Apply_def gr_Apply_inv split: option.split)

theorem FSM_Apply_inv_witness:
  "gr_inv (fst (FSM_Apply (\<lambda>_. Some \<lparr>gc_PID = noPID, gc_Name = ''a'', gc_NodeID = ''n1'', gc_AckerNode = [], gc_Reason = [],
     gc_RequiredNodes = [''n1''], gc_Epoch = 0, gc_DeadlineUnixNano = 5, gc_Limit = 0, gc_Type = CmdRegisterPending\<rparr>)
     sorted_list_of_set 7 DefaultResolve newShardedState [0] 3))"
  using FSM_Apply_inv [OF map_order_sorted newShardedState_inv] by blast

section \<open>The binding events describe the change\<close>

text \<open>What a consumer of the binding stream keeps: the owner of each active name.\<close>

definition applyBinding :: "fsmEvent \<Rightarrow> (string \<rightharpoonup> PID) \<Rightarrow> (string \<rightharpoonup> PID)" where
  "applyBinding ev m = (case ev of
     onBinding b \<Rightarrow> m(bev_Name b := (if bev_Deleted b then None else Some (bev_PID b)))
   | _ \<Rightarrow> m)"

definition mirrors :: "shardedState \<Rightarrow> applied \<Rightarrow> bool" where
  "mirrors s r \<longleftrightarrow> gr_Lookup (fst r) = fold applyBinding (snd (snd r)) (gr_Lookup s)"

lemma gr_Lookup_names: "gr_Lookup s = (\<lambda>n. map_option ne_PID (names_at s n))"
  by (auto simp: gr_Lookup_def names_at_def)

lemma applyBinding_simps [simp]:
  "applyBinding (emitBinding n p i d) m = m(n := (if d then None else Some p))"
  "applyBinding (released now n p ep why req) m = m"
  "applyBinding (onActive a) m = m" "applyBinding (onPending b) m = m" "applyBinding (onExpired c) m = m"
  by (simp_all add: applyBinding_def emitBinding_def released_def)

lemma fold_releases [simp]: "fold applyBinding (strongReleases now why sts) m = m"
  by (induction sts) (auto simp: strongReleases_def)

lemma mirrorsI: "names_at s' = names_at s \<Longrightarrow> fold applyBinding evs (gr_Lookup s) = gr_Lookup s \<Longrightarrow> mirrors s (s', res, evs)"
  by (simp add: mirrors_def gr_Lookup_names)

lemma mirrors_put: "names_at s' = (names_at s)(n \<mapsto> e) \<Longrightarrow>
    fold applyBinding evs (gr_Lookup s) = (gr_Lookup s)(n \<mapsto> ne_PID e) \<Longrightarrow> mirrors s (s', res, evs)"
  by (auto simp: mirrors_def gr_Lookup_names)

lemma mirrors_del: "names_at s' = (names_at s)(n := None) \<Longrightarrow>
    fold applyBinding evs (gr_Lookup s) = (gr_Lookup s)(n := None) \<Longrightarrow> mirrors s (s', res, evs)"
  by (auto simp: mirrors_def gr_Lookup_names)

text \<open>What each operation does to the active names.\<close>

lemma gr_register_names:
  assumes inv: "gr_inv s" and r: "gr_register s n p d i = (s', q, t, out)"
  shows "out = registerInserted \<and> q = p \<and> names_at s n = None \<and> ss_pending s n = None \<and> ss_pending s' = ss_pending s \<and>
      names_at s' = (names_at s)(n \<mapsto> \<lparr>ne_PID = p, ne_NodeID = d, ne_RequiredNodes = [], ne_AppliedAt = i, ne_Epoch = 0\<rparr>)
    \<or> out = registerDedupe \<and> s' = s \<and> q = p
    \<or> out = registerConflict \<and> s' = s \<and> q \<noteq> p"
proof (cases "ss_pending s n")
  case None
  show ?thesis
  proof (cases "names_at s n")
    case free: None
    have ok: "gshards_ok s" using inv by (simp add: gr_inv_iff)
    show ?thesis
      using r None free names_at_put(1) [OF ok free]
      by (auto simp: gr_register_def names_at_def [symmetric] Let_def)
  qed (use r None in \<open>auto simp: gr_register_def names_at_def [symmetric] split: if_splits\<close>)
qed (use r in \<open>auto simp: gr_register_def split: if_splits\<close>)

lemma names_at_pending_ops:
  "names_at (fst (registerPending s n p d ep req dl c)) = names_at s"
  "names_at (fst (recordAck s n ep a)) = names_at s"
  "names_at (fst (dropRequired s n ep a)) = names_at s"
  "names_at (fst (rejectPending s n ep r why at)) = names_at s"
  "names_at (fst (expirePending s n ep why at)) = names_at s"
  "names_at (fst (unreservePending s n p)) = names_at s"
  by (simp_all add: registerPending_def recordAck_def dropRequired_def rejectPending_def expirePending_def
      unreservePending_def dropPending_def Let_def split: option.split)

lemma names_at_unreserveAll: "names_at (fst (unreserveAll now p ns s)) = names_at s"
proof (induction ns arbitrary: s)
  case (Cons n ns)
  then show ?case
    by (simp add: case_prod_beta Let_def names_at_pending_ops split: option.split bool.split)
qed simp

lemma unreserveAll_silent: "fold applyBinding (snd (unreserveAll now p ns s)) m = m"
proof (induction ns arbitrary: s m)
  case (Cons n ns)
  then show ?case
    by (simp add: case_prod_beta Let_def split: option.split bool.split)
qed simp

lemma promotePending_names:
  assumes inv: "gr_inv s" and e: "pendingAt s n ep = Some e"
  shows "promotePending s n ep i = (fst (promotePending s n ep i), Some e)"
    and "names_at (fst (promotePending s n ep i)) = (names_at s)(n \<mapsto> \<lparr>ne_PID = pe_PID e, ne_NodeID = pe_NodeID e,
      ne_RequiredNodes = pe_RequiredNodes e, ne_AppliedAt = i, ne_Epoch = ep\<rparr>)"
    and "ss_pending (fst (promotePending s n ep i)) = (ss_pending s)(n := None)"
proof -
  have p: "ss_pending s n = Some e" "pe_Epoch e = ep" using e by (auto simp: pendingAt_Some)
  have ok: "gshards_ok (dropPending s n)" "names_at (dropPending s n) n = None"
    using inv gr_inv_pendingD(2) [OF inv p(1)] by (simp_all add: gr_inv_iff dropPending_def)
  show "promotePending s n ep i = (fst (promotePending s n ep i), Some e)"
    using e by (simp add: promotePending_def Let_def)
  show "ss_pending (fst (promotePending s n ep i)) = (ss_pending s)(n := None)"
    using e by (simp add: promotePending_def Let_def dropPending_def)
  show "names_at (fst (promotePending s n ep i)) = (names_at s)(n \<mapsto> \<lparr>ne_PID = pe_PID e, ne_NodeID = pe_NodeID e,
      ne_RequiredNodes = pe_RequiredNodes e, ne_AppliedAt = i, ne_Epoch = ep\<rparr>)"
    using e p(2) names_at_put(1) [OF ok] by (simp add: promotePending_def Let_def dropPending_def)
qed

lemma promotePending_None: "pendingAt s n ep = None \<Longrightarrow> promotePending s n ep i = (s, None)"
  by (simp add: promotePending_def)

lemma applyRegister_mirrors:
  assumes "gr_inv s"
  shows "mirrors s (applyRegister DefaultResolve s cmd i)"
proof -
  obtain s' q t out where r: "gr_register s (gc_Name cmd) (gc_PID cmd) (nodeOf cmd) i = (s', q, t, out)"
    by (cases "gr_register s (gc_Name cmd) (gc_PID cmd) (nodeOf cmd) i")
  from gr_register_names [OF assms r] show ?thesis
    by (elim disjE conjE)
       (simp_all add: applyRegister_def Let_def r DefaultResolve_def mirrorsI mirrors_put)
qed

lemma dropActive_fold: "fold applyBinding (dropActive now why n i e) m = m(n := None)"
  by (simp add: dropActive_def)

lemma unregister_mirrors:
  assumes inv: "gr_inv t" and na: "names_at t = names_at s"
  shows "mirrors s (case unregisterEntry t n of (s, None) \<Rightarrow> (s, ResUnregister False, [])
           | (s, Some removed) \<Rightarrow> (s, ResUnregister True, dropActive now why n i removed))"
proof (cases "names_at t n")
  case None
  then show ?thesis using na by (simp add: unregisterEntry_None mirrorsI)
next
  case (Some e)
  have "unregisterEntry t n = (fst (unregisterEntry t n), Some e)"
    using unregisterEntry_fields(4) [of t n] Some by (cases "unregisterEntry t n") simp
  then show ?thesis
    using unregisterEntry_names(1) [OF inv Some] na
    by (metis (no_types, lifting) dropActive_fold mirrors_del case_prod_conv option.simps(5))
qed

lemma applyUnregister_mirrors: "gr_inv s \<Longrightarrow> mirrors s (applyUnregister now s cmd i)"
  unfolding applyUnregister_def by (rule unregister_mirrors) simp_all

lemma fold_deletes:
  "fold applyBinding (map (\<lambda>(n, q). emitBinding n (f q) i True) (tagged m X)) g = g |` (- set X)"
proof (induction X arbitrary: g)
  case Nil
  then show ?case by (simp add: tagged_def)
next
  case (Cons x X)
  have "(\<lambda>a. if a = x then None else g a) |` (- set X) = g |` (- insert x (set X))"
    by (auto simp: restrict_map_def)
  with Cons show ?case by (simp add: tagged_def)
qed

lemma drained_mirrors:
  assumes "drained cap Q (names_at s) noRemoval (names_at s') rm hit X"
  shows "gr_Lookup s' = fold applyBinding (map (\<lambda>(n, q). emitBinding n (f q) i True) (rm_names rm)) (gr_Lookup s)"
proof -
  have "rm_names rm = tagged (names_at s) X" "names_at s' = names_at s |` (- set X)"
    using assms by (simp_all add: drained_def noRemoval_def)
  then show ?thesis
    by (auto simp: fold_deletes gr_Lookup_names restrict_map_def)
qed

lemma applyRemovePID_mirrors:
  assumes inv: "gr_inv s"
  shows "mirrors s (applyRemovePID it now s cmd i)"
proof -
  let ?p = "gc_PID cmd"
  obtain s1 evs where u: "unreserveAll now ?p (lookupPendingByPID it s ?p) s = (s1, evs)"
    by (cases "unreserveAll now ?p (lookupPendingByPID it s ?p) s")
  obtain s2 rm where r: "removePIDWithNames s1 ?p = (s2, rm)"
    by (cases "removePIDWithNames s1 ?p")
  have inv1: "gr_inv s1" using unreserveAll_inv [OF inv] u by (metis fst_conv)
  have na: "names_at s1 = names_at s" using names_at_unreserveAll u by (metis fst_conv)
  obtain X where X: "drained (-1) (\<lambda>_. has_key {PID_String ?p}) (names_at s) noRemoval (names_at s2) rm False X"
    using removePID_drained(4) [OF inv1 r] unfolding na by blast
  have "fold applyBinding evs m = m" for m
    using unreserveAll_silent u by (metis snd_conv)
  then show ?thesis
    using drained_mirrors [OF X, of "\<lambda>_. ?p" i] by (simp add: applyRemovePID_def u r Let_def mirrors_def)
qed

lemma applyRemoveNode_mirrors:
  assumes inv: "gr_inv s" and it: "map_order it"
  shows "mirrors s (applyRemoveNode it now s cmd i)"
proof (cases "ss_nodeIndex s (gc_NodeID cmd)")
  case None
  then show ?thesis
    by (simp add: applyRemoveNode_def removeNode_unknown noRemoval_def mirrorsI strongReleases_def)
next
  case (Some ps)
  obtain s2 rm hit where r: "removeNodeWithNames it s (gc_NodeID cmd) (gc_Limit cmd) = (s2, rm, hit)"
    by (cases "removeNodeWithNames it s (gc_NodeID cmd) (gc_Limit cmd)")
  obtain X where X: "drained (node_cap (gc_Limit cmd)) (\<lambda>_. has_key ps) (names_at s) noRemoval (names_at s2) rm hit X"
    using removeNode_drained(5) [OF inv it Some r] by blast
  show ?thesis
    using drained_mirrors [OF X, of "\<lambda>q. q" i] by (simp add: applyRemoveNode_def r mirrors_def)
qed

lemma applyRegisterPending_mirrors: "mirrors s (applyRegisterPending s cmd i)"
  using names_at_pending_ops(1) [of s]
  by (simp add: applyRegisterPending_def Let_def case_prod_beta mirrorsI split: pendingOutcome.split)

text \<open>The two commands that may promote a reservation share their second half.\<close>

lemma promote_mirrors:
  assumes inv: "gr_inv t" and na: "names_at t = names_at s"
  shows "mirrors s (case promotePending t (gc_Name cmd) ep i of (s, None) \<Rightarrow> (s, res, [])
           | (s, Some promoted) \<Rightarrow> (s, res', activated now cmd i promoted))"
proof (cases "pendingAt t (gc_Name cmd) ep")
  case None
  then show ?thesis using na by (simp add: promotePending_None mirrorsI)
next
  case (Some e)
  note p = promotePending_names [OF inv Some, of i]
  obtain t' where "promotePending t (gc_Name cmd) ep i = (t', Some e)"
    using p(1) by blast
  then show ?thesis
    using p(2) na by (simp add: mirrors_put activated_def)
qed

lemma applyRegisterAck_mirrors:
  assumes "gr_inv s"
  shows "mirrors s (applyRegisterAck now s cmd i)"
proof -
  obtain t oe fresh complete where r: "recordAck s (gc_Name cmd) (gc_Epoch cmd) (gc_AckerNode cmd) = (t, oe, fresh, complete)"
    by (cases "recordAck s (gc_Name cmd) (gc_Epoch cmd) (gc_AckerNode cmd)")
  have na: "names_at t = names_at s" and inv: "gr_inv t"
    using names_at_pending_ops(2) recordAck_inv [OF assms] r by (metis fst_conv)+
  show ?thesis
    using promote_mirrors [OF inv na] na
    by (simp add: applyRegisterAck_def r mirrorsI split: option.split)
qed

lemma applyDropRequired_mirrors:
  assumes "gr_inv s"
  shows "mirrors s (applyDropRequired now s cmd i)"
proof -
  obtain t oe dropped complete where r: "dropRequired s (gc_Name cmd) (gc_Epoch cmd) (gc_NodeID cmd) = (t, oe, dropped, complete)"
    by (cases "dropRequired s (gc_Name cmd) (gc_Epoch cmd) (gc_NodeID cmd)")
  have na: "names_at t = names_at s" and inv: "gr_inv t"
    using names_at_pending_ops(3) dropRequired_inv [OF assms] r by (metis fst_conv)+
  show ?thesis
    using promote_mirrors [OF inv na] na
    by (simp add: applyDropRequired_def r mirrorsI split: option.split)
qed

lemma applyRegisterExpired_mirrors: "mirrors s (applyRegisterExpired now s cmd i)"
  using names_at_pending_ops(5) [of s]
  by (simp add: applyRegisterExpired_def case_prod_beta mirrorsI split: option.split)

lemma applyRegisterReject_mirrors: "mirrors s (applyRegisterReject now s cmd i)"
  using names_at_pending_ops(4) [of s]
  by (simp add: applyRegisterReject_def Let_def case_prod_beta mirrorsI split: option.split)

lemma applyRegisterUnreserve_mirrors:
  assumes inv: "gr_inv s"
  shows "mirrors s (applyRegisterUnreserve now s cmd i)"
proof -
  obtain t oe ok where r: "unreservePending s (gc_Name cmd) (gc_PID cmd) = (t, oe, ok)"
    by (cases "unreservePending s (gc_Name cmd) (gc_PID cmd)")
  have na: "names_at t = names_at s" and inv: "gr_inv t"
    using names_at_pending_ops(6) unreservePending_inv [OF inv] r by (metis fst_conv)+
  show ?thesis
    using unregister_mirrors [OF inv na] na
    by (simp add: applyRegisterUnreserve_def r mirrorsI split: option.split bool.split)
qed

lemmas apply_mirrors = applyRegister_mirrors applyUnregister_mirrors applyRemovePID_mirrors applyRemoveNode_mirrors
  applyRegisterPending_mirrors applyRegisterAck_mirrors applyRegisterExpired_mirrors applyRegisterUnreserve_mirrors
  applyDropRequired_mirrors applyRegisterReject_mirrors

lemma gr_Apply_mirrors:
  assumes "gr_inv s" "map_order it"
  shows "mirrors s (gr_Apply it now DefaultResolve s cmd i)"
  using assms by (simp add: gr_Apply_def Let_def apply_mirrors mirrorsI)

section \<open>What a command may add\<close>

text \<open>
  \<open>grows A s s'\<close>: an active name keeps its entry or goes; a new entry requires only nodes whose
  acknowledgement of its epoch was recorded in \<open>s\<close> or is \<open>A\<close>; recorded acknowledgements come from
  there too.
\<close>

definition ack_at :: "(string \<Rightarrow> u64 \<Rightarrow> string \<Rightarrow> bool) \<Rightarrow> shardedState \<Rightarrow> string \<Rightarrow> u64 \<Rightarrow> string \<Rightarrow> bool" where
  "ack_at A s n ep a \<longleftrightarrow> A n ep a \<or> (\<exists>p. ss_pending s n = Some p \<and> pe_Epoch p = ep \<and> a \<in> pe_AckSet p)"

definition grows :: "(string \<Rightarrow> u64 \<Rightarrow> string \<Rightarrow> bool) \<Rightarrow> shardedState \<Rightarrow> shardedState \<Rightarrow> bool" where
  "grows A s s' \<longleftrightarrow>
     (\<forall>n e. names_at s' n = Some e \<longrightarrow> names_at s n = Some e \<or>
        names_at s n = None \<and> (\<forall>a \<in> set (ne_RequiredNodes e). ack_at A s n (ne_Epoch e) a)) \<and>
     (\<forall>n p. ss_pending s' n = Some p \<longrightarrow> (\<forall>a \<in> pe_AckSet p. ack_at A s n (pe_Epoch p) a))"

lemma ack_at_A: "A n ep a \<Longrightarrow> ack_at A s n ep a"
  by (simp add: ack_at_def)

lemma ack_atI: "ss_pending s n = Some p \<Longrightarrow> a \<in> pe_AckSet p \<Longrightarrow> ack_at A s n (pe_Epoch p) a"
  by (auto simp: ack_at_def)

lemma grows_shrink: "names_at s' \<subseteq>\<^sub>m names_at s \<Longrightarrow> ss_pending s' \<subseteq>\<^sub>m ss_pending s \<Longrightarrow> grows A s s'"
  unfolding grows_def map_le_def by (metis ack_atI domI)

lemma grows_refl: "grows A s s"
  by (rule grows_shrink) simp_all

lemma grows_put:
  assumes "names_at s n = None" "names_at s' = (names_at s)(n \<mapsto> e)" "ss_pending s' \<subseteq>\<^sub>m ss_pending s"
    "\<And>a. a \<in> set (ne_RequiredNodes e) \<Longrightarrow> ack_at A s n (ne_Epoch e) a"
  shows "grows A s s'"
proof -
  have "\<forall>n p. ss_pending s' n = Some p \<longrightarrow> (\<forall>a \<in> pe_AckSet p. ack_at A s n (pe_Epoch p) a)"
    using assms(3) unfolding map_le_def by (metis ack_atI domI)
  then show ?thesis using assms(1,2,4) by (simp add: grows_def)
qed

lemma grows_then:
  assumes "grows A s t" "names_at t = names_at s" "grows A t u"
  shows "grows A s u"
proof -
  have "ack_at A s n ep a" if "ack_at A t n ep a" for n ep a
    using that assms(1) by (auto simp: grows_def ack_at_def [of A t] ack_at_A)
  then show ?thesis
    using assms(2,3) unfolding grows_def by metis
qed

lemma grows_stable: "grows A s s' \<Longrightarrow> names_at s n = Some e \<Longrightarrow> names_at s' n = Some e \<or> names_at s' n = None"
  unfolding grows_def by (metis not_None_eq option.inject)

lemma dropPending_le: "ss_pending (dropPending s n) \<subseteq>\<^sub>m ss_pending s"
  by (simp add: dropPending_def map_le_def)

lemma pending_shrinks:
  "ss_pending (fst (rejectPending s n ep r why at)) \<subseteq>\<^sub>m ss_pending s"
  "ss_pending (fst (expirePending s n ep why at)) \<subseteq>\<^sub>m ss_pending s"
  "ss_pending (fst (unreservePending s n p)) \<subseteq>\<^sub>m ss_pending s"
  using dropPending_le [of s n]
  by (simp_all add: rejectPending_def expirePending_def unreservePending_def Let_def split: option.split)

lemma grows_setPending:
  assumes "\<And>a. a \<in> pe_AckSet p \<Longrightarrow> ack_at A s n (pe_Epoch p) a"
  shows "grows A s (s\<lparr>ss_pending := (ss_pending s)(n \<mapsto> p)\<rparr>)"
  using assms by (auto simp: grows_def ack_atI)

lemma grows_registerPending: "grows A s (fst (registerPending s n p d ep req dl c))"
  using grows_setPending [of "\<lparr>pe_AckSet = {}, pe_PID = p, pe_Name = n, pe_NodeID = d, pe_RequiredNodes = req,
      pe_Epoch = ep, pe_DeadlineUnixNano = dl, pe_CreatedAt = c\<rparr>" A s n]
  by (simp add: registerPending_def grows_refl split: option.split)

lemma grows_recordAck:
  assumes "A n ep a"
  shows "grows A s (fst (recordAck s n ep a))"
proof (cases "pendingAt s n ep")
  case (Some e)
  then have p: "ss_pending s n = Some e" "pe_Epoch e = ep" by (simp_all add: pendingAt_Some)
  have "grows A s (s\<lparr>ss_pending := (ss_pending s)(n \<mapsto> e\<lparr>pe_AckSet := insert a (pe_AckSet e)\<rparr>)\<rparr>)"
    by (rule grows_setPending) (use p assms ack_atI [OF p(1)] in \<open>auto simp: ack_at_A\<close>)
  then show ?thesis using Some by (simp add: recordAck_def Let_def grows_refl)
qed (simp add: recordAck_def grows_refl)

lemma grows_dropRequired: "grows A s (fst (dropRequired s n ep x))"
proof (cases "pendingAt s n ep")
  case (Some e)
  then have p: "ss_pending s n = Some e" by (simp add: pendingAt_Some)
  have "grows A s (s\<lparr>ss_pending := (ss_pending s)(n \<mapsto> e\<lparr>pe_RequiredNodes := remove1 x (pe_RequiredNodes e)\<rparr>)\<rparr>)"
    by (rule grows_setPending) (use ack_atI [OF p] in auto)
  then show ?thesis using Some by (simp add: dropRequired_def Let_def grows_refl)
qed (simp add: dropRequired_def grows_refl)

text \<open>A promotion of a complete reservation adds an entry whose required nodes have all acknowledged.\<close>

lemma grows_promote:
  assumes inv: "gr_inv s" and e: "pendingAt s n ep = Some e" and c: "ackComplete e"
  shows "grows A s (fst (promotePending s n ep i))"
proof (rule grows_put [OF _ promotePending_names(2) [OF inv e]])
  have p: "ss_pending s n = Some e" "pe_Epoch e = ep" using e by (simp_all add: pendingAt_Some)
  show "names_at s n = None" by (rule gr_inv_pendingD(2) [OF inv p(1)])
  show "ss_pending (fst (promotePending s n ep i)) \<subseteq>\<^sub>m ss_pending s"
    by (simp add: promotePending_names(3) [OF inv e] map_le_def)
  show "ack_at A s n (ne_Epoch \<lparr>ne_PID = pe_PID e, ne_NodeID = pe_NodeID e, ne_RequiredNodes = pe_RequiredNodes e,
        ne_AppliedAt = i, ne_Epoch = ep\<rparr>) a"
    if "a \<in> set (ne_RequiredNodes \<lparr>ne_PID = pe_PID e, ne_NodeID = pe_NodeID e, ne_RequiredNodes = pe_RequiredNodes e,
        ne_AppliedAt = i, ne_Epoch = ep\<rparr>)" for a
    using that c p by (auto simp: ackComplete_def list_all_iff ack_at_def)
qed

lemma recordAck_pending:
  assumes "recordAck s n ep a = (t, Some e, fresh, complete)"
  shows "pendingAt t n ep = Some e" "complete = ackComplete e"
  using assms by (auto simp: recordAck_def Let_def pendingAt_def split: option.splits if_splits)

lemma dropRequired_pending:
  assumes "dropRequired s n ep a = (t, Some e, dropped, complete)"
  shows "pendingAt t n ep = Some e" "complete = ackComplete e"
  using assms by (auto simp: dropRequired_def Let_def pendingAt_def split: option.splits if_splits)

lemma grows_promoted:
  assumes inv: "gr_inv t" and st: "grows A s t" "names_at t = names_at s" and e: "pendingAt t n ep = Some e"
  shows "ackComplete e \<Longrightarrow> grows A s (fst (promotePending t n ep i))"
  by (rule grows_then [OF st grows_promote [OF inv e]])

definition acks :: "grCommand \<Rightarrow> string \<Rightarrow> u64 \<Rightarrow> string \<Rightarrow> bool" where
  "acks cmd n ep a \<longleftrightarrow> gc_Type cmd = CmdRegisterAck \<and> gc_Name cmd = n \<and> gc_Epoch cmd = ep \<and> gc_AckerNode cmd = a"

lemma applyRegister_grows:
  assumes "gr_inv s"
  shows "grows A s (fst (applyRegister DefaultResolve s cmd i))"
proof -
  obtain s' q t out where r: "gr_register s (gc_Name cmd) (gc_PID cmd) (nodeOf cmd) i = (s', q, t, out)"
    by (cases "gr_register s (gc_Name cmd) (gc_PID cmd) (nodeOf cmd) i")
  from gr_register_names [OF assms r] show ?thesis
  proof (elim disjE conjE)
    assume h: "out = registerInserted" "names_at s (gc_Name cmd) = None" "ss_pending s' = ss_pending s"
      "names_at s' = (names_at s)(gc_Name cmd \<mapsto> \<lparr>ne_PID = gc_PID cmd, ne_NodeID = nodeOf cmd, ne_RequiredNodes = [],
         ne_AppliedAt = i, ne_Epoch = 0\<rparr>)"
    have "grows A s s'" by (rule grows_put [OF h(2,4)]) (simp_all add: h(3))
    then show ?thesis using h(1) by (simp add: applyRegister_def r)
  qed (simp_all add: applyRegister_def Let_def r DefaultResolve_def grows_refl)
qed

lemma unregisterEntry_le: "gr_inv s \<Longrightarrow> names_at (fst (unregisterEntry s n)) \<subseteq>\<^sub>m names_at s"
  by (cases "names_at s n") (simp_all add: unregisterEntry_None unregisterEntry_names(1) map_le_def)

lemma applyUnregister_grows: "gr_inv s \<Longrightarrow> grows A s (fst (applyUnregister now s cmd i))"
  using grows_shrink [OF unregisterEntry_le, of s "gc_Name cmd" A]
  by (simp add: applyUnregister_def unregisterEntry_fields case_prod_beta split: option.split)

lemma unreserveAll_le: "ss_pending (fst (unreserveAll now p ns s)) \<subseteq>\<^sub>m ss_pending s"
proof (induction ns arbitrary: s)
  case (Cons n ns)
  from map_le_trans [OF Cons pending_shrinks(3)] show ?case
    by (simp add: case_prod_beta Let_def split: option.split bool.split)
qed simp

lemma applyRemovePID_grows:
  assumes inv: "gr_inv s"
  shows "grows A s (fst (applyRemovePID it now s cmd i))"
proof -
  let ?p = "gc_PID cmd"
  let ?u = "unreserveAll now ?p (lookupPendingByPID it s ?p) s"
  obtain s2 rm where r: "removePIDWithNames (fst ?u) ?p = (s2, rm)"
    by (cases "removePIDWithNames (fst ?u) ?p")
  note R = removePID_drained [OF unreserveAll_inv [OF inv] r]
  obtain X where X: "drained (-1) (\<lambda>_. has_key {PID_String ?p}) (names_at s) noRemoval (names_at s2) rm False X"
    using R(4) unfolding names_at_unreserveAll by blast
  have "grows A s s2"
    by (rule grows_shrink [OF drained_sub [OF X]]) (simp add: R(2) unreserveAll_le)
  then show ?thesis using r by (simp add: applyRemovePID_def Let_def case_prod_beta)
qed

lemma applyRemoveNode_grows:
  assumes inv: "gr_inv s" and it: "map_order it"
  shows "grows A s (fst (applyRemoveNode it now s cmd i))"
proof (cases "ss_nodeIndex s (gc_NodeID cmd)")
  case (Some ps)
  obtain s2 rm hit where r: "removeNodeWithNames it s (gc_NodeID cmd) (gc_Limit cmd) = (s2, rm, hit)"
    by (cases "removeNodeWithNames it s (gc_NodeID cmd) (gc_Limit cmd)")
  note R = removeNode_drained [OF inv it Some r]
  obtain X where X: "drained (node_cap (gc_Limit cmd)) (\<lambda>_. has_key ps) (names_at s) noRemoval (names_at s2) rm hit X"
    using R(5) by blast
  have "grows A s s2"
    by (rule grows_shrink [OF drained_sub [OF X]]) (simp add: R(2))
  then show ?thesis using r by (simp add: applyRemoveNode_def)
qed (simp add: applyRemoveNode_def removeNode_unknown grows_refl)

lemma applyRegisterPending_grows: "grows A s (fst (applyRegisterPending s cmd i))"
  using grows_registerPending [of A s "gc_Name cmd"]
  by (simp add: applyRegisterPending_def Let_def case_prod_beta split: pendingOutcome.split)

lemma applyRegisterAck_grows:
  assumes inv: "gr_inv s" and A: "A (gc_Name cmd) (gc_Epoch cmd) (gc_AckerNode cmd)"
  shows "grows A s (fst (applyRegisterAck now s cmd i))"
proof -
  obtain t oe fresh complete where r: "recordAck s (gc_Name cmd) (gc_Epoch cmd) (gc_AckerNode cmd) = (t, oe, fresh, complete)"
    by (cases "recordAck s (gc_Name cmd) (gc_Epoch cmd) (gc_AckerNode cmd)")
  have st: "names_at t = names_at s" "gr_inv t" "grows A s t"
    using names_at_pending_ops(2) recordAck_inv [OF inv] grows_recordAck [of A, OF A, of s] r by (metis fst_conv)+
  show ?thesis
  proof (cases oe)
    case (Some e)
    note p = recordAck_pending [OF r [unfolded Some]]
    show ?thesis
      using grows_promoted [OF st(2,3,1) p(1), of i] p(2) Some st(3)
      by (simp add: applyRegisterAck_def r case_prod_beta split: option.split)
  qed (simp add: applyRegisterAck_def r st)
qed

lemma applyDropRequired_grows:
  assumes inv: "gr_inv s"
  shows "grows A s (fst (applyDropRequired now s cmd i))"
proof -
  obtain t oe dropped complete where r: "dropRequired s (gc_Name cmd) (gc_Epoch cmd) (gc_NodeID cmd) = (t, oe, dropped, complete)"
    by (cases "dropRequired s (gc_Name cmd) (gc_Epoch cmd) (gc_NodeID cmd)")
  have st: "names_at t = names_at s" "gr_inv t" "grows A s t"
    using names_at_pending_ops(3) dropRequired_inv [OF inv] grows_dropRequired [of A s] r by (metis fst_conv)+
  show ?thesis
  proof (cases oe)
    case (Some e)
    note p = dropRequired_pending [OF r [unfolded Some]]
    show ?thesis
      using grows_promoted [OF st(2,3,1) p(1), of i] p(2) Some st(3)
      by (simp add: applyDropRequired_def r case_prod_beta split: option.split)
  qed (simp add: applyDropRequired_def r st)
qed

lemma applyRegisterExpired_grows: "grows A s (fst (applyRegisterExpired now s cmd i))"
  using grows_shrink [of "fst (expirePending s (gc_Name cmd) (gc_Epoch cmd) (gc_Reason cmd) now)" s A]
  by (simp add: applyRegisterExpired_def names_at_pending_ops pending_shrinks case_prod_beta split: option.split)

lemma applyRegisterReject_grows: "grows A s (fst (applyRegisterReject now s cmd i))"
  by (simp add: applyRegisterReject_def Let_def case_prod_beta grows_shrink names_at_pending_ops pending_shrinks
      split: option.split)

lemma applyRegisterUnreserve_grows:
  assumes inv: "gr_inv s"
  shows "grows A s (fst (applyRegisterUnreserve now s cmd i))"
proof -
  let ?t = "fst (unreservePending s (gc_Name cmd) (gc_PID cmd))"
  have t: "grows A s ?t" "gr_inv ?t"
    by (simp_all add: grows_shrink names_at_pending_ops pending_shrinks unreservePending_inv inv)
  have "grows A s (fst (unregisterEntry ?t (gc_Name cmd)))"
    using unregisterEntry_le [OF t(2), of "gc_Name cmd"]
    by (intro grows_shrink) (simp_all add: names_at_pending_ops unregisterEntry_fields pending_shrinks)
  with t(1) show ?thesis
    by (simp add: applyRegisterUnreserve_def case_prod_beta split: option.split bool.split)
qed

lemmas apply_grows = applyRegister_grows applyUnregister_grows applyRemovePID_grows applyRemoveNode_grows
  applyRegisterPending_grows applyRegisterAck_grows applyRegisterExpired_grows applyRegisterUnreserve_grows
  applyDropRequired_grows applyRegisterReject_grows

lemma gr_Apply_grows:
  assumes "gr_inv s" "map_order it"
  shows "grows (acks cmd) s (fst (gr_Apply it now DefaultResolve s cmd i))"
  using assms by (simp add: gr_Apply_def Let_def apply_grows grows_refl acks_def)

text \<open>
  What a command does to the table of active names as a whole: only the name it carries can be new, the
  commands of the Strong protocol other than its release keep every entry, and a registration replaces
  an entry only when the resolver prefers the newcomer.
\<close>

definition adds_at :: "string \<Rightarrow> shardedState \<Rightarrow> shardedState \<Rightarrow> bool" where
  "adds_at n s s' \<longleftrightarrow> dom (names_at s') \<subseteq> insert n (dom (names_at s))"

lemma adds_shrink: "names_at s' \<subseteq>\<^sub>m names_at s \<Longrightarrow> adds_at n s s'"
  unfolding adds_at_def by (metis map_le_implies_dom_le subset_insertI2)

lemma adds_eq: "names_at s' = names_at s \<Longrightarrow> adds_at n s s'"
  by (simp add: adds_shrink)

lemma promoted_names:
  assumes inv: "gr_inv t" and t: "names_at t = names_at s" and e: "pendingAt t n ep = Some e"
  shows "names_at s \<subseteq>\<^sub>m names_at (fst (promotePending t n ep i))" "adds_at n s (fst (promotePending t n ep i))"
proof -
  have "ss_pending t n = Some e" using e by (simp add: pendingAt_Some)
  then have "names_at s n = None" using gr_inv_pendingD(2) [OF inv] t by simp
  then show "names_at s \<subseteq>\<^sub>m names_at (fst (promotePending t n ep i))"
    using promotePending_names(2) [OF inv e] t by (simp add: map_le_def dom_def)
  show "adds_at n s (fst (promotePending t n ep i))"
    using promotePending_names(2) [OF inv e] t by (auto simp: adds_at_def)
qed

lemma applyRegisterAck_names:
  assumes inv: "gr_inv s"
  shows "names_at s \<subseteq>\<^sub>m names_at (fst (applyRegisterAck now s cmd i))"
    "adds_at (gc_Name cmd) s (fst (applyRegisterAck now s cmd i))"
proof -
  obtain t oe fresh complete where r: "recordAck s (gc_Name cmd) (gc_Epoch cmd) (gc_AckerNode cmd) = (t, oe, fresh, complete)"
    by (cases "recordAck s (gc_Name cmd) (gc_Epoch cmd) (gc_AckerNode cmd)")
  have st: "names_at t = names_at s" "gr_inv t"
    using names_at_pending_ops(2) recordAck_inv [OF inv] r by (metis fst_conv)+
  have "names_at s \<subseteq>\<^sub>m names_at (fst (applyRegisterAck now s cmd i)) \<and> adds_at (gc_Name cmd) s (fst (applyRegisterAck now s cmd i))"
  proof (cases oe)
    case (Some e)
    note p = recordAck_pending [OF r [unfolded Some]]
    show ?thesis
      using promoted_names [OF st(2,1) p(1), of i] st Some
      by (simp add: applyRegisterAck_def r adds_eq case_prod_beta split: option.split)
  qed (simp add: applyRegisterAck_def r st adds_eq)
  then show "names_at s \<subseteq>\<^sub>m names_at (fst (applyRegisterAck now s cmd i))"
    "adds_at (gc_Name cmd) s (fst (applyRegisterAck now s cmd i))"
    by simp_all
qed

lemma applyDropRequired_names:
  assumes inv: "gr_inv s"
  shows "names_at s \<subseteq>\<^sub>m names_at (fst (applyDropRequired now s cmd i))"
    "adds_at (gc_Name cmd) s (fst (applyDropRequired now s cmd i))"
proof -
  obtain t oe dropped complete where r: "dropRequired s (gc_Name cmd) (gc_Epoch cmd) (gc_NodeID cmd) = (t, oe, dropped, complete)"
    by (cases "dropRequired s (gc_Name cmd) (gc_Epoch cmd) (gc_NodeID cmd)")
  have st: "names_at t = names_at s" "gr_inv t"
    using names_at_pending_ops(3) dropRequired_inv [OF inv] r by (metis fst_conv)+
  have "names_at s \<subseteq>\<^sub>m names_at (fst (applyDropRequired now s cmd i)) \<and> adds_at (gc_Name cmd) s (fst (applyDropRequired now s cmd i))"
  proof (cases oe)
    case (Some e)
    note p = dropRequired_pending [OF r [unfolded Some]]
    show ?thesis
      using promoted_names [OF st(2,1) p(1), of i] st Some
      by (simp add: applyDropRequired_def r adds_eq case_prod_beta split: option.split)
  qed (simp add: applyDropRequired_def r st adds_eq)
  then show "names_at s \<subseteq>\<^sub>m names_at (fst (applyDropRequired now s cmd i))"
    "adds_at (gc_Name cmd) s (fst (applyDropRequired now s cmd i))"
    by simp_all
qed

lemma strong_names_eq:
  "names_at (fst (applyRegisterPending s cmd i)) = names_at s"
  "names_at (fst (applyRegisterExpired now s cmd i)) = names_at s"
  "names_at (fst (applyRegisterReject now s cmd i)) = names_at s"
  by (simp_all add: applyRegisterPending_def applyRegisterExpired_def applyRegisterReject_def Let_def case_prod_beta
      names_at_pending_ops split: pendingOutcome.split option.split)

text \<open>The owner \<open>p\<close> of \<open>n\<close> gives way to the process of a registration that the resolver prefers.\<close>

definition takes_over :: "(string \<Rightarrow> PID \<Rightarrow> PID \<Rightarrow> PID) \<Rightarrow> grCommand \<Rightarrow> string \<Rightarrow> PID \<Rightarrow> bool" where
  "takes_over resolve cmd n p \<longleftrightarrow>
     gc_Type cmd = CmdRegister \<and> gc_Name cmd = n \<and> gc_PID cmd \<noteq> p \<and> resolve n p (gc_PID cmd) = gc_PID cmd"

lemma applyRegister_moves:
  assumes inv: "gr_inv s" and e: "names_at s (gc_Name cmd) = Some e" and other: "ne_PID e \<noteq> gc_PID cmd"
    and win: "resolve (gc_Name cmd) (ne_PID e) (gc_PID cmd) = gc_PID cmd"
  shows "names_at (fst (applyRegister resolve s cmd i)) = (names_at s)(gc_Name cmd \<mapsto>
    \<lparr>ne_PID = gc_PID cmd, ne_NodeID = nodeOf cmd, ne_RequiredNodes = [], ne_AppliedAt = i, ne_Epoch = 0\<rparr>)"
proof -
  let ?n = "gc_Name cmd" and ?p = "gc_PID cmd"
  let ?s2 = "fst (unregisterEntry s ?n)"
  have p: "ss_pending s ?n = None"
  proof (cases "ss_pending s ?n")
    case (Some x)
    then show ?thesis using gr_inv_pendingD(2) [OF inv Some] e by simp
  qed
  have i2: "gr_inv ?s2" by (rule unregisterEntry_inv [OF inv])
  have n2: "names_at ?s2 = (names_at s)(?n := None)" by (rule unregisterEntry_names(1) [OF inv e])
  have p2: "ss_pending ?s2 ?n = None" using p by (simp add: unregisterEntry_fields)
  obtain s3 q t out where r: "gr_register ?s2 ?n ?p (nodeOf cmd) i = (s3, q, t, out)"
    by (cases "gr_register ?s2 ?n ?p (nodeOf cmd) i")
  have o: "out = registerInserted"
    using r p2 n2 by (simp add: gr_register_def names_at_def [symmetric] Let_def)
  have "names_at s3 = (names_at ?s2)(?n \<mapsto>
      \<lparr>ne_PID = ?p, ne_NodeID = nodeOf cmd, ne_RequiredNodes = [], ne_AppliedAt = i, ne_Epoch = 0\<rparr>)"
    using gr_register_names [OF i2 r] o by auto
  moreover have "fst (applyRegister resolve s cmd i) = s3"
    using p e other win r
    by (simp add: applyRegister_def Let_def gr_register_def [of s] names_at_def [symmetric] case_prod_beta gr_unregister_fst)
  ultimately show ?thesis by (simp add: n2)
qed

lemma applyRegister_keeps:
  assumes inv: "gr_inv s" and no: "\<And>e. names_at s (gc_Name cmd) = Some e \<Longrightarrow> ne_PID e \<noteq> gc_PID cmd \<Longrightarrow>
      resolve (gc_Name cmd) (ne_PID e) (gc_PID cmd) \<noteq> gc_PID cmd"
  shows "names_at s \<subseteq>\<^sub>m names_at (fst (applyRegister resolve s cmd i))"
    "adds_at (gc_Name cmd) s (fst (applyRegister resolve s cmd i))"
proof -
  let ?n = "gc_Name cmd" and ?p = "gc_PID cmd"
  obtain s' q t out where r: "gr_register s ?n ?p (nodeOf cmd) i = (s', q, t, out)"
    by (cases "gr_register s ?n ?p (nodeOf cmd) i")
  have "names_at s \<subseteq>\<^sub>m names_at (fst (applyRegister resolve s cmd i)) \<and> adds_at ?n s (fst (applyRegister resolve s cmd i))"
  proof (cases "names_at s ?n")
    case None
    show ?thesis
    proof (cases "ss_pending s ?n")
      case pe: None
      have "out = registerInserted"
        using r None pe by (simp add: gr_register_def names_at_def [symmetric] Let_def)
      with gr_register_names [OF inv r] None show ?thesis
        by (auto simp: applyRegister_def Let_def r map_le_def adds_at_def dom_def)
    next
      case (Some x)
      then show ?thesis using None
        by (simp add: applyRegister_def Let_def gr_register_def gr_unregister_def unregisterEntry_None adds_eq)
    qed
  next
    case (Some e)
    have p: "ss_pending s ?n = None"
    proof (cases "ss_pending s ?n")
      case pe: (Some x)
      then show ?thesis using gr_inv_pendingD(2) [OF inv pe] Some by simp
    qed
    show ?thesis
      using p Some no [OF Some]
      by (simp add: applyRegister_def Let_def gr_register_def names_at_def [symmetric] adds_eq)
  qed
  then show "names_at s \<subseteq>\<^sub>m names_at (fst (applyRegister resolve s cmd i))"
    "adds_at ?n s (fst (applyRegister resolve s cmd i))"
    by simp_all
qed

lemma applyRegister_adds:
  assumes inv: "gr_inv s"
  shows "adds_at (gc_Name cmd) s (fst (applyRegister resolve s cmd i))"
proof (cases "\<exists>e. names_at s (gc_Name cmd) = Some e \<and> ne_PID e \<noteq> gc_PID cmd \<and>
    resolve (gc_Name cmd) (ne_PID e) (gc_PID cmd) = gc_PID cmd")
  case True
  then obtain e where e: "names_at s (gc_Name cmd) = Some e" "ne_PID e \<noteq> gc_PID cmd"
    "resolve (gc_Name cmd) (ne_PID e) (gc_PID cmd) = gc_PID cmd" by blast
  show ?thesis
    unfolding adds_at_def applyRegister_moves [where resolve = resolve, OF inv e] by simp
next
  case False
  show ?thesis by (rule applyRegister_keeps(2) [OF inv]) (use False in blast)
qed

lemma map_le_Some: "m \<subseteq>\<^sub>m m' \<Longrightarrow> m n = Some e \<Longrightarrow> m' n = Some e"
  unfolding map_le_def by (metis domI)

lemma applyRegister_active:
  assumes inv: "gr_inv s" and e: "names_at s n = Some e" and no: "gc_Type cmd = CmdRegister" "\<not> takes_over resolve cmd n (ne_PID e)"
  shows "names_at (fst (applyRegister resolve s cmd i)) n = Some e"
proof (cases "\<exists>d. names_at s (gc_Name cmd) = Some d \<and> ne_PID d \<noteq> gc_PID cmd \<and>
    resolve (gc_Name cmd) (ne_PID d) (gc_PID cmd) = gc_PID cmd")
  case True
  then obtain d where d: "names_at s (gc_Name cmd) = Some d" "ne_PID d \<noteq> gc_PID cmd"
    "resolve (gc_Name cmd) (ne_PID d) (gc_PID cmd) = gc_PID cmd" by blast
  then have "n \<noteq> gc_Name cmd" using e no by (auto simp: takes_over_def)
  then show ?thesis
    unfolding applyRegister_moves [where resolve = resolve, OF inv d] using e by simp
next
  case False
  have "names_at s \<subseteq>\<^sub>m names_at (fst (applyRegister resolve s cmd i))"
    by (rule applyRegister_keeps(1) [OF inv]) (use False in blast)
  from map_le_Some [OF this e] show ?thesis .
qed

lemma applyUnregister_le: "gr_inv s \<Longrightarrow> names_at (fst (applyUnregister now s cmd i)) \<subseteq>\<^sub>m names_at s"
  using unregisterEntry_le [of s "gc_Name cmd"]
  by (simp add: applyUnregister_def case_prod_beta split: option.split)

lemma applyRemovePID_le:
  assumes inv: "gr_inv s"
  shows "names_at (fst (applyRemovePID it now s cmd i)) \<subseteq>\<^sub>m names_at s"
proof -
  let ?p = "gc_PID cmd"
  let ?u = "unreserveAll now ?p (lookupPendingByPID it s ?p) s"
  obtain s2 rm where r: "removePIDWithNames (fst ?u) ?p = (s2, rm)"
    by (cases "removePIDWithNames (fst ?u) ?p")
  obtain X where "drained (-1) (\<lambda>_. has_key {PID_String ?p}) (names_at s) noRemoval (names_at s2) rm False X"
    using removePID_drained(4) [OF unreserveAll_inv [OF inv] r] unfolding names_at_unreserveAll by blast
  from drained_sub [OF this] show ?thesis using r by (simp add: applyRemovePID_def Let_def case_prod_beta)
qed

lemma applyRemoveNode_le:
  assumes inv: "gr_inv s" and it: "map_order it"
  shows "names_at (fst (applyRemoveNode it now s cmd i)) \<subseteq>\<^sub>m names_at s"
proof (cases "ss_nodeIndex s (gc_NodeID cmd)")
  case (Some ps)
  obtain s2 rm hit where r: "removeNodeWithNames it s (gc_NodeID cmd) (gc_Limit cmd) = (s2, rm, hit)"
    by (cases "removeNodeWithNames it s (gc_NodeID cmd) (gc_Limit cmd)")
  obtain X where "drained (node_cap (gc_Limit cmd)) (\<lambda>_. has_key ps) (names_at s) noRemoval (names_at s2) rm hit X"
    using removeNode_drained(5) [OF inv it Some r] by blast
  from drained_sub [OF this] show ?thesis using r by (simp add: applyRemoveNode_def)
qed (simp add: applyRemoveNode_def removeNode_unknown)

lemma applyRegisterUnreserve_le:
  assumes inv: "gr_inv s"
  shows "names_at (fst (applyRegisterUnreserve now s cmd i)) \<subseteq>\<^sub>m names_at s"
  using unregisterEntry_le [OF unreservePending_inv [OF inv], of "gc_Name cmd" "gc_PID cmd" "gc_Name cmd"]
  by (simp add: applyRegisterUnreserve_def names_at_pending_ops case_prod_beta split: option.split bool.split)

lemmas removal_names_le = applyUnregister_le applyRemovePID_le applyRemoveNode_le applyRegisterUnreserve_le

lemma gr_Apply_adds:
  assumes "gr_inv s" "map_order it"
  shows "adds_at (gc_Name cmd) s (fst (gr_Apply it now resolve s cmd i))"
  using assms
  by (simp add: gr_Apply_def Let_def applyRegister_adds applyRegisterAck_names applyDropRequired_names strong_names_eq
      adds_eq removal_names_le adds_shrink)

definition removal_types :: "byte set" where
  "removal_types = {CmdUnregister, CmdRemovePID, CmdRemoveNode, CmdRegisterUnreserve}"

lemma gr_Apply_removal:
  assumes "gr_inv s" "map_order it" "gc_Type cmd \<in> removal_types"
  shows "names_at (fst (gr_Apply it now resolve s cmd i)) \<subseteq>\<^sub>m names_at s"
  using assms by (auto simp: removal_types_def gr_Apply_def cmd_types removal_names_le)

lemma gr_Apply_keeps:
  assumes "gr_inv s" "map_order it" "gc_Type cmd \<notin> insert CmdRegister removal_types"
  shows "names_at s \<subseteq>\<^sub>m names_at (fst (gr_Apply it now resolve s cmd i))"
  using assms
  by (simp add: removal_types_def gr_Apply_def Let_def applyRegisterAck_names applyDropRequired_names strong_names_eq)

section \<open>Runs of the log\<close>

fun gr_run ::
  "(string set \<Rightarrow> string list) \<Rightarrow> (string \<Rightarrow> PID \<Rightarrow> PID \<Rightarrow> PID) \<Rightarrow> shardedState \<Rightarrow> (i64 \<times> u64 \<times> grCommand) list \<Rightarrow>
   shardedState \<times> fsmEvent list" where
  "gr_run it resolve s [] = (s, [])"
| "gr_run it resolve s ((now, i, cmd) # log) =
     (let (s, _, evs) = gr_Apply it now resolve s cmd i; (s, evs') = gr_run it resolve s log in (s, evs @ evs'))"

lemma gr_run_inv: "gr_inv s \<Longrightarrow> map_order it \<Longrightarrow> gr_inv (fst (gr_run it resolve s log))"
proof (induction log arbitrary: s)
  case (Cons c log)
  obtain now i cmd where c: "c = (now, i, cmd)" by (cases c)
  from Cons.IH [OF gr_Apply_inv [OF Cons.prems, of now resolve cmd i] Cons.prems(2)] show ?case
    by (simp add: c Let_def case_prod_beta)
qed simp

lemma gr_run_mirrors:
  assumes "gr_inv s" "map_order it"
  shows "gr_Lookup (fst (gr_run it DefaultResolve s log)) =
    fold applyBinding (snd (gr_run it DefaultResolve s log)) (gr_Lookup s)"
  using assms
proof (induction log arbitrary: s)
  case (Cons c log)
  obtain now i cmd where c: "c = (now, i, cmd)" by (cases c)
  have "mirrors s (gr_Apply it now DefaultResolve s cmd i)"
    by (rule gr_Apply_mirrors [OF Cons.prems])
  with Cons.IH [OF gr_Apply_inv [OF Cons.prems, of now DefaultResolve cmd i] Cons.prems(2)] show ?case
    by (simp add: c Let_def case_prod_beta mirrors_def)
qed simp

text \<open>
  C22. Under first-write-wins the stream of binding events is complete and exact: a consumer that
  starts empty and applies every event of a run, in order, holds for each name the same owner that a
  lookup in the registry returns.
\<close>

theorem bindings_replicate:
  assumes "map_order it"
  shows "gr_Lookup (fst (gr_run it DefaultResolve newShardedState log)) =
    fold applyBinding (snd (gr_run it DefaultResolve newShardedState log)) Map.empty"
proof -
  have "gr_Lookup newShardedState = Map.empty"
    by (simp add: gr_Lookup_names names_at_def shard_of_def newShardedState_def)
  with gr_run_mirrors [OF newShardedState_inv assms] show ?thesis by simp
qed

definition demoPID :: "string \<Rightarrow> string \<Rightarrow> PID" where
  "demoPID node u = \<lparr>p_Node = node, p_Host = ''h'', p_UniqID = u\<rparr>"

definition demoCmd :: "byte \<Rightarrow> string \<Rightarrow> PID \<Rightarrow> grCommand" where
  "demoCmd t n p = \<lparr>gc_PID = p, gc_Name = n, gc_NodeID = p_Node p, gc_AckerNode = [], gc_Reason = [], gc_RequiredNodes = [],
     gc_Epoch = 0, gc_DeadlineUnixNano = 0, gc_Limit = 0, gc_Type = t\<rparr>"

theorem bindings_replicate_witness:
  "gr_Lookup (fst (gr_run sorted_list_of_set DefaultResolve newShardedState
       [(0, 1, demoCmd CmdRegister ''a'' (demoPID ''n1'' ''1'')), (0, 2, demoCmd CmdUnregister ''a'' noPID)])) =
   fold applyBinding (snd (gr_run sorted_list_of_set DefaultResolve newShardedState
       [(0, 1, demoCmd CmdRegister ''a'' (demoPID ''n1'' ''1'')), (0, 2, demoCmd CmdUnregister ''a'' noPID)])) Map.empty"
  by (rule bindings_replicate [OF map_order_sorted])

text \<open>
  C23. Who can move an active name, under any conflict resolver: if the command is a registration of
  that name by another process and the resolver prefers the newcomer, the name is theirs, with the
  command's log index as the new fencing token; a command that removes names leaves the owner and the token
  or removes the name; every other command leaves owner and token exactly as they were.
\<close>

theorem ownership_moves:
  assumes "map_order it" "gr_inv s" "LookupWithIndex s n = Some (p, t)"
  shows "LookupWithIndex (fst (gr_Apply it now resolve s cmd i)) n \<in>
    (if takes_over resolve cmd n p then {Some (gc_PID cmd, i)}
     else if gc_Type cmd \<in> removal_types then {Some (p, t), None} else {Some (p, t)})"
proof -
  let ?s = "fst (gr_Apply it now resolve s cmd i)"
  have L: "LookupWithIndex x n = map_option (\<lambda>e. (ne_PID e, ne_AppliedAt e)) (names_at x n)" for x
    by (simp add: LookupWithIndex_def names_at_def)
  obtain e where e: "names_at s n = Some e" "ne_PID e = p" "ne_AppliedAt e = t" using assms(3) by (auto simp: L)
  consider (over) "takes_over resolve cmd n p"
    | (removal) "gc_Type cmd \<in> removal_types"
    | (register) "gc_Type cmd = CmdRegister" "\<not> takes_over resolve cmd n p"
    | (other) "gc_Type cmd \<notin> insert CmdRegister removal_types"
    by blast
  then show ?thesis
  proof cases
    case over
    then have "names_at ?s n = Some \<lparr>ne_PID = gc_PID cmd, ne_NodeID = nodeOf cmd, ne_RequiredNodes = [], ne_AppliedAt = i, ne_Epoch = 0\<rparr>"
      using applyRegister_moves [OF assms(2), of cmd e resolve i] e by (auto simp: takes_over_def gr_Apply_def)
    then show ?thesis using over by (simp add: L)
  next
    case removal
    then have no: "\<not> takes_over resolve cmd n p" by (auto simp: takes_over_def removal_types_def cmd_types)
    have "names_at ?s n = Some e \<or> names_at ?s n = None"
      using map_le_Some [OF gr_Apply_removal [OF assms(2,1) removal, of now resolve i], of n] e(1) by (cases "names_at ?s n") auto
    then show ?thesis using removal no e by (auto simp: L)
  next
    case register
    have "names_at ?s n = Some e"
      using applyRegister_active [OF assms(2) e(1), of cmd resolve i] register e(2) by (simp add: gr_Apply_def)
    then show ?thesis using register e by (auto simp: L)
  next
    case other
    have "names_at ?s n = Some e"
      by (rule map_le_Some [OF gr_Apply_keeps [OF assms(2,1) other] e(1)])
    then show ?thesis using other e by (auto simp: L takes_over_def)
  qed
qed

definition demoState :: shardedState where
  "demoState = fst (gr_run sorted_list_of_set DefaultResolve newShardedState
     [(0, 1, demoCmd CmdRegister ''a'' (demoPID ''n1'' ''1'')), (0, 2, demoCmd CmdRegister ''q'' (demoPID ''n1'' ''2''))])"

lemma demo_shards: "shardFor ''a'' = 12" "shardFor ''q'' = 12"
  by (simp_all add: shardFor_def fnv32a_def bytes_of_def shardCount_def)

lemma demo_eval:
  "demoState = newShardedState\<lparr>
     ss_nodeIndex := [''n1'' \<mapsto> {''{n1@h|1}'', ''{n1@h|2}''}],
     ss_shards := (ss_shards newShardedState)(12 := \<lparr>
        sh_names = [''a'' \<mapsto> \<lparr>ne_PID = demoPID ''n1'' ''1'', ne_NodeID = ''n1'', ne_RequiredNodes = [], ne_AppliedAt = 1, ne_Epoch = 0\<rparr>,
                    ''q'' \<mapsto> \<lparr>ne_PID = demoPID ''n1'' ''2'', ne_NodeID = ''n1'', ne_RequiredNodes = [], ne_AppliedAt = 2, ne_Epoch = 0\<rparr>],
        sh_pidNames = [''{n1@h|1}'' \<mapsto> [''a''], ''{n1@h|2}'' \<mapsto> [''q'']]\<rparr>)\<rparr>"
  by (simp add: demoState_def demoCmd_def demoPID_def gr_Apply_def cmd_types applyRegister_def gr_register_def
      newShardedState_def shard_of_def demo_shards upd_shard_def putName_def addToNodeIndex_def nodeOf_def PID_String_def
      Let_def insert_commute fun_upd_twist)

lemma demo_inv: "gr_inv demoState"
  unfolding demoState_def by (rule gr_run_inv [OF newShardedState_inv map_order_sorted])

lemma demo_Lookup: "LookupWithIndex demoState ''a'' = Some (demoPID ''n1'' ''1'', 1)"
  by (simp add: demo_eval LookupWithIndex_def shard_of_def demo_shards)

theorem ownership_moves_witness:
  "LookupWithIndex (fst (gr_Apply sorted_list_of_set 0 (\<lambda>_ _ incoming. incoming) demoState
      (demoCmd CmdRegister ''a'' (demoPID ''n2'' ''9'')) 3)) ''a'' = Some (demoPID ''n2'' ''9'', 3) \<and>
   LookupWithIndex (fst (gr_Apply sorted_list_of_set 0 DefaultResolve demoState
      (demoCmd CmdRegister ''a'' (demoPID ''n2'' ''9'')) 3)) ''a'' = Some (demoPID ''n1'' ''1'', 1)"
  using ownership_moves [OF map_order_sorted demo_inv demo_Lookup, of 0 "\<lambda>_ _ incoming. incoming" "demoCmd CmdRegister ''a'' (demoPID ''n2'' ''9'')" 3]
    ownership_moves [OF map_order_sorted demo_inv demo_Lookup, of 0 DefaultResolve "demoCmd CmdRegister ''a'' (demoPID ''n2'' ''9'')" 3]
  by (simp add: takes_over_def removal_types_def cmd_types demoCmd_def demoPID_def DefaultResolve_def)

definition sent :: "(i64 \<times> u64 \<times> grCommand) list \<Rightarrow> string \<Rightarrow> u64 \<Rightarrow> string \<Rightarrow> bool" where
  "sent log n ep a \<longleftrightarrow> (\<exists>(now, i, cmd) \<in> set log. acks cmd n ep a)"

definition acked_by :: "(i64 \<times> u64 \<times> grCommand) list \<Rightarrow> shardedState \<Rightarrow> bool" where
  "acked_by log s \<longleftrightarrow>
     (\<forall>n e. names_at s n = Some e \<longrightarrow> (\<forall>a \<in> set (ne_RequiredNodes e). sent log n (ne_Epoch e) a)) \<and>
     (\<forall>n p. ss_pending s n = Some p \<longrightarrow> (\<forall>a \<in> pe_AckSet p. sent log n (pe_Epoch p) a))"

lemma acked_by_step:
  assumes "acked_by past s" "grows (acks cmd) s s'"
  shows "acked_by (past @ [(now, i, cmd)]) s'"
proof -
  have m: "sent (past @ [(now, i, cmd)]) n ep a" if "sent past n ep a" for n ep a
    using that by (auto simp: sent_def)
  have l: "sent (past @ [(now, i, cmd)]) n ep a" if "acks cmd n ep a" for n ep a
    using that by (simp add: sent_def)
  have p: "sent past n (pe_Epoch p) a" if "ss_pending s n = Some p" "a \<in> pe_AckSet p" for n p a
    using assms(1) that by (simp add: acked_by_def)
  have k: "sent (past @ [(now, i, cmd)]) n ep a" if "ack_at (acks cmd) s n ep a" for n ep a
    using that l m [OF p] unfolding ack_at_def by blast
  have nm: "sent past n (ne_Epoch e) a" if "names_at s n = Some e" "a \<in> set (ne_RequiredNodes e)" for n e a
    using assms(1) that by (simp add: acked_by_def)
  show ?thesis
    unfolding acked_by_def
  proof (intro conjI allI impI ballI)
    show "sent (past @ [(now, i, cmd)]) n (ne_Epoch e) a" if "names_at s' n = Some e" "a \<in> set (ne_RequiredNodes e)" for n e a
      using assms(2) that k m [OF nm] unfolding grows_def by blast
    show "sent (past @ [(now, i, cmd)]) n (pe_Epoch p) a" if "ss_pending s' n = Some p" "a \<in> pe_AckSet p" for n p a
      using assms(2) that k unfolding grows_def by blast
  qed
qed

lemma acked_by_run:
  assumes "gr_inv s" "map_order it" "acked_by past s"
  shows "acked_by (past @ log) (fst (gr_run it DefaultResolve s log))"
  using assms
proof (induction log arbitrary: s past)
  case (Cons c log)
  obtain now i cmd where c: "c = (now, i, cmd)" by (cases c)
  have "acked_by (past @ [c]) (fst (gr_Apply it now DefaultResolve s cmd i))"
    unfolding c by (rule acked_by_step [OF Cons.prems(3) gr_Apply_grows [OF Cons.prems(1,2)]])
  from Cons.IH [OF gr_Apply_inv [OF Cons.prems(1,2)] Cons.prems(2) this] show ?case
    by (simp add: c Let_def case_prod_beta)
qed simp

text \<open>
  C24. An active name that requires observers was acknowledged by every one of them: in any run from
  the empty registry, each node still listed as required by an active entry sent, in the log, an
  acknowledgement for this name and this epoch.
\<close>

theorem strong_needs_all_acks:
  assumes it: "map_order it"
    and e: "names_at (fst (gr_run it DefaultResolve newShardedState log)) n = Some e"
    and a: "a \<in> set (ne_RequiredNodes e)"
  shows "\<exists>(now, i, cmd) \<in> set log. acks cmd n (ne_Epoch e) a"
proof -
  have "acked_by [] newShardedState"
    by (simp add: acked_by_def newShardedState_def names_at_def shard_of_def)
  from acked_by_run [OF newShardedState_inv it this, of log] e a show ?thesis
    by (auto simp: acked_by_def sent_def)
qed

definition strongLog :: "(i64 \<times> u64 \<times> grCommand) list" where
  "strongLog =
     [(0, 1, (demoCmd CmdRegisterPending ''a'' (demoPID ''n1'' ''1''))\<lparr>gc_RequiredNodes := [''n1'', ''n2'']\<rparr>),
      (0, 2, (demoCmd CmdRegisterAck ''a'' noPID)\<lparr>gc_Epoch := 1, gc_AckerNode := ''n1''\<rparr>),
      (0, 3, (demoCmd CmdRegisterAck ''a'' noPID)\<lparr>gc_Epoch := 1, gc_AckerNode := ''n2''\<rparr>)]"

lemma strongLog_active:
  "names_at (fst (gr_run sorted_list_of_set DefaultResolve newShardedState strongLog)) ''a'' =
     Some \<lparr>ne_PID = demoPID ''n1'' ''1'', ne_NodeID = ''n1'', ne_RequiredNodes = [''n1'', ''n2''], ne_AppliedAt = 3, ne_Epoch = 1\<rparr>"
  by (simp add: strongLog_def demoCmd_def demoPID_def gr_Apply_def cmd_types applyRegisterPending_def registerPending_def
      applyRegisterAck_def recordAck_def pendingAt_def ackComplete_def promotePending_def dropPending_def
      newShardedState_def shard_of_def demo_shards upd_shard_def putName_def addToNodeIndex_def nodeOf_def PID_String_def
      Let_def names_at_def)

theorem strong_needs_all_acks_witness:
  "\<exists>(now, i, cmd) \<in> set strongLog. acks cmd ''a'' 1 ''n2''"
  using strong_needs_all_acks [OF map_order_sorted strongLog_active, of "''n2''"] by simp

section \<open>Removing a node\<close>

lemma names_at_dom:
  assumes ok: "gshards_ok s"
  shows "dom (names_at s) = (\<Union>i \<in> {..<shardCount}. dom (sh_names (ss_shards s i)))"
proof (rule equalityI; rule subsetI)
  have m: "sh_names (ss_shards s i) n = (if shardFor n = i then names_at s n else None)" for i n
    using shards_names_at ok by (simp add: gshards_ok_def)
  show "n \<in> (\<Union>i \<in> {..<shardCount}. dom (sh_names (ss_shards s i)))" if "n \<in> dom (names_at s)" for n
    using that by (intro UN_I [of "shardFor n"]) (auto simp: m shardFor_less)
  show "n \<in> dom (names_at s)" if "n \<in> (\<Union>i \<in> {..<shardCount}. dom (sh_names (ss_shards s i)))" for n
    using that by (auto simp: m split: if_splits)
qed

lemma shard_finite: "gshards_ok s \<Longrightarrow> finite (dom (sh_names (ss_shards s i)))"
  using gshards_okD [of s i] by (simp add: shard_ok_def)

lemma names_at_finite: "gshards_ok s \<Longrightarrow> finite (dom (names_at s))"
  by (simp add: names_at_dom shard_finite)

lemma gr_Len_card:
  assumes ok: "gshards_ok s"
  shows "gr_Len s = card (dom (names_at s))"
proof -
  let ?d = "\<lambda>i. dom (sh_names (ss_shards s i))"
  have m: "sh_names (ss_shards s i) n = (if shardFor n = i then names_at s n else None)" for i n
    using shards_names_at ok by (simp add: gshards_ok_def)
  have "card (\<Union>i \<in> {..<shardCount}. ?d i) = (\<Sum>i \<in> {..<shardCount}. card (?d i))"
    by (rule card_UN_disjoint) (auto simp: shard_finite ok m split: if_splits)
  then show ?thesis
    by (simp add: gr_Len_def names_at_dom ok interv_sum_list_conv_sum_set_nat atLeast0LessThan)
qed

lemma drained_count:
  assumes "drained cap Q m noRemoval m' rm hit X" "finite (dom m)"
  shows "card (dom m') + length (rm_names rm) = card (dom m)"
proof -
  have X: "distinct X" "set X \<subseteq> dom m" "m' = m |` (- set X)" "length (rm_names rm) = length X"
    using assms(1) by (auto simp: drained_def noRemoval_def wanted_def)
  then have "dom m' = dom m - set X" by auto
  then have "card (dom m') = card (dom m) - length X"
    using X by (simp add: card_Diff_subset distinct_card)
  moreover have "length X \<le> card (dom m)"
    using X card_mono [OF assms(2) X(2)] by (simp add: distinct_card)
  ultimately show ?thesis using X(4) by simp
qed

lemma drained_bound:
  assumes "drained cap Q m noRemoval m' rm hit X"
  shows "0 \<le> cap \<Longrightarrow> int (length (rm_names rm)) \<le> cap" "hit \<Longrightarrow> 0 \<le> cap \<and> int (length (rm_names rm)) = cap"
proof -
  have "within cap noRemoval" by (simp add: within_def noRemoval_def)
  then have w: "within cap rm" using assms unfolding drained_def by blast
  then show "0 \<le> cap \<Longrightarrow> int (length (rm_names rm)) \<le> cap" by (simp add: within_def)
  show "hit \<Longrightarrow> 0 \<le> cap \<and> int (length (rm_names rm)) = cap"
    using assms w by (auto simp: drained_def within_def full_def)
qed

text \<open>
  The names a removal of node \<open>d\<close> is about: those of the processes that the node index lists for \<open>d\<close>.
  Every name registered for the node is one of them.
\<close>

definition node_names :: "shardedState \<Rightarrow> string \<Rightarrow> string set" where
  "node_names s d = {n. \<exists>e ps. names_at s n = Some e \<and> ss_nodeIndex s d = Some ps \<and> PID_String (ne_PID e) \<in> ps}"

lemma node_names_unknown: "ss_nodeIndex s d = None \<Longrightarrow> node_names s d = {}"
  by (simp add: node_names_def)

lemma node_names_wanted: "ss_nodeIndex s d = Some ps \<Longrightarrow> node_names s d = wanted (\<lambda>_. has_key ps) (names_at s)"
  by (simp add: node_names_def wanted_def has_key_def)

lemma drained_exact:
  assumes "drained cap Q m noRemoval m' rm hit X"
  shows "set X \<subseteq> wanted Q m" "m' = m |` (- set X)" "card (set X) = length (rm_names rm)" "hit \<longleftrightarrow> set X \<noteq> wanted Q m"
proof -
  have X: "distinct X" "set X \<subseteq> wanted Q m" "m' = m |` (- set X)" "length (rm_names rm) = length X"
      "if hit then wanted Q m' \<noteq> {} else wanted Q m' = {}"
    using assms by (auto simp: drained_def noRemoval_def tagged_def split: if_splits)
  then show "set X \<subseteq> wanted Q m" "m' = m |` (- set X)" "card (set X) = length (rm_names rm)"
    by (simp_all add: distinct_card)
  show "hit \<longleftrightarrow> set X \<noteq> wanted Q m"
    using X(2,5) unfolding X(3) wanted_restrict by (auto split: if_splits)
qed

lemma applyRemoveNode_spec:
  assumes inv: "gr_inv s" and it: "map_order it"
  obtains s' k hasMore evs X where
    "applyRemoveNode it now s cmd i = (s', ResRemove \<lparr>rv_Count = k, rv_HasMore = hasMore\<rparr>, evs)"
    "X \<subseteq> node_names s (gc_NodeID cmd)" "names_at s' = names_at s |` (- X)" "card X = k"
    "hasMore \<longleftrightarrow> X \<noteq> node_names s (gc_NodeID cmd)"
    "0 < gc_Limit cmd \<longrightarrow> int k \<le> gc_Limit cmd" "hasMore \<longrightarrow> 0 < gc_Limit cmd \<and> int k = gc_Limit cmd"
    "gr_Len s' + k = gr_Len s"
    "\<not> hasMore \<longrightarrow> (\<forall>n e. names_at s' n = Some e \<longrightarrow> ne_NodeID e \<noteq> gc_NodeID cmd)"
proof (cases "ss_nodeIndex s (gc_NodeID cmd)")
  case None
  then have "\<forall>n e. names_at s n = Some e \<longrightarrow> ne_NodeID e \<noteq> gc_NodeID cmd"
    using node_index_holds [OF inv] by fastforce
  then show ?thesis
    using None by (intro that [of s 0 False "[]" "{}"]) (simp_all add: applyRemoveNode_def removeNode_unknown noRemoval_def
        node_names_unknown strongReleases_def)
next
  case (Some ps)
  let ?d = "gc_NodeID cmd"
  obtain s' rm hit where r: "removeNodeWithNames it s ?d (gc_Limit cmd) = (s', rm, hit)"
    by (cases "removeNodeWithNames it s ?d (gc_Limit cmd)")
  note R = removeNode_drained [OF inv it Some r]
  obtain X where X: "drained (node_cap (gc_Limit cmd)) (\<lambda>_. has_key ps) (names_at s) noRemoval (names_at s') rm hit X"
    using R(5) by blast
  have ok: "gshards_ok s" "gshards_ok s'" using inv R(1) by (simp_all add: gr_inv_iff)
  have len: "gr_Len s' + length (rm_names rm) = gr_Len s"
    using drained_count [OF X names_at_finite [OF ok(1)]] by (simp add: gr_Len_card ok)
  have none: "ne_NodeID e \<noteq> ?d" if "\<not> hit" "names_at s' n = Some e" for n e
    using node_index_holds [OF R(1) that(2)] R(4) that(1) by auto
  have lim: "0 < gc_Limit cmd \<longrightarrow> int (length (rm_names rm)) \<le> gc_Limit cmd"
    "hit \<longrightarrow> 0 < gc_Limit cmd \<and> int (length (rm_names rm)) = gc_Limit cmd"
    using drained_bound [OF X] by (auto simp: node_cap_def split: if_splits)
  obtain evs where ap: "applyRemoveNode it now s cmd i = (s', ResRemove \<lparr>rv_Count = length (rm_names rm), rv_HasMore = hit\<rparr>, evs)"
    by (simp add: applyRemoveNode_def r)
  note E = drained_exact [OF X, folded node_names_wanted [OF Some]]
  have gone: "\<not> hit \<longrightarrow> (\<forall>n e. names_at s' n = Some e \<longrightarrow> ne_NodeID e \<noteq> ?d)" using none by blast
  show ?thesis by (rule that [OF ap E lim len gone])
qed

text \<open>
  C25. One bulk removal. The names that leave the registry are all names of processes of that node and
  every other entry stays as it was; the count is their number and keeps the limit; it reports more
  exactly when a name of one of those processes was left, which happens only when the limit was
  used up; and when it reports no more, no name registered for the node is left.
\<close>

theorem remove_node_exact:
  assumes "gr_inv s" "map_order it"
    "applyRemoveNode it now s cmd i = (s', ResRemove r, evs)"
  shows "\<exists>X. X \<subseteq> node_names s (gc_NodeID cmd) \<and> names_at s' = names_at s |` (- X) \<and> card X = rv_Count r \<and>
    (rv_HasMore r \<longleftrightarrow> X \<noteq> node_names s (gc_NodeID cmd)) \<and>
    (0 < gc_Limit cmd \<longrightarrow> int (rv_Count r) \<le> gc_Limit cmd) \<and>
    (rv_HasMore r \<longrightarrow> 0 < gc_Limit cmd \<and> int (rv_Count r) = gc_Limit cmd) \<and>
    gr_Len s' + rv_Count r = gr_Len s \<and>
    (\<not> rv_HasMore r \<longrightarrow> (\<forall>n e. names_at s' n = Some e \<longrightarrow> ne_NodeID e \<noteq> gc_NodeID cmd))"
proof -
  obtain t k hasMore X evs' where a: "applyRemoveNode it now s cmd i = (t, ResRemove \<lparr>rv_Count = k, rv_HasMore = hasMore\<rparr>, evs')"
    and X: "X \<subseteq> node_names s (gc_NodeID cmd)" "names_at t = names_at s |` (- X)" "card X = k"
      "hasMore \<longleftrightarrow> X \<noteq> node_names s (gc_NodeID cmd)" "0 < gc_Limit cmd \<longrightarrow> int k \<le> gc_Limit cmd"
      "hasMore \<longrightarrow> 0 < gc_Limit cmd \<and> int k = gc_Limit cmd" "gr_Len t + k = gr_Len s"
      "\<not> hasMore \<longrightarrow> (\<forall>n e. names_at t n = Some e \<longrightarrow> ne_NodeID e \<noteq> gc_NodeID cmd)"
    by (rule applyRemoveNode_spec [OF assms(1,2), of now cmd i])
  have r: "s' = t" "r = \<lparr>rv_Count = k, rv_HasMore = hasMore\<rparr>"
    using a assms(3) by simp_all
  show ?thesis
    unfolding r RemoveResult.simps by (intro exI [of _ X] conjI) (fact X)+
qed

definition removeCmd :: "string \<Rightarrow> int \<Rightarrow> grCommand" where
  "removeCmd d limit = (demoCmd CmdRemoveNode [] noPID)\<lparr>gc_NodeID := d, gc_Limit := limit\<rparr>"

section \<open>The bulk removal of the service\<close>

text \<open>
  \<^verbatim>\<open>Service.applyCommand\<close>. A fresh Strong open is stamped with the members when this node is the leader
  (\<open>lead\<close> holds them then). What Raft and the relay make of the proposal is an argument: it is
  committed, at some time and log index, and the machine's response comes back, an error response
  as an error; or the caller gets an error (which says nothing about whether the command is committed
  in the end).
\<close>

definition stampLeaderPending :: "string list option \<Rightarrow> grCommand \<Rightarrow> grCommand" where
  "stampLeaderPending lead cmd =
     (if gc_Type cmd \<noteq> CmdRegisterPending then cmd
      else if gc_Epoch cmd \<noteq> 0 \<or> length (gc_RequiredNodes cmd) > 0 then cmd
      else case lead of None \<Rightarrow> cmd | Some members \<Rightarrow> cmd\<lparr>gc_RequiredNodes := members\<rparr>)"

datatype applyReply =
    Committed i64 u64
  | NotApplied string

datatype applyError =
    RaftError string
  | FsmError grResult

definition service_applyCommand ::
  "(string set \<Rightarrow> string list) \<Rightarrow> (string \<Rightarrow> PID \<Rightarrow> PID \<Rightarrow> PID) \<Rightarrow> string list option \<Rightarrow> shardedState \<Rightarrow> grCommand \<Rightarrow> applyReply \<Rightarrow>
   shardedState \<times> (applyError + grResult)" where
  "service_applyCommand it resolve lead s cmd reply =
     (let cmd = stampLeaderPending lead cmd
      in case reply of
           NotApplied err \<Rightarrow> (s, Inl (RaftError err))
         | Committed now i \<Rightarrow>
             (let (s, resp, _) = gr_Apply it now resolve s cmd i
              in case resp of
                   ResDecodeError \<Rightarrow> (s, Inl (FsmError resp))
                 | ResUnknown _ \<Rightarrow> (s, Inl (FsmError resp))
                 | _ \<Rightarrow> (s, Inr resp)))"

text \<open>
  \<^verbatim>\<open>Service.RemoveNode\<close>: chunks of 256 names until a chunk reports no more. A round of the loop is
  one proposal; other commands may be committed before it, also this node's own earlier proposals that
  were answered with an error. The loop returns nil or the error, or it is still running after the
  rounds given.
\<close>

definition removeNodeChunkSize :: int where "removeNodeChunkSize = 256"

record removeRound =
  rd_before :: "(i64 \<times> u64 \<times> grCommand) list"
  rd_reply :: applyReply

datatype removeOutcome =
    RemoveNil
  | RemoveError applyError
  | RemoveRunning

primrec interleaved :: "removeRound list \<Rightarrow> nat" where
  "interleaved [] = 0"
| "interleaved (r # rs) = length (rd_before r) + interleaved rs"

fun RemoveNode ::
  "(string set \<Rightarrow> string list) \<Rightarrow> (string \<Rightarrow> PID \<Rightarrow> PID \<Rightarrow> PID) \<Rightarrow> string list option \<Rightarrow> string \<Rightarrow> removeRound list \<Rightarrow> shardedState \<Rightarrow>
   shardedState \<times> removeOutcome" where
  "RemoveNode it resolve lead nodeID [] s = (s, RemoveRunning)"
| "RemoveNode it resolve lead nodeID (r # rs) s =
     (let (s, _) = gr_run it resolve s (rd_before r);
          cmd = \<lparr>gc_PID = noPID, gc_Name = [], gc_NodeID = nodeID, gc_AckerNode = [], gc_Reason = [], gc_RequiredNodes = [],
                 gc_Epoch = 0, gc_DeadlineUnixNano = 0, gc_Limit = removeNodeChunkSize, gc_Type = CmdRemoveNode\<rparr>;
          (s, resp) = service_applyCommand it resolve lead s cmd (rd_reply r)
      in case resp of
           Inl err \<Rightarrow> (s, RemoveError err)
         | Inr (ResRemove result) \<Rightarrow> if \<not> rv_HasMore result then (s, RemoveNil) else RemoveNode it resolve lead nodeID rs s
         | Inr _ \<Rightarrow> (s, RemoveNil))"

lemma gr_Apply_RemoveNode: "gc_Type cmd = CmdRemoveNode \<Longrightarrow> gr_Apply it now resolve s cmd i = applyRemoveNode it now s cmd i"
  by (simp add: gr_Apply_def cmd_types)

lemma gr_Apply_Len:
  assumes "gr_inv s" "map_order it"
  shows "gr_Len (fst (gr_Apply it now resolve s cmd i)) \<le> gr_Len s + 1"
proof -
  let ?s = "fst (gr_Apply it now resolve s cmd i)"
  have ok: "gshards_ok s" "gshards_ok ?s"
    using assms gr_Apply_inv [OF assms, of now resolve cmd i] by (simp_all add: gr_inv_iff)
  have "card (dom (names_at ?s)) \<le> card (insert (gc_Name cmd) (dom (names_at s)))"
    by (rule card_mono) (use gr_Apply_adds [OF assms] names_at_finite [OF ok(1)] in \<open>simp_all add: adds_at_def\<close>)
  also have "\<dots> \<le> card (dom (names_at s)) + 1"
    using names_at_finite [OF ok(1)] by (simp add: card_insert_if)
  finally show ?thesis by (simp add: gr_Len_card ok)
qed

lemma gr_run_Len:
  assumes "gr_inv s" "map_order it"
  shows "gr_Len (fst (gr_run it resolve s log)) \<le> gr_Len s + length log"
  using assms
proof (induction log arbitrary: s)
  case (Cons c log)
  obtain now i cmd where c: "c = (now, i, cmd)" by (cases c)
  from Cons.IH [OF gr_Apply_inv [OF Cons.prems, of now resolve cmd i] Cons.prems(2)]
    gr_Apply_Len [OF Cons.prems, of now resolve cmd i]
  show ?case by (simp add: c Let_def case_prod_beta)
qed simp

text \<open>
  C26. The bulk removal, with any commands of others committed between its chunks. It returns within the
  given rounds once there is one round for every 256 names that the registry holds or that the other
  commands can add (each adds at most one), so it cannot run forever beside a bounded number of
  writes; a nil return means that no name of the node is left at that moment; an error is returned only
  when a proposal was answered with it; and whatever it returns the invariant holds.
\<close>

theorem RemoveNode_ends:
  assumes "gr_inv s" "map_order it" "RemoveNode it resolve lead nodeID rounds s = (s', out)"
  shows "gr_inv s' \<and>
    (gr_Len s + interleaved rounds < 256 * length rounds \<longrightarrow> out \<noteq> RemoveRunning) \<and>
    (out = RemoveNil \<longrightarrow> (\<forall>n e. names_at s' n = Some e \<longrightarrow> ne_NodeID e \<noteq> nodeID)) \<and>
    (\<forall>err. out = RemoveError err \<longrightarrow> (\<exists>r msg. r \<in> set rounds \<and> rd_reply r = NotApplied msg \<and> err = RaftError msg))"
  using assms
proof (induction rounds arbitrary: s)
  case (Cons r rs)
  let ?cmd = "\<lparr>gc_PID = noPID, gc_Name = [], gc_NodeID = nodeID, gc_AckerNode = [], gc_Reason = [], gc_RequiredNodes = [],
                 gc_Epoch = 0, gc_DeadlineUnixNano = 0, gc_Limit = removeNodeChunkSize, gc_Type = CmdRemoveNode\<rparr>"
  define t where "t = fst (gr_run it resolve s (rd_before r))"
  have t: "gr_inv t" "gr_Len t \<le> gr_Len s + length (rd_before r)"
    unfolding t_def by (rule gr_run_inv [OF Cons.prems(1,2)], rule gr_run_Len [OF Cons.prems(1,2)])
  have st: "stampLeaderPending lead ?cmd = ?cmd" by (simp add: stampLeaderPending_def cmd_types)
  show ?case
  proof (cases "rd_reply r")
    case (NotApplied msg)
    then have "s' = t" "out = RemoveError (RaftError msg)"
      using Cons.prems(3) by (simp_all add: Let_def case_prod_beta service_applyCommand_def st t_def)
    then show ?thesis using t(1) NotApplied by auto
  next
    case (Committed now i)
    obtain u k hasMore evs where a: "applyRemoveNode it now t ?cmd i = (u, ResRemove \<lparr>rv_Count = k, rv_HasMore = hasMore\<rparr>, evs)"
        "hasMore \<longrightarrow> int k = 256" "gr_Len u + k = gr_Len t"
        "\<not> hasMore \<longrightarrow> (\<forall>n e. names_at u n = Some e \<longrightarrow> ne_NodeID e \<noteq> nodeID)"
      by (rule applyRemoveNode_spec [OF t(1) Cons.prems(2), of now ?cmd i]) (simp_all add: removeNodeChunkSize_def)
    have inv: "gr_inv u"
      using applyRemoveNode_inv [OF t(1) Cons.prems(2), of now ?cmd i] a(1) by simp
    have step: "RemoveNode it resolve lead nodeID (r # rs) s = (if hasMore then RemoveNode it resolve lead nodeID rs u else (u, RemoveNil))"
      using a(1) Committed
      by (simp add: Let_def case_prod_beta service_applyCommand_def st t_def [symmetric] gr_Apply_RemoveNode)
    show ?thesis
    proof (cases hasMore)
      case True
      then have "RemoveNode it resolve lead nodeID rs u = (s', out)" using step Cons.prems(3) by simp
      note IH = Cons.IH [OF inv Cons.prems(2) this]
      have le: "gr_Len u + interleaved rs < 256 * length rs"
        if "gr_Len s + interleaved (r # rs) < 256 * length (r # rs)"
        using that t(2) a(2,3) True by simp
      show ?thesis
        by (intro conjI allI impI) (use IH le in \<open>blast intro: list.set_intros(2)\<close>)+
    qed (use step Cons.prems(3) inv a(4) in auto)
  qed
qed simp

lemma demo_Len: "gr_Len demoState = 2"
  by (simp add: gr_Len_def demo_eval shardCount_def newShardedState_def upt_rec)

definition demoRounds :: "removeRound list" where
  "demoRounds = [\<lparr>rd_before = [(0, 3, demoCmd CmdRegister ''z'' (demoPID ''n2'' ''9''))], rd_reply = Committed 0 4\<rparr>]"

theorem RemoveNode_ends_witness:
  "\<exists>s'. RemoveNode sorted_list_of_set DefaultResolve None ''n1'' demoRounds demoState = (s', RemoveNil) \<and> gr_inv s' \<and>
    (\<forall>n e. names_at s' n = Some e \<longrightarrow> ne_NodeID e \<noteq> ''n1'')"
proof -
  obtain s' out where r: "RemoveNode sorted_list_of_set DefaultResolve None ''n1'' demoRounds demoState = (s', out)"
    by (cases "RemoveNode sorted_list_of_set DefaultResolve None ''n1'' demoRounds demoState")
  note E = RemoveNode_ends [OF demo_inv map_order_sorted r]
  have "out \<noteq> RemoveRunning" using E by (simp add: demo_Len demoRounds_def)
  moreover have "out \<noteq> RemoveError err" for err using E by (auto simp: demoRounds_def)
  ultimately have "out = RemoveNil" by (cases out) auto
  with E r show ?thesis by blast
qed

definition revOrder :: "string set \<Rightarrow> string list" where
  "revOrder S = rev (sorted_list_of_set S)"

lemma map_order_rev: "map_order revOrder"
  by (simp add: map_order_def revOrder_def)

lemma demo_sorted: "sorted_list_of_set {''{n1@h|1}'', ''{n1@h|2}''} = [''{n1@h|1}'', ''{n1@h|2}'']"
proof -
  have "sorted_list_of_set (set [''{n1@h|1}'', ''{n1@h|2}'']) = [''{n1@h|1}'', ''{n1@h|2}'']"
    unfolding sorted_list_of_set_sort_remdups by code_simp
  then show ?thesis by simp
qed

lemmas demo_remove = applyRemoveNode_def removeNodeWithNames_def removeCmd_def demoCmd_def demo_eval
  demo_sorted revOrder_def shardCount_def newShardedState_def upt_rec upd_shard_def dropNameLocked_def gather_def noRemoval_def
  gr_Lookup_def shard_of_def demo_shards Let_def

lemma demo_chunk:
  "\<exists>s' evs. applyRemoveNode sorted_list_of_set 0 demoState (removeCmd ''n1'' 1) 3 =
     (s', ResRemove \<lparr>rv_Count = 1, rv_HasMore = True\<rparr>, evs)"
  by (simp add: demo_remove)

theorem remove_node_exact_witness:
  "\<exists>s' evs X. applyRemoveNode sorted_list_of_set 0 demoState (removeCmd ''n1'' 1) 3 =
       (s', ResRemove \<lparr>rv_Count = 1, rv_HasMore = True\<rparr>, evs) \<and>
     X \<subseteq> node_names demoState ''n1'' \<and> names_at s' = names_at demoState |` (- X) \<and> card X = 1 \<and>
     X \<noteq> node_names demoState ''n1''"
proof -
  obtain s' evs where e: "applyRemoveNode sorted_list_of_set 0 demoState (removeCmd ''n1'' 1) 3 =
      (s', ResRemove \<lparr>rv_Count = 1, rv_HasMore = True\<rparr>, evs)"
    using demo_chunk by blast
  have c: "gc_NodeID (removeCmd ''n1'' 1) = ''n1''" by (simp add: removeCmd_def)
  from remove_node_exact [OF demo_inv map_order_sorted e, unfolded c RemoveResult.simps] show ?thesis
  proof (elim exE conjE)
    fix X
    assume X: "X \<subseteq> node_names demoState ''n1''" "names_at s' = names_at demoState |` (- X)" "card X = 1"
      "True = (X \<noteq> node_names demoState ''n1'')"
    show ?thesis
      using X(4) by (intro exI [of _ s'] exI [of _ evs] exI [of _ X] conjI e X) simp
  qed
qed

definition chunkLog :: "(i64 \<times> u64 \<times> grCommand) list" where
  "chunkLog = [(0, 3, removeCmd ''n1'' 1), (0, 4, demoCmd CmdRegister ''a'' (demoPID ''n2'' ''9'')), (0, 5, removeCmd ''n1'' 1)]"

text \<open>
  A bulk removal with a limit is not a function of the log: two replicas in the same state that
  range over a Go map in different, equally allowed, orders remove different names. With one
  registration committed between two chunks they end with different owners for the same name, after
  the removal is complete on both.
\<close>

theorem limited_removal_diverges:
  "map_order sorted_list_of_set \<and> map_order revOrder \<and> gr_inv demoState \<and>
   gr_Lookup (fst (gr_run sorted_list_of_set DefaultResolve demoState chunkLog)) ''a'' = Some (demoPID ''n2'' ''9'') \<and>
   gr_Lookup (fst (gr_run revOrder DefaultResolve demoState chunkLog)) ''a'' = None"
  by (intro conjI map_order_sorted map_order_rev demo_inv)
     (simp_all add: demo_remove chunkLog_def gr_Apply_def cmd_types applyRegister_def gr_register_def nodeOf_def demoPID_def
        putName_def addToNodeIndex_def DefaultResolve_def PID_String_def noPID_def)

section \<open>Snapshots\<close>

lemma cleared_inv:
  assumes "length (ss_expired t) \<le> expiredRingCap"
  shows "gr_inv (t\<lparr>ss_shards := \<lambda>_. \<lparr>sh_names = Map.empty, sh_pidNames = Map.empty\<rparr>, ss_nodeIndex := Map.empty,
           ss_pending := Map.empty\<rparr>)"
  using assms by (simp add: gr_inv_def shard_ok_def index_ok_def owned_def node_index_ok_def pending_ok_def
      names_at_def shard_of_def)

lemma fold_restoreName_pending:
  "fold restoreName es (s\<lparr>ss_pending := m\<rparr>) = (fold restoreName es s)\<lparr>ss_pending := m\<rparr>"
proof (induction es arbitrary: s)
  case (Cons e es)
  have "restoreName e (s\<lparr>ss_pending := m\<rparr>) = (restoreName e s)\<lparr>ss_pending := m\<rparr>"
    by (simp add: restoreName_def Let_def upd_shard_def addToNodeIndex_def)
  then show ?case by (simp add: Cons)
qed simp

text \<open>
  C28. Restoring a snapshot rebuilds the registry it was taken from, on any replica and with any map
  order: the same active entries, the same reservations with their acknowledgements, and indexes that
  satisfy the invariant.
\<close>

theorem FSM_Restore_Snapshot:
  assumes it: "map_order it" and inv: "gr_inv s" and ring: "length (ss_expired t) \<le> expiredRingCap"
  shows "\<exists>r. FSM_Restore t (Some (FSM_Snapshot it s)) = Some r \<and> names_at r = names_at s \<and>
    ss_pending r = ss_pending s \<and> gr_inv r"
proof -
  let ?c = "t\<lparr>ss_shards := \<lambda>_. \<lparr>sh_names = Map.empty, sh_pidNames = Map.empty\<rparr>, ss_nodeIndex := Map.empty\<rparr>"
  let ?c0 = "?c\<lparr>ss_pending := Map.empty\<rparr>"
  let ?es = "gr_snapshot it s"
  have ok: "gshards_ok s" using inv by (simp add: gr_inv_iff)
  note S = gr_snapshot_names [OF it ok]
  have n0: "names_at ?c0 = Map.empty" by (simp add: names_at_def shard_of_def fun_eq_iff)
  have F: "gr_inv (fold restoreName ?es ?c0)" "names_at (fold restoreName ?es ?c0) = names_at s"
    using fold_restoreName [OF cleared_inv [OF ring] _ S(1)] S(2) n0 by simp_all
  define r where "r = (fold restoreName ?es ?c0)\<lparr>ss_pending := ss_pending s\<rparr>"
  have "FSM_Restore t (Some (FSM_Snapshot it s)) = Some r"
    by (simp add: FSM_Restore_def FSM_Snapshot_def gr_restore_def Let_def r_def fold_restoreName_pending
        pendingSnapshot_restores [OF it inv])
  moreover have "names_at r = names_at s" by (simp add: r_def F(2))
  moreover have "gr_inv r"
    unfolding r_def using inv
    by (intro gr_inv_pending [OF F(1)]) (auto simp: F(2) gr_inv_iff pending_ok_def)
  ultimately show ?thesis by (simp add: r_def)
qed

theorem FSM_Restore_Snapshot_witness:
  "\<exists>r. FSM_Restore newShardedState (Some (FSM_Snapshot sorted_list_of_set demoState)) = Some r \<and>
    names_at r = names_at demoState \<and> ss_pending r = ss_pending demoState \<and> gr_inv r"
  by (rule FSM_Restore_Snapshot [OF map_order_sorted demo_inv]) (simp add: newShardedState_def)

text \<open>
  A resolver that prefers the newcomer is reported a success that did not happen when the
  conflict is with a pending Strong reservation: the claimant gets its own id and a fencing token and a
  binding event is published, while the name stays reserved for the other process and no lookup finds it.
\<close>

theorem resolved_against_pending:
  assumes p: "ss_pending s (gc_Name cmd) = Some e" and inv: "gr_inv s" and other: "pe_PID e \<noteq> gc_PID cmd"
    and win: "resolve (gc_Name cmd) (pe_PID e) (gc_PID cmd) = gc_PID cmd"
  shows "applyRegister resolve s cmd i =
      (s, ResRegister \<lparr>rr_Err = None, rr_PID = gc_PID cmd, rr_ExistingPID = noPID, rr_ResolvedPID = pe_PID e,
         rr_FenceToken = i, rr_State = 0\<rparr>, [emitBinding (gc_Name cmd) (gc_PID cmd) i False]) \<and>
    gr_Lookup s (gc_Name cmd) = None"
proof -
  have n: "names_at s (gc_Name cmd) = None" by (rule gr_inv_pendingD(2) [OF inv p])
  then show ?thesis
    using p other win
    by (simp add: applyRegister_def Let_def gr_register_def gr_unregister_def unregisterEntry_None noRegister_def
        gr_Lookup_names)
qed

definition reservedState :: shardedState where
  "reservedState = fst (registerPending newShardedState ''a'' (demoPID ''n1'' ''1'') ''n1'' 1 [''n1''] 0 1)"

theorem resolved_against_pending_witness:
  "gr_Lookup reservedState ''a'' = None \<and>
   fst (snd (applyRegister (\<lambda>_ _ incoming. incoming) reservedState (demoCmd CmdRegister ''a'' (demoPID ''n2'' ''9'')) 7)) =
     ResRegister \<lparr>rr_Err = None, rr_PID = demoPID ''n2'' ''9'', rr_ExistingPID = noPID, rr_ResolvedPID = demoPID ''n1'' ''1'',
       rr_FenceToken = 7, rr_State = 0\<rparr>"
proof -
  have "gr_inv reservedState"
    unfolding reservedState_def by (rule registerPending_inv [OF newShardedState_inv])
  from resolved_against_pending [OF _ this, of "demoCmd CmdRegister ''a'' (demoPID ''n2'' ''9'')" _ "\<lambda>_ _ incoming. incoming" 7]
  show ?thesis
    by (simp add: reservedState_def registerPending_def newShardedState_def shard_of_def demoCmd_def demoPID_def)
qed

text \<open>
  A retry of a Strong registration by its own process is refused while the first attempt is pending,
  unless the command carries the first attempt's epoch: the epoch defaults to the log index.
\<close>

lemma pending_retry_conflicts:
  assumes inv: "gr_inv s" and p: "ss_pending s (gc_Name cmd) = Some e" "pe_PID e = gc_PID cmd"
    and later: "gc_Epoch cmd = 0" "pe_Epoch e < i"
  shows "applyRegisterPending s cmd i =
    (s, ResRegister (noRegister\<lparr>rr_ExistingPID := gc_PID cmd, rr_Err := Some ErrPendingConflict\<rparr>), [])"
  using p later gr_inv_pendingD(2) [OF inv p(1)]
  by (simp add: applyRegisterPending_def Let_def registerPending_def names_at_def)

end
