(* ===== verification/Gossip.thy ===== *)
theory Gossip
  imports Prelude "HOL-Library.Product_Lexorder"
begin

text \<open>
  What the two gossip planes of the runtime share: the little-endian layout of
  \<^verbatim>\<open>encoding/binary\<close>, frames of concatenated deltas, caches that keep the newest delta of each key,
  and the packing of a queue of deltas into frames under a byte budget. The interfaces are locales;
  the replicated set of \<^verbatim>\<open>system/crdt\<close> and the binding cache of the global name registry
  interpret them.
\<close>

section \<open>Little-endian integers\<close>

primrec to_le :: "nat \<Rightarrow> nat \<Rightarrow> byte list" where
  "to_le 0 v = []"
| "to_le (Suc n) v = word_of_nat v # to_le n (v div 256)"

primrec le_nat :: "byte list \<Rightarrow> nat" where
  "le_nat [] = 0"
| "le_nat (b # bs) = unat b + 256 * le_nat bs"

lemma length_to_le [simp]: "length (to_le n v) = n"
  by (induction n arbitrary: v) auto

lemma le_nat_to_le [simp]: "le_nat (to_le n v) = v mod 256 ^ n"
proof (induction n arbitrary: v)
  case (Suc n)
  have "unat (word_of_nat v :: byte) = v mod 256" by (simp add: unat_of_nat)
  then show ?case by (simp add: Suc mod_mult2_eq)
qed simp

abbreviation le16 :: "nat \<Rightarrow> byte list" where "le16 v \<equiv> to_le 2 v"
abbreviation le32 :: "nat \<Rightarrow> byte list" where "le32 v \<equiv> to_le 4 v"
abbreviation le64 :: "u64 \<Rightarrow> byte list" where "le64 v \<equiv> to_le 8 (unat v)"

lemma word_of_le64 [simp]: "(word_of_nat (le_nat (le64 v)) :: u64) = v"
  by simp

section \<open>Frames\<close>

locale frame_codec =
  fixes enc :: "'a \<Rightarrow> byte list" and ok :: "'a \<Rightarrow> bool" and frame :: "byte list \<Rightarrow> 'a list \<times> 'e option"
  assumes frame_Nil: "frame [] = ([], None)"
    and frame_step: "ok x \<Longrightarrow> frame (enc x @ rest) = (x # fst (frame rest), snd (frame rest))"
begin

lemma frame_concat: "list_all ok xs \<Longrightarrow> frame (concat (map enc xs)) = (xs, None)"
  by (induction xs) (auto simp: frame_Nil frame_step)

text \<open>Frames of a packed queue: decoding each and joining gives the deltas in order.\<close>

lemma frames_concat:
  assumes "list_all (list_all ok) xss"
  shows "concat (map (fst \<circ> frame) (map (\<lambda>xs. concat (map enc xs)) xss)) = concat xss"
  using assms by (induction xss) (auto simp: frame_concat)

end

section \<open>Newest-wins caches\<close>

text \<open>
  A cache that replaces the entry of a key exactly when the incoming delta ranks higher ends with a
  delta of the highest rank for each key, in whatever order the deltas come. The rule only has to
  hold between entries that \<open>agree\<close>: a merge that does not follow the rank on every pair still
  follows it on histories whose deltas agree pairwise.
\<close>

locale newest_wins =
  fixes key :: "'d \<Rightarrow> 'k" and val :: "'d \<Rightarrow> 'e" and rank :: "'e \<Rightarrow> 'r::linorder"
    and agree :: "'e \<Rightarrow> 'e \<Rightarrow> bool" and merge :: "'d \<Rightarrow> ('k \<rightharpoonup> 'e) \<Rightarrow> ('k \<rightharpoonup> 'e)"
  assumes merge_new: "m (key d) = None \<Longrightarrow> merge d m = m(key d \<mapsto> val d)"
    and merge_old: "m (key d) = Some e \<Longrightarrow> agree e (val d) \<Longrightarrow>
      merge d m = (if rank e < rank (val d) then m(key d \<mapsto> val d) else m)"
    and merge_other: "k \<noteq> key d \<Longrightarrow> merge d m k = m k"
begin

definition coherent :: "'d list \<Rightarrow> bool" where
  "coherent ds \<longleftrightarrow> (\<forall>d \<in> set ds. \<forall>d' \<in> set ds. key d = key d' \<longrightarrow> agree (val d) (val d'))"

definition newest :: "'d list \<Rightarrow> ('k \<rightharpoonup> 'e) \<Rightarrow> bool" where
  "newest ds m \<longleftrightarrow> (\<forall>k. case m k of
      None \<Rightarrow> k \<notin> key ` set ds
    | Some e \<Rightarrow> (k, e) \<in> (\<lambda>d. (key d, val d)) ` set ds \<and> (\<forall>d \<in> set ds. key d = k \<longrightarrow> rank (val d) \<le> rank e))"

lemma newest_None: "newest ds m \<Longrightarrow> m k = None \<Longrightarrow> d \<in> set ds \<Longrightarrow> key d \<noteq> k"
  by (auto simp: newest_def split: option.splits dest: spec [where x = k])

lemma newest_Some:
  assumes "newest ds m" "m k = Some e"
  shows "\<exists>d \<in> set ds. key d = k \<and> val d = e" "\<And>d. d \<in> set ds \<Longrightarrow> key d = k \<Longrightarrow> rank (val d) \<le> rank e"
proof -
  have "(k, e) \<in> (\<lambda>d. (key d, val d)) ` set ds \<and> (\<forall>d \<in> set ds. key d = k \<longrightarrow> rank (val d) \<le> rank e)"
    using assms spec [OF assms(1) [unfolded newest_def], of k] by simp
  then show "\<exists>d \<in> set ds. key d = k \<and> val d = e" "\<And>d. d \<in> set ds \<Longrightarrow> key d = k \<Longrightarrow> rank (val d) \<le> rank e"
    by auto
qed

lemma newest_merge:
  assumes new: "newest ds m" and coh: "coherent (ds @ [d])"
  shows "newest (ds @ [d]) (merge d m)"
  unfolding newest_def
proof
  fix k
  have k: "case m k of None \<Rightarrow> k \<notin> key ` set ds
    | Some e \<Rightarrow> (k, e) \<in> (\<lambda>d. (key d, val d)) ` set ds \<and> (\<forall>d \<in> set ds. key d = k \<longrightarrow> rank (val d) \<le> rank e)"
    using new by (simp add: newest_def)
  show "case merge d m k of None \<Rightarrow> k \<notin> key ` set (ds @ [d])
    | Some e \<Rightarrow> (k, e) \<in> (\<lambda>d. (key d, val d)) ` set (ds @ [d]) \<and>
        (\<forall>d' \<in> set (ds @ [d]). key d' = k \<longrightarrow> rank (val d') \<le> rank e)"
  proof (cases "k = key d")
    case True
    show ?thesis
    proof (cases "m k")
      case None
      with k have "key d' \<noteq> k" if "d' \<in> set ds" for d' using that by auto
      with None True show ?thesis by (auto simp: merge_new)
    next
      case (Some e)
      with k obtain d' where "d' \<in> set ds" "key d' = k" "val d' = e" by auto
      with coh True have "agree e (val d)" by (auto simp: coherent_def)
      with merge_old [of m d e] k Some True show ?thesis by (auto simp: image_iff)
    qed
  next
    case False
    with k show ?thesis by (cases "m k") (auto simp: merge_other)
  qed
qed

lemma newest_fold: "coherent ds \<Longrightarrow> newest ds (fold merge ds Map.empty)"
proof (induction ds rule: rev_induct)
  case Nil
  show ?case by (simp add: newest_def)
next
  case (snoc d ds)
  then have "coherent ds" by (simp add: coherent_def)
  from newest_merge [OF snoc.IH [OF this] snoc.prems] show ?case by simp
qed

text \<open>Where deltas of one key and one rank carry the same observation the order does not matter.\<close>

lemma newest_unique:
  assumes m: "newest ds m" and m': "newest ds' m'"
    and same: "(\<lambda>d. (key d, f (val d))) ` set ds = (\<lambda>d. (key d, f (val d))) ` set ds'"
    and f: "\<And>e e'. f e = f e' \<Longrightarrow> rank e = rank e'"
    and g: "\<And>d d'. d \<in> set ds \<Longrightarrow> d' \<in> set ds \<Longrightarrow> key d = key d' \<Longrightarrow> rank (val d) = rank (val d') \<Longrightarrow> f (val d) = f (val d')"
  shows "map_option f (m k) = map_option f (m' k)"
proof -
  have to: "\<exists>d \<in> set ds. key d = key d' \<and> f (val d) = f (val d')" if "d' \<in> set ds'" for d'
  proof -
    have "(key d', f (val d')) \<in> (\<lambda>d. (key d, f (val d))) ` set ds" unfolding same using that by (rule imageI)
    then show ?thesis by auto
  qed
  have fro: "\<exists>d' \<in> set ds'. key d' = key d \<and> f (val d') = f (val d)" if "d \<in> set ds" for d
  proof -
    have "(key d, f (val d)) \<in> (\<lambda>d. (key d, f (val d))) ` set ds'" unfolding same [symmetric] using that by (rule imageI)
    then show ?thesis by auto
  qed
  show ?thesis
  proof (cases "m k")
    case None
    have "m' k = None"
    proof (cases "m' k")
      case (Some e')
      then obtain d' where "d' \<in> set ds'" "key d' = k" using newest_Some(1) [OF m'] by blast
      with to [of d'] newest_None [OF m None] show ?thesis by blast
    qed
    with None show ?thesis by simp
  next
    case (Some e)
    obtain d where d: "d \<in> set ds" "key d = k" "val d = e" using newest_Some(1) [OF m Some] by blast
    obtain d' where d': "d' \<in> set ds'" "key d' = k" "f (val d') = f e" using fro [OF d(1)] d by blast
    obtain e' where S': "m' k = Some e'" using newest_None [OF m' _ d'(1)] d'(2) by (cases "m' k") auto
    obtain c' where c': "c' \<in> set ds'" "key c' = k" "val c' = e'" using newest_Some(1) [OF m' S'] by blast
    obtain c where c: "c \<in> set ds" "key c = k" "f (val c) = f e'" using to [OF c'(1)] c' by blast
    have "rank (val c) \<le> rank e" by (rule newest_Some(2) [OF m Some c(1,2)])
    moreover have "rank (val d') \<le> rank e'" by (rule newest_Some(2) [OF m' S' d'(1,2)])
    ultimately have "rank (val c) = rank e" using f [OF c(3)] f [OF d'(3)] by simp
    then have "f (val c) = f e" using g [OF c(1) d(1)] c(2) d(2,3) by simp
    with c(3) Some S' show ?thesis by simp
  qed
qed

end

section \<open>Packing a queue into frames\<close>

record packing =
  pk_frames :: "byte list list"
  pk_frame :: "byte list"
  pk_emitted :: int
  pk_commit :: "nat list"
  pk_pending :: "nat list"
  pk_skip :: "nat list"

definition emptyPacking :: packing where
  "emptyPacking = \<lparr>pk_frames = [], pk_frame = [], pk_emitted = 0, pk_commit = [], pk_pending = [], pk_skip = []\<rparr>"

definition flushFrame :: "int \<Rightarrow> int \<Rightarrow> packing \<Rightarrow> packing \<times> bool" where
  "flushFrame headerOverhead byteBudget pk =
     (if length (pk_frame pk) = 0 then (pk, True)
      else
        let cost = int (length (pk_frame pk)) + headerOverhead
        in if pk_emitted pk + cost > byteBudget then (pk, False)
           else (pk\<lparr>pk_frames := pk_frames pk @ [pk_frame pk], pk_emitted := pk_emitted pk + cost,
                   pk_commit := pk_commit pk @ pk_pending pk, pk_pending := [], pk_frame := []\<rparr>, True))"

text \<open>What stays queued: the positions neither committed nor skipped.\<close>

definition keepQueue :: "packing \<Rightarrow> 'a list \<Rightarrow> 'a list" where
  "keepQueue pk q =
     (if length (pk_commit pk) = 0 \<and> length (pk_skip pk) = 0 then q
      else map snd (filter (\<lambda>(i, e). \<not> (i \<in> set (pk_commit pk) \<or> i \<in> set (pk_skip pk))) (enumerate 0 q)))"

definition perFrame :: "int \<Rightarrow> int \<Rightarrow> int" where
  "perFrame maxFrame headerOverhead = (if maxFrame - headerOverhead < 64 then 64 else maxFrame - headerOverhead)"

definition budgetOf :: "int \<Rightarrow> int \<Rightarrow> int" where
  "budgetOf maxFrame byteBudget = (if byteBudget \<le> 0 then maxFrame else byteBudget)"

lemma filter_enumerate_drop: "map snd (filter (\<lambda>(j, e). \<not> j < i) (enumerate 0 q)) = drop i q"
proof (induction q rule: rev_induct)
  case (snoc x q)
  then show ?case by (simp add: enumerate_append_eq)
qed simp

lemma filter_nth_take: "i \<le> length q \<Longrightarrow> map ((!) q) (filter (\<lambda>j. P (q ! j)) [0..<i]) = filter P (take i q)"
proof (induction i)
  case (Suc i)
  then show ?case by (simp add: take_Suc_conv_app_nth)
qed simp

lemma drop_Cons_nth: "drop i q = x # xs \<Longrightarrow> i < length q \<and> q ! i = x \<and> drop (Suc i) q = xs"
  by (metis Cons_nth_drop_Suc drop_eq_Nil list.inject list.distinct(1) not_le)

lemma keepQueue_map: "keepQueue pk (map f q) = map f (keepQueue pk q)"
proof -
  have e: "enumerate n (map f q) = map (\<lambda>(i, e). (i, f e)) (enumerate n q)" for n
    by (induction q arbitrary: n) auto
  show ?thesis by (simp add: keepQueue_def e filter_map comp_def case_prod_beta')
qed

locale delta_queue =
  fixes enc :: "'a \<Rightarrow> byte list option"
  assumes enc_nonempty: "enc x = Some b \<Longrightarrow> b \<noteq> []"
begin

text \<open>A delta that can be sent: it encodes and fits a frame on its own.\<close>

definition sendable :: "int \<Rightarrow> 'a \<Rightarrow> bool" where
  "sendable lim x \<longleftrightarrow> (\<exists>b. enc x = Some b \<and> int (length b) \<le> lim)"

definition wire :: "'a list \<Rightarrow> byte list" where
  "wire xs = concat (map (\<lambda>x. the (enc x)) xs)"

definition pack_inv :: "int \<Rightarrow> int \<Rightarrow> int \<Rightarrow> 'a list \<Rightarrow> nat \<Rightarrow> packing \<Rightarrow> bool" where
  "pack_inv lim hdr budget q i pk \<longleftrightarrow>
     i \<le> length q \<and>
     pk_commit pk @ pk_pending pk = filter (\<lambda>j. sendable lim (q ! j)) [0..<i] \<and>
     pk_skip pk = filter (\<lambda>j. \<not> sendable lim (q ! j)) [0..<i] \<and>
     (\<exists>gs. pk_frames pk = map wire gs \<and> concat gs = map ((!) q) (pk_commit pk)) \<and>
     pk_frame pk = wire (map ((!) q) (pk_pending pk)) \<and>
     pk_emitted pk = (\<Sum>f \<leftarrow> pk_frames pk. int (length f) + hdr) \<and>
     (pk_frames pk \<noteq> [] \<longrightarrow> pk_emitted pk \<le> budget) \<and>
     (pk_frame pk \<noteq> [] \<longrightarrow> pk_emitted pk + int (length (pk_frame pk)) + hdr \<le> budget) \<and>
     int (length (pk_frame pk)) \<le> lim \<and>
     list_all (\<lambda>f. int (length f) \<le> lim) (pk_frames pk)"

lemma pack_start: "0 \<le> lim \<Longrightarrow> pack_inv lim hdr budget q 0 emptyPacking"
  by (simp add: pack_inv_def emptyPacking_def wire_def)

lemma pack_skip:
  assumes "pack_inv lim hdr budget q i pk" "i < length q" "\<not> sendable lim (q ! i)"
  shows "pack_inv lim hdr budget q (Suc i) (pk\<lparr>pk_skip := pk_skip pk @ [i]\<rparr>)"
  using assms unfolding pack_inv_def by (elim conjE, intro conjI) simp_all

lemma wire_append [simp]: "wire (xs @ ys) = wire xs @ wire ys"
  by (simp add: wire_def)

lemma pack_push:
  assumes inv: "pack_inv lim hdr budget q i pk" and i: "i < length q" and b: "enc (q ! i) = Some b"
    and fit: "int (length (pk_frame pk)) + int (length b) \<le> lim"
      "pk_emitted pk + int (length (pk_frame pk)) + int (length b) + hdr \<le> budget"
  shows "pack_inv lim hdr budget q (Suc i) (pk\<lparr>pk_frame := pk_frame pk @ b, pk_pending := pk_pending pk @ [i]\<rparr>)"
proof -
  have "sendable lim (q ! i)" using b fit(1) by (auto simp: sendable_def)
  moreover have "wire [q ! i] = b" using b by (simp add: wire_def)
  ultimately show ?thesis
    using inv i fit unfolding pack_inv_def by (elim conjE, intro conjI) simp_all
qed

lemma pack_pending_empty:
  assumes inv: "pack_inv lim hdr budget q i pk" and e: "pk_frame pk = []"
  shows "pk_pending pk = []"
proof (rule ccontr)
  assume "pk_pending pk \<noteq> []"
  then obtain j js where j: "pk_pending pk = j # js" by (cases "pk_pending pk") auto
  have "set (pk_commit pk @ pk_pending pk) = set (filter (\<lambda>j. sendable lim (q ! j)) [0..<i])"
    using inv unfolding pack_inv_def by metis
  then have "sendable lim (q ! j)" by (auto simp: j)
  then obtain b where "enc (q ! j) = Some b" by (auto simp: sendable_def)
  then have "wire (map ((!) q) (pk_pending pk)) \<noteq> []"
    using enc_nonempty [of "q ! j" b] by (simp add: j wire_def)
  with inv e show False by (simp add: pack_inv_def)
qed

lemma pack_flush:
  assumes inv: "pack_inv lim hdr budget q i pk"
  shows "\<exists>pk'. flushFrame hdr budget pk = (pk', True) \<and> pack_inv lim hdr budget q i pk' \<and>
    pk_frame pk' = [] \<and> pk_pending pk' = []"
proof (cases "pk_frame pk = []")
  case True
  then show ?thesis using inv pack_pending_empty [OF inv True] by (simp add: flushFrame_def)
next
  case False
  let ?pk = "pk\<lparr>pk_frames := pk_frames pk @ [pk_frame pk],
      pk_emitted := pk_emitted pk + (int (length (pk_frame pk)) + hdr),
      pk_commit := pk_commit pk @ pk_pending pk, pk_pending := [], pk_frame := []\<rparr>"
  have "pk_emitted pk + (int (length (pk_frame pk)) + hdr) \<le> budget"
    using inv False unfolding pack_inv_def by (elim conjE) (simp only: add.assoc simp_thms)
  then have f: "flushFrame hdr budget pk = (?pk, True)"
    using False by (simp add: flushFrame_def Let_def)
  obtain gs where gs: "pk_frames pk = map wire gs" "concat gs = map ((!) q) (pk_commit pk)"
    using inv by (auto simp: pack_inv_def)
  have fr: "pk_frame pk = wire (map ((!) q) (pk_pending pk))"
    using inv unfolding pack_inv_def by (elim conjE)
  have "\<exists>gs. pk_frames ?pk = map wire gs \<and> concat gs = map ((!) q) (pk_commit ?pk)"
    using gs fr by (intro exI [of _ "gs @ [map ((!) q) (pk_pending pk)]"]) simp
  then have "pack_inv lim hdr budget q i ?pk"
    using inv False unfolding pack_inv_def by (elim conjE, intro conjI) (simp_all add: wire_def)
  with f show ?thesis by simp
qed

lemma pack_done:
  assumes inv: "pack_inv lim hdr budget q i pk" and e: "pk_pending pk = []"
  shows "keepQueue pk q = drop i q"
    and "\<exists>gs. pk_frames pk = map wire gs \<and> concat gs = filter (sendable lim) (take i q)"
    and "pk_frames pk \<noteq> [] \<Longrightarrow> (\<Sum>f \<leftarrow> pk_frames pk. int (length f) + hdr) \<le> budget"
    and "list_all (\<lambda>f. int (length f) \<le> lim) (pk_frames pk)"
proof -
  have i: "i \<le> length q" and c: "pk_commit pk = filter (\<lambda>j. sendable lim (q ! j)) [0..<i]"
    and k: "pk_skip pk = filter (\<lambda>j. \<not> sendable lim (q ! j)) [0..<i]"
    using inv e by (simp_all add: pack_inv_def)
  have "set (pk_commit pk) \<union> set (pk_skip pk) = {..<i}" by (auto simp: c k)
  then have mem: "j \<in> set (pk_commit pk) \<or> j \<in> set (pk_skip pk) \<longleftrightarrow> j < i" for j by blast
  show "keepQueue pk q = drop i q"
  proof (cases "pk_commit pk = [] \<and> pk_skip pk = []")
    case True
    with mem have "i = 0" by (metis empty_iff list.set(1) not_gr_zero)
    with True show ?thesis by (simp add: keepQueue_def)
  next
    case False
    then show ?thesis by (auto simp: keepQueue_def mem filter_enumerate_drop)
  qed
  have "map ((!) q) (pk_commit pk) = filter (sendable lim) (take i q)"
    unfolding c using i by (simp add: filter_nth_take)
  then show "\<exists>gs. pk_frames pk = map wire gs \<and> concat gs = filter (sendable lim) (take i q)"
    using inv unfolding pack_inv_def by metis
  show "pk_frames pk \<noteq> [] \<Longrightarrow> (\<Sum>f \<leftarrow> pk_frames pk. int (length f) + hdr) \<le> budget"
    and "list_all (\<lambda>f. int (length f) \<le> lim) (pk_frames pk)"
    using inv unfolding pack_inv_def by metis+
qed

lemma pack_finish:
  assumes inv: "pack_inv lim hdr budget q i pk" and "0 \<le> budget"
  obtains pk' gs where "flushFrame hdr budget pk = (pk', True)" "keepQueue pk' q = drop i q" "pk_frames pk' = map wire gs"
    "concat gs = filter (sendable lim) (take i q)" "(\<Sum>f \<leftarrow> pk_frames pk'. int (length f) + hdr) \<le> budget"
    "list_all (\<lambda>f. int (length f) \<le> lim) (pk_frames pk')"
proof -
  obtain pk' where pk: "flushFrame hdr budget pk = (pk', True)" "pack_inv lim hdr budget q i pk'" "pk_pending pk' = []"
    using pack_flush [OF inv] by blast
  note D = pack_done [OF pk(2,3)]
  obtain gs where "pk_frames pk' = map wire gs" "concat gs = filter (sendable lim) (take i q)" using D(2) by blast
  moreover have "(\<Sum>f \<leftarrow> pk_frames pk'. int (length f) + hdr) \<le> budget"
    using D(3) assms(2) by (cases "pk_frames pk' = []") simp_all
  ultimately show ?thesis using that pk(1) D(1,4) by blast
qed

end

end
