(* ===== verification/Global_Dissem.thy ===== *)
theory Global_Dissem
  imports Global_Fsm Gossip
begin

text \<open>
  The read plane of the global name registry,
  \<^verbatim>\<open>src/system/topology/namereg/global/dissem.go\<close>: a cache of active bindings on every node, fed by
  the binding events of the state machine and by gossip, newest raft index wins; the wire format of a
  binding; the packing of the broadcast queue into frames. The last sections compose it with the
  state machine: whatever the order and duplication of gossip, a cache that has received every
  binding event answers lookups as the registry does.
\<close>

section \<open>State\<close>

definition dissemQueueCap :: nat where "dissemQueueCap = 4096"
definition dissemMaxFrameBytes :: int where "dissemMaxFrameBytes = 1400"
definition tombstoneWallFloor :: i64 where "tombstoneWallFloor = 0"

record bindingEntry =
  bn_PID :: PID
  bn_RaftIndex :: u64
  bn_Wall :: i64
  bn_Deleted :: bool

record bindingDelta =
  bd_PID :: PID
  bd_Name :: string
  bd_RaftIndex :: u64
  bd_Wall :: i64
  bd_Deleted :: bool

record Dissem =
  ds_cache :: "string \<rightharpoonup> bindingEntry"
  ds_localNode :: string
  ds_queue :: "bindingDelta list"
  ds_tombstoneRetention :: i64
  ds_qDropped :: u64

definition WithTombstoneRetention :: "i64 \<Rightarrow> Dissem \<Rightarrow> Dissem" where
  "WithTombstoneRetention retention d = (if sint retention > 0 then d\<lparr>ds_tombstoneRetention := retention\<rparr> else d)"

definition NewDissem :: "string \<Rightarrow> (Dissem \<Rightarrow> Dissem) list \<Rightarrow> Dissem" where
  "NewDissem localNode opts = fold (\<lambda>opt d. opt d) opts
     \<lparr>ds_cache = Map.empty, ds_localNode = localNode, ds_queue = [], ds_tombstoneRetention = tombstoneWallFloor, ds_qDropped = 0\<rparr>"

section \<open>The cache\<close>

definition Dissem_Lookup :: "Dissem \<Rightarrow> string \<Rightarrow> PID option" where
  "Dissem_Lookup d name =
     (case ds_cache d name of None \<Rightarrow> None | Some e \<Rightarrow> if bn_Deleted e then None else Some (bn_PID e))"

definition CachedIndex :: "Dissem \<Rightarrow> string \<Rightarrow> u64" where
  "CachedIndex d name = (case ds_cache d name of Some e \<Rightarrow> bn_RaftIndex e | None \<Rightarrow> 0)"

definition CacheSize :: "Dissem \<Rightarrow> nat" where
  "CacheSize d = card (dom (ds_cache d))"

definition bd_entry :: "bindingDelta \<Rightarrow> bindingEntry" where
  "bd_entry i = \<lparr>bn_PID = bd_PID i, bn_RaftIndex = bd_RaftIndex i, bn_Wall = bd_Wall i, bn_Deleted = bd_Deleted i\<rparr>"

definition dissem_merge :: "bindingDelta \<Rightarrow> Dissem \<Rightarrow> Dissem \<times> bool" where
  "dissem_merge delta d =
     (let put = (d\<lparr>ds_cache := (ds_cache d)(bd_Name delta \<mapsto> bd_entry delta)\<rparr>, True)
      in case ds_cache d (bd_Name delta) of
           None \<Rightarrow> put
         | Some existing \<Rightarrow>
             if bd_RaftIndex delta < bn_RaftIndex existing then (d, False)
             else if bd_RaftIndex delta = bn_RaftIndex existing \<and> (\<not> bn_Deleted existing \<or> bd_Deleted delta)
             then (d, False)
             else put)"

definition enqueue :: "bindingDelta \<Rightarrow> Dissem \<Rightarrow> Dissem" where
  "enqueue delta d =
     (let d = (if length (ds_queue d) \<ge> dissemQueueCap
               then d\<lparr>ds_queue := tl (ds_queue d), ds_qDropped := ds_qDropped d + 1\<rparr> else d)
      in d\<lparr>ds_queue := ds_queue d @ [delta]\<rparr>)"

definition event_delta :: "i64 \<Rightarrow> BindingEvent \<Rightarrow> bindingDelta" where
  "event_delta wall ev = \<lparr>bd_PID = bev_PID ev, bd_Name = bev_Name ev, bd_RaftIndex = bev_RaftIndex ev,
     bd_Wall = wall, bd_Deleted = bev_Deleted ev\<rparr>"

definition LeaderBroadcast :: "i64 \<Rightarrow> BindingEvent \<Rightarrow> Dissem \<Rightarrow> Dissem" where
  "LeaderBroadcast now ev d = (let delta = event_delta now ev in enqueue delta (fst (dissem_merge delta d)))"

definition LocalApply :: "i64 \<Rightarrow> BindingEvent \<Rightarrow> Dissem \<Rightarrow> Dissem" where
  "LocalApply now ev d = fst (dissem_merge (event_delta now ev) d)"

definition SeedFromSnapshot :: "i64 \<Rightarrow> string \<Rightarrow> PID \<Rightarrow> u64 \<Rightarrow> Dissem \<Rightarrow> Dissem" where
  "SeedFromSnapshot now name p raftIndex d =
     fst (dissem_merge \<lparr>bd_PID = p, bd_Name = name, bd_RaftIndex = raftIndex, bd_Wall = now, bd_Deleted = False\<rparr> d)"

definition sweepTombstones :: "i64 \<Rightarrow> Dissem \<Rightarrow> Dissem \<times> nat" where
  "sweepTombstones nowNano d =
     (if sint (ds_tombstoneRetention d) \<le> 0 then (d, 0)
      else
        let floor = nowNano - ds_tombstoneRetention d;
            due = {n. \<exists>e. ds_cache d n = Some e \<and> bn_Deleted e \<and> sint (bn_Wall e) < sint floor}
        in (d\<lparr>ds_cache := ds_cache d |` (- due)\<rparr>, card due))"

record DigestEntry =
  de_Name :: string
  de_RaftIndex :: u64
  de_Deleted :: bool

definition DigestSnapshot :: "(string set \<Rightarrow> string list) \<Rightarrow> Dissem \<Rightarrow> DigestEntry list" where
  "DigestSnapshot it d =
     List.map_filter (\<lambda>n. map_option (\<lambda>e. \<lparr>de_Name = n, de_RaftIndex = bn_RaftIndex e, de_Deleted = bn_Deleted e\<rparr>)
       (ds_cache d n)) (it (dom (ds_cache d)))"

section \<open>The wire format\<close>

datatype dissem_error = nameTooLong | pidTooLong | shortHeader | shortName | shortNode | shortHost | shortUniq

definition encodeBindingDelta :: "byte list \<Rightarrow> bindingDelta \<Rightarrow> dissem_error + byte list" where
  "encodeBindingDelta buf d =
     (if length (bd_Name d) > 65535 then Inl nameTooLong
      else if length (p_Node (bd_PID d)) > 255 \<or> length (p_Host (bd_PID d)) > 255 \<or> length (p_UniqID (bd_PID d)) > 65535
      then Inl pidTooLong
      else
        let flags = (if bd_Deleted d then 1 else 0)
        in Inr (buf @ [flags] @ le64 (bd_RaftIndex d) @ le64 (bd_Wall d) @
             le16 (length (bd_Name d)) @ bytes_of (bd_Name d) @
             [word_of_nat (length (p_Node (bd_PID d)))] @ bytes_of (p_Node (bd_PID d)) @
             [word_of_nat (length (p_Host (bd_PID d)))] @ bytes_of (p_Host (bd_PID d)) @
             le16 (length (p_UniqID (bd_PID d))) @ bytes_of (p_UniqID (bd_PID d))))"

definition decodeBindingDelta :: "byte list \<Rightarrow> dissem_error + (bindingDelta \<times> nat)" where
  "decodeBindingDelta data =
     (if length data < 1 + 8 + 8 + 2 then Inl shortHeader
      else
        let pos = 0; flags = data ! pos; pos = pos + 1;
            raftIndex = word_of_nat (le_nat (go_slice data pos (pos + 8))); pos = pos + 8;
            wall = word_of_nat (le_nat (go_slice data pos (pos + 8))); pos = pos + 8;
            nameLen = le_nat (go_slice data pos (pos + 2)); pos = pos + 2
        in if length data < pos + nameLen + 1 then Inl shortName
           else
             let name = string_of (go_slice data pos (pos + nameLen)); pos = pos + nameLen;
                 nodeLen = unat (data ! pos); pos = pos + 1
             in if length data < pos + nodeLen + 1 then Inl shortNode
                else
                  let node = string_of (go_slice data pos (pos + nodeLen)); pos = pos + nodeLen;
                      hostLen = unat (data ! pos); pos = pos + 1
                  in if length data < pos + hostLen + 2 then Inl shortHost
                     else
                       let host = string_of (go_slice data pos (pos + hostLen)); pos = pos + hostLen;
                           uniqLen = le_nat (go_slice data pos (pos + 2)); pos = pos + 2
                       in if length data < pos + uniqLen then Inl shortUniq
                          else
                            let uniq = string_of (go_slice data pos (pos + uniqLen)); pos = pos + uniqLen
                            in Inr (\<lparr>bd_PID = \<lparr>p_Node = node, p_Host = host, p_UniqID = uniq\<rparr>, bd_Name = name,
                                  bd_RaftIndex = raftIndex, bd_Wall = wall, bd_Deleted = (flags AND 1 \<noteq> 0)\<rparr>, pos))"

lemma decodeBindingDelta_pos:
  "decodeBindingDelta data = Inr (d, n) \<Longrightarrow> 0 < n \<and> n \<le> length data"
  by (auto simp: decodeBindingDelta_def Let_def split: if_splits)

function decodeBindingFrame :: "byte list \<Rightarrow> bindingDelta list \<times> dissem_error option" where
  "decodeBindingFrame data =
     (if \<not> length data > 0 then ([], None)
      else case decodeBindingDelta data of
          Inl err \<Rightarrow> ([], Some err)
        | Inr (d, n) \<Rightarrow> (let (out, err) = decodeBindingFrame (drop n data) in (d # out, err)))"
  by pat_completeness auto
termination
  by (relation "measure length") (auto dest: decodeBindingDelta_pos)

declare decodeBindingFrame.simps [simp del]

definition NotifyMsg :: "byte list \<Rightarrow> Dissem \<Rightarrow> Dissem" where
  "NotifyMsg payload d = fold (\<lambda>delta d. fst (dissem_merge delta d)) (fst (decodeBindingFrame payload)) d"

section \<open>Broadcasts\<close>

fun dissem_pack :: "int \<Rightarrow> int \<Rightarrow> int \<Rightarrow> nat \<Rightarrow> bindingDelta list \<Rightarrow> packing \<Rightarrow> packing" where
  "dissem_pack headerOverhead byteBudget perFrameLimit i [] pk = pk"
| "dissem_pack headerOverhead byteBudget perFrameLimit i (delta # q) pk =
     (case encodeBindingDelta [] delta of
        Inl _ \<Rightarrow> dissem_pack headerOverhead byteBudget perFrameLimit (Suc i) q (pk\<lparr>pk_skip := pk_skip pk @ [i]\<rparr>)
      | Inr buf \<Rightarrow>
          if int (length buf) > perFrameLimit
          then dissem_pack headerOverhead byteBudget perFrameLimit (Suc i) q (pk\<lparr>pk_skip := pk_skip pk @ [i]\<rparr>)
          else
            let room = byteBudget - pk_emitted pk - headerOverhead
            in if room \<le> 0 then pk
               else
                 let room = (if room > perFrameLimit then perFrameLimit else room)
                 in if int (length (pk_frame pk)) + int (length buf) > room
                    then
                      let (pk, flushed) = flushFrame headerOverhead byteBudget pk
                      in if \<not> flushed then pk
                         else
                           let room = byteBudget - pk_emitted pk - headerOverhead
                           in if room \<le> 0 \<or> int (length buf) > room then pk
                              else dissem_pack headerOverhead byteBudget perFrameLimit (Suc i) q
                                (pk\<lparr>pk_frame := pk_frame pk @ buf, pk_pending := pk_pending pk @ [i]\<rparr>)
                    else dissem_pack headerOverhead byteBudget perFrameLimit (Suc i) q
                      (pk\<lparr>pk_frame := pk_frame pk @ buf, pk_pending := pk_pending pk @ [i]\<rparr>))"

definition GetBroadcasts :: "int \<Rightarrow> int \<Rightarrow> Dissem \<Rightarrow> byte list list \<times> Dissem" where
  "GetBroadcasts headerOverhead byteBudget d =
     (if length (ds_queue d) = 0 then ([], d)
      else
        let perFrameLimit = perFrame dissemMaxFrameBytes headerOverhead;
            byteBudget = budgetOf dissemMaxFrameBytes byteBudget;
            pk = dissem_pack headerOverhead byteBudget perFrameLimit 0 (ds_queue d) emptyPacking;
            (pk, _) = flushFrame headerOverhead byteBudget pk
        in (pk_frames pk, d\<lparr>ds_queue := keepQueue pk (ds_queue d)\<rparr>))"

section \<open>Decoding what was encoded\<close>

definition encodable :: "bindingDelta \<Rightarrow> bool" where
  "encodable d \<longleftrightarrow> length (bd_Name d) \<le> 65535 \<and> length (p_Node (bd_PID d)) \<le> 255 \<and>
     length (p_Host (bd_PID d)) \<le> 255 \<and> length (p_UniqID (bd_PID d)) \<le> 65535"

definition delta_bytes :: "bindingDelta \<Rightarrow> byte list" where
  "delta_bytes d = [if bd_Deleted d then 1 else 0] @ le64 (bd_RaftIndex d) @ le64 (bd_Wall d) @
     le16 (length (bd_Name d)) @ bytes_of (bd_Name d) @
     [word_of_nat (length (p_Node (bd_PID d)))] @ bytes_of (p_Node (bd_PID d)) @
     [word_of_nat (length (p_Host (bd_PID d)))] @ bytes_of (p_Host (bd_PID d)) @
     le16 (length (p_UniqID (bd_PID d))) @ bytes_of (p_UniqID (bd_PID d))"

lemma encodeBindingDelta_bytes:
  "encodeBindingDelta [] d = (if encodable d then Inr (delta_bytes d) else
     if length (bd_Name d) > 65535 then Inl nameTooLong else Inl pidTooLong)"
  by (auto simp: encodeBindingDelta_def encodable_def delta_bytes_def Let_def)

lemma length_delta_bytes: "length (delta_bytes d) = 23 + length (bd_Name d) + length (p_Node (bd_PID d)) +
    length (p_Host (bd_PID d)) + length (p_UniqID (bd_PID d))"
  by (simp add: delta_bytes_def)

lemma go_slice_step: "length pre \<le> lo \<Longrightarrow> go_slice (pre @ xs) lo hi = go_slice xs (lo - length pre) (hi - length pre)"
  by (simp add: go_slice_def)

lemma go_slice_head: "hi = length mid \<Longrightarrow> go_slice (mid @ rest) 0 hi = mid"
  by (simp add: go_slice_def)

lemma nth_step: "length pre \<le> i \<Longrightarrow> (pre @ xs) ! i = xs ! (i - length pre)"
  by (simp add: nth_append)

lemma nth_head: "([x] @ xs) ! 0 = x"
  by simp

lemma small_lengths:
  assumes "encodable d"
  shows "length (bd_Name d) mod 65536 = length (bd_Name d)" "length (p_UniqID (bd_PID d)) mod 65536 = length (p_UniqID (bd_PID d))"
    "unat (word_of_nat (length (p_Node (bd_PID d))) :: byte) = length (p_Node (bd_PID d))"
    "unat (word_of_nat (length (p_Host (bd_PID d))) :: byte) = length (p_Host (bd_PID d))"
  using assms by (simp_all add: encodable_def unat_of_nat)

lemma decode_delta_bytes:
  assumes "encodable d"
  shows "decodeBindingDelta (delta_bytes d @ rest) = Inr (d, length (delta_bytes d))"
proof -
  let ?n = "bytes_of (bd_Name d)" and ?o = "bytes_of (p_Node (bd_PID d))"
  let ?h = "bytes_of (p_Host (bd_PID d))" and ?u = "bytes_of (p_UniqID (bd_PID d))"
  let ?pre = "[if bd_Deleted d then 1 else 0 :: byte]"
  define data where "data = ?pre @ le64 (bd_RaftIndex d) @ le64 (bd_Wall d) @ le16 (length (bd_Name d)) @ ?n @
     [word_of_nat (length (p_Node (bd_PID d)))] @ ?o @ [word_of_nat (length (p_Host (bd_PID d)))] @ ?h @
     le16 (length (p_UniqID (bd_PID d))) @ ?u @ rest"
  have data: "delta_bytes d @ rest = data" by (simp add: delta_bytes_def data_def)
  note S = go_slice_step go_slice_head nth_step nth_head small_lengths [OF assms]
  have F: "go_slice data 1 9 = le64 (bd_RaftIndex d)" "go_slice data 9 17 = le64 (bd_Wall d)"
    "go_slice data 17 19 = le16 (length (bd_Name d))"
    "go_slice data 19 (19 + length ?n) = ?n"
    "data ! (19 + length ?n) = word_of_nat (length (p_Node (bd_PID d)))"
    "go_slice data (20 + length ?n) (20 + length ?n + length ?o) = ?o"
    "data ! (20 + length ?n + length ?o) = word_of_nat (length (p_Host (bd_PID d)))"
    "go_slice data (21 + length ?n + length ?o) (21 + length ?n + length ?o + length ?h) = ?h"
    "go_slice data (21 + length ?n + length ?o + length ?h) (23 + length ?n + length ?o + length ?h) =
       le16 (length (p_UniqID (bd_PID d)))"
    "go_slice data (23 + length ?n + length ?o + length ?h) (23 + length ?n + length ?o + length ?h + length ?u) = ?u"
    by (simp_all add: data_def S del: append.simps)
  have L: "length data = 23 + length ?n + length ?o + length ?h + length ?u + length rest"
    and H: "data ! 0 = (if bd_Deleted d then 1 else 0)"
    by (simp_all add: data_def)
  show ?thesis
    unfolding data using F by (simp add: decodeBindingDelta_def Let_def small_lengths [OF assms] length_delta_bytes L H add.assoc)
qed

interpretation dcodec: frame_codec delta_bytes encodable decodeBindingFrame
proof
  show "decodeBindingFrame [] = ([], None)"
    by (simp add: decodeBindingFrame.simps)
  show "decodeBindingFrame (delta_bytes x @ rest) = (x # fst (decodeBindingFrame rest), snd (decodeBindingFrame rest))"
    if "encodable x" for x rest
    using decode_delta_bytes [OF that, of rest] length_delta_bytes [of x]
    by (subst decodeBindingFrame.simps) (simp add: case_prod_beta)
qed

section \<open>What a broadcast takes from the queue\<close>

definition delta_enc :: "bindingDelta \<Rightarrow> byte list option" where
  "delta_enc d = (case encodeBindingDelta [] d of Inl _ \<Rightarrow> None | Inr b \<Rightarrow> Some b)"

lemma delta_enc_Some: "delta_enc d = Some b \<longleftrightarrow> encodable d \<and> b = delta_bytes d"
  by (auto simp: delta_enc_def encodeBindingDelta_bytes)

interpretation dq: delta_queue delta_enc
  by unfold_locales (auto simp: delta_enc_Some delta_bytes_def)

lemma dissem_push:
  assumes inv: "dq.pack_inv lim hdr budget q i pk" and i: "i < length q" and e: "encodable (q ! i)"
    and fit: "int (length (pk_frame pk)) + int (length (delta_bytes (q ! i))) \<le> room" "room \<le> lim"
      "room \<le> budget - pk_emitted pk - hdr"
  shows "dq.pack_inv lim hdr budget q (Suc i)
    (pk\<lparr>pk_frame := pk_frame pk @ delta_bytes (q ! i), pk_pending := pk_pending pk @ [i]\<rparr>)"
  using fit by (intro dq.pack_push [OF inv i]) (auto simp: delta_enc_Some e)

lemma dissem_pack_inv:
  assumes "dq.pack_inv lim hdr budget q i pk" "drop i q = ds"
  shows "\<exists>j \<ge> i. dq.pack_inv lim hdr budget q j (dissem_pack hdr budget lim i ds pk)"
  using assms
proof (induction ds arbitrary: i pk)
  case (Cons x ds)
  note inv = Cons.prems(1)
  have i: "i < length q" "q ! i = x" "drop (Suc i) q = ds"
    using drop_Cons_nth [OF Cons.prems(2)] by auto
  have go: "\<exists>j \<ge> i. dq.pack_inv lim hdr budget q j (dissem_pack hdr budget lim (Suc i) ds pk')"
    if "dq.pack_inv lim hdr budget q (Suc i) pk'" for pk'
    using Cons.IH [OF that i(3)] Suc_leD by blast
  have skip: "\<not> dq.sendable lim x \<Longrightarrow> dq.pack_inv lim hdr budget q (Suc i) (pk\<lparr>pk_skip := pk_skip pk @ [i]\<rparr>)"
    using dq.pack_skip [OF inv i(1)] i(2) by simp
  have stop: "\<exists>j \<ge> i. dq.pack_inv lim hdr budget q j pk'" if "dq.pack_inv lim hdr budget q i pk'" for pk'
    using that by blast
  obtain pk1 where f: "flushFrame hdr budget pk = (pk1, True)" "dq.pack_inv lim hdr budget q i pk1" "pk_frame pk1 = []"
    using dq.pack_flush [OF inv] by blast
  show ?case
  proof (cases "encodable x \<and> int (length (delta_bytes x)) \<le> lim")
    case False
    then have "\<not> dq.sendable lim x" by (auto simp: dq.sendable_def delta_enc_Some)
    from go [OF skip [OF this]] False show ?thesis
      by (auto simp: encodeBindingDelta_bytes)
  next
    case True
    then have enc: "encodeBindingDelta [] x = Inr (delta_bytes x)" by (simp add: encodeBindingDelta_bytes)
    let ?room = "budget - pk_emitted pk - hdr"
    let ?len = "int (length (delta_bytes x))"
    consider "?room \<le> 0" | "0 < ?room" "int (length (pk_frame pk)) + ?len \<le> min ?room lim"
      | "0 < ?room" "\<not> int (length (pk_frame pk)) + ?len \<le> min ?room lim" by linarith
    then show ?thesis
    proof cases
      case 1
      with stop [OF inv] enc True show ?thesis by simp
    next
      case 2
      have p: "dq.pack_inv lim hdr budget q (Suc i) (pk\<lparr>pk_frame := pk_frame pk @ delta_bytes x, pk_pending := pk_pending pk @ [i]\<rparr>)"
        using dissem_push [OF inv i(1), of "min ?room lim"] 2 i(2) True by simp
      have "\<not> int (length (pk_frame pk)) + ?len > (if ?room > lim then lim else ?room)" using 2 by auto
      with go [OF p] 2(1) enc True show ?thesis by (simp add: Let_def)
    next
      case 3
      have n: "int (length (pk_frame pk)) + ?len > (if ?room > lim then lim else ?room)" using 3 by auto
      let ?room1 = "budget - pk_emitted pk1 - hdr"
      show ?thesis
      proof (cases "?room1 \<le> 0 \<or> ?len > ?room1")
        case True
        with stop [OF f(2)] n 3(1) enc \<open>encodable x \<and> ?len \<le> lim\<close> f(1) show ?thesis by (simp add: Let_def)
      next
        case False
        have p: "dq.pack_inv lim hdr budget q (Suc i) (pk1\<lparr>pk_frame := pk_frame pk1 @ delta_bytes x, pk_pending := pk_pending pk1 @ [i]\<rparr>)"
          using dissem_push [OF f(2) i(1), of "min ?room1 lim"] i(2) True False f(3) by simp
        with go [OF p] n 3(1) enc True False f(1) show ?thesis by (simp add: Let_def)
      qed
    qed
  qed
qed auto

definition fits :: "int \<Rightarrow> bindingDelta \<Rightarrow> bool" where
  "fits headerOverhead d \<longleftrightarrow> encodable d \<and> int (length (delta_bytes d)) \<le> perFrame dissemMaxFrameBytes headerOverhead"

lemma sendable_fits: "dq.sendable (perFrame dissemMaxFrameBytes hdr) = fits hdr"
  by (auto simp: dq.sendable_def fits_def delta_enc_Some fun_eq_iff)

lemma wire_decodes:
  assumes "frames = map dq.wire gs" "list_all (fits hdr) (concat gs)"
  shows "concat (map (fst \<circ> decodeBindingFrame) frames) = concat gs"
proof -
  have e: "list_all (list_all encodable) gs"
    using assms(2) by (auto simp: list_all_iff fits_def)
  have "map dq.wire gs = map (\<lambda>xs. concat (map delta_bytes xs)) gs"
    using e by (auto simp: dq.wire_def list_all_iff delta_enc_def encodeBindingDelta_bytes intro!: arg_cong [where f = concat])
  with dcodec.frames_concat [OF e] assms(1) show ?thesis by simp
qed

lemma GetBroadcasts_spec:
  assumes "GetBroadcasts hdr b d = (frames, d')"
  obtains i gs where "d' = d\<lparr>ds_queue := drop i (ds_queue d)\<rparr>" "frames = map dq.wire gs"
    "concat gs = filter (fits hdr) (take i (ds_queue d))"
    "(\<Sum>f \<leftarrow> frames. int (length f) + hdr) \<le> budgetOf dissemMaxFrameBytes b"
    "list_all (\<lambda>f. int (length f) \<le> perFrame dissemMaxFrameBytes hdr) frames"
proof (cases "ds_queue d = []")
  case True
  with assms have "frames = [] \<and> d' = d" by (auto simp: GetBroadcasts_def)
  with True that [of 0 "[]"] show ?thesis by (simp add: budgetOf_def dissemMaxFrameBytes_def)
next
  case False
  let ?lim = "perFrame dissemMaxFrameBytes hdr" and ?b = "budgetOf dissemMaxFrameBytes b" and ?q = "ds_queue d"
  have le: "0 \<le> ?lim" "0 \<le> ?b" by (simp_all add: perFrame_def budgetOf_def dissemMaxFrameBytes_def)
  from dissem_pack_inv [OF dq.pack_start [OF le(1), of hdr ?b ?q] drop_0]
  obtain i where "dq.pack_inv ?lim hdr ?b ?q i (dissem_pack hdr ?b ?lim 0 ?q emptyPacking)" by blast
  from dq.pack_finish [OF this le(2)] obtain pk gs where pk:
    "flushFrame hdr ?b (dissem_pack hdr ?b ?lim 0 ?q emptyPacking) = (pk, True)" "keepQueue pk ?q = drop i ?q"
    "pk_frames pk = map dq.wire gs" "concat gs = filter (fits hdr) (take i ?q)"
    "(\<Sum>f \<leftarrow> pk_frames pk. int (length f) + hdr) \<le> ?b" "list_all (\<lambda>f. int (length f) \<le> ?lim) (pk_frames pk)"
    unfolding sendable_fits by blast
  have "frames = pk_frames pk" "d' = d\<lparr>ds_queue := drop i ?q\<rparr>"
    using assms False pk(1,2) by (auto simp: GetBroadcasts_def Let_def)
  with that [of i gs] pk(3-6) show ?thesis by simp
qed

section \<open>The cache keeps the newest binding\<close>

definition dcache_merge :: "bindingDelta \<Rightarrow> (string \<rightharpoonup> bindingEntry) \<Rightarrow> (string \<rightharpoonup> bindingEntry)" where
  "dcache_merge delta c = ds_cache (fst (dissem_merge delta ((NewDissem [] [])\<lparr>ds_cache := c\<rparr>)))"

lemma ds_cache_merge: "ds_cache (fst (dissem_merge delta d)) = dcache_merge delta (ds_cache d)"
  by (auto simp: dcache_merge_def dissem_merge_def Let_def split: option.split)

definition bn_rank :: "bindingEntry \<Rightarrow> u64 \<times> bool" where
  "bn_rank e = (bn_RaftIndex e, \<not> bn_Deleted e)"

interpretation dcache: newest_wins bd_Name bd_entry bn_rank "\<lambda>_ _. True" dcache_merge
  by unfold_locales
     (auto simp: dcache_merge_def dissem_merge_def Let_def bn_rank_def bd_entry_def split: option.split)

lemma fold_NotifyMsg:
  "ds_cache (fold NotifyMsg frames d) =
     fold dcache_merge (concat (map (fst \<circ> decodeBindingFrame) frames)) (ds_cache d)"
proof (induction frames arbitrary: d)
  case (Cons f frames)
  have "ds_cache (fold (\<lambda>delta d. fst (dissem_merge delta d)) ds d) = fold dcache_merge ds (ds_cache d)" for ds
    by (induction ds arbitrary: d) (simp_all add: ds_cache_merge)
  then have "ds_cache (NotifyMsg f d) = fold dcache_merge (fst (decodeBindingFrame f)) (ds_cache d)"
    by (simp add: NotifyMsg_def)
  then show ?case by (simp add: Cons)
qed simp

section \<open>The binding events of a run\<close>

definition bindings :: "fsmEvent list \<Rightarrow> BindingEvent list" where
  "bindings evs = List.map_filter (\<lambda>ev. case ev of onBinding b \<Rightarrow> Some b | _ \<Rightarrow> None) evs"

definition setBinding :: "BindingEvent \<Rightarrow> (string \<rightharpoonup> PID) \<Rightarrow> (string \<rightharpoonup> PID)" where
  "setBinding b m = m(bev_Name b := (if bev_Deleted b then None else Some (bev_PID b)))"

lemma bindings_Cons: "bindings (ev # evs) = (case ev of onBinding b \<Rightarrow> [b] | _ \<Rightarrow> []) @ bindings evs"
  by (simp add: bindings_def List.map_filter_def split: fsmEvent.split)

lemma bindings_Nil [simp]: "bindings [] = []"
  by (simp add: bindings_def List.map_filter_def)

lemma bindings_append [simp]: "bindings (xs @ ys) = bindings xs @ bindings ys"
  by (simp add: bindings_def List.map_filter_def)

lemma fold_bindings: "fold applyBinding evs m = fold setBinding (bindings evs) m"
proof (induction evs arbitrary: m)
  case (Cons ev evs)
  then show ?case by (cases ev) (simp_all add: bindings_Cons applyBinding_def setBinding_def)
qed simp

text \<open>The events of one command: all at its index, at most one per name.\<close>

definition at_index :: "u64 \<Rightarrow> fsmEvent list \<Rightarrow> bool" where
  "at_index i evs \<longleftrightarrow> (\<forall>b \<in> set (bindings evs). bev_RaftIndex b = i) \<and> distinct (map bev_Name (bindings evs))"

lemma bindings_ev [simp]:
  "bindings (emitBinding n p i d # evs) = \<lparr>bev_Name = n, bev_PID = p, bev_RaftIndex = i, bev_Deleted = d\<rparr> # bindings evs"
  "bindings (released now n p ep why req # evs) = bindings evs"
  "bindings (onActive a # evs) = bindings evs" "bindings (onPending b # evs) = bindings evs"
  "bindings (onExpired c # evs) = bindings evs"
  by (simp_all add: bindings_Cons emitBinding_def released_def)

lemma bindings_releases [simp]: "bindings (strongReleases now why sts) = []"
  by (induction sts) (simp_all add: strongReleases_def)

lemma bindings_unreserveAll: "bindings (snd (unreserveAll now p ns s)) = []"
proof (induction ns arbitrary: s)
  case (Cons n ns)
  then show ?case by (simp add: case_prod_beta Let_def split: option.split bool.split)
qed simp

lemma bindings_removed: "bindings (map (\<lambda>(n, q). emitBinding n (f q) i True) xs) =
    map (\<lambda>(n, q). \<lparr>bev_Name = n, bev_PID = f q, bev_RaftIndex = i, bev_Deleted = True\<rparr>) xs"
  by (induction xs) auto

lemma drained_at_index:
  assumes "drained cap Q m noRemoval m' rm hit X"
  shows "at_index i (map (\<lambda>(n, q). emitBinding n (f q) i True) (rm_names rm))"
proof -
  have r: "rm_names rm = tagged m X" "distinct X"
    using assms by (simp_all add: drained_def noRemoval_def)
  have "bindings (map (\<lambda>(n, q). emitBinding n (f q) i True) (tagged m X)) =
      map (\<lambda>n. \<lparr>bev_Name = n, bev_PID = f (ne_PID (the (m n))), bev_RaftIndex = i, bev_Deleted = True\<rparr>) X"
    unfolding bindings_removed by (simp add: tagged_def comp_def)
  then show ?thesis unfolding at_index_def r(1) using r(2) by (simp add: comp_def)
qed

lemma at_index_append: "bindings xs = [] \<Longrightarrow> at_index i (xs @ ys) = at_index i ys"
  by (simp add: at_index_def)

lemma at_index_nil: "bindings xs = [] \<Longrightarrow> at_index i xs"
  by (simp add: at_index_def)

lemma applyRegister_at: "at_index i (snd (snd (applyRegister resolve s cmd i)))"
  by (simp add: applyRegister_def Let_def case_prod_beta at_index_def split: registerOutcome.split)

lemma dropActive_at: "at_index i (dropActive now why n i e)"
  by (simp add: dropActive_def at_index_def)

lemma applyRemovePID_at:
  assumes inv: "gr_inv s"
  shows "at_index i (snd (snd (applyRemovePID it now s cmd i)))"
proof -
  let ?p = "gc_PID cmd"
  let ?u = "unreserveAll now ?p (lookupPendingByPID it s ?p) s"
  obtain s2 rm where r: "removePIDWithNames (fst ?u) ?p = (s2, rm)" by (cases "removePIDWithNames (fst ?u) ?p")
  obtain X where "drained (-1) (\<lambda>_. has_key {PID_String ?p}) (names_at (fst ?u)) noRemoval (names_at s2) rm False X"
    using removePID_drained(4) [OF unreserveAll_inv [OF inv] r] by blast
  from drained_at_index [OF this, of i "\<lambda>_. ?p"] r show ?thesis
    by (simp add: applyRemovePID_def Let_def case_prod_beta at_index_append bindings_unreserveAll)
qed

lemma applyRemoveNode_at:
  assumes inv: "gr_inv s" and it: "map_order it"
  shows "at_index i (snd (snd (applyRemoveNode it now s cmd i)))"
proof (cases "ss_nodeIndex s (gc_NodeID cmd)")
  case (Some ps)
  obtain s2 rm hit where r: "removeNodeWithNames it s (gc_NodeID cmd) (gc_Limit cmd) = (s2, rm, hit)"
    by (cases "removeNodeWithNames it s (gc_NodeID cmd) (gc_Limit cmd)")
  obtain X where "drained (node_cap (gc_Limit cmd)) (\<lambda>_. has_key ps) (names_at s) noRemoval (names_at s2) rm hit X"
    using removeNode_drained(5) [OF inv it Some r] by blast
  from drained_at_index [OF this, of i "\<lambda>q. q"] show ?thesis
    by (simp add: applyRemoveNode_def r at_index_append)
qed (simp add: applyRemoveNode_def removeNode_unknown noRemoval_def at_index_nil)

lemma unregister_at:
  "at_index i (snd (snd (case r of (s, None) \<Rightarrow> (s, ResUnregister False, [])
     | (s, Some removed) \<Rightarrow> (s, ResUnregister True, dropActive now why n i removed))))"
  by (simp add: case_prod_beta dropActive_at at_index_nil split: option.split)

lemma activated_at: "at_index i (activated now cmd i p)"
  by (simp add: activated_def at_index_def)

lemma applyUnregister_at: "at_index i (snd (snd (applyUnregister now s cmd i)))"
  unfolding applyUnregister_def by (rule unregister_at)

lemma applyRegisterPending_at: "at_index i (snd (snd (applyRegisterPending s cmd i)))"
  by (simp add: applyRegisterPending_def Let_def case_prod_beta at_index_nil split: pendingOutcome.split)

lemma applyRegisterAck_at: "at_index i (snd (snd (applyRegisterAck now s cmd i)))"
  unfolding applyRegisterAck_def by (simp add: activated_at at_index_nil split: prod.split option.split)

lemma applyDropRequired_at: "at_index i (snd (snd (applyDropRequired now s cmd i)))"
  unfolding applyDropRequired_def by (simp add: activated_at at_index_nil split: prod.split option.split)

lemma applyRegisterExpired_at: "at_index i (snd (snd (applyRegisterExpired now s cmd i)))"
  by (simp add: applyRegisterExpired_def case_prod_beta at_index_nil split: option.split)

lemma applyRegisterReject_at: "at_index i (snd (snd (applyRegisterReject now s cmd i)))"
  by (simp add: applyRegisterReject_def Let_def case_prod_beta at_index_nil split: option.split)

lemma applyRegisterUnreserve_at: "at_index i (snd (snd (applyRegisterUnreserve now s cmd i)))"
  unfolding applyRegisterUnreserve_def by (simp add: dropActive_at at_index_nil split: prod.split option.split bool.split)

lemmas apply_at = applyRegister_at applyUnregister_at applyRemovePID_at applyRemoveNode_at applyRegisterPending_at
  applyRegisterAck_at applyRegisterExpired_at applyRegisterUnreserve_at applyDropRequired_at applyRegisterReject_at

lemma gr_Apply_at:
  assumes "gr_inv s" "map_order it"
  shows "at_index i (snd (snd (gr_Apply it now resolve s cmd i)))"
  using assms by (simp add: gr_Apply_def Let_def apply_at at_index_nil)

section \<open>A cache that received every binding answers as the registry\<close>

definition fresher :: "BindingEvent \<Rightarrow> BindingEvent \<Rightarrow> bool" where
  "fresher b c \<longleftrightarrow> (bev_Name b = bev_Name c \<longrightarrow> bev_RaftIndex b < bev_RaftIndex c)"

lemma distinct_fresher: "distinct (map bev_Name bs) \<Longrightarrow> sorted_wrt fresher bs"
  by (induction bs) (auto simp: fresher_def image_iff)

lemma gr_run_fresher:
  assumes "gr_inv s" "map_order it" "sorted_wrt (<) (map (fst \<circ> snd) log)"
  shows "sorted_wrt fresher (bindings (snd (gr_run it resolve s log)))"
    and "\<And>b. b \<in> set (bindings (snd (gr_run it resolve s log))) \<Longrightarrow> bev_RaftIndex b \<in> set (map (fst \<circ> snd) log)"
proof -
  have "sorted_wrt fresher (bindings (snd (gr_run it resolve s log))) \<and>
    (\<forall>b \<in> set (bindings (snd (gr_run it resolve s log))). bev_RaftIndex b \<in> set (map (fst \<circ> snd) log))"
    using assms
  proof (induction log arbitrary: s)
    case (Cons c log)
    obtain now i cmd where c: "c = (now, i, cmd)" by (cases c)
    let ?r = "gr_Apply it now resolve s cmd i"
    have at: "at_index i (snd (snd ?r))" by (rule gr_Apply_at [OF Cons.prems(1,2)])
    have "gr_inv (fst ?r)" by (rule gr_Apply_inv [OF Cons.prems(1,2)])
    from Cons.IH [OF this Cons.prems(2)] Cons.prems(3)
    have IH: "sorted_wrt fresher (bindings (snd (gr_run it resolve (fst ?r) log)))"
      "\<forall>b \<in> set (bindings (snd (gr_run it resolve (fst ?r) log))). bev_RaftIndex b \<in> set (map (fst \<circ> snd) log)"
      by simp_all
    have "fresher b b'" if "b \<in> set (bindings (snd (snd ?r)))" "b' \<in> set (bindings (snd (gr_run it resolve (fst ?r) log)))" for b b'
    proof -
      have "bev_RaftIndex b' \<in> set (map (fst \<circ> snd) log)" using IH(2) that(2) by blast
      then have "i < bev_RaftIndex b'" using Cons.prems(3) by (auto simp: c)
      then show ?thesis using at that(1) by (simp add: fresher_def at_index_def)
    qed
    moreover have "sorted_wrt fresher (bindings (snd (snd ?r)))"
      using at by (simp add: at_index_def distinct_fresher)
    ultimately show ?case
      using IH at by (auto simp: c Let_def case_prod_beta sorted_wrt_append at_index_def)
  qed simp
  then show "sorted_wrt fresher (bindings (snd (gr_run it resolve s log)))"
    and "\<And>b. b \<in> set (bindings (snd (gr_run it resolve s log))) \<Longrightarrow> bev_RaftIndex b \<in> set (map (fst \<circ> snd) log)"
    by blast+
qed

lemma fold_setBinding_other: "n \<notin> bev_Name ` set bs \<Longrightarrow> fold setBinding bs m n = m n"
  by (induction bs arbitrary: m) (auto simp: setBinding_def)

lemma fold_setBinding_last:
  assumes "sorted_wrt fresher bs" "b \<in> set bs" "\<And>c. c \<in> set bs \<Longrightarrow> bev_Name c = bev_Name b \<Longrightarrow> bev_RaftIndex c \<le> bev_RaftIndex b"
  shows "fold setBinding bs m (bev_Name b) = (if bev_Deleted b then None else Some (bev_PID b))"
proof -
  obtain xs ys where bs: "bs = xs @ b # ys" using split_list [OF assms(2)] by blast
  have "bev_Name c \<noteq> bev_Name b" if "c \<in> set ys" for c
    using assms(1,3) that by (force simp: bs sorted_wrt_append fresher_def)
  then have "bev_Name b \<notin> bev_Name ` set ys" by force
  then show ?thesis by (simp add: bs fold_setBinding_other) (simp add: setBinding_def)
qed

definition walls_off :: "bindingDelta \<Rightarrow> bindingDelta" where
  "walls_off d = d\<lparr>bd_Wall := 0\<rparr>"

lemma cache_of_bindings:
  assumes bs: "sorted_wrt fresher bs" and all: "walls_off ` set ds = event_delta 0 ` set bs"
  shows "(case fold dcache_merge ds Map.empty n of None \<Rightarrow> None | Some e \<Rightarrow> if bn_Deleted e then None else Some (bn_PID e)) =
    fold setBinding bs Map.empty n"
proof -
  have "dcache.coherent ds" by (simp add: dcache.coherent_def)
  note N = dcache.newest_fold [OF this]
  have to: "\<exists>b \<in> set bs. walls_off d = event_delta 0 b" if "d \<in> set ds" for d
    using imageI [OF that, of walls_off] unfolding all by auto
  have fro: "\<exists>d \<in> set ds. walls_off d = event_delta 0 b" if "b \<in> set bs" for b
    using imageI [OF that, of "event_delta 0"] unfolding all [symmetric] by (metis imageE)
  have eqs: "bd_Name d = bev_Name b" "bd_entry d = \<lparr>bn_PID = bev_PID b, bn_RaftIndex = bev_RaftIndex b, bn_Wall = bd_Wall d,
      bn_Deleted = bev_Deleted b\<rparr>" if "walls_off d = event_delta 0 b" for d b
    using that by (cases d; simp add: walls_off_def event_delta_def bd_entry_def)+
  show ?thesis
  proof (cases "fold dcache_merge ds Map.empty n")
    case None
    have "n \<notin> bev_Name ` set bs"
      using dcache.newest_None [OF N None] fro eqs(1) by (metis imageE)
    with None show ?thesis by (simp add: fold_setBinding_other)
  next
    case (Some e)
    obtain d where d: "d \<in> set ds" "bd_Name d = n" "bd_entry d = e" using dcache.newest_Some(1) [OF N Some] by blast
    obtain b where b: "b \<in> set bs" "walls_off d = event_delta 0 b" using to [OF d(1)] by blast
    have "bev_RaftIndex c \<le> bev_RaftIndex b" if c: "c \<in> set bs" "bev_Name c = bev_Name b" for c
    proof -
      obtain d' where d': "d' \<in> set ds" "walls_off d' = event_delta 0 c" using fro [OF c(1)] by blast
      have "bn_rank (bd_entry d') \<le> bn_rank e"
        using dcache.newest_Some(2) [OF N Some d'(1)] eqs(1) [OF d'(2)] eqs(1) [OF b(2)] c(2) d(2) by simp
      then show ?thesis
        using eqs(2) [OF d'(2)] eqs(2) [OF b(2)] d(3) by (auto simp: bn_rank_def less_eq_prod_def)
    qed
    from fold_setBinding_last [OF bs b(1) this] eqs [OF b(2)] d Some show ?thesis by simp
  qed
qed


text \<open>
  C30. A node that received the binding events of a run of the registry only by gossip - in any order,
  cut into frames in any way, each event any number of times - answers every lookup from its cache as the
  registry itself does: tombstones and re-registrations sort themselves out by raft index, whatever the
  wall clocks of the senders were.
\<close>

theorem cache_converges:
  fixes log :: "(i64 \<times> u64 \<times> grCommand) list" and node :: string
  defines "run \<equiv> \<lambda>it. gr_run it DefaultResolve newShardedState log"
  assumes "map_order it" "sorted_wrt (<) (map (fst \<circ> snd) log)"
    and "walls_off ` set (concat (map (fst \<circ> decodeBindingFrame) frames)) = event_delta 0 ` set (bindings (snd (run it)))"
  shows "Dissem_Lookup (fold NotifyMsg frames (NewDissem node [])) n = gr_Lookup (fst (run it)) n"
proof -
  have empty: "gr_Lookup newShardedState = Map.empty"
    by (simp add: gr_Lookup_names names_at_def shard_of_def newShardedState_def)
  have "gr_Lookup (fst (run it)) = fold setBinding (bindings (snd (run it))) Map.empty"
    using gr_run_mirrors [OF newShardedState_inv assms(2), of log] by (simp add: run_def empty fold_bindings)
  moreover have "ds_cache (fold NotifyMsg frames (NewDissem node [])) =
      fold dcache_merge (concat (map (fst \<circ> decodeBindingFrame) frames)) Map.empty"
    by (simp add: fold_NotifyMsg NewDissem_def)
  moreover have "sorted_wrt fresher (bindings (snd (run it)))"
    unfolding run_def by (rule gr_run_fresher(1) [OF newShardedState_inv assms(2,3)])
  ultimately show ?thesis
    using cache_of_bindings [OF _ assms(4), of n] by (simp add: Dissem_Lookup_def)
qed

definition demoLog :: "(i64 \<times> u64 \<times> grCommand) list" where
  "demoLog = [(0, 1, demoCmd CmdRegister ''a'' (demoPID ''n1'' ''1'')), (0, 2, demoCmd CmdUnregister ''a'' noPID)]"

definition demoDelta :: "i64 \<Rightarrow> u64 \<Rightarrow> bool \<Rightarrow> bindingDelta" where
  "demoDelta w i del = \<lparr>bd_PID = demoPID ''n1'' ''1'', bd_Name = ''a'', bd_RaftIndex = i, bd_Wall = w, bd_Deleted = del\<rparr>"

lemma demo_bindings:
  "bindings (snd (gr_run sorted_list_of_set DefaultResolve newShardedState demoLog)) =
     [\<lparr>bev_Name = ''a'', bev_PID = demoPID ''n1'' ''1'', bev_RaftIndex = 1, bev_Deleted = False\<rparr>,
      \<lparr>bev_Name = ''a'', bev_PID = demoPID ''n1'' ''1'', bev_RaftIndex = 2, bev_Deleted = True\<rparr>]"
  by (simp add: demoLog_def demoCmd_def demoPID_def gr_Apply_def cmd_types applyRegister_def gr_register_def
      newShardedState_def shard_of_def demo_shards upd_shard_def putName_def addToNodeIndex_def nodeOf_def PID_String_def
      Let_def applyUnregister_def unregisterEntry_def dropActive_def)

definition demoFrames :: "byte list list" where
  "demoFrames = map (\<lambda>ds. concat (map delta_bytes ds)) [[demoDelta 7 2 True], [demoDelta 9 1 False, demoDelta 9 1 False]]"

lemma demoFrames_decode:
  "concat (map (fst \<circ> decodeBindingFrame) demoFrames) = [demoDelta 7 2 True, demoDelta 9 1 False, demoDelta 9 1 False]"
  unfolding demoFrames_def by (subst dcodec.frames_concat) (simp_all add: encodable_def demoDelta_def demoPID_def)

theorem cache_converges_witness:
  "Dissem_Lookup (fold NotifyMsg demoFrames (NewDissem ''n2'' [])) ''a'' =
     gr_Lookup (fst (gr_run sorted_list_of_set DefaultResolve newShardedState demoLog)) ''a''"
proof (rule cache_converges [OF map_order_sorted])
  show "sorted_wrt (<) (map (fst \<circ> snd) demoLog)" by (simp add: demoLog_def)
  show "walls_off ` set (concat (map (fst \<circ> decodeBindingFrame) demoFrames)) =
      event_delta 0 ` set (bindings (snd (gr_run sorted_list_of_set DefaultResolve newShardedState demoLog)))"
    by (simp add: demoFrames_decode demo_bindings insert_commute walls_off_def event_delta_def demoDelta_def)
qed

text \<open>
  C31. One drain of the gossip queue takes a prefix of it and leaves the rest untouched. The frames it
  returns decode to exactly the deltas of that prefix that fit a frame, in order; the others of the prefix
  cannot be sent and are dropped. All frames together, headers included, stay within the byte budget and
  each within the frame limit.
\<close>

theorem GetBroadcasts_exact:
  fixes hdr b :: int and d :: Dissem
  defines "frames \<equiv> fst (GetBroadcasts hdr b d)" and "d' \<equiv> snd (GetBroadcasts hdr b d)"
  shows "\<exists>taken. d' = d\<lparr>ds_queue := ds_queue d'\<rparr> \<and> ds_queue d = taken @ ds_queue d' \<and>
      concat (map (fst \<circ> decodeBindingFrame) frames) = filter (fits hdr) taken \<and>
      (\<Sum>f \<leftarrow> frames. int (length f) + hdr) \<le> budgetOf dissemMaxFrameBytes b \<and>
      list_all (\<lambda>f. int (length f) \<le> perFrame dissemMaxFrameBytes hdr) frames"
proof -
  have "GetBroadcasts hdr b d = (frames, d')" by (simp add: frames_def d'_def)
  then obtain i gs where *: "d' = d\<lparr>ds_queue := drop i (ds_queue d)\<rparr>" "frames = map dq.wire gs"
      "concat gs = filter (fits hdr) (take i (ds_queue d))"
      "(\<Sum>f \<leftarrow> frames. int (length f) + hdr) \<le> budgetOf dissemMaxFrameBytes b"
      "list_all (\<lambda>f. int (length f) \<le> perFrame dissemMaxFrameBytes hdr) frames"
    by (rule GetBroadcasts_spec)
  have "list_all (fits hdr) (concat gs)" by (simp add: *(3) list_all_iff)
  from wire_decodes [OF *(2) this] *(3)
  have "concat (map (fst \<circ> decodeBindingFrame) frames) = filter (fits hdr) (take i (ds_queue d))" by simp
  then show ?thesis using *(1,4,5) by (intro exI [of _ "take i (ds_queue d)"]) simp
qed

end
