(* ===== verification/Crdt_State.thy ===== *)
theory Crdt_State
  imports Gossip
begin

text \<open>
  The replicated set behind \<^verbatim>\<open>store.kv.crdt\<close>, \<^verbatim>\<open>src/system/crdt/state.go\<close>: entries
  with a dot (origin node, counter) and a wall clock, sharded by a hash of the key; origins interned to
  small numbers that differ from replica to replica; a version vector; counters of live entries and
  tombstones. The hash, \<^verbatim>\<open>xxhash\<close>, is the argument \<open>xx\<close> of the operations that use it: a
  function of the bytes written. Every operation is one step; the shard locks are not modelled.

  Interned ids are natural numbers with the wrap-around of \<^verbatim>\<open>uint32\<close> written out. Well-formedness is
  stated for states that intern fewer than \<open>2 ^ 32 - 8\<close> nodes; beyond that the source's own growth of
  the version vector wraps and indexes out of range.
\<close>

section \<open>State\<close>

definition ShardCount :: nat where "ShardCount = 64"

datatype MergeOutcome = MergeNoop | MergeApplied | MergeWallTiebreak | MergeDeleteWins

record CrdtEntry =
  ce_Key :: string
  ce_Value :: "byte list"
  ce_Counter :: u64
  ce_Wall :: i64
  ce_Node :: nat
  ce_Deleted :: bool

record CrdtState =
  cs_nodeIDs :: "string \<rightharpoonup> nat"
  cs_stringIDs :: "string list"
  cs_cv :: "u64 list"
  cs_shards :: "nat \<Rightarrow> string \<rightharpoonup> CrdtEntry"
  cs_localCounter :: u64
  cs_live :: i64
  cs_tombstone :: i64
  cs_localNode :: nat

section \<open>Interning\<close>

text \<open>\<^verbatim>\<open>make([]uint64, id+8)\<close> and \<^verbatim>\<open>copy\<close>; the addition is one of \<^verbatim>\<open>uint32\<close>.\<close>

definition growCV :: "nat \<Rightarrow> u64 list \<Rightarrow> u64 list" where
  "growCV nid cv = (let n = (nid + 8) mod 2 ^ 32 in take n cv @ replicate (n - length cv) 0)"

definition internNodeLocked :: "string \<Rightarrow> CrdtState \<Rightarrow> CrdtState \<times> nat" where
  "internNodeLocked node s =
     (case cs_nodeIDs s node of
        Some nid \<Rightarrow> (s, nid)
      | None \<Rightarrow>
          let nid = length (cs_stringIDs s) mod 2 ^ 32;
              s = s\<lparr>cs_nodeIDs := (cs_nodeIDs s)(node \<mapsto> nid), cs_stringIDs := cs_stringIDs s @ [node]\<rparr>;
              s = (if nid \<ge> length (cs_cv s) then s\<lparr>cs_cv := growCV nid (cs_cv s)\<rparr> else s)
          in (s, nid))"

definition InternNode :: "string \<Rightarrow> CrdtState \<Rightarrow> CrdtState \<times> nat" where
  "InternNode node s = internNodeLocked node s"

definition NewState :: "string \<Rightarrow> CrdtState" where
  "NewState localNodeID =
     (let s = \<lparr>cs_nodeIDs = Map.empty, cs_stringIDs = [], cs_cv = [], cs_shards = (\<lambda>_. Map.empty), cs_localCounter = 0,
               cs_live = 0, cs_tombstone = 0, cs_localNode = 0\<rparr>;
          (s, nid) = InternNode localNodeID s
      in s\<lparr>cs_localNode := nid\<rparr>)"

definition NodeString :: "CrdtState \<Rightarrow> nat \<Rightarrow> string" where
  "NodeString s nid = (if nid \<ge> length (cs_stringIDs s) then [] else cs_stringIDs s ! nid)"

definition LocalNode :: "CrdtState \<Rightarrow> nat" where "LocalNode s = cs_localNode s"

definition bumpCV :: "nat \<Rightarrow> u64 \<Rightarrow> CrdtState \<Rightarrow> CrdtState" where
  "bumpCV node counter s =
     (let s = (if node \<ge> length (cs_cv s) then s\<lparr>cs_cv := growCV node (cs_cv s)\<rparr> else s)
      in if counter > cs_cv s ! node then s\<lparr>cs_cv := (cs_cv s)[node := counter]\<rparr> else s)"

definition CVSnapshot :: "CrdtState \<Rightarrow> u64 list" where "CVSnapshot s = cs_cv s"

section \<open>Lookups\<close>

definition ShardFor :: "(byte list \<Rightarrow> u64) \<Rightarrow> string \<Rightarrow> nat" where
  "ShardFor xx key = unat (xx (bytes_of key)) mod ShardCount"

definition crdt_entry :: "(byte list \<Rightarrow> u64) \<Rightarrow> CrdtState \<Rightarrow> string \<Rightarrow> CrdtEntry option" where
  "crdt_entry xx s key = cs_shards s (ShardFor xx key) key"

definition crdt_Lookup :: "(byte list \<Rightarrow> u64) \<Rightarrow> CrdtState \<Rightarrow> string \<Rightarrow> byte list option" where
  "crdt_Lookup xx s key =
     (case crdt_entry xx s key of None \<Rightarrow> None | Some e \<Rightarrow> if ce_Deleted e then None else Some (ce_Value e))"

definition LookupEntry :: "(byte list \<Rightarrow> u64) \<Rightarrow> CrdtState \<Rightarrow> string \<Rightarrow> CrdtEntry option" where
  "LookupEntry xx s key =
     (case crdt_entry xx s key of None \<Rightarrow> None | Some e \<Rightarrow> if ce_Deleted e then None else Some e)"

section \<open>Local writes\<close>

definition put_entry :: "(byte list \<Rightarrow> u64) \<Rightarrow> CrdtEntry \<Rightarrow> CrdtState \<Rightarrow> CrdtState" where
  "put_entry xx e s = s\<lparr>cs_shards := (cs_shards s)(ShardFor xx (ce_Key e) :=
     (cs_shards s (ShardFor xx (ce_Key e)))(ce_Key e \<mapsto> e))\<rparr>"

text \<open>The tail that \<^verbatim>\<open>Register\<close> and \<^verbatim>\<open>Overwrite\<close> share: fresh dot, store, version vector, counters.\<close>

definition writeLocal :: "(byte list \<Rightarrow> u64) \<Rightarrow> string \<Rightarrow> byte list \<Rightarrow> i64 \<Rightarrow> CrdtState \<Rightarrow> CrdtState \<times> CrdtEntry" where
  "writeLocal xx key val wallMs s =
     (let counter = cs_localCounter s + 1;
          s = s\<lparr>cs_localCounter := counter\<rparr>;
          e = \<lparr>ce_Key = key, ce_Value = val, ce_Counter = counter, ce_Wall = wallMs, ce_Node = cs_localNode s, ce_Deleted = False\<rparr>;
          prev = crdt_entry xx s key;
          s = put_entry xx e s;
          s = bumpCV (cs_localNode s) counter s;
          s = (case prev of
                 Some p \<Rightarrow> if ce_Deleted p then s\<lparr>cs_tombstone := cs_tombstone s - 1, cs_live := cs_live s + 1\<rparr> else s
               | None \<Rightarrow> s\<lparr>cs_live := cs_live s + 1\<rparr>)
      in (s, e))"

definition crdt_Register :: "(byte list \<Rightarrow> u64) \<Rightarrow> string \<Rightarrow> byte list \<Rightarrow> i64 \<Rightarrow> CrdtState \<Rightarrow> CrdtState \<times> CrdtEntry \<times> bool" where
  "crdt_Register xx key val wallMs s =
     (let write = (let (s, e) = writeLocal xx key val wallMs s in (s, e, True))
      in case crdt_entry xx s key of
           Some cur \<Rightarrow> if \<not> ce_Deleted cur \<and> ce_Value cur \<noteq> val then (s, cur, False) else write
         | None \<Rightarrow> write)"

definition Overwrite :: "(byte list \<Rightarrow> u64) \<Rightarrow> string \<Rightarrow> byte list \<Rightarrow> i64 \<Rightarrow> CrdtState \<Rightarrow> CrdtState \<times> CrdtEntry" where
  "Overwrite xx key val wallMs s = writeLocal xx key val wallMs s"

definition crdt_Unregister :: "(byte list \<Rightarrow> u64) \<Rightarrow> string \<Rightarrow> i64 \<Rightarrow> CrdtState \<Rightarrow> CrdtState \<times> CrdtEntry option" where
  "crdt_Unregister xx key wallMs s =
     (case crdt_entry xx s key of
        None \<Rightarrow> (s, None)
      | Some cur \<Rightarrow>
          if ce_Deleted cur then (s, None)
          else
            let counter = cs_localCounter s + 1;
                s = s\<lparr>cs_localCounter := counter\<rparr>;
                e = \<lparr>ce_Key = key, ce_Value = [], ce_Counter = counter, ce_Wall = wallMs, ce_Node = cs_localNode s, ce_Deleted = True\<rparr>;
                s = put_entry xx e s;
                s = bumpCV (cs_localNode s) counter s
            in (s\<lparr>cs_live := cs_live s - 1, cs_tombstone := cs_tombstone s + 1\<rparr>, Some e))"

section \<open>Merging remote entries\<close>

definition compareDots :: "CrdtEntry \<Rightarrow> CrdtEntry \<Rightarrow> int" where
  "compareDots a b =
     (if ce_Node a \<noteq> ce_Node b then 0
      else if ce_Counter a > ce_Counter b then 1
      else if ce_Counter a < ce_Counter b then -1
      else 0)"

definition applyNew :: "(byte list \<Rightarrow> u64) \<Rightarrow> CrdtEntry \<Rightarrow> CrdtState \<Rightarrow> CrdtState" where
  "applyNew xx e s =
     (let s = put_entry xx e s;
          s = (if ce_Deleted e then s\<lparr>cs_tombstone := cs_tombstone s + 1\<rparr> else s\<lparr>cs_live := cs_live s + 1\<rparr>)
      in bumpCV (ce_Node e) (ce_Counter e) s)"

definition crdt_swap :: "(byte list \<Rightarrow> u64) \<Rightarrow> CrdtEntry \<Rightarrow> CrdtEntry \<Rightarrow> CrdtState \<Rightarrow> CrdtState" where
  "crdt_swap xx cur e s =
     (let s = put_entry xx e s;
          s = (if ce_Deleted cur \<and> \<not> ce_Deleted e then s\<lparr>cs_tombstone := cs_tombstone s - 1, cs_live := cs_live s + 1\<rparr>
               else if \<not> ce_Deleted cur \<and> ce_Deleted e then s\<lparr>cs_live := cs_live s - 1, cs_tombstone := cs_tombstone s + 1\<rparr>
               else s)
      in bumpCV (ce_Node e) (ce_Counter e) s)"

definition crdt_Apply :: "(byte list \<Rightarrow> u64) \<Rightarrow> CrdtEntry \<Rightarrow> CrdtState \<Rightarrow> CrdtState \<times> MergeOutcome \<times> CrdtEntry" where
  "crdt_Apply xx e s =
     (case crdt_entry xx s (ce_Key e) of
        None \<Rightarrow> (applyNew xx e s, MergeApplied, e)
      | Some cur \<Rightarrow>
          if compareDots cur e > 0 then (s, MergeNoop, cur)
          else if compareDots cur e < 0 then (crdt_swap xx cur e s, MergeApplied, e)
          else if sint (ce_Wall e) > sint (ce_Wall cur) then (crdt_swap xx cur e s, MergeWallTiebreak, e)
          else if sint (ce_Wall e) < sint (ce_Wall cur) then (s, MergeNoop, cur)
          else if ce_Deleted e \<noteq> ce_Deleted cur
          then if ce_Deleted e then (crdt_swap xx cur e s, MergeDeleteWins, e) else (s, MergeNoop, cur)
          else
            let inOrigin = NodeString s (ce_Node e); curOrigin = NodeString s (ce_Node cur)
            in if inOrigin > curOrigin \<or> (inOrigin = curOrigin \<and> ce_Counter e > ce_Counter cur)
               then (crdt_swap xx cur e s, MergeWallTiebreak, e)
               else (s, MergeNoop, cur))"

section \<open>Shard hashes and snapshots\<close>

definition putUint64 :: "u64 \<Rightarrow> byte list" where
  "putUint64 v = [ucast v, ucast (drop_bit 8 v), ucast (drop_bit 16 v), ucast (drop_bit 24 v),
     ucast (drop_bit 32 v), ucast (drop_bit 40 v), ucast (drop_bit 48 v), ucast (drop_bit 56 v)]"

definition snap_bytes :: "CrdtState \<Rightarrow> string \<times> CrdtEntry \<Rightarrow> byte list" where
  "snap_bytes s sn = (case sn of (key, e) \<Rightarrow>
     bytes_of key @ [0] @ bytes_of (NodeString s (ce_Node e)) @ [0] @
     putUint64 (ce_Counter e) @ putUint64 (ce_Wall e) @ [if ce_Deleted e then 1 else 0] @ ce_Value e)"

text \<open>The pairs that a \<^verbatim>\<open>range\<close> over the entries of a shard visits.\<close>

definition shard_items :: "(string set \<Rightarrow> string list) \<Rightarrow> CrdtState \<Rightarrow> nat \<Rightarrow> (string \<times> CrdtEntry) list" where
  "shard_items it s i = map (\<lambda>k. (k, the (cs_shards s i k))) (it (dom (cs_shards s i)))"

definition ShardHash :: "(byte list \<Rightarrow> u64) \<Rightarrow> (string set \<Rightarrow> string list) \<Rightarrow> CrdtState \<Rightarrow> int \<Rightarrow> u64" where
  "ShardHash xx it s i =
     (if i < 0 \<or> i \<ge> int ShardCount then 0
      else
        let snaps = sort_key fst (shard_items it s (nat i))
        in xx (concat (map (snap_bytes s) snaps)))"

definition ShardEntries :: "(string set \<Rightarrow> string list) \<Rightarrow> CrdtState \<Rightarrow> int \<Rightarrow> CrdtEntry list" where
  "ShardEntries it s i = (if i < 0 \<or> i \<ge> int ShardCount then [] else map snd (shard_items it s (nat i)))"

definition LiveCount :: "CrdtState \<Rightarrow> i64" where "LiveCount s = cs_live s"
definition TombstoneCount :: "CrdtState \<Rightarrow> i64" where "TombstoneCount s = cs_tombstone s"

section \<open>Range scans\<close>

text \<open>
  The visitor \<open>fn\<close> acts on a state of its own and says whether to go on. A key that the second
  lookup finds tombstoned is passed as the zero entry, as in the source.
\<close>

definition zeroEntry :: CrdtEntry where
  "zeroEntry = \<lparr>ce_Key = [], ce_Value = [], ce_Counter = 0, ce_Wall = 0, ce_Node = 0, ce_Deleted = False\<rparr>"

fun visit :: "(byte list \<Rightarrow> u64) \<Rightarrow> CrdtState \<Rightarrow> (CrdtEntry \<Rightarrow> 'a \<Rightarrow> 'a \<times> bool) \<Rightarrow> string list \<Rightarrow> 'a \<Rightarrow> 'a" where
  "visit xx s fn [] a = a"
| "visit xx s fn (k # ks) a =
     (case crdt_entry xx s k of
        None \<Rightarrow> visit xx s fn ks a
      | Some e \<Rightarrow>
          (case fn (if \<not> ce_Deleted e then e else zeroEntry) a of
             (a, True) \<Rightarrow> visit xx s fn ks a
           | (a, False) \<Rightarrow> a))"

definition in_range :: "string \<Rightarrow> string \<Rightarrow> string \<times> CrdtEntry \<Rightarrow> bool" where
  "in_range start finish ke = (case ke of (k, e) \<Rightarrow>
     \<not> ce_Deleted e \<and> \<not> (start \<noteq> [] \<and> k < start) \<and> \<not> (finish \<noteq> [] \<and> k \<ge> finish))"

definition crdt_Range :: "(byte list \<Rightarrow> u64) \<Rightarrow> (string set \<Rightarrow> string list) \<Rightarrow> CrdtState \<Rightarrow> string \<Rightarrow> string \<Rightarrow>
    (CrdtEntry \<Rightarrow> 'a \<Rightarrow> 'a \<times> bool) \<Rightarrow> 'a \<Rightarrow> 'a" where
  "crdt_Range xx it s start finish fn a =
     (let all = concat (map (\<lambda>i. map fst (filter (in_range start finish) (shard_items it s i))) [0..<ShardCount])
      in visit xx s fn (sort all) a)"

section \<open>Reaping tombstones\<close>

record reaping =
  rp_state :: CrdtState
  rp_safe :: nat
  rp_floor :: nat
  rp_reaped :: "CrdtEntry list"

definition reapKey :: "(CrdtEntry \<Rightarrow> bool) option \<Rightarrow> i64 \<Rightarrow> i64 \<Rightarrow> nat \<Rightarrow> string \<Rightarrow> reaping \<Rightarrow> reaping" where
  "reapKey canReap nowMs wallFloorMs i key r =
     (let s = rp_state r;
          reap = (\<lambda>e. r\<lparr>rp_state := s\<lparr>cs_shards := (cs_shards s)(i := (cs_shards s i)(key := None)),
                       cs_tombstone := cs_tombstone s - 1\<rparr>, rp_reaped := rp_reaped r @ [e]\<rparr>)
      in case cs_shards s i key of
           None \<Rightarrow> r
         | Some e \<Rightarrow>
             if \<not> ce_Deleted e then r
             else if canReap \<noteq> None \<and> (the canReap) e then (reap e)\<lparr>rp_safe := rp_safe r + 1\<rparr>
             else if sint wallFloorMs > 0 \<and> sint (nowMs - ce_Wall e) > sint wallFloorMs
             then (reap e)\<lparr>rp_floor := rp_floor r + 1\<rparr>
             else r)"

definition ReapTombstonesWhere :: "(string set \<Rightarrow> string list) \<Rightarrow> (CrdtEntry \<Rightarrow> bool) option \<Rightarrow> i64 \<Rightarrow> i64 \<Rightarrow> CrdtState \<Rightarrow> reaping" where
  "ReapTombstonesWhere it canReap nowMs wallFloorMs s =
     fold (\<lambda>i r. fold (reapKey canReap nowMs wallFloorMs i) (it (dom (cs_shards (rp_state r) i))) r) [0..<ShardCount]
       \<lparr>rp_state = s, rp_safe = 0, rp_floor = 0, rp_reaped = []\<rparr>"

definition ReapTombstones :: "(string set \<Rightarrow> string list) \<Rightarrow> u64 list \<Rightarrow> i64 \<Rightarrow> i64 \<Rightarrow> CrdtState \<Rightarrow> CrdtState \<times> nat \<times> nat" where
  "ReapTombstones it safeByNode nowMs wallFloorMs s =
     (let canReap = (\<lambda>e. ce_Node e < length safeByNode \<and> ce_Counter e \<le> safeByNode ! ce_Node e);
          r = ReapTombstonesWhere it (Some canReap) nowMs wallFloorMs s
      in (rp_state r, rp_safe r, rp_floor r))"

section \<open>Well-formed states\<close>

definition intern_ok :: "CrdtState \<Rightarrow> bool" where
  "intern_ok s \<longleftrightarrow>
     (\<forall>n i. cs_nodeIDs s n = Some i \<longleftrightarrow> i < length (cs_stringIDs s) \<and> cs_stringIDs s ! i = n) \<and>
     length (cs_stringIDs s) \<le> 2 ^ 32 - 8 \<and> length (cs_stringIDs s) \<le> length (cs_cv s) \<and>
     cs_localNode s < length (cs_stringIDs s)"

definition stored_ok :: "(byte list \<Rightarrow> u64) \<Rightarrow> CrdtState \<Rightarrow> bool" where
  "stored_ok xx s \<longleftrightarrow>
     (\<forall>i k e. cs_shards s i k = Some e \<longrightarrow> i = ShardFor xx k \<and> ce_Key e = k \<and> ce_Node e < length (cs_stringIDs s) \<and>
        ce_Counter e \<le> cs_cv s ! ce_Node e)"

definition counter_ok :: "CrdtState \<Rightarrow> bool" where
  "counter_ok s \<longleftrightarrow> cs_localCounter s \<le> cs_cv s ! cs_localNode s"

definition live_keys :: "(string \<rightharpoonup> CrdtEntry) \<Rightarrow> string set" where
  "live_keys m = {k. \<exists>e. m k = Some e \<and> \<not> ce_Deleted e}"

definition dead_keys :: "(string \<rightharpoonup> CrdtEntry) \<Rightarrow> string set" where
  "dead_keys m = {k. \<exists>e. m k = Some e \<and> ce_Deleted e}"

definition counts_ok :: "(byte list \<Rightarrow> u64) \<Rightarrow> CrdtState \<Rightarrow> bool" where
  "counts_ok xx s \<longleftrightarrow> finite (dom (crdt_entry xx s)) \<and>
     cs_live s = word_of_nat (card (live_keys (crdt_entry xx s))) \<and>
     cs_tombstone s = word_of_nat (card (dead_keys (crdt_entry xx s)))"

definition crdt_wf :: "(byte list \<Rightarrow> u64) \<Rightarrow> CrdtState \<Rightarrow> bool" where
  "crdt_wf xx s \<longleftrightarrow> intern_ok s \<and> stored_ok xx s \<and> counter_ok s \<and> counts_ok xx s"

subsection \<open>Interning\<close>

lemma growCV_eq:
  assumes "nid + 8 < 2 ^ 32" "length cv \<le> nid"
  shows "growCV nid cv = cv @ replicate (nid + 8 - length cv) 0"
  using assms by (simp add: growCV_def Let_def)

lemma InternNode_new:
  assumes "cs_nodeIDs s node = None" "length (cs_stringIDs s) < 2 ^ 32 - 8" "length (cs_stringIDs s) \<le> length (cs_cv s)"
  obtains zs where "InternNode node s = (s\<lparr>cs_nodeIDs := (cs_nodeIDs s)(node \<mapsto> length (cs_stringIDs s)),
      cs_stringIDs := cs_stringIDs s @ [node], cs_cv := cs_cv s @ zs\<rparr>, length (cs_stringIDs s))"
    "length (cs_stringIDs s) < length (cs_cv s @ zs)"
proof (cases "length (cs_stringIDs s) \<ge> length (cs_cv s)")
  case True
  then have "growCV (length (cs_stringIDs s)) (cs_cv s) = cs_cv s @ replicate (length (cs_stringIDs s) + 8 - length (cs_cv s)) 0"
    using assms(2) by (intro growCV_eq) simp_all
  with assms True that show ?thesis by (simp add: InternNode_def internNodeLocked_def Let_def)
next
  case False
  with assms that [of "[]"] show ?thesis by (simp add: InternNode_def internNodeLocked_def Let_def)
qed

lemma InternNode_old: "cs_nodeIDs s node = Some nid \<Longrightarrow> InternNode node s = (s, nid)"
  by (simp add: InternNode_def internNodeLocked_def)

text \<open>Interning gives the node an id that reads back as the node and leaves every older id alone.\<close>

lemma InternNode_spec:
  assumes "intern_ok s" "InternNode node s = (s', nid)" "length (cs_stringIDs s') \<le> 2 ^ 32 - 8"
  shows "intern_ok s'" "nid < length (cs_stringIDs s')" "cs_stringIDs s' ! nid = node"
    and "\<exists>zs. cs_stringIDs s' = cs_stringIDs s @ zs" "\<exists>zs. cs_cv s' = cs_cv s @ zs"
    and "cs_shards s' = cs_shards s" "cs_localCounter s' = cs_localCounter s" "cs_localNode s' = cs_localNode s"
    and "cs_live s' = cs_live s" "cs_tombstone s' = cs_tombstone s"
proof -
  have le: "length (cs_stringIDs s) \<le> length (cs_cv s)" and ids: "cs_nodeIDs s n = Some i \<longleftrightarrow> i < length (cs_stringIDs s) \<and> cs_stringIDs s ! i = n" for n i
    using assms(1) by (simp_all add: intern_ok_def)
  have "intern_ok s' \<and> nid < length (cs_stringIDs s') \<and> cs_stringIDs s' ! nid = node \<and>
    (\<exists>zs. cs_stringIDs s' = cs_stringIDs s @ zs) \<and> (\<exists>zs. cs_cv s' = cs_cv s @ zs) \<and> cs_shards s' = cs_shards s \<and>
    cs_localCounter s' = cs_localCounter s \<and> cs_localNode s' = cs_localNode s \<and> cs_live s' = cs_live s \<and>
    cs_tombstone s' = cs_tombstone s"
  proof (cases "cs_nodeIDs s node")
    case (Some i)
    with assms ids [of node i] show ?thesis by (simp add: InternNode_old)
  next
    case None
    have "length (cs_stringIDs s') = Suc (length (cs_stringIDs s))"
      using assms(2) None by (auto simp: InternNode_def internNodeLocked_def Let_def split: if_splits)
    with assms(3) have lt: "length (cs_stringIDs s) < 2 ^ 32 - 8" by simp
    obtain zs where z: "InternNode node s = (s\<lparr>cs_nodeIDs := (cs_nodeIDs s)(node \<mapsto> length (cs_stringIDs s)),
      cs_stringIDs := cs_stringIDs s @ [node], cs_cv := cs_cv s @ zs\<rparr>, length (cs_stringIDs s))"
      "length (cs_stringIDs s) < length (cs_cv s @ zs)"
      by (rule InternNode_new [OF None lt le])
    have s': "s' = s\<lparr>cs_nodeIDs := (cs_nodeIDs s)(node \<mapsto> length (cs_stringIDs s)),
      cs_stringIDs := cs_stringIDs s @ [node], cs_cv := cs_cv s @ zs\<rparr>" "nid = length (cs_stringIDs s)"
      using trans [OF assms(2) [symmetric] z(1)] by (simp_all only: prod.inject)
    have fresh: "cs_stringIDs s ! i \<noteq> node" if "i < length (cs_stringIDs s)" for i
      using ids [of node i] None that by auto
    have "intern_ok s'"
      using assms(1,3) z(2) fresh by (auto simp: intern_ok_def s' nth_append ids less_Suc_eq)
    with s' show ?thesis by simp
  qed
  then show "intern_ok s'" "nid < length (cs_stringIDs s')" "cs_stringIDs s' ! nid = node"
    and "\<exists>zs. cs_stringIDs s' = cs_stringIDs s @ zs" "\<exists>zs. cs_cv s' = cs_cv s @ zs"
    and "cs_shards s' = cs_shards s" "cs_localCounter s' = cs_localCounter s" "cs_localNode s' = cs_localNode s"
    and "cs_live s' = cs_live s" "cs_tombstone s' = cs_tombstone s"
    by blast+
qed

subsection \<open>Installing an entry\<close>

text \<open>What every write comes down to: store the entry, keep the two counters, advance the version vector.\<close>

definition recount :: "CrdtEntry option \<Rightarrow> CrdtEntry \<Rightarrow> CrdtState \<Rightarrow> CrdtState" where
  "recount prev e s =
     (case prev of
        None \<Rightarrow> if ce_Deleted e then s\<lparr>cs_tombstone := cs_tombstone s + 1\<rparr> else s\<lparr>cs_live := cs_live s + 1\<rparr>
      | Some p \<Rightarrow>
          if ce_Deleted p \<and> \<not> ce_Deleted e then s\<lparr>cs_tombstone := cs_tombstone s - 1, cs_live := cs_live s + 1\<rparr>
          else if \<not> ce_Deleted p \<and> ce_Deleted e then s\<lparr>cs_live := cs_live s - 1, cs_tombstone := cs_tombstone s + 1\<rparr>
          else s)"

definition install :: "(byte list \<Rightarrow> u64) \<Rightarrow> CrdtEntry \<Rightarrow> CrdtState \<Rightarrow> CrdtState" where
  "install xx e s = bumpCV (ce_Node e) (ce_Counter e) (recount (crdt_entry xx s (ce_Key e)) e (put_entry xx e s))"

lemma applyNew_install: "crdt_entry xx s (ce_Key e) = None \<Longrightarrow> applyNew xx e s = install xx e s"
  by (simp add: applyNew_def install_def recount_def Let_def)

lemma crdt_swap_install: "crdt_entry xx s (ce_Key e) = Some cur \<Longrightarrow> crdt_swap xx cur e s = install xx e s"
  by (simp add: crdt_swap_def install_def recount_def Let_def)

lemma recount_bumpCV: "recount prev e (bumpCV n c s) = bumpCV n c (recount prev e s)"
  by (simp add: recount_def bumpCV_def Let_def split: option.split)

definition local_entry :: "string \<Rightarrow> byte list \<Rightarrow> i64 \<Rightarrow> bool \<Rightarrow> CrdtState \<Rightarrow> CrdtEntry" where
  "local_entry key val wallMs del s = \<lparr>ce_Key = key, ce_Value = val, ce_Counter = cs_localCounter s + 1, ce_Wall = wallMs,
     ce_Node = cs_localNode s, ce_Deleted = del\<rparr>"

lemma writeLocal_install:
  "writeLocal xx key val wallMs s =
     (install xx (local_entry key val wallMs False s) (s\<lparr>cs_localCounter := cs_localCounter s + 1\<rparr>),
      local_entry key val wallMs False s)"
  by (simp add: writeLocal_def install_def recount_bumpCV [symmetric] Let_def local_entry_def put_entry_def)
     (simp add: recount_def split: option.split)

lemma Unregister_install:
  "crdt_Unregister xx key wallMs s = (case crdt_entry xx s key of
      None \<Rightarrow> (s, None)
    | Some cur \<Rightarrow> if ce_Deleted cur then (s, None)
        else (install xx (local_entry key [] wallMs True s) (s\<lparr>cs_localCounter := cs_localCounter s + 1\<rparr>),
              Some (local_entry key [] wallMs True s)))"
  by (simp add: crdt_Unregister_def install_def recount_bumpCV [symmetric] Let_def local_entry_def put_entry_def split: option.split)
     (simp add: recount_def crdt_entry_def)

text \<open>What a merge does: nothing, or install the incoming entry.\<close>

definition beats :: "CrdtState \<Rightarrow> CrdtEntry \<Rightarrow> CrdtEntry \<Rightarrow> bool" where
  "beats s e cur \<longleftrightarrow>
     (if ce_Node cur = ce_Node e \<and> ce_Counter cur \<noteq> ce_Counter e then ce_Counter cur < ce_Counter e
      else if ce_Wall e \<noteq> ce_Wall cur then sint (ce_Wall cur) < sint (ce_Wall e)
      else if ce_Deleted e \<noteq> ce_Deleted cur then ce_Deleted e
      else NodeString s (ce_Node cur) < NodeString s (ce_Node e) \<or>
           (NodeString s (ce_Node cur) = NodeString s (ce_Node e) \<and> ce_Counter cur < ce_Counter e))"

lemma Apply_install:
  "fst (crdt_Apply xx e s) = (case crdt_entry xx s (ce_Key e) of
      None \<Rightarrow> install xx e s
    | Some cur \<Rightarrow> if beats s e cur then install xx e s else s)"
proof (cases "crdt_entry xx s (ce_Key e)")
  case None
  then show ?thesis by (simp add: crdt_Apply_def applyNew_install)
next
  case (Some cur)
  note A = crdt_Apply_def Some crdt_swap_install [OF Some] compareDots_def
  show ?thesis
  proof (cases "ce_Node cur = ce_Node e \<and> ce_Counter cur \<noteq> ce_Counter e")
    case True
    then show ?thesis by (cases "ce_Counter cur < ce_Counter e") (auto simp: A beats_def)
  next
    case False
    then have c: "compareDots cur e = 0" by (auto simp: compareDots_def)
    have b: "beats s e cur =
        (if ce_Wall e \<noteq> ce_Wall cur then sint (ce_Wall cur) < sint (ce_Wall e)
         else if ce_Deleted e \<noteq> ce_Deleted cur then ce_Deleted e
         else NodeString s (ce_Node cur) < NodeString s (ce_Node e) \<or>
              (NodeString s (ce_Node cur) = NodeString s (ce_Node e) \<and> ce_Counter cur < ce_Counter e))"
      unfolding beats_def by (rule if_not_P [OF False])
    show ?thesis
    proof (cases "ce_Wall e = ce_Wall cur")
      case True
      with False c show ?thesis
        by (simp add: crdt_Apply_def Some crdt_swap_install [OF Some] b Let_def)
    next
      case diff: False
      then have "sint (ce_Wall e) \<noteq> sint (ce_Wall cur)" using signed_word_eqI by blast
      with False diff c show ?thesis
        by (simp add: crdt_Apply_def Some crdt_swap_install [OF Some] b)
    qed
  qed
qed

lemma recount_sel [simp]:
  "cs_shards (recount prev e s) = cs_shards s" "cs_cv (recount prev e s) = cs_cv s" "cs_stringIDs (recount prev e s) = cs_stringIDs s"
  "cs_nodeIDs (recount prev e s) = cs_nodeIDs s" "cs_localNode (recount prev e s) = cs_localNode s"
  "cs_localCounter (recount prev e s) = cs_localCounter s"
  by (simp_all add: recount_def split: option.split)

lemma bumpCV_sel [simp]:
  "cs_shards (bumpCV n c s) = cs_shards s" "cs_live (bumpCV n c s) = cs_live s" "cs_tombstone (bumpCV n c s) = cs_tombstone s"
  "cs_stringIDs (bumpCV n c s) = cs_stringIDs s" "cs_nodeIDs (bumpCV n c s) = cs_nodeIDs s"
  "cs_localNode (bumpCV n c s) = cs_localNode s" "cs_localCounter (bumpCV n c s) = cs_localCounter s"
  by (simp_all add: bumpCV_def Let_def)

lemma put_entry_sel [simp]:
  "cs_live (put_entry xx e s) = cs_live s" "cs_tombstone (put_entry xx e s) = cs_tombstone s" "cs_cv (put_entry xx e s) = cs_cv s"
  "cs_stringIDs (put_entry xx e s) = cs_stringIDs s" "cs_nodeIDs (put_entry xx e s) = cs_nodeIDs s"
  "cs_localNode (put_entry xx e s) = cs_localNode s" "cs_localCounter (put_entry xx e s) = cs_localCounter s"
  by (simp_all add: put_entry_def)

lemma install_sel [simp]:
  "cs_stringIDs (install xx e s) = cs_stringIDs s" "cs_nodeIDs (install xx e s) = cs_nodeIDs s"
  "cs_localNode (install xx e s) = cs_localNode s" "cs_localCounter (install xx e s) = cs_localCounter s"
  "cs_shards (install xx e s) = cs_shards (put_entry xx e s)"
  by (simp_all add: install_def)

lemma crdt_entry_install [simp]: "crdt_entry xx (install xx e s) = (crdt_entry xx s)(ce_Key e \<mapsto> e)"
  by (simp add: crdt_entry_def put_entry_def fun_eq_iff)

lemma crdt_entry_counter [simp]: "crdt_entry xx (s\<lparr>cs_localCounter := c\<rparr>) = crdt_entry xx s"
  by (simp add: crdt_entry_def fun_eq_iff)

lemma NodeString_install [simp]: "NodeString (install xx e s) = NodeString s"
  by (simp add: NodeString_def fun_eq_iff)

lemma cv_install:
  assumes "ce_Node e < length (cs_cv s)"
  shows "cs_cv (install xx e s) = (cs_cv s)[ce_Node e := max (cs_cv s ! ce_Node e) (ce_Counter e)]"
proof (cases "cs_cv s ! ce_Node e < ce_Counter e")
  case False
  then have "max (cs_cv s ! ce_Node e) (ce_Counter e) = cs_cv s ! ce_Node e" by simp
  with assms False show ?thesis by (simp add: install_def bumpCV_def Let_def)
next
  case True
  then have "max (cs_cv s ! ce_Node e) (ce_Counter e) = ce_Counter e" by (simp add: max_absorb2)
  with assms True show ?thesis by (simp add: install_def bumpCV_def Let_def)
qed

text \<open>The counters follow the key sets.\<close>

lemma keys_upd:
  "live_keys (m(k \<mapsto> e)) = (if ce_Deleted e then live_keys m - {k} else insert k (live_keys m))"
  "dead_keys (m(k \<mapsto> e)) = (if ce_Deleted e then insert k (dead_keys m) else dead_keys m - {k})"
  "live_keys (m(k := None)) = live_keys m - {k}" "dead_keys (m(k := None)) = dead_keys m - {k}"
  by (auto simp: live_keys_def dead_keys_def)

lemma keys_mem:
  "k \<in> live_keys m \<longleftrightarrow> (case m k of None \<Rightarrow> False | Some e \<Rightarrow> \<not> ce_Deleted e)"
  "k \<in> dead_keys m \<longleftrightarrow> (case m k of None \<Rightarrow> False | Some e \<Rightarrow> ce_Deleted e)"
  by (auto simp: live_keys_def dead_keys_def split: option.split)

lemma keys_finite: "finite (dom m) \<Longrightarrow> finite (live_keys m)" "finite (dom m) \<Longrightarrow> finite (dead_keys m)"
  by (auto simp: live_keys_def dead_keys_def elim!: rev_finite_subset)

lemma of_nat_card_insert:
  "finite A \<Longrightarrow> (word_of_nat (card (insert k A)) :: i64) = (if k \<in> A then word_of_nat (card A) else word_of_nat (card A) + 1)"
  by (simp add: insert_absorb)

lemma of_nat_card_remove:
  assumes "finite A"
  shows "(word_of_nat (card (A - {k})) :: i64) = (if k \<in> A then word_of_nat (card A) - 1 else word_of_nat (card A))"
proof (cases "k \<in> A")
  case True
  then have "card A = Suc (card (A - {k}))" using card_Suc_Diff1 [OF assms, of k] by simp
  then have "(word_of_nat (card A) :: i64) = word_of_nat (card (A - {k})) + 1" by simp
  with True show ?thesis by simp
qed simp

lemma install_counts: "counts_ok xx s \<Longrightarrow> counts_ok xx (install xx e s)"
  by (cases "crdt_entry xx s (ce_Key e)")
     (auto simp: counts_ok_def keys_upd keys_mem keys_finite of_nat_card_insert of_nat_card_remove,
      auto simp: install_def recount_def)

lemma install_stored:
  assumes "stored_ok xx s" "intern_ok s" "ce_Node e < length (cs_stringIDs s)"
  shows "stored_ok xx (install xx e s)"
proof -
  have "ce_Node e < length (cs_cv s)" using assms by (simp add: intern_ok_def)
  then show ?thesis
    using assms by (auto simp: stored_ok_def put_entry_def cv_install nth_list_update intern_ok_def max.coboundedI1
        split: if_splits)
qed

lemma install_wf:
  assumes "crdt_wf xx s" "ce_Node e < length (cs_stringIDs s)"
  shows "crdt_wf xx (install xx e s)"
proof -
  have l: "ce_Node e < length (cs_cv s)" "cs_localNode s < length (cs_cv s)"
    using assms by (simp_all add: crdt_wf_def intern_ok_def)
  have "intern_ok (install xx e s)" using assms l by (simp add: crdt_wf_def intern_ok_def cv_install)
  moreover have "counter_ok (install xx e s)"
    using assms l by (simp add: crdt_wf_def counter_ok_def cv_install nth_list_update max.coboundedI1)
  ultimately show ?thesis using assms by (simp add: crdt_wf_def install_stored install_counts)
qed

lemma install_local_wf:
  fixes s :: CrdtState
  defines "s1 \<equiv> s\<lparr>cs_localCounter := cs_localCounter s + 1\<rparr>"
  assumes "crdt_wf xx s"
  shows "crdt_wf xx (install xx (local_entry key val wallMs del s) s1)"
proof -
  let ?e = "local_entry key val wallMs del s"
  have s1: "intern_ok s1" "stored_ok xx s1" "counts_ok xx s1"
    using assms by (simp_all add: crdt_wf_def s1_def intern_ok_def stored_ok_def counts_ok_def)
  have l: "ce_Node ?e < length (cs_cv s1)" "ce_Node ?e < length (cs_stringIDs s1)"
    using assms by (simp_all add: local_entry_def crdt_wf_def intern_ok_def s1_def)
  have "intern_ok (install xx ?e s1)" using s1(1) l by (simp add: intern_ok_def cv_install)
  moreover have "counter_ok (install xx ?e s1)"
    using l by (simp add: counter_ok_def cv_install s1_def local_entry_def)
  ultimately show ?thesis using s1 l by (simp add: crdt_wf_def install_stored install_counts)
qed

subsection \<open>Every operation keeps a state well-formed\<close>

lemma writeLocal_wf: "crdt_wf xx s \<Longrightarrow> crdt_wf xx (fst (writeLocal xx key val wallMs s))"
  by (simp add: writeLocal_install install_local_wf)

lemma Register_wf: "crdt_wf xx s \<Longrightarrow> crdt_wf xx (fst (crdt_Register xx key val wallMs s))"
  by (simp add: crdt_Register_def writeLocal_wf case_prod_beta Let_def split: option.split)

lemma Unregister_wf: "crdt_wf xx s \<Longrightarrow> crdt_wf xx (fst (crdt_Unregister xx key wallMs s))"
  by (simp add: Unregister_install install_local_wf split: option.split)

lemma Apply_wf: "crdt_wf xx s \<Longrightarrow> ce_Node e < length (cs_stringIDs s) \<Longrightarrow> crdt_wf xx (fst (crdt_Apply xx e s))"
  by (simp add: Apply_install install_wf split: option.split)

lemma InternNode_wf:
  assumes "crdt_wf xx s" "InternNode node s = (s', nid)" "length (cs_stringIDs s') \<le> 2 ^ 32 - 8"
  shows "crdt_wf xx s'"
proof -
  have ok: "intern_ok s" using assms(1) by (simp add: crdt_wf_def)
  note I = InternNode_spec [OF ok assms(2,3)]
  obtain ys zs where e: "cs_stringIDs s' = cs_stringIDs s @ ys" "cs_cv s' = cs_cv s @ zs" using I(4,5) by blast
  have le: "length (cs_stringIDs s) \<le> length (cs_cv s)" "cs_localNode s < length (cs_stringIDs s)"
    using ok by (simp_all add: intern_ok_def)
  have "stored_ok xx s'"
    unfolding stored_ok_def
  proof (intro allI impI)
    fix i k e assume "cs_shards s' i k = Some e"
    then have "i = ShardFor xx k \<and> ce_Key e = k \<and> ce_Node e < length (cs_stringIDs s) \<and> ce_Counter e \<le> cs_cv s ! ce_Node e"
      using assms(1) I(6) by (simp add: crdt_wf_def stored_ok_def)
    with le show "i = ShardFor xx k \<and> ce_Key e = k \<and> ce_Node e < length (cs_stringIDs s') \<and> ce_Counter e \<le> cs_cv s' ! ce_Node e"
      by (simp add: \<open>cs_stringIDs s' = _\<close> \<open>cs_cv s' = _\<close> nth_append)
  qed
  moreover have "counter_ok s'"
    using assms(1) le I(7,8) by (simp add: crdt_wf_def counter_ok_def e nth_append)
  moreover have "crdt_entry xx s' = crdt_entry xx s" by (simp add: crdt_entry_def I(6) fun_eq_iff)
  then have "counts_ok xx s'" using assms(1) I(9,10) by (simp add: crdt_wf_def counts_ok_def)
  ultimately show ?thesis using I(1) by (simp add: crdt_wf_def)
qed

lemma reapKey_wf:
  assumes wf: "crdt_wf xx (rp_state r)"
  shows "crdt_wf xx (rp_state (reapKey canReap nowMs wallFloorMs i key r))"
proof -
  let ?s = "rp_state r"
  let ?s' = "?s\<lparr>cs_shards := (cs_shards ?s)(i := (cs_shards ?s i)(key := None)), cs_tombstone := cs_tombstone ?s - 1\<rparr>"
  have "crdt_wf xx ?s'" if e: "cs_shards ?s i key = Some e" "ce_Deleted e" for e
  proof -
    have i: "i = ShardFor xx key" using wf e(1) by (auto simp: crdt_wf_def stored_ok_def)
    then have en: "crdt_entry xx (?s\<lparr>cs_shards := (cs_shards ?s)(i := (cs_shards ?s i)(key := None)), cs_tombstone := t\<rparr>) =
        (crdt_entry xx ?s)(key := None)" for t by (simp add: crdt_entry_def fun_eq_iff)
    have "key \<in> dead_keys (crdt_entry xx ?s)" "key \<notin> live_keys (crdt_entry xx ?s)"
      using e i by (simp_all add: keys_mem crdt_entry_def)
    then have "counts_ok xx ?s'"
      using wf by (simp add: counts_ok_def crdt_wf_def en keys_upd keys_finite of_nat_card_remove del: card_Diff_insert)
    with wf show ?thesis by (auto simp: crdt_wf_def intern_ok_def stored_ok_def counter_ok_def split: if_splits)
  qed
  with wf show ?thesis by (simp add: reapKey_def Let_def split: option.split)
qed

lemma Reap_wf: "crdt_wf xx s \<Longrightarrow> crdt_wf xx (rp_state (ReapTombstonesWhere it canReap nowMs wallFloorMs s))"
proof -
  have keys: "crdt_wf xx (rp_state r) \<Longrightarrow> crdt_wf xx (rp_state (fold (reapKey canReap nowMs wallFloorMs i) ks r))" for i ks r
    by (induction ks arbitrary: r) (simp_all add: reapKey_wf)
  have "crdt_wf xx (rp_state r) \<Longrightarrow>
      crdt_wf xx (rp_state (fold (\<lambda>i r. fold (reapKey canReap nowMs wallFloorMs i) (it (dom (cs_shards (rp_state r) i))) r) is r))" for "is" r
    by (induction "is" arbitrary: r) (simp_all add: keys)
  then show "crdt_wf xx s \<Longrightarrow> crdt_wf xx (rp_state (ReapTombstonesWhere it canReap nowMs wallFloorMs s))"
    by (simp add: ReapTombstonesWhere_def)
qed

lemma NewState_eq:
  "NewState node = \<lparr>cs_nodeIDs = [node \<mapsto> 0], cs_stringIDs = [node], cs_cv = replicate 8 0, cs_shards = (\<lambda>_. Map.empty),
     cs_localCounter = 0, cs_live = 0, cs_tombstone = 0, cs_localNode = 0\<rparr>"
  by (simp add: NewState_def InternNode_def internNodeLocked_def Let_def growCV_def)

lemma crdt_entry_NewState [simp]: "crdt_entry xx (NewState node) = Map.empty"
  by (simp add: crdt_entry_def NewState_eq fun_eq_iff)

lemma NewState_wf: "crdt_wf xx (NewState node)"
proof -
  have "counts_ok xx (NewState node)"
    by (simp add: counts_ok_def live_keys_def dead_keys_def) (simp add: NewState_eq)
  then show ?thesis
    by (auto simp: crdt_wf_def NewState_eq intern_ok_def stored_ok_def counter_ok_def)
qed

section \<open>Receiving a delta\<close>

text \<open>How a client feeds a decoded delta: intern the origin it names, then merge.\<close>

definition receive :: "(byte list \<Rightarrow> u64) \<Rightarrow> CrdtEntry \<times> string \<Rightarrow> CrdtState \<Rightarrow> CrdtState \<times> MergeOutcome \<times> CrdtEntry" where
  "receive xx d s = (let (s, nid) = InternNode (snd d) s in crdt_Apply xx ((fst d)\<lparr>ce_Node := nid\<rparr>) s)"

lemma ids_Apply [simp]: "cs_stringIDs (fst (crdt_Apply xx e s)) = cs_stringIDs s"
  by (simp add: Apply_install split: option.split)

lemma ids_Intern: "\<exists>zs. cs_stringIDs (fst (InternNode node s)) = cs_stringIDs s @ zs"
  by (simp add: InternNode_def internNodeLocked_def Let_def split: option.split)

lemma ids_receive: "cs_stringIDs (fst (receive xx d s)) = cs_stringIDs (fst (InternNode (snd d) s))"
  by (simp add: receive_def case_prod_beta)

lemma receive_wf:
  assumes wf: "crdt_wf xx s" and le: "length (cs_stringIDs (fst (receive xx d s))) \<le> 2 ^ 32 - 8"
  shows "crdt_wf xx (fst (receive xx d s))"
proof -
  obtain s' nid where I: "InternNode (snd d) s = (s', nid)" by fastforce
  have l: "length (cs_stringIDs s') \<le> 2 ^ 32 - 8" using le by (simp add: ids_receive I)
  have "intern_ok s" using wf by (simp add: crdt_wf_def)
  from InternNode_spec(2) [OF this I l] InternNode_wf [OF wf I l] show ?thesis
    by (simp add: receive_def I Apply_wf)
qed

inductive crdt_reach :: "(byte list \<Rightarrow> u64) \<Rightarrow> CrdtState \<Rightarrow> bool" for xx where
  NewState: "crdt_reach xx (NewState node)"
| Register: "crdt_reach xx s \<Longrightarrow> crdt_reach xx (fst (crdt_Register xx key val wallMs s))"
| Overwrite: "crdt_reach xx s \<Longrightarrow> crdt_reach xx (fst (Overwrite xx key val wallMs s))"
| Unregister: "crdt_reach xx s \<Longrightarrow> crdt_reach xx (fst (crdt_Unregister xx key wallMs s))"
| receive: "crdt_reach xx s \<Longrightarrow> crdt_reach xx (fst (receive xx d s))"
| Reap: "crdt_reach xx s \<Longrightarrow> crdt_reach xx (rp_state (ReapTombstonesWhere it canReap nowMs wallFloorMs s))"

lemma ids_write [simp]:
  "cs_stringIDs (fst (writeLocal xx key val wallMs s)) = cs_stringIDs s"
  "cs_stringIDs (fst (crdt_Register xx key val wallMs s)) = cs_stringIDs s"
  "cs_stringIDs (fst (crdt_Unregister xx key wallMs s)) = cs_stringIDs s"
  by (simp_all add: crdt_Register_def writeLocal_install Unregister_install Let_def split: option.split)

lemma ids_Reap [simp]: "cs_stringIDs (rp_state (ReapTombstonesWhere it canReap nowMs wallFloorMs s)) = cs_stringIDs s"
proof -
  have key: "cs_stringIDs (rp_state (reapKey canReap nowMs wallFloorMs i k r)) = cs_stringIDs (rp_state r)" for i k r
    by (simp add: reapKey_def Let_def split: option.split)
  have keys: "cs_stringIDs (rp_state (fold (reapKey canReap nowMs wallFloorMs i) ks r)) = cs_stringIDs (rp_state r)" for i ks r
    by (induction ks arbitrary: r) (simp_all add: key)
  have "cs_stringIDs (rp_state (fold (\<lambda>i r. fold (reapKey canReap nowMs wallFloorMs i) (it (dom (cs_shards (rp_state r) i))) r) is r)) =
      cs_stringIDs (rp_state r)" for "is" r
    by (induction "is" arbitrary: r) (simp_all add: keys)
  then show ?thesis by (simp add: ReapTombstonesWhere_def)
qed

text \<open>
  C32. Every state that the operations of the replicated set can reach is well-formed: origins and their
  interned ids are in bijection, each entry lies under its own key in the shard its hash names, with an
  interned origin and a counter covered by the version vector, the local counter is covered too, and the
  live and tombstone counters are exactly the numbers of live entries and tombstones.
\<close>

theorem crdt_reach_wf:
  assumes "crdt_reach xx s" "length (cs_stringIDs s) \<le> 2 ^ 32 - 8"
  shows "crdt_wf xx s"
  using assms
proof (induction rule: crdt_reach.induct)
  case (receive s d)
  obtain zs where "cs_stringIDs (fst (receive xx d s)) = cs_stringIDs s @ zs"
    using ids_Intern [of "snd d" s] by (auto simp: ids_receive)
  with receive show ?case by (simp add: receive_wf)
qed (simp_all add: NewState_wf Register_wf writeLocal_wf Overwrite_def Unregister_wf Reap_wf)

definition demoEntry :: "string \<Rightarrow> u64 \<Rightarrow> i64 \<Rightarrow> bool \<Rightarrow> CrdtEntry" where
  "demoEntry k c w del = \<lparr>ce_Key = k, ce_Value = [], ce_Counter = c, ce_Wall = w, ce_Node = 0, ce_Deleted = del\<rparr>"

theorem crdt_reach_wf_witness:
  "crdt_wf (\<lambda>_. 0) (fst (receive (\<lambda>_. 0) (demoEntry ''k'' 3 9 True, ''b'') (fst (Overwrite (\<lambda>_. 0) ''k'' [1] 5 (NewState ''a'')))))"
proof (rule crdt_reach_wf)
  show "crdt_reach (\<lambda>_. 0) (fst (receive (\<lambda>_. 0) (demoEntry ''k'' 3 9 True, ''b'') (fst (Overwrite (\<lambda>_. 0) ''k'' [1] 5 (NewState ''a'')))))"
    by (intro crdt_reach.intros)
  show "length (cs_stringIDs (fst (receive (\<lambda>_. 0) (demoEntry ''k'' 3 9 True, ''b'') (fst (Overwrite (\<lambda>_. 0) ''k'' [1] 5 (NewState ''a''))))))
      \<le> 2 ^ 32 - 8"
    by (simp add: ids_receive InternNode_def internNodeLocked_def Let_def Overwrite_def NewState_eq writeLocal_install split: option.split)
qed

section \<open>What replicas agree on\<close>

text \<open>
  The view of a state forgets what is local to a replica: the interned ids become origin names, the shard
  a key is in disappears. Receiving a delta refines a merge of views.
\<close>

record dotted =
  dt_Origin :: string
  dt_Counter :: u64
  dt_Wall :: i64
  dt_Deleted :: bool
  dt_Value :: "byte list"

definition dotted :: "string \<Rightarrow> CrdtEntry \<Rightarrow> dotted" where
  "dotted origin e = \<lparr>dt_Origin = origin, dt_Counter = ce_Counter e, dt_Wall = ce_Wall e, dt_Deleted = ce_Deleted e,
     dt_Value = ce_Value e\<rparr>"

definition crdt_view :: "(byte list \<Rightarrow> u64) \<Rightarrow> CrdtState \<Rightarrow> string \<rightharpoonup> dotted" where
  "crdt_view xx s k = map_option (\<lambda>e. dotted (NodeString s (ce_Node e)) e) (crdt_entry xx s k)"

definition dt_beats :: "dotted \<Rightarrow> dotted \<Rightarrow> bool" where
  "dt_beats e cur \<longleftrightarrow>
     (if dt_Origin cur = dt_Origin e \<and> dt_Counter cur \<noteq> dt_Counter e then dt_Counter cur < dt_Counter e
      else if dt_Wall e \<noteq> dt_Wall cur then sint (dt_Wall cur) < sint (dt_Wall e)
      else if dt_Deleted e \<noteq> dt_Deleted cur then dt_Deleted e
      else dt_Origin cur < dt_Origin e \<or> (dt_Origin cur = dt_Origin e \<and> dt_Counter cur < dt_Counter e))"

definition delta_key :: "CrdtEntry \<times> string \<Rightarrow> string" where "delta_key d = ce_Key (fst d)"
definition delta_val :: "CrdtEntry \<times> string \<Rightarrow> dotted" where "delta_val d = dotted (snd d) (fst d)"

definition merge_view :: "CrdtEntry \<times> string \<Rightarrow> (string \<rightharpoonup> dotted) \<Rightarrow> (string \<rightharpoonup> dotted)" where
  "merge_view d m = (case m (delta_key d) of
      None \<Rightarrow> m(delta_key d \<mapsto> delta_val d)
    | Some cur \<Rightarrow> if dt_beats (delta_val d) cur then m(delta_key d \<mapsto> delta_val d) else m)"

text \<open>On interned ids, comparing ids and comparing origins is the same.\<close>

lemma NodeString_inj:
  assumes "intern_ok s" "i < length (cs_stringIDs s)" "j < length (cs_stringIDs s)"
  shows "NodeString s i = NodeString s j \<longleftrightarrow> i = j"
proof
  assume eq: "NodeString s i = NodeString s j"
  have ids: "cs_nodeIDs s n = Some i \<longleftrightarrow> i < length (cs_stringIDs s) \<and> cs_stringIDs s ! i = n" for n i
    using assms(1) by (simp add: intern_ok_def)
  have "cs_nodeIDs s (NodeString s i) = Some i" "cs_nodeIDs s (NodeString s i) = Some j"
    using assms(2,3) eq by (simp_all add: ids NodeString_def)
  then show "i = j" by simp
qed simp

lemma beats_dotted:
  assumes "intern_ok s" "ce_Node e < length (cs_stringIDs s)" "ce_Node cur < length (cs_stringIDs s)"
  shows "beats s e cur \<longleftrightarrow> dt_beats (dotted (NodeString s (ce_Node e)) e) (dotted (NodeString s (ce_Node cur)) cur)"
  using NodeString_inj [OF assms(1,3,2)] by (simp add: beats_def dt_beats_def dotted_def)

lemma view_install [simp]:
  "crdt_view xx (install xx e s) = (crdt_view xx s)(ce_Key e \<mapsto> dotted (NodeString s (ce_Node e)) e)"
  by (simp add: crdt_view_def fun_eq_iff)

lemma view_Intern:
  assumes "crdt_wf xx s" "InternNode node s = (s', nid)" "length (cs_stringIDs s') \<le> 2 ^ 32 - 8"
  shows "crdt_view xx s' = crdt_view xx s"
proof
  fix k
  have ok: "intern_ok s" using assms(1) by (simp add: crdt_wf_def)
  note I = InternNode_spec [OF ok assms(2,3)]
  obtain ys where y: "cs_stringIDs s' = cs_stringIDs s @ ys" using I(4) by blast
  have e: "crdt_entry xx s' k = crdt_entry xx s k" by (simp add: crdt_entry_def I(6))
  show "crdt_view xx s' k = crdt_view xx s k"
  proof (cases "crdt_entry xx s k")
    case (Some en)
    then have "ce_Node en < length (cs_stringIDs s)"
      using assms(1) by (auto simp: crdt_wf_def stored_ok_def crdt_entry_def)
    then show ?thesis by (simp add: crdt_view_def e Some NodeString_def y nth_append)
  qed (simp add: crdt_view_def e)
qed

lemma receive_refines:
  assumes wf: "crdt_wf xx s" and le: "length (cs_stringIDs (fst (receive xx d s))) \<le> 2 ^ 32 - 8"
  shows "crdt_view xx (fst (receive xx d s)) = merge_view d (crdt_view xx s)"
proof -
  obtain s' nid where I: "InternNode (snd d) s = (s', nid)" by fastforce
  let ?e = "(fst d)\<lparr>ce_Node := nid\<rparr>"
  have l: "length (cs_stringIDs s') \<le> 2 ^ 32 - 8" using le by (simp add: ids_receive I)
  have ok: "intern_ok s" using wf by (simp add: crdt_wf_def)
  note N = InternNode_spec [OF ok I l]
  have wf': "crdt_wf xx s'" by (rule InternNode_wf [OF wf I l])
  have v: "crdt_view xx s = crdt_view xx s'" by (rule view_Intern [OF wf I l, symmetric])
  have d: "dotted (NodeString s' nid) ?e = delta_val d"
    using N(2,3) by (simp add: NodeString_def delta_val_def dotted_def)
  show ?thesis
  proof (cases "crdt_entry xx s' (ce_Key (fst d))")
    case None
    then have "crdt_view xx s' (delta_key d) = None" by (simp add: crdt_view_def delta_key_def)
    with None d show ?thesis by (simp add: receive_def I Apply_install merge_view_def v delta_key_def)
  next
    case (Some cur)
    then have "ce_Node cur < length (cs_stringIDs s')"
      using wf' by (auto simp: crdt_wf_def stored_ok_def crdt_entry_def)
    with beats_dotted [of s' ?e cur] N(1,2) d
    have b: "beats s' ?e cur \<longleftrightarrow> dt_beats (delta_val d) (dotted (NodeString s' (ce_Node cur)) cur)" by simp
    from Some have "crdt_view xx s' (delta_key d) = Some (dotted (NodeString s' (ce_Node cur)) cur)"
      by (simp add: crdt_view_def delta_key_def)
    with Some b d show ?thesis by (simp add: receive_def I Apply_install merge_view_def v delta_key_def)
  qed
qed

text \<open>
  A history is consistent for the merge when the deltas of one origin under one key grow with its counter:
  a later one has a later wall clock, or the same and is a tombstone if the earlier one was.
\<close>

definition dt_rank :: "dotted \<Rightarrow> int \<times> bool \<times> string \<times> u64" where
  "dt_rank e = (sint (dt_Wall e), dt_Deleted e, dt_Origin e, dt_Counter e)"

definition dt_grows :: "dotted \<Rightarrow> dotted \<Rightarrow> bool" where
  "dt_grows e e' \<longleftrightarrow> (dt_Origin e = dt_Origin e' \<and> dt_Counter e < dt_Counter e' \<longrightarrow>
     (sint (dt_Wall e), dt_Deleted e) \<le> (sint (dt_Wall e'), dt_Deleted e'))"

definition dt_agree :: "dotted \<Rightarrow> dotted \<Rightarrow> bool" where
  "dt_agree e e' \<longleftrightarrow> dt_grows e e' \<and> dt_grows e' e"

lemma rank_lex:
  "dt_rank a < dt_rank b \<longleftrightarrow> sint (dt_Wall a) < sint (dt_Wall b) \<or> sint (dt_Wall a) = sint (dt_Wall b) \<and>
     (dt_Deleted a < dt_Deleted b \<or> dt_Deleted a = dt_Deleted b \<and>
       (dt_Origin a < dt_Origin b \<or> dt_Origin a = dt_Origin b \<and> dt_Counter a < dt_Counter b))"
  proof -
  have lex: "x < y \<or> x \<le> y \<and> P \<longleftrightarrow> x < y \<or> x = y \<and> P" for x y :: "'a::order" and P by (auto simp: le_less)
  show ?thesis unfolding dt_rank_def by (simp only: less_prod_simp lex)
qed

lemma dt_grows_rank:
  assumes "dt_grows a b" "dt_Origin a = dt_Origin b" "dt_Counter a < dt_Counter b"
  shows "dt_rank a < dt_rank b"
proof -
  have "(sint (dt_Wall a), dt_Deleted a) \<le> (sint (dt_Wall b), dt_Deleted b)" using assms by (simp add: dt_grows_def)
  then have "sint (dt_Wall a) < sint (dt_Wall b) \<or> sint (dt_Wall a) = sint (dt_Wall b) \<and> dt_Deleted a \<le> dt_Deleted b"
    by (simp only: less_eq_prod_simp) auto
  then show ?thesis unfolding rank_lex using assms(2,3) by (auto simp: le_less)
qed

lemma dt_beats_rank:
  assumes "dt_agree cur e"
  shows "dt_beats e cur \<longleftrightarrow> dt_rank cur < dt_rank e"
proof (cases "dt_Origin cur = dt_Origin e \<and> dt_Counter cur \<noteq> dt_Counter e")
  case True
  then consider "dt_Counter cur < dt_Counter e" | "dt_Counter e < dt_Counter cur" by (meson neq_iff)
  then show ?thesis
  proof cases
    case 1
    with True assms have "dt_rank cur < dt_rank e" by (intro dt_grows_rank) (simp_all add: dt_agree_def)
    with True 1 show ?thesis by (simp add: dt_beats_def)
  next
    case 2
    with True assms have "dt_rank e < dt_rank cur" by (intro dt_grows_rank) (simp_all add: dt_agree_def)
    then have "\<not> dt_rank cur < dt_rank e" by (rule less_not_sym)
    with True 2 show ?thesis by (auto simp: dt_beats_def)
  qed
next
  case False
  have b: "dt_beats e cur = (if dt_Wall e \<noteq> dt_Wall cur then sint (dt_Wall cur) < sint (dt_Wall e)
      else if dt_Deleted e \<noteq> dt_Deleted cur then dt_Deleted e
      else dt_Origin cur < dt_Origin e \<or> (dt_Origin cur = dt_Origin e \<and> dt_Counter cur < dt_Counter e))"
    unfolding dt_beats_def by (rule if_not_P [OF False])
  have w: "sint (dt_Wall cur) = sint (dt_Wall e) \<longleftrightarrow> dt_Wall cur = dt_Wall e"
    by (rule iffI, rule signed_word_eqI) simp_all
  show ?thesis
    unfolding b rank_lex w by (cases "dt_Wall e = dt_Wall cur"; cases "dt_Deleted e"; cases "dt_Deleted cur") simp_all
qed

interpretation rview: newest_wins delta_key delta_val dt_rank dt_agree merge_view
  by unfold_locales (auto simp: merge_view_def dt_beats_rank split: option.split)

section \<open>Shard hashes are functions of the view\<close>

definition dotted_bytes :: "string \<Rightarrow> dotted \<Rightarrow> byte list" where
  "dotted_bytes key e = bytes_of key @ [0] @ bytes_of (dt_Origin e) @ [0] @
     putUint64 (dt_Counter e) @ putUint64 (dt_Wall e) @ [if dt_Deleted e then 1 else 0] @ dt_Value e"

lemma sort_key_pairs: "sort_key fst (map (\<lambda>k. (k, f k)) ks) = map (\<lambda>k. (k, f k)) (sort ks)"
proof (induction ks)
  case (Cons k ks)
  have "insort_key fst (k, f k) (map (\<lambda>k. (k, f k)) xs) = map (\<lambda>k. (k, f k)) (insort k xs)" for xs by (induction xs) simp_all
  with Cons show ?case by simp
qed simp

lemma sort_items:
  assumes "map_order it" "finite S"
  shows "sort_key fst (map (\<lambda>k. (k, f k)) (it S)) = map (\<lambda>k. (k, f k)) (sorted_list_of_set S)"
  using sorted_list_of_set_sort_remdups [of "it S"] map_order_set [OF assms] map_order_distinct [OF assms]
  by (simp add: sort_key_pairs distinct_remdups_id)

lemma ShardHash_view:
  assumes wf: "crdt_wf xx s" and it: "map_order it" and i: "i < ShardCount"
  shows "ShardHash xx it s (int i) =
    xx (concat (map (\<lambda>k. dotted_bytes k (the (crdt_view xx s k))) (sorted_list_of_set {k \<in> dom (crdt_view xx s). ShardFor xx k = i})))"
proof -
  let ?sh = "cs_shards s i"
  have at: "ShardFor xx k = i" if k: "k \<in> dom ?sh" for k
  proof -
    obtain e where "?sh k = Some e" using k by blast
    with wf show ?thesis unfolding crdt_wf_def stored_ok_def by metis
  qed
  have v: "crdt_view xx s k = map_option (\<lambda>e. dotted (NodeString s (ce_Node e)) e) (?sh k)" if "ShardFor xx k = i" for k
    using that by (simp add: crdt_view_def crdt_entry_def)
  have dom: "dom ?sh = {k \<in> dom (crdt_view xx s). ShardFor xx k = i}"
  proof (intro set_eqI iffI)
    fix k assume k: "k \<in> dom ?sh"
    from at [OF k] k show "k \<in> {k \<in> dom (crdt_view xx s). ShardFor xx k = i}" by (auto simp: v [OF at [OF k]])
  next
    fix k assume "k \<in> {k \<in> dom (crdt_view xx s). ShardFor xx k = i}"
    then show "k \<in> dom ?sh" using v [of k] by (cases "?sh k") (auto simp: domIff)
  qed
  have "finite (dom (crdt_view xx s))"
    using wf by (simp add: crdt_wf_def counts_ok_def crdt_view_def dom_def)
  then have fin: "finite (dom ?sh)" unfolding dom by simp
  have "snap_bytes s (k, the (?sh k)) = dotted_bytes k (the (crdt_view xx s k))" if "k \<in> dom ?sh" for k
    using that v [OF at [OF that]] by (auto simp: snap_bytes_def dotted_bytes_def dotted_def)
  then have "map (snap_bytes s) (map (\<lambda>k. (k, the (?sh k))) (sorted_list_of_set (dom ?sh))) =
      map (\<lambda>k. dotted_bytes k (the (crdt_view xx s k))) (sorted_list_of_set (dom ?sh))"
    using fin by (simp add: comp_def)
  then show ?thesis
    using i unfolding dom [symmetric] by (simp add: ShardHash_def shard_items_def sort_items [OF it fin] del: map_map)
qed

end
