(* ===== verification/Crdt_Delta.thy ===== *)
theory Crdt_Delta
  imports Crdt_State
begin

text \<open>
  The wire side of the replicated set: the layout of a delta and the cursor that reads it, the queue of
  outgoing deltas and its packing into frames (\<^verbatim>\<open>src/system/crdt/delta.go\<close>), and the digest of
  shard hashes that anti-entropy compares (\<^verbatim>\<open>src/system/crdt/digest.go\<close>). The two parallel slices of
  \<^verbatim>\<open>DecodeFrame\<close> are one list of pairs.
\<close>

section \<open>Encoding a delta\<close>

definition OpPut :: byte where "OpPut = 0"
definition OpTombstone :: byte where "OpTombstone = 1"
definition MaxFrameBytes :: int where "MaxFrameBytes = 1400"

datatype delta_error = keyTooLong | originTooLong | valueTooLong | truncatedDelta

definition EncodeDelta :: "byte list \<Rightarrow> CrdtEntry \<Rightarrow> string \<Rightarrow> delta_error + byte list" where
  "EncodeDelta buf e originNodeStr =
     (if length (ce_Key e) > 65535 then Inl keyTooLong
      else if length originNodeStr > 255 then Inl originTooLong
      else if length (ce_Value e) > 4294967295 then Inl valueTooLong
      else
        let op = (if ce_Deleted e then OpTombstone else OpPut);
            buf = buf @ [op];
            buf = buf @ le16 (length (ce_Key e));
            buf = buf @ bytes_of (ce_Key e);
            buf = buf @ [word_of_nat (length originNodeStr)];
            buf = buf @ bytes_of originNodeStr;
            buf = buf @ le64 (ce_Counter e);
            buf = buf @ le64 (ce_Wall e)
        in Inr (if ce_Deleted e then buf @ le32 0 else buf @ le32 (length (ce_Value e)) @ ce_Value e))"

section \<open>Reading a delta\<close>

record reader =
  rd_err :: bool
  rd_b :: "byte list"
  rd_pos :: nat

definition rd_need :: "nat \<Rightarrow> reader \<Rightarrow> reader \<times> bool" where
  "rd_need n r =
     (if rd_err r then (r, False)
      else if rd_pos r + n > length (rd_b r) then (r\<lparr>rd_err := True\<rparr>, False)
      else (r, True))"

text \<open>The bytes a read of \<open>n\<close> takes at the cursor, none after an error.\<close>

definition rd_get :: "nat \<Rightarrow> reader \<Rightarrow> reader \<times> byte list option" where
  "rd_get n r =
     (case rd_need n r of
        (r, True) \<Rightarrow> (r\<lparr>rd_pos := rd_pos r + n\<rparr>, Some (go_slice (rd_b r) (rd_pos r) (rd_pos r + n)))
      | (r, False) \<Rightarrow> (r, None))"

definition rd_byte :: "reader \<Rightarrow> reader \<times> byte" where
  "rd_byte r = (case rd_get 1 r of (r, Some bs) \<Rightarrow> (r, hd bs) | (r, None) \<Rightarrow> (r, 0))"

definition rd_le :: "nat \<Rightarrow> reader \<Rightarrow> reader \<times> nat" where
  "rd_le n r = (case rd_get n r of (r, Some bs) \<Rightarrow> (r, le_nat bs) | (r, None) \<Rightarrow> (r, 0))"

definition rd_u16 :: "reader \<Rightarrow> reader \<times> nat" where "rd_u16 r = rd_le 2 r"
definition rd_u32 :: "reader \<Rightarrow> reader \<times> nat" where "rd_u32 r = rd_le 4 r"
definition rd_u64 :: "reader \<Rightarrow> reader \<times> u64" where "rd_u64 r = (let (r, v) = rd_le 8 r in (r, word_of_nat v))"

definition rd_str :: "nat \<Rightarrow> reader \<Rightarrow> reader \<times> string" where
  "rd_str n r = (case rd_get n r of (r, Some bs) \<Rightarrow> (r, string_of bs) | (r, None) \<Rightarrow> (r, []))"

definition rd_bytes :: "nat \<Rightarrow> reader \<Rightarrow> reader \<times> byte list" where
  "rd_bytes n r = (case rd_get n r of (r, Some bs) \<Rightarrow> (r, bs) | (r, None) \<Rightarrow> (r, []))"

definition DecodeDelta :: "byte list \<Rightarrow> delta_error + (CrdtEntry \<times> string \<times> nat)" where
  "DecodeDelta data =
     (let r = \<lparr>rd_err = False, rd_b = data, rd_pos = 0\<rparr>;
          (r, op) = rd_byte r;
          (r, keyLen) = rd_u16 r;
          (r, key) = rd_str keyLen r;
          (r, originLen) = rd_byte r;
          (r, origin) = rd_str (unat originLen) r;
          (r, counter) = rd_u64 r;
          (r, wall) = rd_u64 r;
          (r, valueLen) = rd_u32 r;
          (r, val) = rd_bytes valueLen r
      in if rd_err r then Inl truncatedDelta
         else
           let e = \<lparr>ce_Key = key, ce_Value = [], ce_Counter = counter, ce_Wall = wall, ce_Node = 0, ce_Deleted = (op = OpTombstone)\<rparr>;
               e = (if \<not> ce_Deleted e then e\<lparr>ce_Value := val\<rparr> else e)
           in Inr (e, origin, rd_pos r))"

text \<open>A read that succeeds has moved the cursor forward, so a frame is finitely many deltas.\<close>

definition ahead :: "nat \<Rightarrow> reader \<Rightarrow> reader \<Rightarrow> bool" where
  "ahead n r r' \<longleftrightarrow> rd_pos r \<le> length (rd_b r) \<longrightarrow>
     rd_b r' = rd_b r \<and> rd_pos r' \<le> length (rd_b r) \<and> (rd_err r \<longrightarrow> rd_err r') \<and> (\<not> rd_err r' \<longrightarrow> rd_pos r + n \<le> rd_pos r')"

lemma ahead_get: "ahead n r (fst (rd_get n r))"
  by (auto simp: ahead_def rd_get_def rd_need_def)

lemma ahead_trans: "ahead n r r' \<Longrightarrow> ahead m r' r'' \<Longrightarrow> ahead (n + m) r r''"
  by (auto simp: ahead_def)

lemma ahead_weak: "ahead n r r' \<Longrightarrow> m \<le> n \<Longrightarrow> ahead m r r'"
  by (auto simp: ahead_def)

lemma reads_ahead:
  "rd_byte r = (r', b) \<Longrightarrow> ahead 1 r r'" "rd_u16 r = (r', v) \<Longrightarrow> ahead 2 r r'" "rd_u32 r = (r', v) \<Longrightarrow> ahead 4 r r'"
  "rd_u64 r = (r', w) \<Longrightarrow> ahead 8 r r'" "rd_str n r = (r', s) \<Longrightarrow> ahead n r r'" "rd_bytes n r = (r', bs) \<Longrightarrow> ahead n r r'"
  using ahead_get [of 1 r] ahead_get [of 2 r] ahead_get [of 4 r] ahead_get [of 8 r] ahead_get [of n r]
  by (auto simp: rd_byte_def rd_u16_def rd_u32_def rd_u64_def rd_le_def rd_str_def rd_bytes_def split: prod.splits option.splits)

lemma DecodeDelta_pos:
  assumes "DecodeDelta data = Inr (e, origin, n)"
  shows "0 < n \<and> n \<le> length data"
proof -
  let ?r0 = "\<lparr>rd_err = False, rd_b = data, rd_pos = 0\<rparr>"
  obtain r1 op where 1: "rd_byte ?r0 = (r1, op)" by fastforce
  obtain r2 kl where 2: "rd_u16 r1 = (r2, kl)" by fastforce
  obtain r3 key where 3: "rd_str kl r2 = (r3, key)" by fastforce
  obtain r4 ol where 4: "rd_byte r3 = (r4, ol)" by fastforce
  obtain r5 orig where 5: "rd_str (unat ol) r4 = (r5, orig)" by fastforce
  obtain r6 c where 6: "rd_u64 r5 = (r6, c)" by fastforce
  obtain r7 w where 7: "rd_u64 r6 = (r7, w)" by fastforce
  obtain r8 vl where 8: "rd_u32 r7 = (r8, vl)" by fastforce
  obtain r9 val where 9: "rd_bytes vl r8 = (r9, val)" by fastforce
  have "\<not> rd_err r9 \<and> n = rd_pos r9"
    using assms by (simp add: DecodeDelta_def Let_def 1 2 3 4 5 6 7 8 9 split: if_splits)
  moreover have "ahead (1 + (2 + (kl + (1 + (unat ol + (8 + (8 + (4 + vl)))))))) ?r0 r9"
    using reads_ahead(1) [OF 1] reads_ahead(2) [OF 2] reads_ahead(5) [OF 3] reads_ahead(1) [OF 4] reads_ahead(5) [OF 5]
      reads_ahead(4) [OF 6] reads_ahead(4) [OF 7] reads_ahead(3) [OF 8] reads_ahead(6) [OF 9]
    by (meson ahead_trans)
  ultimately show ?thesis by (auto simp: ahead_def)
qed

function DecodeFrame :: "byte list \<Rightarrow> (CrdtEntry \<times> string) list \<times> delta_error option" where
  "DecodeFrame data =
     (if \<not> length data > 0 then ([], None)
      else case DecodeDelta data of
          Inl err \<Rightarrow> ([], Some err)
        | Inr (e, origin, n) \<Rightarrow> (let (out, err) = DecodeFrame (drop n data) in ((e, origin) # out, err)))"
  by pat_completeness auto
termination
  by (relation "measure length") (auto dest: DecodeDelta_pos)

declare DecodeFrame.simps [simp del]

section \<open>The broadcast queue\<close>

record BroadcastQueue =
  bq_originNodeStr :: string
  bq_pending :: "CrdtEntry list"
  bq_cap :: int
  bq_dropped :: u64

definition NewBroadcastQueue :: "string \<Rightarrow> int \<Rightarrow> BroadcastQueue" where
  "NewBroadcastQueue originNodeStr capacity =
     \<lparr>bq_originNodeStr = originNodeStr, bq_pending = [], bq_cap = (if capacity \<le> 0 then 4096 else capacity), bq_dropped = 0\<rparr>"

definition bq_Push :: "CrdtEntry \<Rightarrow> BroadcastQueue \<Rightarrow> BroadcastQueue \<times> bool" where
  "bq_Push e q =
     (if int (length (bq_pending q)) \<ge> bq_cap q then (q\<lparr>bq_dropped := bq_dropped q + 1\<rparr>, False)
      else (q\<lparr>bq_pending := bq_pending q @ [e]\<rparr>, True))"

definition activeFrameCap :: "int \<Rightarrow> int \<Rightarrow> int \<Rightarrow> packing \<Rightarrow> int" where
  "activeFrameCap headerOverhead byteBudget perFrameLimit pk =
     (let remaining = byteBudget - pk_emitted pk - headerOverhead
      in if remaining \<le> 0 then 0 else if remaining > perFrameLimit then perFrameLimit else remaining)"

fun drain_pack :: "string \<Rightarrow> int \<Rightarrow> int \<Rightarrow> int \<Rightarrow> nat \<Rightarrow> CrdtEntry list \<Rightarrow> packing \<Rightarrow> packing" where
  "drain_pack origin headerOverhead byteBudget perFrameLimit i [] pk = pk"
| "drain_pack origin headerOverhead byteBudget perFrameLimit i (e # q) pk =
     (let cap = activeFrameCap headerOverhead byteBudget perFrameLimit pk
      in if cap \<le> 0 then pk
         else case EncodeDelta [] e origin of
             Inl _ \<Rightarrow> drain_pack origin headerOverhead byteBudget perFrameLimit (Suc i) q (pk\<lparr>pk_skip := pk_skip pk @ [i]\<rparr>)
           | Inr buf \<Rightarrow>
               if int (length buf) > perFrameLimit
               then drain_pack origin headerOverhead byteBudget perFrameLimit (Suc i) q (pk\<lparr>pk_skip := pk_skip pk @ [i]\<rparr>)
               else if int (length (pk_frame pk)) + int (length buf) > cap
               then
                 let (pk, flushed) = flushFrame headerOverhead byteBudget pk
                 in if \<not> flushed then pk
                    else
                      let cap = activeFrameCap headerOverhead byteBudget perFrameLimit pk
                      in if cap \<le> 0 \<or> int (length buf) > cap then pk
                         else drain_pack origin headerOverhead byteBudget perFrameLimit (Suc i) q
                           (pk\<lparr>pk_frame := pk_frame pk @ buf, pk_pending := pk_pending pk @ [i]\<rparr>)
               else drain_pack origin headerOverhead byteBudget perFrameLimit (Suc i) q
                 (pk\<lparr>pk_frame := pk_frame pk @ buf, pk_pending := pk_pending pk @ [i]\<rparr>))"

definition Drain :: "int \<Rightarrow> int \<Rightarrow> BroadcastQueue \<Rightarrow> byte list list \<times> BroadcastQueue" where
  "Drain headerOverhead byteBudget q =
     (if length (bq_pending q) = 0 then ([], q)
      else
        let perFrameLimit = perFrame MaxFrameBytes headerOverhead;
            byteBudget = budgetOf MaxFrameBytes byteBudget;
            pk = drain_pack (bq_originNodeStr q) headerOverhead byteBudget perFrameLimit 0 (bq_pending q) emptyPacking;
            (pk, _) = flushFrame headerOverhead byteBudget pk
        in (pk_frames pk, q\<lparr>bq_pending := keepQueue pk (bq_pending q)\<rparr>))"

definition bq_Dropped :: "BroadcastQueue \<Rightarrow> u64" where "bq_Dropped q = bq_dropped q"
definition bq_Depth :: "BroadcastQueue \<Rightarrow> nat" where "bq_Depth q = length (bq_pending q)"

section \<open>Digests\<close>

type_synonym Digest = "u64 list"

definition digestVersion :: byte where "digestVersion = 1"
definition DigestSize :: nat where "DigestSize = 1 + 2 + ShardCount * (2 + 8)"

datatype digest_error = digestHeaderTruncated | unsupportedVersion | shardCountMismatch | digestBodyTruncated | shardIdOutOfRange

definition MakeDigest :: "(byte list \<Rightarrow> u64) \<Rightarrow> (string set \<Rightarrow> string list) \<Rightarrow> CrdtState \<Rightarrow> Digest" where
  "MakeDigest xx it s = map (\<lambda>i. ShardHash xx it s (int i)) [0..<ShardCount]"

definition Digest_Encode :: "Digest \<Rightarrow> byte list" where
  "Digest_Encode d = [digestVersion] @ le16 ShardCount @ concat (map (\<lambda>(i, h). le16 i @ le64 h) (enumerate 0 d))"

fun digest_loop :: "nat \<Rightarrow> byte list \<Rightarrow> nat \<Rightarrow> Digest \<Rightarrow> digest_error + Digest" where
  "digest_loop 0 data off d = Inr d"
| "digest_loop (Suc n) data off d =
     (let shardID = le_nat (go_slice data off (off + 2));
          off = off + 2;
          hash = word_of_nat (le_nat (go_slice data off (off + 8)));
          off = off + 8
      in if shardID \<ge> ShardCount then Inl shardIdOutOfRange
         else digest_loop n data off (d[shardID := hash]))"

definition DecodeDigest :: "byte list \<Rightarrow> digest_error + Digest" where
  "DecodeDigest data =
     (if length data < 3 then Inl digestHeaderTruncated
      else if data ! 0 \<noteq> digestVersion then Inl unsupportedVersion
      else if le_nat (go_slice data 1 3) \<noteq> ShardCount then Inl shardCountMismatch
      else if length data < DigestSize then Inl digestBodyTruncated
      else digest_loop ShardCount data 3 (replicate ShardCount 0))"

definition Digest_Diff :: "Digest \<Rightarrow> Digest \<Rightarrow> nat list" where
  "Digest_Diff d remote = filter (\<lambda>i. d ! i \<noteq> remote ! i) [0..<ShardCount]"

text \<open>A digest survives the wire.\<close>

lemma digest_loop_encoded:
  assumes "length hs + length ds = ShardCount" "off = length pre"
  shows "digest_loop (length ds) (pre @ concat (map (\<lambda>(i, h). le16 i @ le64 h) (enumerate (length hs) ds)) @ post) off
      (hs @ replicate (length ds) 0) = Inr (hs @ ds)"
  using assms
proof (induction ds arbitrary: hs pre off)
  case (Cons h ds)
  let ?n = "length hs"
  let ?body = "concat (map (\<lambda>(i, h). le16 i @ le64 h) (enumerate (Suc ?n) ds)) @ post"
  have n: "?n < ShardCount" using Cons.prems(1) by simp
  have "go_slice (pre @ le16 ?n @ le64 h @ ?body) off (off + 2) = le16 ?n"
    and "go_slice (pre @ le16 ?n @ le64 h @ ?body) (off + 2) (off + 2 + 8) = le64 h"
    using Cons.prems(2) by (simp_all add: go_slice_def)
  moreover have "(hs @ 0 # replicate (length ds) 0)[?n := h] = (hs @ [h]) @ replicate (length ds) 0"
    by (simp add: list_update_append)
  moreover have "?n mod 65536 = ?n" using n by (simp add: ShardCount_def)
  ultimately have "digest_loop (length (h # ds)) (pre @ le16 ?n @ le64 h @ ?body) off (hs @ replicate (length (h # ds)) 0) =
      digest_loop (length ds) ((pre @ le16 ?n @ le64 h) @ ?body) (off + 10) ((hs @ [h]) @ replicate (length ds) 0)"
    using n by (simp add: Let_def add.commute)
  also have "\<dots> = Inr ((hs @ [h]) @ ds)"
    using Cons.IH [of "hs @ [h]" "off + 10" "pre @ le16 ?n @ le64 h"] Cons.prems by simp
  finally show ?case by simp
qed simp

lemma DecodeDigest_Encode:
  assumes "length d = ShardCount"
  shows "DecodeDigest (Digest_Encode d) = Inr d"
proof -
  have "length (concat (map (\<lambda>(i, h). le16 i @ le64 h) (enumerate n d))) = 10 * length d" for n
    by (induction d arbitrary: n) auto
  then have l: "length (Digest_Encode d) = DigestSize" using assms by (simp add: Digest_Encode_def DigestSize_def)
  have "digest_loop ShardCount (Digest_Encode d) 3 (replicate ShardCount 0) = Inr d"
    using digest_loop_encoded [of "[]" d 3 "[digestVersion] @ le16 ShardCount" "[]"] assms
    by (simp add: Digest_Encode_def)
  then show ?thesis
    using l by (simp add: DecodeDigest_def DigestSize_def)
       (simp add: Digest_Encode_def go_slice_def ShardCount_def)
qed

section \<open>Decoding what was encoded\<close>

text \<open>What the wire keeps of an entry: not the interned id, and no value of a tombstone.\<close>

definition plain :: "CrdtEntry \<Rightarrow> CrdtEntry" where
  "plain e = e\<lparr>ce_Node := 0, ce_Value := (if ce_Deleted e then [] else ce_Value e)\<rparr>"

definition crdt_encodable :: "CrdtEntry \<times> string \<Rightarrow> bool" where
  "crdt_encodable d \<longleftrightarrow> length (ce_Key (fst d)) \<le> 65535 \<and> length (snd d) \<le> 255 \<and> length (ce_Value (fst d)) \<le> 4294967295"

definition entry_bytes :: "CrdtEntry \<times> string \<Rightarrow> byte list" where
  "entry_bytes d = (case d of (e, origin) \<Rightarrow>
     [if ce_Deleted e then OpTombstone else OpPut] @ le16 (length (ce_Key e)) @ bytes_of (ce_Key e) @
     [word_of_nat (length origin)] @ bytes_of origin @ le64 (ce_Counter e) @ le64 (ce_Wall e) @
     le32 (length (ce_Value (plain e))) @ ce_Value (plain e))"

lemma EncodeDelta_bytes:
  "crdt_encodable (e, origin) \<Longrightarrow> EncodeDelta buf e origin = Inr (buf @ entry_bytes (e, origin))"
  "\<not> crdt_encodable (e, origin) \<Longrightarrow> \<exists>err. EncodeDelta buf e origin = Inl err"
  by (auto simp: EncodeDelta_def crdt_encodable_def entry_bytes_def plain_def Let_def)

text \<open>A reader whose cursor stands before \<open>xs\<close>.\<close>

definition reads :: "reader \<Rightarrow> byte list \<Rightarrow> bool" where
  "reads r xs \<longleftrightarrow> \<not> rd_err r \<and> rd_pos r \<le> length (rd_b r) \<and> drop (rd_pos r) (rd_b r) = xs"

lemma reads_get:
  assumes "reads r (xs @ rest)" "length xs = n"
  shows "rd_get n r = (r\<lparr>rd_pos := rd_pos r + n\<rparr>, Some xs)" "reads (r\<lparr>rd_pos := rd_pos r + n\<rparr>) rest"
proof -
  have r: "\<not> rd_err r" "rd_pos r \<le> length (rd_b r)" "drop (rd_pos r) (rd_b r) = xs @ rest" using assms(1) by (simp_all add: reads_def)
  have "length (rd_b r) - rd_pos r = n + length rest" using arg_cong [OF r(3), of length] assms(2) by simp
  then have le: "rd_pos r + n \<le> length (rd_b r)" using r(2) by simp
  have "go_slice (rd_b r) (rd_pos r) (rd_pos r + n) = xs" using r(3) assms(2) by (simp add: go_slice_def)
  then show "rd_get n r = (r\<lparr>rd_pos := rd_pos r + n\<rparr>, Some xs)" using r(1) le by (simp add: rd_get_def rd_need_def)
  have "drop (rd_pos r + n) (rd_b r) = drop n (drop (rd_pos r) (rd_b r))" by (simp add: add.commute)
  also have "\<dots> = rest" using r(3) assms(2) by simp
  finally show "reads (r\<lparr>rd_pos := rd_pos r + n\<rparr>) rest" using r(1) le by (simp add: reads_def)
qed

lemma reads_fixed:
  "reads r ([b] @ rest) \<Longrightarrow> rd_byte r = (r\<lparr>rd_pos := rd_pos r + 1\<rparr>, b) \<and> reads (r\<lparr>rd_pos := rd_pos r + 1\<rparr>) rest"
  "reads r (le16 v @ rest) \<Longrightarrow> rd_u16 r = (r\<lparr>rd_pos := rd_pos r + 2\<rparr>, v mod 65536) \<and> reads (r\<lparr>rd_pos := rd_pos r + 2\<rparr>) rest"
  "reads r (le32 v @ rest) \<Longrightarrow> rd_u32 r = (r\<lparr>rd_pos := rd_pos r + 4\<rparr>, v mod 4294967296) \<and> reads (r\<lparr>rd_pos := rd_pos r + 4\<rparr>) rest"
  "reads r (le64 w @ rest) \<Longrightarrow> rd_u64 r = (r\<lparr>rd_pos := rd_pos r + 8\<rparr>, w) \<and> reads (r\<lparr>rd_pos := rd_pos r + 8\<rparr>) rest"
  using reads_get [of r "[b]" rest 1] reads_get [of r "le16 v" rest 2] reads_get [of r "le32 v" rest 4] reads_get [of r "le64 w" rest 8]
  by (simp_all add: rd_byte_def rd_u16_def rd_u32_def rd_u64_def rd_le_def)

lemma reads_var:
  "reads r (bytes_of s @ rest) \<Longrightarrow> rd_str (length s) r = (r\<lparr>rd_pos := rd_pos r + length s\<rparr>, s) \<and> reads (r\<lparr>rd_pos := rd_pos r + length s\<rparr>) rest"
  "reads r (bs @ rest) \<Longrightarrow> rd_bytes (length bs) r = (r\<lparr>rd_pos := rd_pos r + length bs\<rparr>, bs) \<and> reads (r\<lparr>rd_pos := rd_pos r + length bs\<rparr>) rest"
  using reads_get [of r "bytes_of s" rest "length s"] reads_get [of r bs rest "length bs"]
  by (simp_all add: rd_str_def rd_bytes_def)

lemma length_entry_bytes:
  "length (entry_bytes (e, origin)) = 24 + length (ce_Key e) + length origin + length (ce_Value (plain e))"
  by (simp add: entry_bytes_def)

lemma DecodeDelta_bytes:
  assumes "crdt_encodable (e, origin)"
  shows "DecodeDelta (entry_bytes (e, origin) @ rest) = Inr (plain e, origin, length (entry_bytes (e, origin)))"
proof -
  let ?v = "ce_Value (plain e)" and ?k = "ce_Key e"
  let ?op = "if ce_Deleted e then OpTombstone else OpPut" and ?l = "word_of_nat (length origin) :: byte"
  let ?data = "entry_bytes (e, origin) @ rest"
  let ?r = "\<lambda>p. \<lparr>rd_err = False, rd_b = ?data, rd_pos = p\<rparr>"
  have small: "length ?k mod 65536 = length ?k" "unat ?l = length origin" "length ?v mod 4294967296 = length ?v"
    using assms by (simp_all add: crdt_encodable_def unat_of_nat plain_def)
  have 0: "reads (?r 0) ([?op] @ le16 (length ?k) @ bytes_of ?k @ [?l] @ bytes_of origin @ le64 (ce_Counter e) @ le64 (ce_Wall e) @
      le32 (length ?v) @ ?v @ rest)"
    by (simp add: reads_def entry_bytes_def)
  note 1 = reads_fixed(1) [OF 0, simplified reader.simps]
  note 2 = reads_fixed(2) [OF 1 [THEN conjunct2], simplified reader.simps small]
  note 3 = reads_var(1) [OF 2 [THEN conjunct2], simplified reader.simps]
  note 4 = reads_fixed(1) [OF 3 [THEN conjunct2], simplified reader.simps]
  note 5 = reads_var(1) [OF 4 [THEN conjunct2], simplified reader.simps]
  note 6 = reads_fixed(4) [OF 5 [THEN conjunct2], simplified reader.simps]
  note 7 = reads_fixed(4) [OF 6 [THEN conjunct2], simplified reader.simps]
  note 8 = reads_fixed(3) [OF 7 [THEN conjunct2], simplified reader.simps small]
  note 9 = reads_var(2) [OF 8 [THEN conjunct2], simplified reader.simps]
  show ?thesis
    unfolding DecodeDelta_def Let_def
    by (simp only: 1 2 3 4 5 6 7 8 9 small prod.case)
       (simp add: plain_def length_entry_bytes OpTombstone_def OpPut_def)
qed

definition crdt_wire_ok :: "CrdtEntry \<times> string \<Rightarrow> bool" where
  "crdt_wire_ok d \<longleftrightarrow> crdt_encodable d \<and> plain (fst d) = fst d"

lemma plain_plain [simp]: "plain (plain e) = plain e" "ce_Deleted (plain e) = ce_Deleted e" "ce_Key (plain e) = ce_Key e"
  by (simp_all add: plain_def)

lemma entry_bytes_plain [simp]: "entry_bytes (plain e, origin) = entry_bytes (e, origin)"
  by (simp add: entry_bytes_def) (simp add: plain_def)

lemma encodable_plain: "crdt_encodable (e, origin) \<Longrightarrow> crdt_wire_ok (plain e, origin)"
  by (simp add: crdt_wire_ok_def crdt_encodable_def) (simp add: plain_def)

interpretation ccodec: frame_codec entry_bytes crdt_wire_ok DecodeFrame
proof
  show "DecodeFrame [] = ([], None)" by (simp add: DecodeFrame.simps)
  show "DecodeFrame (entry_bytes x @ rest) = (x # fst (DecodeFrame rest), snd (DecodeFrame rest))" if "crdt_wire_ok x" for x rest
  proof -
    obtain e origin where x: "x = (e, origin)" by (cases x)
    have "DecodeDelta (entry_bytes x @ rest) = Inr (e, origin, length (entry_bytes x))"
      using DecodeDelta_bytes [of e origin rest] that by (simp add: x crdt_wire_ok_def)
    then show ?thesis
      by (subst DecodeFrame.simps) (simp add: case_prod_beta x length_entry_bytes)
  qed
qed

section \<open>What a drain takes from the queue\<close>

definition entry_enc :: "CrdtEntry \<times> string \<Rightarrow> byte list option" where
  "entry_enc d = (case EncodeDelta [] (fst d) (snd d) of Inl _ \<Rightarrow> None | Inr b \<Rightarrow> Some b)"

lemma entry_enc_Some: "entry_enc d = Some b \<longleftrightarrow> crdt_encodable d \<and> b = entry_bytes d"
  by (cases "crdt_encodable d"; cases d) (auto simp: entry_enc_def EncodeDelta_bytes dest: EncodeDelta_bytes(2) [where buf = "[]"])

interpretation bq: delta_queue entry_enc
  by unfold_locales (auto simp: entry_enc_Some entry_bytes_def)

lemma drain_push:
  assumes inv: "bq.pack_inv lim hdr budget q i pk" and i: "i < length q" and e: "crdt_encodable (q ! i)"
    and fit: "int (length (pk_frame pk)) + int (length (entry_bytes (q ! i))) \<le> activeFrameCap hdr budget lim pk"
      "0 < activeFrameCap hdr budget lim pk"
  shows "bq.pack_inv lim hdr budget q (Suc i)
    (pk\<lparr>pk_frame := pk_frame pk @ entry_bytes (q ! i), pk_pending := pk_pending pk @ [i]\<rparr>)"
  using fit by (intro bq.pack_push [OF inv i]) (auto simp: entry_enc_Some e activeFrameCap_def Let_def split: if_splits)

lemma drain_pack_inv:
  assumes "bq.pack_inv lim hdr budget q i pk" "drop i q = map (\<lambda>e. (e, origin)) es"
  shows "\<exists>j \<ge> i. bq.pack_inv lim hdr budget q j (drain_pack origin hdr budget lim i es pk)"
  using assms
proof (induction es arbitrary: i pk)
  case (Cons e es)
  note inv = Cons.prems(1)
  let ?x = "(e, origin)"
  have i: "i < length q" "q ! i = ?x" "drop (Suc i) q = map (\<lambda>e. (e, origin)) es"
    using drop_Cons_nth [of i q ?x] Cons.prems(2) by auto
  have go: "\<exists>j \<ge> i. bq.pack_inv lim hdr budget q j (drain_pack origin hdr budget lim (Suc i) es pk')"
    if "bq.pack_inv lim hdr budget q (Suc i) pk'" for pk'
    using Cons.IH [OF that i(3)] Suc_leD by blast
  have stop: "\<exists>j \<ge> i. bq.pack_inv lim hdr budget q j pk'" if "bq.pack_inv lim hdr budget q i pk'" for pk'
    using that by blast
  obtain pk1 where f: "flushFrame hdr budget pk = (pk1, True)" "bq.pack_inv lim hdr budget q i pk1" "pk_frame pk1 = []"
    using bq.pack_flush [OF inv] by blast
  let ?len = "int (length (entry_bytes ?x))" and ?cap = "activeFrameCap hdr budget lim pk"
  consider "?cap \<le> 0" | "0 < ?cap" "\<not> crdt_encodable ?x" | "0 < ?cap" "crdt_encodable ?x" "lim < ?len"
    | "0 < ?cap" "crdt_encodable ?x" "?len \<le> lim" "int (length (pk_frame pk)) + ?len \<le> ?cap"
    | "0 < ?cap" "crdt_encodable ?x" "?len \<le> lim" "?cap < int (length (pk_frame pk)) + ?len" by linarith
  then show ?case
  proof cases
    case 1
    with stop [OF inv] show ?thesis by simp
  next
    case 2
    then have "\<not> bq.sendable lim ?x" by (auto simp: bq.sendable_def entry_enc_Some)
    with bq.pack_skip [OF inv i(1)] i(2) have "bq.pack_inv lim hdr budget q (Suc i) (pk\<lparr>pk_skip := pk_skip pk @ [i]\<rparr>)" by simp
    from go [OF this] 2 EncodeDelta_bytes(2) [OF 2(2), of "[]"] show ?thesis by auto
  next
    case 3
    then have "\<not> bq.sendable lim ?x" by (auto simp: bq.sendable_def entry_enc_Some)
    with bq.pack_skip [OF inv i(1)] i(2) have "bq.pack_inv lim hdr budget q (Suc i) (pk\<lparr>pk_skip := pk_skip pk @ [i]\<rparr>)" by simp
    from go [OF this] 3 show ?thesis by (simp add: EncodeDelta_bytes)
  next
    case 4
    with drain_push [OF inv i(1)] i(2)
    have "bq.pack_inv lim hdr budget q (Suc i) (pk\<lparr>pk_frame := pk_frame pk @ entry_bytes ?x, pk_pending := pk_pending pk @ [i]\<rparr>)" by simp
    from go [OF this] 4 show ?thesis by (simp add: EncodeDelta_bytes)
  next
    case 5
    let ?cap1 = "activeFrameCap hdr budget lim pk1"
    show ?thesis
    proof (cases "?cap1 \<le> 0 \<or> ?len > ?cap1")
      case True
      with stop [OF f(2)] 5 f(1) show ?thesis by (simp add: EncodeDelta_bytes)
    next
      case False
      with drain_push [OF f(2) i(1)] i(2) 5 f(3)
      have "bq.pack_inv lim hdr budget q (Suc i) (pk1\<lparr>pk_frame := pk_frame pk1 @ entry_bytes ?x, pk_pending := pk_pending pk1 @ [i]\<rparr>)"
        by simp
      from go [OF this] 5 False f(1) show ?thesis by (simp add: EncodeDelta_bytes)
    qed
  qed
qed auto

definition crdt_fits :: "int \<Rightarrow> string \<Rightarrow> CrdtEntry \<Rightarrow> bool" where
  "crdt_fits hdr origin e \<longleftrightarrow> crdt_encodable (e, origin) \<and> int (length (entry_bytes (e, origin))) \<le> perFrame MaxFrameBytes hdr"

lemma sendable_crdt_fits: "bq.sendable (perFrame MaxFrameBytes hdr) (e, origin) = crdt_fits hdr origin e"
  by (auto simp: bq.sendable_def crdt_fits_def entry_enc_Some)

lemma crdt_wire_decodes:
  assumes "concat gs = map (\<lambda>e. (e, origin)) es" "list_all (crdt_fits hdr origin) es"
  shows "concat (map (fst \<circ> DecodeFrame) (map bq.wire gs)) = map (\<lambda>e. (plain e, origin)) es"
proof -
  let ?p = "\<lambda>(e, o'). (plain e, o' :: string)"
  have ok: "crdt_encodable x" if "g \<in> set gs" "x \<in> set g" for g x
  proof -
    have "x \<in> set (concat gs)" using that by auto
    then show ?thesis unfolding assms(1) using assms(2) by (auto simp: list_all_iff crdt_fits_def)
  qed
  have w: "map bq.wire gs = map (\<lambda>xs. concat (map entry_bytes xs)) (map (map ?p) gs)"
    using ok by (auto simp: bq.wire_def entry_enc_def EncodeDelta_bytes intro!: arg_cong [where f = concat])
  have "list_all (list_all crdt_wire_ok) (map (map ?p) gs)"
    using ok by (fastforce simp: list_all_iff encodable_plain)
  moreover have "concat (map (map ?p) gs) = map (\<lambda>e. (plain e, origin)) es"
    using assms(1) by (simp add: map_concat [symmetric] comp_def)
  ultimately show ?thesis unfolding w using ccodec.frames_concat [of "map (map ?p) gs"] by (simp only:)
qed

lemma drain_pack_first:
  assumes "hdr < budget" "0 < lim" "crdt_encodable (e, origin) \<Longrightarrow> int (length (entry_bytes (e, origin))) \<le> lim \<Longrightarrow>
      int (length (entry_bytes (e, origin))) + hdr \<le> budget"
  shows "\<exists>j \<ge> 1. bq.pack_inv lim hdr budget (map (\<lambda>e. (e, origin)) (e # es)) j (drain_pack origin hdr budget lim 0 (e # es) emptyPacking)"
proof -
  let ?q = "map (\<lambda>e. (e, origin)) (e # es)" and ?x = "(e, origin)"
  have inv: "bq.pack_inv lim hdr budget ?q 0 emptyPacking" using assms(2) by (intro bq.pack_start) simp
  have cap: "activeFrameCap hdr budget lim emptyPacking = min lim (budget - hdr)" "0 < activeFrameCap hdr budget lim emptyPacking"
    using assms(1,2) by (auto simp: activeFrameCap_def emptyPacking_def Let_def)
  have go: "\<exists>j \<ge> 1. bq.pack_inv lim hdr budget ?q j (drain_pack origin hdr budget lim (Suc 0) es pk)"
    if "bq.pack_inv lim hdr budget ?q (Suc 0) pk" for pk
    using drain_pack_inv [OF that] by simp
  have skip: "\<not> bq.sendable lim ?x \<Longrightarrow>
      bq.pack_inv lim hdr budget ?q (Suc 0) (emptyPacking\<lparr>pk_skip := pk_skip emptyPacking @ [0]\<rparr>)"
    using bq.pack_skip [OF inv] by simp
  consider "\<not> crdt_encodable ?x" | "crdt_encodable ?x" "lim < int (length (entry_bytes ?x))"
    | "crdt_encodable ?x" "int (length (entry_bytes ?x)) \<le> lim" by linarith
  then show ?thesis
  proof cases
    case 1
    then have "\<not> bq.sendable lim ?x" by (auto simp: bq.sendable_def entry_enc_Some)
    from go [OF skip [OF this]] EncodeDelta_bytes(2) [OF 1, of "[]"] cap(2) show ?thesis by auto
  next
    case 2
    then have "\<not> bq.sendable lim ?x" by (auto simp: bq.sendable_def entry_enc_Some)
    from go [OF skip [OF this]] 2 cap(2) show ?thesis by (simp add: EncodeDelta_bytes)
  next
    case 3
    have f: "int (length (pk_frame emptyPacking)) + int (length (entry_bytes ?x)) \<le> activeFrameCap hdr budget lim emptyPacking"
      using assms(3) [OF 3] 3 cap by (simp add: emptyPacking_def)
    from drain_push [OF inv] f 3 cap(2)
    have "bq.pack_inv lim hdr budget ?q (Suc 0)
        (emptyPacking\<lparr>pk_frame := pk_frame emptyPacking @ entry_bytes ?x, pk_pending := pk_pending emptyPacking @ [0]\<rparr>)" by simp
    from go [OF this] f 3 cap(2) show ?thesis by (simp add: EncodeDelta_bytes)
  qed
qed

text \<open>One drain: a prefix of the queue, at least one entry of it when its head fits the budget.\<close>

definition fits_budget :: "int \<Rightarrow> int \<Rightarrow> string \<Rightarrow> CrdtEntry \<Rightarrow> bool" where
  "fits_budget hdr b origin e \<longleftrightarrow> (crdt_fits hdr origin e \<longrightarrow>
     int (length (entry_bytes (e, origin))) + hdr \<le> budgetOf MaxFrameBytes b)"

lemma Drain_spec:
  assumes "Drain hdr b q = (frames, q')"
  obtains i where "q' = q\<lparr>bq_pending := drop i (bq_pending q)\<rparr>"
    "concat (map (fst \<circ> DecodeFrame) frames) =
       map (\<lambda>e. (plain e, bq_originNodeStr q)) (filter (crdt_fits hdr (bq_originNodeStr q)) (take i (bq_pending q)))"
    "bq_pending q \<noteq> [] \<Longrightarrow> hdr < budgetOf MaxFrameBytes b \<Longrightarrow> fits_budget hdr b (bq_originNodeStr q) (hd (bq_pending q)) \<Longrightarrow> 0 < i"
    "(\<Sum>f \<leftarrow> frames. int (length f) + hdr) \<le> budgetOf MaxFrameBytes b"
    "list_all (\<lambda>f. int (length f) \<le> perFrame MaxFrameBytes hdr) frames"
proof (cases "bq_pending q = []")
  case True
  with assms have "frames = [] \<and> q' = q" by (auto simp: Drain_def)
  with True that [of 0] show ?thesis by (simp add: budgetOf_def MaxFrameBytes_def)
next
  case False
  let ?lim = "perFrame MaxFrameBytes hdr" and ?b = "budgetOf MaxFrameBytes b" and ?es = "bq_pending q" and ?o = "bq_originNodeStr q"
  let ?q = "map (\<lambda>e. (e, ?o)) ?es"
  have le: "0 < ?lim" "0 \<le> ?b" by (simp_all add: perFrame_def budgetOf_def MaxFrameBytes_def)
  obtain e es where es: "?es = e # es" using False by (cases ?es) auto
  obtain i where i: "bq.pack_inv ?lim hdr ?b ?q i (drain_pack ?o hdr ?b ?lim 0 ?es emptyPacking)"
    and pos: "hdr < ?b \<Longrightarrow> fits_budget hdr b ?o e \<Longrightarrow> 0 < i"
  proof (cases "hdr < ?b \<and> fits_budget hdr b ?o e")
    case True
    with drain_pack_first [of hdr ?b ?lim e ?o es] le(1) that show ?thesis
      by (auto simp: es fits_budget_def crdt_fits_def)
  next
    case False
    from drain_pack_inv [OF bq.pack_start [OF less_imp_le [OF le(1)], of hdr ?b ?q], of ?o ?es] that False show ?thesis by auto
  qed
  from bq.pack_finish [OF i le(2)] obtain pk gs where pk:
    "flushFrame hdr ?b (drain_pack ?o hdr ?b ?lim 0 ?es emptyPacking) = (pk, True)" "keepQueue pk ?q = drop i ?q"
    "pk_frames pk = map bq.wire gs" "concat gs = filter (bq.sendable ?lim) (take i ?q)"
    "(\<Sum>f \<leftarrow> pk_frames pk. int (length f) + hdr) \<le> ?b" "list_all (\<lambda>f. int (length f) \<le> ?lim) (pk_frames pk)" by blast
  have "keepQueue pk ?es = drop i ?es"
    using pk(2) by (simp add: keepQueue_map drop_map inj_map_eq_map inj_def)
  then have r: "frames = pk_frames pk" "q' = q\<lparr>bq_pending := drop i ?es\<rparr>"
    using assms False pk(1) by (auto simp: Drain_def Let_def)
  have g: "concat gs = map (\<lambda>e. (e, ?o)) (filter (crdt_fits hdr ?o) (take i ?es))"
    using pk(4) by (simp add: take_map filter_map comp_def sendable_crdt_fits)
  from crdt_wire_decodes [OF g, of hdr] have "concat (map (fst \<circ> DecodeFrame) frames) =
      map (\<lambda>e. (plain e, ?o)) (filter (crdt_fits hdr ?o) (take i ?es))" by (simp add: r pk(3) list_all_iff)
  with that [of i] r(2) pos pk(5,6) show ?thesis by (simp add: r(1) es)
qed

section \<open>Draining until the queue is empty\<close>

fun drains :: "nat \<Rightarrow> int \<Rightarrow> int \<Rightarrow> BroadcastQueue \<Rightarrow> byte list list \<times> BroadcastQueue" where
  "drains 0 hdr b q = ([], q)"
| "drains (Suc n) hdr b q =
     (let (frames, q) = Drain hdr b q; (frames', q) = drains n hdr b q in (frames @ frames', q))"

lemma drains_enough:
  assumes "hdr < budgetOf MaxFrameBytes b" "list_all (fits_budget hdr b (bq_originNodeStr q)) (bq_pending q)" "length (bq_pending q) \<le> n"
  shows "snd (drains n hdr b q) = q\<lparr>bq_pending := []\<rparr> \<and> concat (map (fst \<circ> DecodeFrame) (fst (drains n hdr b q))) =
    map (\<lambda>e. (plain e, bq_originNodeStr q)) (filter (crdt_fits hdr (bq_originNodeStr q)) (bq_pending q))"
  using assms(2,3)
proof (induction n arbitrary: q)
  case (Suc n)
  obtain frames q' where D: "Drain hdr b q = (frames, q')" by fastforce
  from Drain_spec [OF D] obtain i where i: "q' = q\<lparr>bq_pending := drop i (bq_pending q)\<rparr>"
      "concat (map (fst \<circ> DecodeFrame) frames) =
         map (\<lambda>e. (plain e, bq_originNodeStr q)) (filter (crdt_fits hdr (bq_originNodeStr q)) (take i (bq_pending q)))"
      and pos: "bq_pending q \<noteq> [] \<Longrightarrow> fits_budget hdr b (bq_originNodeStr q) (hd (bq_pending q)) \<Longrightarrow> 0 < i"
    using assms(1) by metis
  have "length (drop i (bq_pending q)) \<le> n"
    using pos Suc.prems by (cases "bq_pending q") auto
  moreover have "list_all (fits_budget hdr b (bq_originNodeStr q)) (drop i (bq_pending q))"
    using Suc.prems(1) in_set_dropD by (fastforce simp: list_all_iff)
  ultimately have IH: "snd (drains n hdr b q') = q'\<lparr>bq_pending := []\<rparr> \<and> concat (map (fst \<circ> DecodeFrame) (fst (drains n hdr b q'))) =
      map (\<lambda>e. (plain e, bq_originNodeStr q)) (filter (crdt_fits hdr (bq_originNodeStr q)) (drop i (bq_pending q)))"
    using Suc.IH [of q'] by (simp add: i(1) comp_def)
  have "filter (crdt_fits hdr (bq_originNodeStr q)) (bq_pending q) =
      filter (crdt_fits hdr (bq_originNodeStr q)) (take i (bq_pending q)) @ filter (crdt_fits hdr (bq_originNodeStr q)) (drop i (bq_pending q))"
    by (metis append_take_drop_id filter_append)
  with IH i show ?case by (simp add: D case_prod_beta Let_def comp_def)
qed simp

text \<open>
  C33. Repeated drains always make progress when every delta that fits a frame also fits the budget with its
  header: after at most as many drains as there were pending entries the queue is empty, and the frames
  sent decode to exactly the pending entries that fit a frame, each once and in order.
\<close>

theorem drains_liveness:
  assumes "hdr < budgetOf MaxFrameBytes b" "list_all (fits_budget hdr b (bq_originNodeStr q)) (bq_pending q)"
  shows "\<exists>n \<le> length (bq_pending q). \<exists>frames. drains n hdr b q = (frames, q\<lparr>bq_pending := []\<rparr>) \<and>
    concat (map (fst \<circ> DecodeFrame) frames) =
      map (\<lambda>e. (plain e, bq_originNodeStr q)) (filter (crdt_fits hdr (bq_originNodeStr q)) (bq_pending q))"
  using drains_enough [OF assms order_refl]
  by (intro exI [of _ "length (bq_pending q)"] exI [of _ "fst (drains (length (bq_pending q)) hdr b q)"])
     (simp add: prod_eq_iff)

definition demoQueue :: BroadcastQueue where
  "demoQueue = \<lparr>bq_originNodeStr = ''a'', bq_pending = [demoEntry ''k'' 1 5 False, demoEntry ''k'' 2 6 True], bq_cap = 4096, bq_dropped = 0\<rparr>"

theorem drains_liveness_witness:
  "\<exists>n \<le> 2. \<exists>frames. drains n 2 30 demoQueue = (frames, demoQueue\<lparr>bq_pending := []\<rparr>) \<and>
    concat (map (fst \<circ> DecodeFrame) frames) = [(demoEntry ''k'' 1 5 False, ''a''), (demoEntry ''k'' 2 6 True, ''a'')]"
proof -
  have f: "fits_budget 2 30 ''a'' (demoEntry ''k'' c w d)" "crdt_fits 2 ''a'' (demoEntry ''k'' c w d)"
    "plain (demoEntry ''k'' c w d) = demoEntry ''k'' c w d" for c w d
    by (simp_all add: fits_budget_def crdt_fits_def crdt_encodable_def length_entry_bytes budgetOf_def perFrame_def MaxFrameBytes_def
        demoEntry_def plain_def)
  show ?thesis
    using drains_liveness [of 2 30 demoQueue]
    by (simp add: demoQueue_def f) (simp add: budgetOf_def numeral_2_eq_2)
qed

text \<open>
  Without that condition the queue can block for good: when the delta at its head fits a frame but
  not the budget with its header, no drain under that budget sends anything, however many follow and
  whatever waits behind it. The comment on \<^verbatim>\<open>Drain\<close> promises progress under small budgets.
\<close>

theorem drains_blocked:
  assumes "bq_pending q = e # es" "crdt_fits hdr (bq_originNodeStr q) e"
    and "budgetOf MaxFrameBytes b < int (length (entry_bytes (e, bq_originNodeStr q))) + hdr"
  shows "drains n hdr b q = ([], q)"
proof -
  let ?lim = "perFrame MaxFrameBytes hdr" and ?b = "budgetOf MaxFrameBytes b" and ?o = "bq_originNodeStr q"
  have flush: "flushFrame hdr ?b emptyPacking = (emptyPacking, True)" by (simp add: flushFrame_def emptyPacking_def)
  have "activeFrameCap hdr ?b ?lim emptyPacking < int (length (entry_bytes (e, ?o)))"
    using assms(2,3) by (auto simp: activeFrameCap_def emptyPacking_def Let_def crdt_fits_def length_entry_bytes)
  then have "drain_pack ?o hdr ?b ?lim 0 (bq_pending q) emptyPacking = emptyPacking"
    using assms(1,2) flush by (simp add: EncodeDelta_bytes crdt_fits_def Let_def emptyPacking_def)
  then have "Drain hdr b q = ([], q)"
    using assms(1) flush by (simp add: Drain_def Let_def keepQueue_def) (simp add: emptyPacking_def)
  then show ?thesis by (induction n) simp_all
qed

theorem drains_blocked_witness: "drains 1000 2 20 demoQueue = ([], demoQueue)"
  by (rule drains_blocked [of _ "demoEntry ''k'' 1 5 False" "[demoEntry ''k'' 2 6 True]"])
     (simp_all add: demoQueue_def crdt_fits_def crdt_encodable_def length_entry_bytes budgetOf_def perFrame_def MaxFrameBytes_def
       demoEntry_def plain_def)

lemma MakeDigest_view:
  assumes "crdt_wf xx s" "crdt_wf xx s'" "map_order it" "map_order it'" "crdt_view xx s = crdt_view xx s'"
  shows "MakeDigest xx it s = MakeDigest xx it' s'"
  using assms by (simp add: MakeDigest_def ShardHash_view)

end
