(* ===== verification/Crdt_Engine.thy ===== *)
theory Crdt_Engine
  imports Crdt_Delta Kv_Fsm Global_State Go_Strings
begin

text \<open>
  The gossip-backed key-value engine, \<^verbatim>\<open>src/system/kv/crdt_engine.go\<close>, and the delegate that drives it,
  \<^verbatim>\<open>src/system/kv/crdt_delegate.go\<close>: local writes, leases, the tombstone collector, incoming frames and
  full-state exchange over a replicated set and its broadcast queue.

  The environment is explicit: \<open>xx\<close> the hash of the replicated set, \<open>it\<close> the order of map iterations,
  \<open>ms\<close> the clock in milliseconds at the call. The function that reports the live peers is modelled by the
  set it returns. Published watch events are collected in \<open>en_events\<close>; delivering them to watchers, the
  tickers and the file that holds a snapshot are not modelled, the bytes written to it are.
\<close>

section \<open>State\<close>

definition wallScale :: i64 where "wallScale = 1000000"

text \<open>\<^verbatim>\<open>kvapi.WatchEvent\<close>; index and revision are zero on this engine.\<close>

record WatchEvent =
  wev_Type :: WatchEventType
  wev_Current :: "Entry option"
  wev_Previous :: "Entry option"

type_synonym tombstoneDot = "nat \<times> u64"

record CRDTEngine =
  en_state :: CrdtState
  en_queue :: BroadcastQueue
  en_events :: "WatchEvent list"
  en_peerTombAck :: "string \<rightharpoonup> tombstoneDot set"
  en_alive :: "string set option"
  en_durableNS :: "string set"
  en_leaseKeys :: "string \<rightharpoonup> string set"
  en_deadlines :: "string \<rightharpoonup> int"
  en_keyLease :: "string \<rightharpoonup> string"
  en_localNode :: string
  en_tombstoneFloor :: i64
  en_leaseSeq :: u64
  en_tiebreak :: i64

definition NewCRDTEngine :: "string \<Rightarrow> CRDTEngine" where
  "NewCRDTEngine localNode =
     \<lparr>en_state = NewState localNode, en_queue = NewBroadcastQueue localNode 0, en_events = [], en_peerTombAck = Map.empty,
      en_alive = None, en_durableNS = {}, en_leaseKeys = Map.empty, en_deadlines = Map.empty, en_keyLease = Map.empty,
      en_localNode = localNode, en_tombstoneFloor = 0, en_leaseSeq = 0,
      en_tiebreak = word_of_nat (unat (fnv32a (bytes_of localNode)) mod 1000000)\<rparr>"

definition en_wall :: "i64 \<Rightarrow> CRDTEngine \<Rightarrow> i64" where
  "en_wall ms e = ms * wallScale + en_tiebreak e"

definition SetTombstoneRetention :: "i64 \<Rightarrow> CRDTEngine \<Rightarrow> CRDTEngine" where
  "SetTombstoneRetention retention e = e\<lparr>en_tombstoneFloor := retention\<rparr>"

definition SetAlivePeers :: "string set option \<Rightarrow> CRDTEngine \<Rightarrow> CRDTEngine" where
  "SetAlivePeers fn e = e\<lparr>en_alive := fn\<rparr>"

definition MarkDurable :: "string \<Rightarrow> CRDTEngine \<Rightarrow> CRDTEngine" where
  "MarkDurable namespace e = e\<lparr>en_durableNS := insert namespace (en_durableNS e)\<rparr>"

definition HasPrefix :: "string \<Rightarrow> string \<Rightarrow> bool" where
  "HasPrefix s p = (take (length p) s = p)"

definition isDurableKey :: "CRDTEngine \<Rightarrow> string \<Rightarrow> bool" where
  "isDurableKey e key = (\<exists>ns \<in> en_durableNS e. HasPrefix key (ns @ '':''))"

section \<open>Reads\<close>

definition kvEntry :: "string \<Rightarrow> byte list \<Rightarrow> u64 \<Rightarrow> Entry" where
  "kvEntry key val ver = \<lparr>E_Key = key, E_LeaseID = [], E_Value = val, E_Version = ver, E_Epoch = 0\<rparr>"

definition en_Get :: "(byte list \<Rightarrow> u64) \<Rightarrow> CRDTEngine \<Rightarrow> string \<Rightarrow> kv_error + Entry" where
  "en_Get xx e key =
     (case LookupEntry xx (en_state e) key of
        None \<Rightarrow> Inl ErrKeyNotFound
      | Some en \<Rightarrow> Inr (kvEntry key (ce_Value en) (ce_Counter en)))"

definition en_Scan :: "(byte list \<Rightarrow> u64) \<Rightarrow> (string set \<Rightarrow> string list) \<Rightarrow> CRDTEngine \<Rightarrow> string \<Rightarrow> (Entry \<Rightarrow> 'a \<Rightarrow> 'a \<times> bool) \<Rightarrow> 'a \<Rightarrow> 'a" where
  "en_Scan xx it e pre fn a =
     crdt_Range xx it (en_state e) pre [] (\<lambda>en a.
       if pre \<noteq> [] \<and> \<not> HasPrefix (ce_Key en) pre then (a, True)
       else fn (kvEntry (ce_Key en) (ce_Value en) (ce_Counter en)) a) a"

section \<open>Writes\<close>

definition en_emit :: "WatchEventType \<Rightarrow> Entry \<Rightarrow> CRDTEngine \<Rightarrow> CRDTEngine" where
  "en_emit typ cur e =
     (let evt = (if typ = WatchDelete \<or> typ = WatchExpired
                 then \<lparr>wev_Type = typ, wev_Current = None, wev_Previous = Some cur\<rparr>
                 else \<lparr>wev_Type = typ, wev_Current = Some cur, wev_Previous = None\<rparr>)
      in e\<lparr>en_events := en_events e @ [evt]\<rparr>)"

definition en_push :: "CrdtEntry \<Rightarrow> CRDTEngine \<Rightarrow> CRDTEngine" where
  "en_push en e = e\<lparr>en_queue := fst (bq_Push en (en_queue e))\<rparr>"

text \<open>The three lines every accepted write ends with: overwrite, queue the delta, publish.\<close>

definition en_put :: "(byte list \<Rightarrow> u64) \<Rightarrow> i64 \<Rightarrow> string \<Rightarrow> byte list \<Rightarrow> CRDTEngine \<Rightarrow> CRDTEngine \<times> u64" where
  "en_put xx ms key val e =
     (let (s, en) = Overwrite xx key val (en_wall ms e) (en_state e);
          e = en_push en (e\<lparr>en_state := s\<rparr>);
          e = en_emit WatchPut (kvEntry key val (ce_Counter en)) e
      in (e, ce_Counter en))"

definition en_Set :: "(byte list \<Rightarrow> u64) \<Rightarrow> i64 \<Rightarrow> string \<Rightarrow> byte list \<Rightarrow> CRDTEngine \<Rightarrow> CRDTEngine \<times> u64" where
  "en_Set xx ms key val e = en_put xx ms key val e"

definition detachKey :: "string \<Rightarrow> CRDTEngine \<Rightarrow> CRDTEngine" where
  "detachKey key e =
     (case en_keyLease e key of
        None \<Rightarrow> e
      | Some lid \<Rightarrow>
          let e = (case en_leaseKeys e lid of
                     None \<Rightarrow> e
                   | Some keys \<Rightarrow> e\<lparr>en_leaseKeys := (en_leaseKeys e)(lid \<mapsto> keys - {key})\<rparr>)
          in e\<lparr>en_keyLease := (en_keyLease e)(key := None)\<rparr>)"

definition keyOnly :: "string \<Rightarrow> Entry" where "keyOnly key = kvEntry key [] 0"

definition en_Delete :: "(byte list \<Rightarrow> u64) \<Rightarrow> i64 \<Rightarrow> string \<Rightarrow> CRDTEngine \<Rightarrow> CRDTEngine \<times> kv_error option" where
  "en_Delete xx ms key e =
     (case crdt_Unregister xx key (en_wall ms e) (en_state e) of
        (s, None) \<Rightarrow> (e\<lparr>en_state := s\<rparr>, Some ErrKeyNotFound)
      | (s, Some en) \<Rightarrow> (en_emit WatchDelete (keyOnly key) (detachKey key (en_push en (e\<lparr>en_state := s\<rparr>))), None))"

definition en_SetIfAbsent :: "(byte list \<Rightarrow> u64) \<Rightarrow> i64 \<Rightarrow> string \<Rightarrow> byte list \<Rightarrow> CRDTEngine \<Rightarrow> CRDTEngine \<times> u64 \<times> bool" where
  "en_SetIfAbsent xx ms key val e =
     (case LookupEntry xx (en_state e) key of
        Some cur \<Rightarrow> (e, ce_Counter cur, False)
      | None \<Rightarrow> let (e, ver) = en_put xx ms key val e in (e, ver, True))"

definition en_CompareAndSwap :: "(byte list \<Rightarrow> u64) \<Rightarrow> i64 \<Rightarrow> string \<Rightarrow> u64 \<Rightarrow> byte list \<Rightarrow> CRDTEngine \<Rightarrow> CRDTEngine \<times> u64 \<times> bool" where
  "en_CompareAndSwap xx ms key expect val e =
     (let curVer = (case LookupEntry xx (en_state e) key of None \<Rightarrow> 0 | Some cur \<Rightarrow> ce_Counter cur)
      in if curVer \<noteq> expect then (e, curVer, False)
         else let (e, ver) = en_put xx ms key val e in (e, ver, True))"

text \<open>
  \<^verbatim>\<open>CompareAndDelete\<close> holds \<^verbatim>\<open>e.mu\<close>, which Go's mutex does not let its holder take again, when it calls
  \<open>detachKey\<close>, which takes it. The call does not return then (result \<open>None\<close>): it stops with the tombstone
  written and its delta queued, before the key is detached and the event published, and it keeps the
  mutex.
\<close>

definition en_CompareAndDelete :: "(byte list \<Rightarrow> u64) \<Rightarrow> i64 \<Rightarrow> string \<Rightarrow> u64 \<Rightarrow> CRDTEngine \<Rightarrow> CRDTEngine \<times> bool option" where
  "en_CompareAndDelete xx ms key expect e =
     (case LookupEntry xx (en_state e) key of
        None \<Rightarrow> (e, Some False)
      | Some cur \<Rightarrow>
          if ce_Counter cur \<noteq> expect then (e, Some False)
          else case crdt_Unregister xx key (en_wall ms e) (en_state e) of
              (s, None) \<Rightarrow> (e\<lparr>en_state := s\<rparr>, Some False)
            | (s, Some en) \<Rightarrow> (en_push en (e\<lparr>en_state := s\<rparr>), None))"

definition en_Txn :: "TxnOp list \<Rightarrow> CRDTEngine \<Rightarrow> CRDTEngine \<times> (kv_error + bool)" where
  "en_Txn ops e = (e, Inl ErrUnsupported)"

section \<open>Leases\<close>

definition en_GrantLease :: "int \<Rightarrow> int \<Rightarrow> CRDTEngine \<Rightarrow> CRDTEngine \<times> lease" where
  "en_GrantLease now ttl e =
     (let seq = en_leaseSeq e + 1;
          lid = NodeString (en_state e) (LocalNode (en_state e)) @ ''-clease-'' @ itoa (uint seq)
      in (e\<lparr>en_leaseSeq := seq, en_leaseKeys := (en_leaseKeys e)(lid \<mapsto> {}), en_deadlines := (en_deadlines e)(lid \<mapsto> now + ttl)\<rparr>,
          newLease lid ttl))"

definition en_keepAlive :: "int \<Rightarrow> string \<Rightarrow> int \<Rightarrow> CRDTEngine \<Rightarrow> CRDTEngine \<times> kv_error option" where
  "en_keepAlive now lid ttl e =
     (if en_deadlines e lid = None then (e, Some ErrLeaseNotFound)
      else (e\<lparr>en_deadlines := (en_deadlines e)(lid \<mapsto> now + ttl)\<rparr>, None))"

definition attachKey :: "string \<Rightarrow> string \<Rightarrow> string set \<Rightarrow> CRDTEngine \<Rightarrow> CRDTEngine" where
  "attachKey key lid keys e =
     e\<lparr>en_leaseKeys := (en_leaseKeys e)(lid \<mapsto> insert key keys), en_keyLease := (en_keyLease e)(key \<mapsto> lid)\<rparr>"

definition en_SetWithLease :: "(byte list \<Rightarrow> u64) \<Rightarrow> i64 \<Rightarrow> string \<Rightarrow> byte list \<Rightarrow> string \<Rightarrow> CRDTEngine \<Rightarrow> CRDTEngine \<times> (kv_error + u64)" where
  "en_SetWithLease xx ms key val lid e =
     (case en_leaseKeys e lid of
        None \<Rightarrow> (e, Inl ErrLeaseNotFound)
      | Some keys \<Rightarrow> let (e, ver) = en_put xx ms key val (attachKey key lid keys e) in (e, Inr ver))"

definition en_SetIfAbsentWithLease ::
  "(byte list \<Rightarrow> u64) \<Rightarrow> i64 \<Rightarrow> string \<Rightarrow> byte list \<Rightarrow> string \<Rightarrow> CRDTEngine \<Rightarrow> CRDTEngine \<times> (kv_error + u64 \<times> bool)" where
  "en_SetIfAbsentWithLease xx ms key val lid e =
     (case en_leaseKeys e lid of
        None \<Rightarrow> (e, Inl ErrLeaseNotFound)
      | Some keys \<Rightarrow>
          (case LookupEntry xx (en_state e) key of
             Some cur \<Rightarrow> (e, Inr (ce_Counter cur, False))
           | None \<Rightarrow> let (e, ver) = en_put xx ms key val (attachKey key lid keys e) in (e, Inr (ver, True))))"

text \<open>\<open>ms\<close> gives the clock at the removal of each key.\<close>

definition expireKey :: "(byte list \<Rightarrow> u64) \<Rightarrow> (string \<Rightarrow> i64) \<Rightarrow> string \<Rightarrow> CRDTEngine \<Rightarrow> CRDTEngine" where
  "expireKey xx ms k e =
     (case crdt_Unregister xx k (en_wall (ms k) e) (en_state e) of
        (s, None) \<Rightarrow> e\<lparr>en_state := s\<rparr>
      | (s, Some en) \<Rightarrow> en_emit WatchExpired (keyOnly k) (en_push en (e\<lparr>en_state := s\<rparr>)))"

definition expireLease :: "(byte list \<Rightarrow> u64) \<Rightarrow> (string set \<Rightarrow> string list) \<Rightarrow> (string \<Rightarrow> i64) \<Rightarrow> string \<Rightarrow> CRDTEngine \<Rightarrow> CRDTEngine" where
  "expireLease xx it ms lid e =
     (let keys = (case en_leaseKeys e lid of None \<Rightarrow> {} | Some ks \<Rightarrow> ks);
          toDelete = it keys;
          e = e\<lparr>en_leaseKeys := (en_leaseKeys e)(lid := None), en_deadlines := (en_deadlines e)(lid := None),
                en_keyLease := en_keyLease e |` (- keys)\<rparr>
      in fold (expireKey xx ms) toDelete e)"

text \<open>One tick of the reaper.\<close>

definition en_reap :: "(byte list \<Rightarrow> u64) \<Rightarrow> (string set \<Rightarrow> string list) \<Rightarrow> (string \<Rightarrow> i64) \<Rightarrow> int \<Rightarrow> CRDTEngine \<Rightarrow> CRDTEngine" where
  "en_reap xx it ms now e =
     (let expired = filter (\<lambda>lid. the (en_deadlines e lid) \<le> now) (it (dom (en_deadlines e)))
      in fold (expireLease xx it ms) expired e)"

section \<open>Collecting tombstones\<close>

definition tombstoneAckedByPeers :: "CRDTEngine \<Rightarrow> (CrdtEntry \<Rightarrow> bool) option" where
  "tombstoneAckedByPeers e =
     (case en_alive e of
        None \<Rightarrow> None
      | Some alive \<Rightarrow>
          if alive = {} then None
          else Some (\<lambda>ent. \<forall>peer \<in> alive - {en_localNode e}.
            (ce_Node ent, ce_Counter ent) \<in> (case en_peerTombAck e peer of None \<Rightarrow> {} | Some acks \<Rightarrow> acks)))"

definition pruneTombstoneAcks :: "CrdtEntry list \<Rightarrow> CRDTEngine \<Rightarrow> CRDTEngine" where
  "pruneTombstoneAcks reaped e =
     (if reaped = [] then e
      else
        let dots = (\<lambda>r. (ce_Node r, ce_Counter r)) ` set reaped
        in e\<lparr>en_peerTombAck := (\<lambda>peer. case en_peerTombAck e peer of
               None \<Rightarrow> None
             | Some acks \<Rightarrow> if acks - dots = {} then None else Some (acks - dots))\<rparr>)"

definition durationMs :: "i64 \<Rightarrow> i64" where
  "durationMs d = word_of_int (if sint d \<ge> 0 then sint d div 1000000 else - ((- sint d) div 1000000))"

definition gcTombstones :: "(string set \<Rightarrow> string list) \<Rightarrow> i64 \<Rightarrow> CRDTEngine \<Rightarrow> CRDTEngine \<times> nat \<times> nat" where
  "gcTombstones it ms e =
     (let nowScaled = ms * wallScale;
          floorScaled = durationMs (en_tombstoneFloor e) * wallScale;
          r = ReapTombstonesWhere it (tombstoneAckedByPeers e) nowScaled floorScaled (en_state e)
      in (pruneTombstoneAcks (rp_reaped r) (e\<lparr>en_state := rp_state r\<rparr>), rp_safe r, rp_floor r))"

section \<open>Gossip\<close>

definition DrainBroadcasts :: "int \<Rightarrow> int \<Rightarrow> CRDTEngine \<Rightarrow> byte list list \<times> CRDTEngine" where
  "DrainBroadcasts overhead budget e = (let (frames, q) = Drain overhead budget (en_queue e) in (frames, e\<lparr>en_queue := q\<rparr>))"

definition recordPeerTombstoneAck :: "string \<Rightarrow> CrdtEntry \<Rightarrow> CRDTEngine \<Rightarrow> CRDTEngine" where
  "recordPeerTombstoneAck peer ent e =
     (if peer = [] then e
      else
        let m = (case en_peerTombAck e peer of None \<Rightarrow> {} | Some acks \<Rightarrow> acks)
        in e\<lparr>en_peerTombAck := (en_peerTombAck e)(peer \<mapsto> insert (ce_Node ent, ce_Counter ent) m)\<rparr>)"

definition onDelta :: "(byte list \<Rightarrow> u64) \<Rightarrow> string \<Rightarrow> CrdtEntry \<times> string \<Rightarrow> CRDTEngine \<Rightarrow> CRDTEngine" where
  "onDelta xx ackPeer d e =
     (let (s, nid) = InternNode (snd d) (en_state e);
          en = (fst d)\<lparr>ce_Node := nid\<rparr>;
          e = e\<lparr>en_state := s\<rparr>;
          e = (if ackPeer \<noteq> [] \<and> ce_Deleted en then recordPeerTombstoneAck ackPeer en e else e);
          (s, outcome, merged) = crdt_Apply xx en (en_state e);
          e = e\<lparr>en_state := s\<rparr>
      in if outcome = MergeApplied \<or> outcome = MergeDeleteWins
         then
           let e = en_push merged e
           in if ce_Deleted merged then en_emit WatchDelete (keyOnly (ce_Key merged)) e
              else en_emit WatchPut (kvEntry (ce_Key merged) (ce_Value merged) (ce_Counter merged)) e
         else e)"

definition onFrame :: "(byte list \<Rightarrow> u64) \<Rightarrow> byte list \<Rightarrow> string \<Rightarrow> CRDTEngine \<Rightarrow> CRDTEngine" where
  "onFrame xx data ackPeer e = fold (onDelta xx ackPeer) (fst (DecodeFrame data)) e"

definition kvCRDTFullStateMagic :: "byte list" where "kvCRDTFullStateMagic = bytes_of ''wkvcrdt'' @ [1]"

definition encodeFullState :: "CRDTEngine \<Rightarrow> byte list \<Rightarrow> byte list" where
  "encodeFullState e deltas =
     (let node = en_localNode e
      in if length node > 65535 then deltas
         else kvCRDTFullStateMagic @ le16 (length node) @ bytes_of node @ deltas)"

text \<open>The deltas of a list of entries; an entry that cannot be encoded is left out.\<close>

definition encode_entries :: "CrdtState \<Rightarrow> CrdtEntry list \<Rightarrow> byte list" where
  "encode_entries s entries = concat (map (\<lambda>en.
     case EncodeDelta [] en (NodeString s (ce_Node en)) of Inr buf \<Rightarrow> buf | Inl _ \<Rightarrow> []) entries)"

definition FullState :: "(string set \<Rightarrow> string list) \<Rightarrow> CRDTEngine \<Rightarrow> byte list" where
  "FullState it e = encodeFullState e
     (concat (map (\<lambda>i. encode_entries (en_state e) (ShardEntries it (en_state e) (int i))) [0..<ShardCount]))"

definition mergeFullState :: "(byte list \<Rightarrow> u64) \<Rightarrow> byte list \<Rightarrow> CRDTEngine \<Rightarrow> CRDTEngine \<times> bool" where
  "mergeFullState xx buf e =
     (if length buf < length kvCRDTFullStateMagic \<or> take (length kvCRDTFullStateMagic) buf \<noteq> kvCRDTFullStateMagic then (e, False)
      else
        let pos = length kvCRDTFullStateMagic
        in if length buf - pos < 2 then (e, True)
           else
             let nodeLen = le_nat (go_slice buf pos (pos + 2)); pos = pos + 2
             in if nodeLen = 0 \<or> length buf - pos < nodeLen then (e, True)
                else
                  let peer = string_of (go_slice buf pos (pos + nodeLen)); pos = pos + nodeLen
                  in (if pos < length buf then onFrame xx (drop pos buf) peer e else e, True))"

definition OnFrame :: "(byte list \<Rightarrow> u64) \<Rightarrow> byte list \<Rightarrow> CRDTEngine \<Rightarrow> CRDTEngine" where
  "OnFrame xx data e = (case mergeFullState xx data e of (e, True) \<Rightarrow> e | (e, False) \<Rightarrow> onFrame xx data [] e)"

definition MergeRemoteState :: "(byte list \<Rightarrow> u64) \<Rightarrow> byte list \<Rightarrow> CRDTEngine \<Rightarrow> CRDTEngine" where
  "MergeRemoteState xx buf e =
     (if length buf > 0 then (case mergeFullState xx buf e of (e, True) \<Rightarrow> e | (e, False) \<Rightarrow> OnFrame xx buf e) else e)"

section \<open>Durable snapshots\<close>

definition snapshotDurable :: "(string set \<Rightarrow> string list) \<Rightarrow> CRDTEngine \<Rightarrow> byte list" where
  "snapshotDurable it e = concat (map (\<lambda>i. encode_entries (en_state e)
     (filter (\<lambda>en. isDurableKey e (ce_Key en)) (ShardEntries it (en_state e) (int i)))) [0..<ShardCount])"

definition loadDurable :: "(byte list \<Rightarrow> u64) \<Rightarrow> byte list option \<Rightarrow> CRDTEngine \<Rightarrow> CRDTEngine" where
  "loadDurable xx file e = (case file of None \<Rightarrow> e | Some data \<Rightarrow> OnFrame xx data e)"

section \<open>What an engine holds\<close>

abbreviation en_view :: "(byte list \<Rightarrow> u64) \<Rightarrow> CRDTEngine \<Rightarrow> string \<rightharpoonup> dotted" where
  "en_view xx e \<equiv> crdt_view xx (en_state e)"

definition engine_ok :: "(byte list \<Rightarrow> u64) \<Rightarrow> CRDTEngine \<Rightarrow> bool" where
  "engine_ok xx e \<longleftrightarrow> crdt_wf xx (en_state e) \<and> NodeString (en_state e) (cs_localNode (en_state e)) = en_localNode e"

lemma en_Get_view:
  "en_Get xx e key = (case en_view xx e key of
      None \<Rightarrow> Inl ErrKeyNotFound
    | Some d \<Rightarrow> if dt_Deleted d then Inl ErrKeyNotFound else Inr (kvEntry key (dt_Value d) (dt_Counter d)))"
  by (simp add: en_Get_def LookupEntry_def crdt_view_def dotted_def split: option.split)

lemma en_state_sel [simp]:
  "en_state (en_emit typ cur e) = en_state e" "en_state (en_push en e) = en_state e" "en_state (detachKey key e) = en_state e"
  "en_state (recordPeerTombstoneAck p en e) = en_state e" "en_state (attachKey key lid keys e) = en_state e"
  "en_localNode (en_emit typ cur e) = en_localNode e" "en_localNode (en_push en e) = en_localNode e"
  "en_localNode (detachKey key e) = en_localNode e" "en_localNode (recordPeerTombstoneAck p en e) = en_localNode e"
  by (simp_all add: en_emit_def en_push_def detachKey_def recordPeerTombstoneAck_def attachKey_def Let_def split: option.split)

lemma en_state_onDelta [simp]: "en_state (onDelta xx p d e) = fst (receive xx d (en_state e))"
  by (simp add: onDelta_def receive_def case_prod_beta Let_def)

lemma en_localNode_onDelta [simp]: "en_localNode (onDelta xx p d e) = en_localNode e"
  by (simp add: onDelta_def case_prod_beta Let_def)

text \<open>The part of a frame that reaches the replicated set, and the peer that vouches for it.\<close>

definition payload :: "byte list \<Rightarrow> byte list \<times> string" where
  "payload buf =
     (let m = length kvCRDTFullStateMagic
      in if length buf < m \<or> take m buf \<noteq> kvCRDTFullStateMagic then (buf, [])
         else if length buf - m < 2 then ([], [])
         else
           let nodeLen = le_nat (go_slice buf m (m + 2))
           in if nodeLen = 0 \<or> length buf - (m + 2) < nodeLen then ([], [])
              else (drop (m + 2 + nodeLen) buf, string_of (go_slice buf (m + 2) (m + 2 + nodeLen))))"

definition frame_deltas :: "byte list \<Rightarrow> (CrdtEntry \<times> string) list" where
  "frame_deltas data = fst (DecodeFrame (fst (payload data)))"

lemma onFrame_Nil [simp]: "onFrame xx [] p e = e"
  by (simp add: onFrame_def DecodeFrame.simps)

lemma OnFrame_payload: "OnFrame xx data e = onFrame xx (fst (payload data)) (snd (payload data)) e"
proof -
  let ?m = "length kvCRDTFullStateMagic"
  consider "length data < ?m \<or> take ?m data \<noteq> kvCRDTFullStateMagic"
    | "\<not> length data < ?m" "take ?m data = kvCRDTFullStateMagic" "length data - ?m < 2"
    | "\<not> length data < ?m" "take ?m data = kvCRDTFullStateMagic" "\<not> length data - ?m < 2"
      "le_nat (go_slice data ?m (?m + 2)) = 0 \<or> length data - (?m + 2) < le_nat (go_slice data ?m (?m + 2))"
    | "\<not> length data < ?m" "take ?m data = kvCRDTFullStateMagic" "\<not> length data - ?m < 2"
      "\<not> (le_nat (go_slice data ?m (?m + 2)) = 0 \<or> length data - (?m + 2) < le_nat (go_slice data ?m (?m + 2)))" by argo
  then show ?thesis
    by cases (simp_all add: OnFrame_def mergeFullState_def payload_def Let_def)
qed

lemma OnFrame_deltas: "OnFrame xx data e = fold (onDelta xx (snd (payload data))) (frame_deltas data) e"
  by (simp add: OnFrame_payload onFrame_def frame_deltas_def)

text \<open>Deltas received in sequence: merges of the view, as long as the origins can be interned.\<close>

lemma ids_onDelta: "length (cs_stringIDs (en_state (onDelta xx p d e))) \<le> Suc (length (cs_stringIDs (en_state e)))"
  by (simp add: ids_receive InternNode_def internNodeLocked_def Let_def split: option.split)

lemma onDelta_refines:
  assumes "engine_ok xx e" "length (cs_stringIDs (en_state e)) < 2 ^ 32 - 8"
  shows "engine_ok xx (onDelta xx p d e)" "en_view xx (onDelta xx p d e) = merge_view d (en_view xx e)"
proof -
  have le: "length (cs_stringIDs (fst (receive xx d (en_state e)))) \<le> 2 ^ 32 - 8"
    using ids_onDelta [of xx p d e] assms(2) by simp
  have wf: "crdt_wf xx (en_state e)" using assms(1) by (simp add: engine_ok_def)
  show "en_view xx (onDelta xx p d e) = merge_view d (en_view xx e)" using receive_refines [OF wf le] by simp
  obtain s nid where I: "InternNode (snd d) (en_state e) = (s, nid)" by fastforce
  have "length (cs_stringIDs s) \<le> 2 ^ 32 - 8" using le by (simp add: ids_receive I)
  note N = InternNode_spec [OF _ I this]
  have ok: "intern_ok (en_state e)" using wf by (simp add: crdt_wf_def)
  then have lt: "cs_localNode (en_state e) < length (cs_stringIDs (en_state e))" by (simp add: intern_ok_def)
  obtain zs where z: "cs_stringIDs s = cs_stringIDs (en_state e) @ zs" using N(4) [OF ok] by blast
  have "cs_localNode (fst (receive xx d (en_state e))) = cs_localNode (en_state e)"
    using N(8) [OF ok] by (simp add: receive_def I Apply_install split: option.split)
  moreover have "NodeString (fst (receive xx d (en_state e))) (cs_localNode (en_state e)) = NodeString (en_state e) (cs_localNode (en_state e))"
    using lt by (simp add: NodeString_def ids_receive I z nth_append)
  ultimately show "engine_ok xx (onDelta xx p d e)"
    using assms(1) receive_wf [OF wf le] by (simp add: engine_ok_def)
qed

lemma onDeltas_refine:
  assumes "engine_ok xx e" "length (cs_stringIDs (en_state e)) + length ds \<le> 2 ^ 32 - 8"
  shows "engine_ok xx (fold (onDelta xx p) ds e)" "en_view xx (fold (onDelta xx p) ds e) = fold merge_view ds (en_view xx e)"
    "length (cs_stringIDs (en_state (fold (onDelta xx p) ds e))) \<le> length (cs_stringIDs (en_state e)) + length ds"
    "en_localNode (fold (onDelta xx p) ds e) = en_localNode e"
  using assms
proof (induction ds arbitrary: e)
  case (Cons d ds)
  { case 1
    have "engine_ok xx (onDelta xx p d e)" using onDelta_refines [OF 1(1)] 1(2) by simp
    then show ?case using Cons(1) [of "onDelta xx p d e"] 1(2) ids_onDelta [of xx p d e] by simp
  next
    case 2
    have "engine_ok xx (onDelta xx p d e)" "en_view xx (onDelta xx p d e) = merge_view d (en_view xx e)"
      using onDelta_refines [OF 2(1), of p d] 2(2) by simp_all
    then show ?case using Cons(2) [of "onDelta xx p d e"] 2(2) ids_onDelta [of xx p d e] by simp
  next
    case 3
    have "engine_ok xx (onDelta xx p d e)" using onDelta_refines [OF 3(1)] 3(2) by simp
    then show ?case using Cons(3) [of "onDelta xx p d e"] 3(2) ids_onDelta [of xx p d e] by simp
  next
    case 4
    have "engine_ok xx (onDelta xx p d e)" using onDelta_refines [OF 4(1)] 4(2) by simp
    then show ?case using Cons(4) [of "onDelta xx p d e"] 4(2) ids_onDelta [of xx p d e] by simp
  }
qed simp_all

lemma NewCRDTEngine_ok: "engine_ok xx (NewCRDTEngine node)" "length (cs_stringIDs (en_state (NewCRDTEngine node))) = 1"
  "en_view xx (NewCRDTEngine node) = Map.empty" "en_localNode (NewCRDTEngine node) = node"
  by (simp_all add: engine_ok_def NewCRDTEngine_def NewState_wf crdt_view_def fun_eq_iff)
     (simp_all add: NewState_eq NodeString_def)

section \<open>Runs of an engine\<close>

datatype engine_step = StepSet string "byte list" i64 | StepDelete string i64 | StepFrame "byte list"

fun do_step :: "(byte list \<Rightarrow> u64) \<Rightarrow> engine_step \<Rightarrow> CRDTEngine \<Rightarrow> CRDTEngine" where
  "do_step xx (StepSet key val ms) e = fst (en_Set xx ms key val e)"
| "do_step xx (StepDelete key ms) e = fst (en_Delete xx ms key e)"
| "do_step xx (StepFrame data) e = OnFrame xx data e"

text \<open>The deltas a step adds to the history: the one it creates, or those of the frame.\<close>

fun step_deltas :: "(byte list \<Rightarrow> u64) \<Rightarrow> engine_step \<Rightarrow> CRDTEngine \<Rightarrow> (CrdtEntry \<times> string) list" where
  "step_deltas xx (StepSet key val ms) e = [(plain (local_entry key val (en_wall ms e) False (en_state e)), en_localNode e)]"
| "step_deltas xx (StepDelete key ms) e =
     (if LookupEntry xx (en_state e) key = None then []
      else [(plain (local_entry key [] (en_wall ms e) True (en_state e)), en_localNode e)])"
| "step_deltas xx (StepFrame data) e = frame_deltas data"

text \<open>A local write is timely when it would win a merge against what the node holds under its key.\<close>

definition timely :: "(byte list \<Rightarrow> u64) \<Rightarrow> engine_step \<Rightarrow> CRDTEngine \<Rightarrow> bool" where
  "timely xx st e \<longleftrightarrow> (case st of StepFrame _ \<Rightarrow> True
     | _ \<Rightarrow> list_all (\<lambda>d. case en_view xx e (delta_key d) of None \<Rightarrow> True | Some cur \<Rightarrow> dt_beats (delta_val d) cur) (step_deltas xx st e))"

fun engine_run :: "(byte list \<Rightarrow> u64) \<Rightarrow> engine_step list \<Rightarrow> CRDTEngine \<Rightarrow> CRDTEngine" where
  "engine_run xx [] e = e"
| "engine_run xx (st # sts) e = engine_run xx sts (do_step xx st e)"

fun run_deltas :: "(byte list \<Rightarrow> u64) \<Rightarrow> engine_step list \<Rightarrow> CRDTEngine \<Rightarrow> (CrdtEntry \<times> string) list" where
  "run_deltas xx [] e = []"
| "run_deltas xx (st # sts) e = step_deltas xx st e @ run_deltas xx sts (do_step xx st e)"

fun timely_run :: "(byte list \<Rightarrow> u64) \<Rightarrow> engine_step list \<Rightarrow> CRDTEngine \<Rightarrow> bool" where
  "timely_run xx [] e = True"
| "timely_run xx (st # sts) e \<longleftrightarrow> timely xx st e \<and> timely_run xx sts (do_step xx st e)"

lemma delta_plain:
  "delta_key (plain en, origin) = ce_Key en"
  "ce_Deleted en \<longrightarrow> ce_Value en = [] \<Longrightarrow> delta_val (plain en, origin) = dotted origin en"
  by (auto simp: delta_key_def delta_val_def dotted_def plain_def)

lemma local_entry_sel [simp]: "ce_Key (local_entry key val w del s) = key" "ce_Deleted (local_entry key val w del s) = del"
  by (simp_all add: local_entry_def)

lemma NodeString_counter [simp]: "NodeString (s\<lparr>cs_localCounter := c\<rparr>) = NodeString s"
  by (auto simp: NodeString_def fun_eq_iff)

lemma local_write_view:
  fixes e :: CRDTEngine
  defines "s1 \<equiv> (en_state e)\<lparr>cs_localCounter := cs_localCounter (en_state e) + 1\<rparr>"
  assumes ok: "engine_ok xx e"
    and e': "en_state e' = install xx (local_entry key val w del (en_state e)) s1" "en_localNode e' = en_localNode e"
  shows "engine_ok xx e'" "en_view xx e' = (en_view xx e)(key \<mapsto> dotted (en_localNode e) (local_entry key val w del (en_state e)))"
    "length (cs_stringIDs (en_state e')) = length (cs_stringIDs (en_state e))"
proof -
  let ?en = "local_entry key val w del (en_state e)"
  have N: "NodeString s1 (ce_Node ?en) = en_localNode e" using ok by (simp add: s1_def local_entry_def engine_ok_def)
  have "crdt_wf xx (install xx ?en s1)"
    unfolding s1_def using ok by (intro install_local_wf) (simp add: engine_ok_def)
  moreover have "NodeString (en_state e') (cs_localNode (en_state e')) = en_localNode e'"
    using N by (simp add: e' s1_def local_entry_def)
  ultimately show "engine_ok xx e'" by (simp add: engine_ok_def e')
  have v: "crdt_view xx s1 = en_view xx e" by (simp add: crdt_view_def s1_def fun_eq_iff)
  show "en_view xx e' = (en_view xx e)(key \<mapsto> dotted (en_localNode e) ?en)" by (simp add: e' N v)
  show "length (cs_stringIDs (en_state e')) = length (cs_stringIDs (en_state e))" by (simp add: e' s1_def)
qed

lemma local_write_refines:
  assumes ok: "engine_ok xx e" and del: "del \<longrightarrow> val = []"
    and e': "en_state e' = install xx (local_entry key val w del (en_state e))
        ((en_state e)\<lparr>cs_localCounter := cs_localCounter (en_state e) + 1\<rparr>)" "en_localNode e' = en_localNode e"
    and win: "case en_view xx e key of None \<Rightarrow> True
      | Some cur \<Rightarrow> dt_beats (delta_val (plain (local_entry key val w del (en_state e)), en_localNode e)) cur"
  shows "en_view xx e' = merge_view (plain (local_entry key val w del (en_state e)), en_localNode e) (en_view xx e)"
proof -
  let ?en = "local_entry key val w del (en_state e)"
  have d: "delta_key (plain ?en, en_localNode e) = key" "delta_val (plain ?en, en_localNode e) = dotted (en_localNode e) ?en"
    using del by (simp_all add: delta_plain local_entry_def)
  with win local_write_view(2) [OF ok e'] show ?thesis
    by (simp add: merge_view_def split: option.split_asm option.split)
qed

lemma step_refines:
  assumes ok: "engine_ok xx e" and le: "length (cs_stringIDs (en_state e)) + length (step_deltas xx st e) \<le> 2 ^ 32 - 8"
    and t: "timely xx st e"
  shows "engine_ok xx (do_step xx st e) \<and> en_view xx (do_step xx st e) = fold merge_view (step_deltas xx st e) (en_view xx e) \<and>
    length (cs_stringIDs (en_state (do_step xx st e))) \<le> length (cs_stringIDs (en_state e)) + length (step_deltas xx st e)"
proof (cases st)
  case (StepFrame data)
  with onDeltas_refine [OF ok, of "frame_deltas data"] le show ?thesis by (simp add: OnFrame_deltas)
next
  case (StepSet key val ms)
  let ?e' = "fst (en_Set xx ms key val e)"
  have s: "en_state ?e' = install xx (local_entry key val (en_wall ms e) False (en_state e))
      ((en_state e)\<lparr>cs_localCounter := cs_localCounter (en_state e) + 1\<rparr>)" "en_localNode ?e' = en_localNode e"
    by (simp_all add: en_Set_def en_put_def Overwrite_def writeLocal_install Let_def)
  have "case en_view xx e key of None \<Rightarrow> True
      | Some cur \<Rightarrow> dt_beats (delta_val (plain (local_entry key val (en_wall ms e) False (en_state e)), en_localNode e)) cur"
    using t by (simp add: timely_def StepSet delta_plain(1))
  from local_write_refines [OF ok _ s this] local_write_view [OF ok s] show ?thesis by (simp add: StepSet)
next
  case (StepDelete key ms)
  let ?e' = "fst (en_Delete xx ms key e)"
  show ?thesis
  proof (cases "LookupEntry xx (en_state e) key")
    case None
    then have "crdt_Unregister xx key (en_wall ms e) (en_state e) = (en_state e, None)"
      by (auto simp: Unregister_install LookupEntry_def split: option.splits if_splits)
    with None ok show ?thesis by (simp add: StepDelete en_Delete_def)
  next
    case (Some cur)
    then have u: "crdt_Unregister xx key (en_wall ms e) (en_state e) =
        (install xx (local_entry key [] (en_wall ms e) True (en_state e)) ((en_state e)\<lparr>cs_localCounter := cs_localCounter (en_state e) + 1\<rparr>),
         Some (local_entry key [] (en_wall ms e) True (en_state e)))"
      by (auto simp: Unregister_install LookupEntry_def split: option.splits if_splits)
    have s: "en_state ?e' = install xx (local_entry key [] (en_wall ms e) True (en_state e))
        ((en_state e)\<lparr>cs_localCounter := cs_localCounter (en_state e) + 1\<rparr>)" "en_localNode ?e' = en_localNode e"
      by (simp_all add: en_Delete_def u)
    have "case en_view xx e key of None \<Rightarrow> True
        | Some cur \<Rightarrow> dt_beats (delta_val (plain (local_entry key [] (en_wall ms e) True (en_state e)), en_localNode e)) cur"
      using t Some by (simp add: timely_def StepDelete delta_plain(1))
    from local_write_refines [OF ok _ s this] local_write_view [OF ok s] Some show ?thesis by (simp add: StepDelete)
  qed
qed

lemma run_refines:
  assumes "engine_ok xx e" "length (cs_stringIDs (en_state e)) + length (run_deltas xx sts e) \<le> 2 ^ 32 - 8" "timely_run xx sts e"
  shows "engine_ok xx (engine_run xx sts e) \<and> en_view xx (engine_run xx sts e) = fold merge_view (run_deltas xx sts e) (en_view xx e)"
  using assms
proof (induction sts arbitrary: e)
  case (Cons st sts)
  have s: "engine_ok xx (do_step xx st e)" "en_view xx (do_step xx st e) = fold merge_view (step_deltas xx st e) (en_view xx e)"
    "length (cs_stringIDs (en_state (do_step xx st e))) \<le> length (cs_stringIDs (en_state e)) + length (step_deltas xx st e)"
    using step_refines [OF Cons.prems(1), of st] Cons.prems(2,3) by simp_all
  from Cons.IH [OF s(1)] s(2,3) Cons.prems(2,3) show ?case by simp
qed simp

section \<open>Convergence\<close>

text \<open>
  One dot of one key names one entry, and the entries of one origin under one key grow with its counter.
\<close>

definition consistent :: "(CrdtEntry \<times> string) list \<Rightarrow> bool" where
  "consistent ds \<longleftrightarrow> (\<forall>d \<in> set ds. \<forall>d' \<in> set ds. delta_key d = delta_key d' \<longrightarrow>
     dt_agree (delta_val d) (delta_val d') \<and> (dt_rank (delta_val d) = dt_rank (delta_val d') \<longrightarrow> delta_val d = delta_val d'))"

lemma fold_merge_set:
  assumes "consistent ds" "set ds = set ds'"
  shows "fold merge_view ds Map.empty = fold merge_view ds' Map.empty"
proof
  fix k
  have c: "rview.coherent ds" "rview.coherent ds'" using assms by (auto simp: consistent_def rview.coherent_def)
  have "map_option id (fold merge_view ds Map.empty k) = map_option id (fold merge_view ds' Map.empty k)"
    by (rule rview.newest_unique [OF rview.newest_fold [OF c(1)] rview.newest_fold [OF c(2)]])
       (use assms in \<open>auto simp: consistent_def\<close>)
  then show "fold merge_view ds Map.empty k = fold merge_view ds' Map.empty k" by (simp add: option.map_id)
qed

text \<open>
  C35. Two nodes of a gossip cluster that have seen the same set of deltas, by local writes and by frames in
  any order, grouping and repetition, answer every read alike, with the same versions, and have equal
  digests, so anti-entropy finds nothing to repair; the interned ids, the map orders and the order of
  arrival do not matter. This holds under two conditions on the deltas. The history is consistent: one
  dot of one key names one entry, the entries of one origin under one key grow with its counter, and
  entries of equal rank are equal. Every local write is timely: it would win a merge against what
  the node holds under its key, which a node whose clock is behind the entry it overwrites does not
  guarantee (its write replaces the entry at home and loses on the peers).
\<close>

theorem engines_converge:
  fixes a b :: string
  defines "ea \<equiv> NewCRDTEngine a" and "eb \<equiv> NewCRDTEngine b"
  assumes "set (run_deltas xx sts ea) = set (run_deltas xx sts' eb)" "consistent (run_deltas xx sts ea)"
    and "timely_run xx sts ea" "timely_run xx sts' eb"
    and "length (run_deltas xx sts ea) < 2 ^ 32 - 8" "length (run_deltas xx sts' eb) < 2 ^ 32 - 8"
    and "map_order it" "map_order it'"
  shows "en_Get xx (engine_run xx sts ea) key = en_Get xx (engine_run xx sts' eb) key \<and>
    Digest_Diff (MakeDigest xx it (en_state (engine_run xx sts ea))) (MakeDigest xx it' (en_state (engine_run xx sts' eb))) = []"
proof -
  have A: "engine_ok xx (engine_run xx sts ea)" "en_view xx (engine_run xx sts ea) = fold merge_view (run_deltas xx sts ea) Map.empty"
    using run_refines [of xx ea sts] assms(5,7) by (simp_all add: ea_def NewCRDTEngine_ok)
  have B: "engine_ok xx (engine_run xx sts' eb)" "en_view xx (engine_run xx sts' eb) = fold merge_view (run_deltas xx sts' eb) Map.empty"
    using run_refines [of xx eb sts'] assms(6,8) by (simp_all add: eb_def NewCRDTEngine_ok)
  have v: "en_view xx (engine_run xx sts ea) = en_view xx (engine_run xx sts' eb)"
    unfolding A(2) B(2) by (rule fold_merge_set [OF assms(4,3)])
  with MakeDigest_view [OF _ _ assms(9,10) v] A(1) B(1) show ?thesis
    by (simp add: en_Get_view engine_ok_def Digest_Diff_def)
qed

lemma payload_entries: "payload (concat (map entry_bytes ds)) = (concat (map entry_bytes ds), [])"
proof -
  let ?b = "concat (map entry_bytes ds)"
  have "take (length kvCRDTFullStateMagic) ?b \<noteq> kvCRDTFullStateMagic"
  proof (cases ds)
    case Nil
    then show ?thesis by (simp add: kvCRDTFullStateMagic_def)
  next
    case (Cons d ds')
    then have "hd (take (length kvCRDTFullStateMagic) ?b) = (if ce_Deleted (fst d) then OpTombstone else OpPut)"
      by (cases d) (simp add: entry_bytes_def kvCRDTFullStateMagic_def)
    moreover have "hd kvCRDTFullStateMagic = 119" by (simp add: kvCRDTFullStateMagic_def bytes_of_def)
    ultimately show ?thesis by (auto simp: OpTombstone_def OpPut_def split: if_splits)
  qed
  then show ?thesis by (simp add: payload_def Let_def)
qed

lemma frame_deltas_entry: "crdt_wire_ok d \<Longrightarrow> frame_deltas (entry_bytes d) = [d]"
  using payload_entries [of "[d]"] ccodec.frame_concat [of "[d]"] by (simp add: frame_deltas_def)

lemma OnFrame_entry: "crdt_wire_ok d \<Longrightarrow> OnFrame xx (entry_bytes d) e = onDelta xx [] d e"
  using payload_entries [of "[d]"] by (simp add: OnFrame_deltas frame_deltas_entry)

lemma receive_local [simp]:
  "cs_localCounter (fst (receive xx d s)) = cs_localCounter s" "cs_localNode (fst (receive xx d s)) = cs_localNode s"
  by (simp_all add: receive_def case_prod_beta Apply_install InternNode_def internNodeLocked_def Let_def split: option.split)

lemma en_tiebreak_sel [simp]:
  "en_tiebreak (en_emit typ cur e) = en_tiebreak e" "en_tiebreak (en_push en e) = en_tiebreak e"
  "en_tiebreak (recordPeerTombstoneAck p en e) = en_tiebreak e" "en_tiebreak (onDelta xx p d e) = en_tiebreak e"
  by (simp_all add: en_emit_def en_push_def recordPeerTombstoneAck_def onDelta_def case_prod_beta Let_def)

definition demoWrite :: "u64 \<Rightarrow> byte \<Rightarrow> i64 \<Rightarrow> CrdtEntry" where
  "demoWrite c v w = \<lparr>ce_Key = ''k'', ce_Value = [v], ce_Counter = c, ce_Wall = w, ce_Node = 0, ce_Deleted = False\<rparr>"

lemma demo_wire_ok: "crdt_wire_ok (demoWrite c v w, [x])"
  by (simp add: crdt_wire_ok_def crdt_encodable_def demoWrite_def plain_def)

lemma demo_tiebreak: "en_tiebreak (NewCRDTEngine ''a'') = 2220" "en_tiebreak (NewCRDTEngine ''b'') = 335077"
  by (simp_all add: NewCRDTEngine_def fnv32a_def bytes_of_def)

lemma demo_local:
  "en_state e = s \<Longrightarrow> cs_localNode s = 0 \<Longrightarrow> plain (local_entry ''k'' [v] (en_wall ms e) False s) =
     demoWrite (cs_localCounter s + 1) v (ms * 1000000 + en_tiebreak e)"
  by (simp add: local_entry_def demoWrite_def plain_def en_wall_def wallScale_def)

lemma demo_init [simp]: "cs_localNode (en_state (NewCRDTEngine n)) = 0" "cs_localCounter (en_state (NewCRDTEngine n)) = 0"
  by (simp_all add: NewCRDTEngine_def NewState_eq)

theorem engines_converge_witness:
  defines "da \<equiv> (demoWrite 1 1 5002220, ''a'')" and "db \<equiv> (demoWrite 1 2 6335077, ''b'')"
  defines "ra \<equiv> engine_run (\<lambda>_. 0) [StepSet ''k'' [1] 5, StepFrame (entry_bytes db)] (NewCRDTEngine ''a'')"
  defines "rb \<equiv> engine_run (\<lambda>_. 0) [StepFrame (entry_bytes da), StepSet ''k'' [2] 6] (NewCRDTEngine ''b'')"
  shows "en_Get (\<lambda>_. 0) ra ''k'' = en_Get (\<lambda>_. 0) rb ''k'' \<and>
    Digest_Diff (MakeDigest (\<lambda>_. 0) sorted_list_of_set (en_state ra)) (MakeDigest (\<lambda>_. 0) sorted_list_of_set (en_state rb)) = []"
proof -
  let ?a = "NewCRDTEngine ''a''" and ?b = "NewCRDTEngine ''b''"
  have A: "run_deltas (\<lambda>_. 0) [StepSet ''k'' [1] 5, StepFrame (entry_bytes db)] ?a = [da, db]"
    by (simp add: db_def frame_deltas_entry demo_wire_ok demo_local demo_tiebreak NewCRDTEngine_ok da_def)
  have B: "run_deltas (\<lambda>_. 0) [StepFrame (entry_bytes da), StepSet ''k'' [2] 6] ?b = [da, db]"
    by (simp add: da_def db_def frame_deltas_entry demo_wire_ok OnFrame_entry demo_wire_ok demo_local demo_tiebreak NewCRDTEngine_ok)
  have c: "consistent [da, db]"
    by (auto simp: consistent_def da_def db_def delta_val_def dt_agree_def dt_grows_def dotted_def dt_rank_def)
  have ta: "timely_run (\<lambda>_. 0) [StepSet ''k'' [1] 5, StepFrame (entry_bytes db)] ?a"
    by (simp add: timely_def delta_plain NewCRDTEngine_ok)
  have tb: "timely_run (\<lambda>_. 0) [StepFrame (entry_bytes da), StepSet ''k'' [2] 6] ?b"
  proof -
    let ?e = "onDelta (\<lambda>_. 0) [] da ?b"
    have "en_view (\<lambda>_. 0) ?e = [''k'' \<mapsto> dotted ''a'' (demoWrite 1 1 5002220)]"
      by (subst onDelta_refines(2)) (simp_all add: NewCRDTEngine_ok merge_view_def da_def delta_key_def delta_val_def demoWrite_def)
    moreover have "plain (local_entry ''k'' [2] (en_wall 6 ?e) False (en_state ?e)) = demoWrite 1 2 6335077"
      by (subst demo_local) (simp_all add: demo_tiebreak)
    ultimately show ?thesis
      by (simp add: timely_def delta_plain(1) OnFrame_entry demo_wire_ok da_def NewCRDTEngine_ok del: en_state_onDelta)
         (simp add: dt_beats_def delta_val_def dotted_def demoWrite_def)
  qed
  show ?thesis
    unfolding ra_def rb_def
    by (rule engines_converge [OF _ _ ta tb _ _ map_order_sorted map_order_sorted]) (unfold A B, simp_all add: c)
qed

section \<open>Full-state exchange\<close>

definition state_entries :: "(string set \<Rightarrow> string list) \<Rightarrow> CrdtState \<Rightarrow> CrdtEntry list" where
  "state_entries it s = concat (map (\<lambda>i. ShardEntries it s (int i)) [0..<ShardCount])"

definition state_deltas :: "(string set \<Rightarrow> string list) \<Rightarrow> CrdtState \<Rightarrow> (CrdtEntry \<times> string) list" where
  "state_deltas it s = map (\<lambda>en. (plain en, NodeString s (ce_Node en))) (state_entries it s)"

text \<open>A state that can be exported whole: every entry encodes, tombstones carry no value.\<close>

definition exportable :: "(byte list \<Rightarrow> u64) \<Rightarrow> CRDTEngine \<Rightarrow> bool" where
  "exportable xx e \<longleftrightarrow> en_localNode e \<noteq> [] \<and> length (en_localNode e) \<le> 65535 \<and>
     (\<forall>en \<in> ran (crdt_entry xx (en_state e)).
        crdt_encodable (en, NodeString (en_state e) (ce_Node en)) \<and> (ce_Deleted en \<longrightarrow> ce_Value en = []))"

lemma set_state_entries:
  assumes wf: "crdt_wf xx s" and it: "map_order it"
  shows "set (state_entries it s) = ran (crdt_entry xx s)"
proof -
  have at: "i = ShardFor xx k" if "cs_shards s i k = Some en" for i k en
    using wf that unfolding crdt_wf_def stored_ok_def by metis
  have items: "set (ShardEntries it s (int i)) = ran (cs_shards s i)" if "i < ShardCount" for i
  proof -
    have "dom (cs_shards s i) \<subseteq> dom (crdt_entry xx s)" using at by (fastforce simp: crdt_entry_def)
    then have fin: "finite (dom (cs_shards s i))" using wf by (auto simp: crdt_wf_def counts_ok_def intro: rev_finite_subset)
    have "set (ShardEntries it s (int i)) = (\<lambda>k. the (cs_shards s i k)) ` dom (cs_shards s i)"
      using that by (simp add: ShardEntries_def shard_items_def comp_def map_order_set [OF it fin])
    also have "\<dots> = ran (cs_shards s i)" by (force simp: ran_def)
    finally show ?thesis .
  qed
  have "en \<in> (\<Union>i < ShardCount. ran (cs_shards s i)) \<longleftrightarrow> en \<in> ran (crdt_entry xx s)" for en
  proof
    assume "en \<in> (\<Union>i < ShardCount. ran (cs_shards s i))"
    then obtain i k where "cs_shards s i k = Some en" by (auto simp: ran_def)
    with at [OF this] show "en \<in> ran (crdt_entry xx s)" by (auto simp: ran_def crdt_entry_def)
  next
    assume "en \<in> ran (crdt_entry xx s)"
    then obtain k where "cs_shards s (ShardFor xx k) k = Some en" by (auto simp: ran_def crdt_entry_def)
    moreover have "ShardFor xx k < ShardCount" by (simp add: ShardFor_def ShardCount_def)
    ultimately show "en \<in> (\<Union>i < ShardCount. ran (cs_shards s i))" by (auto simp: ran_def)
  qed
  moreover have "set (state_entries it s) = (\<Union>i < ShardCount. ran (cs_shards s i))"
    using items by (simp add: state_entries_def lessThan_atLeast0)
  ultimately show ?thesis by blast
qed

lemma length_state_deltas:
  assumes wf: "crdt_wf xx s" and it: "map_order it"
  shows "length (state_deltas it s) = card (dom (crdt_entry xx s))"
proof -
  have at: "i = ShardFor xx k" if "cs_shards s i k = Some en" for i k en
    using wf that unfolding crdt_wf_def stored_ok_def by metis
  have sub: "dom (cs_shards s i) \<subseteq> dom (crdt_entry xx s)" for i using at by (fastforce simp: crdt_entry_def)
  have fin: "finite (dom (cs_shards s i))" for i
    by (rule rev_finite_subset [OF _ sub]) (use wf in \<open>simp add: crdt_wf_def counts_ok_def\<close>)
  have one: "length (ShardEntries it s (int i)) = card (dom (cs_shards s i))" if "i < ShardCount" for i
    using that distinct_card [OF map_order_distinct [OF it fin [of i]]] map_order_set [OF it fin [of i]]
    by (simp add: ShardEntries_def shard_items_def)
  have in_shard: "k \<in> (\<Union>i < ShardCount. dom (cs_shards s i))" if k: "k \<in> dom (crdt_entry xx s)" for k
  proof -
    have "ShardFor xx k < ShardCount" by (simp add: ShardFor_def ShardCount_def)
    moreover have "k \<in> dom (cs_shards s (ShardFor xx k))" using k by (simp add: crdt_entry_def domIff)
    ultimately show ?thesis by (intro UN_I [of "ShardFor xx k"]) simp_all
  qed
  have "dom (crdt_entry xx s) = (\<Union>i < ShardCount. dom (cs_shards s i))"
    by (intro equalityI subsetI in_shard, assumption) (use sub in \<open>auto simp only: UN_iff\<close>)
  moreover have "card (\<Union>i < ShardCount. dom (cs_shards s i)) = (\<Sum>i < ShardCount. card (dom (cs_shards s i)))"
  proof (rule card_UN_disjoint)
    show "\<forall>i \<in> {..<ShardCount}. finite (dom (cs_shards s i))" using fin by simp
    have "i = j" if "k \<in> dom (cs_shards s i)" "k \<in> dom (cs_shards s j)" for i j k
      using that at by (metis domD)
    then show "\<forall>i \<in> {..<ShardCount}. \<forall>j \<in> {..<ShardCount}. i \<noteq> j \<longrightarrow> dom (cs_shards s i) \<inter> dom (cs_shards s j) = {}" by blast
  qed simp
  moreover have "length (state_deltas it s) = (\<Sum>i < ShardCount. card (dom (cs_shards s i)))"
    using one by (simp add: state_deltas_def state_entries_def length_concat comp_def interv_sum_list_conv_sum_set_nat atLeast0LessThan)
  ultimately show ?thesis by simp
qed

lemma encode_entries_bytes:
  assumes "\<And>en. en \<in> set ens \<Longrightarrow> crdt_encodable (en, NodeString s (ce_Node en))"
  shows "encode_entries s ens = concat (map entry_bytes (map (\<lambda>en. (plain en, NodeString s (ce_Node en))) ens))"
  using assms by (induction ens) (simp_all add: encode_entries_def EncodeDelta_bytes)

lemma encode_entries_concat: "concat (map (\<lambda>i. encode_entries s (f i)) is) = encode_entries s (concat (map f is))"
  by (induction "is") (simp_all add: encode_entries_def)

lemma payload_envelope:
  assumes "node \<noteq> []" "length node \<le> 65535"
  shows "payload (kvCRDTFullStateMagic @ le16 (length node) @ bytes_of node @ deltas) = (deltas, node)"
proof -
  let ?b = "kvCRDTFullStateMagic @ le16 (length node) @ bytes_of node @ deltas" and ?m = "length kvCRDTFullStateMagic"
  have "go_slice ?b ?m (?m + 2) = le16 (length node)" "go_slice ?b (?m + 2) (?m + 2 + length node) = bytes_of node"
    by (simp_all add: go_slice_def)
  then show ?thesis using assms by (simp add: payload_def Let_def)
qed

lemma FullState_payload:
  assumes ok: "engine_ok xx e" and it: "map_order it" and ex: "exportable xx e"
  shows "payload (FullState it e) = (concat (map entry_bytes (state_deltas it (en_state e))), en_localNode e)"
    and "frame_deltas (FullState it e) = state_deltas it (en_state e)"
proof -
  let ?s = "en_state e"
  have "set (state_entries it ?s) = ran (crdt_entry xx ?s)" using ok it by (simp add: engine_ok_def set_state_entries)
  then have enc: "crdt_encodable (en, NodeString ?s (ce_Node en))" if "en \<in> set (state_entries it ?s)" for en
    using ex that by (simp add: exportable_def)
  have n: "en_localNode e \<noteq> []" "length (en_localNode e) \<le> 65535" using ex by (simp_all add: exportable_def)
  have "FullState it e = kvCRDTFullStateMagic @ le16 (length (en_localNode e)) @ bytes_of (en_localNode e) @
      concat (map entry_bytes (state_deltas it ?s))"
    using n(2) encode_entries_bytes [OF enc, of "state_entries it ?s"]
    by (simp add: FullState_def encodeFullState_def Let_def encode_entries_concat state_deltas_def state_entries_def [symmetric])
  then show p: "payload (FullState it e) = (concat (map entry_bytes (state_deltas it ?s)), en_localNode e)"
    using payload_envelope [OF n] by simp
  have "list_all crdt_wire_ok (state_deltas it ?s)"
    using enc by (auto simp: state_deltas_def list_all_iff encodable_plain)
  from ccodec.frame_concat [OF this] p show "frame_deltas (FullState it e) = state_deltas it ?s" by (simp add: frame_deltas_def)
qed

lemma state_deltas_view:
  assumes ok: "engine_ok xx e" and it: "map_order it" and ex: "exportable xx e"
  shows "d \<in> set (state_deltas it (en_state e)) \<longleftrightarrow>
    (\<exists>k en. d = (plain en, NodeString (en_state e) (ce_Node en)) \<and> crdt_entry xx (en_state e) k = Some en \<and> delta_key d = k \<and>
       en_view xx e k = Some (delta_val d))"
proof -
  let ?s = "en_state e"
  have wf: "crdt_wf xx ?s" using ok by (simp add: engine_ok_def)
  have key: "ce_Key en = k" if "crdt_entry xx ?s k = Some en" for k en
    using wf that unfolding crdt_wf_def stored_ok_def crdt_entry_def by metis
  have val: "delta_val (plain en, NodeString ?s (ce_Node en)) = dotted (NodeString ?s (ce_Node en)) en" if "crdt_entry xx ?s k = Some en" for k en
    using ex that by (intro delta_plain(2)) (auto simp: exportable_def ran_def)
  have "set (state_deltas it ?s) = (\<lambda>en. (plain en, NodeString ?s (ce_Node en))) ` ran (crdt_entry xx ?s)"
    using set_state_entries [OF wf it] by (simp add: state_deltas_def)
  then show ?thesis
    using key val by (auto simp: ran_def delta_plain(1) crdt_view_def)
qed

lemma MergeRemoteState_OnFrame: "buf \<noteq> [] \<Longrightarrow> MergeRemoteState xx buf e = OnFrame xx buf e"
proof -
  have "e' = e" if "mergeFullState xx buf e = (e', False)" for e'
    using that by (simp add: mergeFullState_def Let_def split: if_splits)
  then show "buf \<noteq> [] \<Longrightarrow> MergeRemoteState xx buf e = OnFrame xx buf e"
    by (cases "mergeFullState xx buf e") (auto simp: MergeRemoteState_def OnFrame_def split: bool.split)
qed

text \<open>
  C36. A full-state exchange brings a new node up to date: a fresh engine that merges the exported state of a
  peer answers every read as the peer does, with the same versions, and has the same digest.
\<close>

theorem full_state_sync:
  assumes "engine_ok xx e" "map_order it" "exportable xx e" "card (dom (en_view xx e)) < 2 ^ 32 - 8"
    and "e' = MergeRemoteState xx (FullState it e) (NewCRDTEngine node)"
  shows "en_Get xx e' key = en_Get xx e key \<and> Digest_Diff (MakeDigest xx it (en_state e')) (MakeDigest xx it (en_state e)) = []"
proof -
  let ?ds = "state_deltas it (en_state e)"
  have len: "length ?ds < 2 ^ 32 - 8"
    using assms(1,2,4) length_state_deltas [of xx "en_state e" it] by (simp add: engine_ok_def crdt_view_def dom_def)
  note D = state_deltas_view [OF assms(1-3)]
  have "FullState it e \<noteq> []"
    using assms(3) by (simp add: FullState_def encodeFullState_def Let_def exportable_def kvCRDTFullStateMagic_def)
  then have "e' = OnFrame xx (FullState it e) (NewCRDTEngine node)"
    unfolding assms(5) by (rule MergeRemoteState_OnFrame)
  then have e': "e' = fold (onDelta xx (en_localNode e)) ?ds (NewCRDTEngine node)"
    using FullState_payload [OF assms(1-3)] by (simp add: OnFrame_deltas)
  have R: "engine_ok xx e'" "en_view xx e' = fold merge_view ?ds Map.empty"
    using onDeltas_refine(1,2) [OF NewCRDTEngine_ok(1), of node ?ds xx] len by (simp_all add: e' NewCRDTEngine_ok)
  have at: "en_view xx e (delta_key d) = Some (delta_val d)" if "d \<in> set ?ds" for d
    using that D [of d] by blast
  have "dt_agree (delta_val d) (delta_val d')" if "d \<in> set ?ds" "d' \<in> set ?ds" "delta_key d = delta_key d'" for d d'
  proof -
    have "delta_val d = delta_val d'" using at [OF that(1)] at [OF that(2)] that(3) by simp
    then show ?thesis by (simp add: dt_agree_def dt_grows_def)
  qed
  then have "rview.coherent ?ds" by (simp add: rview.coherent_def)
  note N = rview.newest_fold [OF this]
  have "en_view xx e' k = en_view xx e k" for k
  proof (cases "fold merge_view ?ds Map.empty k")
    case None
    have "crdt_entry xx (en_state e) k = None"
    proof (rule ccontr)
      assume "crdt_entry xx (en_state e) k \<noteq> None"
      then obtain en where en: "crdt_entry xx (en_state e) k = Some en" by blast
      have "ce_Key en = k" using assms(1) en unfolding engine_ok_def crdt_wf_def stored_ok_def crdt_entry_def by metis
      moreover have "(plain en, NodeString (en_state e) (ce_Node en)) \<in> set ?ds"
        using set_state_entries [of xx "en_state e" it] assms(1,2) en by (auto simp: state_deltas_def engine_ok_def ran_def)
      ultimately show False using rview.newest_None [OF N None, of "(plain en, NodeString (en_state e) (ce_Node en))"]
        by (simp add: delta_plain(1))
    qed
    with None R(2) show ?thesis by (simp add: crdt_view_def)
  next
    case (Some v)
    then obtain d where "d \<in> set ?ds" "delta_key d = k" "delta_val d = v" using rview.newest_Some(1) [OF N] by blast
    with at [of d] R(2) Some show ?thesis by simp
  qed
  then have v: "en_view xx e' = en_view xx e" by (rule ext)
  with MakeDigest_view [OF _ _ assms(2,2) v] R(1) assms(1) show ?thesis by (simp add: en_Get_view engine_ok_def Digest_Diff_def)
qed

lemma en_Set_entry:
  "crdt_entry xx (en_state (fst (en_Set xx ms key val e))) =
     (crdt_entry xx (en_state e))(key \<mapsto> local_entry key val (en_wall ms e) False (en_state e))"
  "en_localNode (fst (en_Set xx ms key val e)) = en_localNode e"
  "NodeString (en_state (fst (en_Set xx ms key val e))) = NodeString (en_state e)"
  by (simp_all add: en_Set_def en_put_def Overwrite_def writeLocal_install Let_def)

lemma en_Set_fresh_ok: "engine_ok xx (fst (en_Set xx ms key val (NewCRDTEngine node)))"
  using step_refines [of xx "NewCRDTEngine node" "StepSet key val ms"] by (simp add: timely_def NewCRDTEngine_ok)

theorem full_state_sync_witness:
  defines "e \<equiv> fst (en_Set (\<lambda>_. 0) 5 ''k'' [1] (NewCRDTEngine ''a''))"
  defines "e' \<equiv> MergeRemoteState (\<lambda>_. 0) (FullState sorted_list_of_set e) (NewCRDTEngine ''b'')"
  shows "en_Get (\<lambda>_. 0) e' ''k'' = en_Get (\<lambda>_. 0) e ''k'' \<and>
    Digest_Diff (MakeDigest (\<lambda>_. 0) sorted_list_of_set (en_state e')) (MakeDigest (\<lambda>_. 0) sorted_list_of_set (en_state e)) = []"
proof (rule full_state_sync [OF _ map_order_sorted])
  have entry: "crdt_entry (\<lambda>_. 0) (en_state (NewCRDTEngine ''a'')) = Map.empty" by (simp add: NewCRDTEngine_def)
  have node: "NodeString (en_state (NewCRDTEngine ''a'')) 0 = ''a''" by (simp add: NewCRDTEngine_def NewState_eq NodeString_def)
  show "engine_ok (\<lambda>_. 0) e" unfolding e_def by (rule en_Set_fresh_ok)
  show "exportable (\<lambda>_. 0) e"
    by (simp add: exportable_def e_def en_Set_entry entry NewCRDTEngine_ok node local_entry_def crdt_encodable_def)
  show "card (dom (en_view (\<lambda>_. 0) e)) < 2 ^ 32 - 8"
    by (simp add: crdt_view_def dom_def e_def en_Set_entry entry)
qed (simp add: e'_def)

section \<open>Relayed deltas\<close>

lemma Drain_single:
  assumes "bq_pending q = [en]" "crdt_fits hdr (bq_originNodeStr q) en"
    and "int (length (entry_bytes (en, bq_originNodeStr q))) + hdr \<le> budgetOf MaxFrameBytes b"
  shows "Drain hdr b q = ([entry_bytes (en, bq_originNodeStr q)], q\<lparr>bq_pending := []\<rparr>)"
proof -
  let ?b = "entry_bytes (en, bq_originNodeStr q)" and ?lim = "perFrame MaxFrameBytes hdr" and ?bud = "budgetOf MaxFrameBytes b"
  have pos: "0 < int (length ?b)" by (simp add: length_entry_bytes)
  have cap: "int (length ?b) \<le> activeFrameCap hdr ?bud ?lim emptyPacking"
  proof -
    have "0 < ?bud - hdr" using assms(3) pos by linarith
    then show ?thesis using assms(2,3) by (simp add: activeFrameCap_def emptyPacking_def crdt_fits_def Let_def)
  qed
  have enc: "EncodeDelta [] en (bq_originNodeStr q) = Inr ?b" using assms(2) by (simp add: crdt_fits_def EncodeDelta_bytes)
  have "drain_pack (bq_originNodeStr q) hdr ?bud ?lim 0 [en] emptyPacking = emptyPacking\<lparr>pk_frame := ?b, pk_pending := [0]\<rparr>"
    using cap less_le_trans [OF pos cap] assms(2) by (simp add: enc crdt_fits_def Let_def) (simp add: emptyPacking_def)
  moreover have "flushFrame hdr ?bud (emptyPacking\<lparr>pk_frame := ?b, pk_pending := [0]\<rparr>) =
      (emptyPacking\<lparr>pk_frames := [?b], pk_emitted := int (length ?b) + hdr, pk_commit := [0]\<rparr>, True)"
    using assms(3) pos by (simp add: flushFrame_def emptyPacking_def Let_def)
  ultimately show ?thesis
    using assms(1) by (simp add: Drain_def Let_def keepQueue_def emptyPacking_def)
qed

lemma entry_bytes_node: "entry_bytes (en\<lparr>ce_Node := nid\<rparr>, origin) = entry_bytes (en, origin)"
proof -
  have "plain (en\<lparr>ce_Node := nid\<rparr>) = plain en" by (cases "ce_Deleted en") (simp_all add: plain_def)
  then show ?thesis by (metis entry_bytes_plain)
qed

lemma onDelta_fresh_queue:
  assumes "\<not> ce_Deleted en"
  shows "bq_pending (en_queue (onDelta xx [] (en, a) (NewCRDTEngine b))) = [en\<lparr>ce_Node := snd (InternNode a (NewState b))\<rparr>]"
    and "bq_originNodeStr (en_queue (onDelta xx [] (en, a) (NewCRDTEngine b))) = b"
proof -
  obtain s nid where I: "InternNode a (NewState b) = (s, nid)" by fastforce
  have "cs_shards s = cs_shards (NewState b)"
    using I by (auto simp: InternNode_def internNodeLocked_def Let_def split: option.splits)
  then have "crdt_entry xx s (ce_Key en) = None" by (simp add: crdt_entry_def NewState_eq)
  then show "bq_pending (en_queue (onDelta xx [] (en, a) (NewCRDTEngine b))) = [en\<lparr>ce_Node := snd (InternNode a (NewState b))\<rparr>]"
    and "bq_originNodeStr (en_queue (onDelta xx [] (en, a) (NewCRDTEngine b))) = b"
    using assms by (simp_all add: onDelta_def NewCRDTEngine_def I crdt_Apply_def Let_def en_emit_def en_push_def bq_Push_def NewBroadcastQueue_def)
qed

lemma Drain_default:
  assumes "bq_pending q = [en]" "crdt_fits hdr (bq_originNodeStr q) en" "0 \<le> hdr" "hdr \<le> 1336"
  shows "Drain hdr 0 q = ([entry_bytes (en, bq_originNodeStr q)], q\<lparr>bq_pending := []\<rparr>)"
  using assms by (intro Drain_single) (auto simp: crdt_fits_def perFrame_def budgetOf_def MaxFrameBytes_def)

lemma en_Set_queue:
  "en_queue (fst (en_Set xx ms key val e)) = fst (bq_Push (local_entry key val (en_wall ms e) False (en_state e)) (en_queue e))"
  by (simp add: en_Set_def en_put_def Overwrite_def writeLocal_install Let_def en_emit_def en_push_def)

text \<open>
  C37. A relayed delta changes its origin: what a node passes on after merging a delta of node \<open>a\<close> carries
  the relaying node's name with the counter of \<open>a\<close>. When the relay then writes the key itself its own
  first counter is lower, so a node that heard the relay drops the write as stale, however much later it
  was made, and the relay itself loses the write when its relayed delta comes back.
\<close>

theorem relay_shadows_writes:
  assumes "crdt_wire_ok (en, a)" "\<not> ce_Deleted en" "1 < ce_Counter en"
    and "0 \<le> hdr" "hdr \<le> 1336" "crdt_fits hdr b en" "crdt_fits hdr b (local_entry (ce_Key en) val 0 False (NewState b))"
  shows "\<exists>f1 B1 f2 B2. DrainBroadcasts hdr 0 (OnFrame xx (entry_bytes (en, a)) (NewCRDTEngine b)) = (f1, B1) \<and>
    DrainBroadcasts hdr 0 (fst (en_Set xx ms (ce_Key en) val B1)) = (f2, B2) \<and>
    en_Get xx B2 (ce_Key en) = Inr (kvEntry (ce_Key en) val 1) \<and>
    en_Get xx (fold (OnFrame xx) (f1 @ f2) (NewCRDTEngine c)) (ce_Key en) = Inr (kvEntry (ce_Key en) (ce_Value en) (ce_Counter en)) \<and>
    en_Get xx (fold (OnFrame xx) f1 B2) (ce_Key en) = Inr (kvEntry (ce_Key en) (ce_Value en) (ce_Counter en))"
proof -
  let ?e = "onDelta xx [] (en, a) (NewCRDTEngine b)" and ?k = "ce_Key en"
  let ?w = "en_wall ms ?e"
  define nw where "nw = local_entry ?k val ?w False (en_state ?e)"
  let ?q = "en_queue ?e"
  define B1 where "B1 = ?e\<lparr>en_queue := ?q\<lparr>bq_pending := []\<rparr>\<rparr>"
  define B2 where "B2 = (fst (en_Set xx ms ?k val B1))\<lparr>en_queue := ?q\<lparr>bq_pending := []\<rparr>\<rparr>"
  note Q = onDelta_fresh_queue [OF assms(2), of xx a b]
  have f1: "DrainBroadcasts hdr 0 (OnFrame xx (entry_bytes (en, a)) (NewCRDTEngine b)) = ([entry_bytes (en, b)], B1)"
    using Drain_default [OF Q(1)] Q(2) assms(4-6)
    by (simp add: DrainBroadcasts_def OnFrame_entry [OF assms(1)] entry_bytes_node B1_def crdt_fits_def crdt_encodable_def)
  have le: "ce_Counter nw = 1" "ce_Value nw = val" "ce_Key nw = ?k" "\<not> ce_Deleted nw" by (simp_all add: nw_def local_entry_def)
  have fit: "crdt_fits hdr b nw"
    using assms(7) by (simp add: crdt_fits_def crdt_encodable_def length_entry_bytes nw_def local_entry_def plain_def)
  have w1: "en_wall ms B1 = ?w" "en_state B1 = en_state ?e" "en_localNode B1 = b"
    by (simp_all add: B1_def en_wall_def NewCRDTEngine_ok del: en_state_onDelta)
  have q2: "en_queue (fst (en_Set xx ms ?k val B1)) = ?q\<lparr>bq_pending := [nw]\<rparr>"
  proof -
    have "bq_cap ?q = 4096"
      by (simp add: onDelta_def NewCRDTEngine_def NewBroadcastQueue_def case_prod_beta Let_def en_emit_def en_push_def bq_Push_def)
    moreover have "en_queue B1 = ?q\<lparr>bq_pending := []\<rparr>" by (simp add: B1_def)
    ultimately show ?thesis by (simp add: en_Set_queue w1 bq_Push_def nw_def del: en_state_onDelta)
  qed
  have f2: "DrainBroadcasts hdr 0 (fst (en_Set xx ms ?k val B1)) = ([entry_bytes (nw, b)], B2)"
    using Drain_default [of "?q\<lparr>bq_pending := [nw]\<rparr>" nw hdr] fit Q(2) assms(4,5)
    by (simp add: DrainBroadcasts_def q2 B2_def del: en_state_onDelta)
  have ok1: "engine_ok xx ?e" and v1: "en_view xx ?e = [?k \<mapsto> dotted a en]"
    using onDelta_refines [of xx "NewCRDTEngine b" "[]" "(en, a)"]
    by (simp_all add: NewCRDTEngine_ok merge_view_def delta_key_def delta_val_def)
  have s2: "en_state B2 = install xx nw ((en_state ?e)\<lparr>cs_localCounter := cs_localCounter (en_state ?e) + 1\<rparr>)" "en_localNode B2 = b"
    by (simp_all add: B2_def en_Set_def en_put_def Overwrite_def writeLocal_install Let_def w1 nw_def del: en_state_onDelta)
  have loc: "en_localNode ?e = b" by (simp add: NewCRDTEngine_ok)
  note L = local_write_view [OF ok1 s2(1) [unfolded nw_def] trans [OF s2(2) loc [symmetric]]]
  have ok2: "engine_ok xx B2" and v2: "en_view xx B2 = [?k \<mapsto> dotted b nw]"
    using L v1 by (simp_all add: NewCRDTEngine_ok(4) nw_def del: en_state_onDelta)
  have small: "length (cs_stringIDs (en_state B2)) < 2 ^ 32 - 8"
    using L(3) ids_onDelta [of xx "[]" "(en, a)" "NewCRDTEngine b"] by (simp add: NewCRDTEngine_ok)
  have wire: "crdt_wire_ok (en, b)" "crdt_wire_ok (plain nw, b)"
    using assms(1,6) fit by (simp_all add: crdt_wire_ok_def crdt_fits_def encodable_plain [unfolded crdt_wire_ok_def])
  have d: "delta_key (en, b) = ?k" "delta_val (en, b) = dotted b en" "delta_key (plain nw, b) = ?k" "delta_val (plain nw, b) = dotted b nw"
    using le by (simp_all add: delta_plain) (simp_all add: delta_key_def delta_val_def)
  have b: "\<not> dt_beats (dotted b nw) (dotted b en)" "dt_beats (dotted b en) (dotted b nw)"
    using assms(3) le by (auto simp: dt_beats_def dotted_def)
  let ?C = "fold (OnFrame xx) [entry_bytes (en, b), entry_bytes (nw, b)] (NewCRDTEngine c)"
  have "OnFrame xx (entry_bytes (nw, b)) = onDelta xx [] (plain nw, b)"
    using OnFrame_entry [OF wire(2), of xx] by (simp add: fun_eq_iff)
  then have "?C = fold (onDelta xx []) [(en, b), (plain nw, b)] (NewCRDTEngine c)"
    by (simp add: OnFrame_entry [OF wire(1)])
  then have "en_view xx ?C = fold merge_view [(en, b), (plain nw, b)] Map.empty"
    using onDeltas_refine(2) [of xx "NewCRDTEngine c" "[(en, b), (plain nw, b)]"] by (simp add: NewCRDTEngine_ok)
  then have vC: "en_view xx ?C ?k = Some (dotted b en)" using b(1) by (simp add: merge_view_def d)
  have "en_view xx (OnFrame xx (entry_bytes (en, b)) B2) ?k = Some (dotted b en)"
    unfolding OnFrame_entry [OF wire(1)] onDelta_refines(2) [OF ok2 small] using b(2) by (simp add: v2 merge_view_def d)
  then show ?thesis
    using f1 f2 vC v2 assms(2) le
    by (intro exI [of _ "[entry_bytes (en, b)]"] exI [of _ B1] exI [of _ "[entry_bytes (nw, b)]"] exI [of _ B2])
       (simp add: en_Get_view dotted_def)
qed

theorem relay_shadows_writes_witness:
  "\<exists>f1 B1 f2 B2. DrainBroadcasts 2 0 (OnFrame (\<lambda>_. 0) (entry_bytes (demoWrite 2 1 5002220, ''a'')) (NewCRDTEngine ''b'')) = (f1, B1) \<and>
    DrainBroadcasts 2 0 (fst (en_Set (\<lambda>_. 0) 6 ''k'' [2] B1)) = (f2, B2) \<and>
    en_Get (\<lambda>_. 0) B2 ''k'' = Inr (kvEntry ''k'' [2] 1) \<and>
    en_Get (\<lambda>_. 0) (fold (OnFrame (\<lambda>_. 0)) (f1 @ f2) (NewCRDTEngine ''c'')) ''k'' = Inr (kvEntry ''k'' [1] 2) \<and>
    en_Get (\<lambda>_. 0) (fold (OnFrame (\<lambda>_. 0)) f1 B2) ''k'' = Inr (kvEntry ''k'' [1] 2)"
  using relay_shadows_writes [of "demoWrite 2 1 5002220" "''a''" 2 "''b''" "[2]" "\<lambda>_. 0" 6 "''c''"]
  by (simp add: demo_wire_ok)
     (simp add: demoWrite_def crdt_fits_def crdt_encodable_def length_entry_bytes plain_def local_entry_def perFrame_def MaxFrameBytes_def)

section \<open>Restarts\<close>

text \<open>
  C38. A restarted node can lose acknowledged writes. It reloads its snapshot but starts counting from zero
  again, so its first write to a key it owned before is accepted locally with version 1 and then undone by
  any copy of the old entry that a peer sends back, however much later the write was made.
\<close>

theorem restart_loses_write:
  assumes "crdt_wire_ok (en, a)" "\<not> ce_Deleted en" "1 < ce_Counter en"
  shows "\<exists>e1 e2. e1 = loadDurable xx (Some (entry_bytes (en, a))) (NewCRDTEngine a) \<and> en_Set xx ms (ce_Key en) val e1 = (e2, 1) \<and>
    en_Get xx e2 (ce_Key en) = Inr (kvEntry (ce_Key en) val 1) \<and>
    en_Get xx (OnFrame xx (entry_bytes (en, a)) e2) (ce_Key en) = Inr (kvEntry (ce_Key en) (ce_Value en) (ce_Counter en))"
proof -
  let ?k = "ce_Key en"
  let ?e1 = "onDelta xx [] (en, a) (NewCRDTEngine a)"
  define nw where "nw = local_entry ?k val (en_wall ms ?e1) False (en_state ?e1)"
  obtain e2 where S: "en_Set xx ms ?k val ?e1 = (e2, 1)"
    by (cases "en_Set xx ms ?k val ?e1") (auto simp: en_Set_def en_put_def Overwrite_def writeLocal_install Let_def local_entry_def)
  have nw: "ce_Counter nw = 1" "ce_Value nw = val" "\<not> ce_Deleted nw" by (simp_all add: nw_def local_entry_def)
  have ok1: "engine_ok xx ?e1" using onDelta_refines(1) [of xx "NewCRDTEngine a" "[]" "(en, a)"] by (simp add: NewCRDTEngine_ok)
  have v1: "en_view xx ?e1 = [?k \<mapsto> dotted a en]"
    using onDelta_refines(2) [of xx "NewCRDTEngine a" "[]" "(en, a)"]
    by (simp add: NewCRDTEngine_ok merge_view_def delta_key_def delta_val_def)
  have e2: "e2 = fst (en_Set xx ms ?k val ?e1)" by (simp add: S)
  have s2: "en_state e2 = install xx nw ((en_state ?e1)\<lparr>cs_localCounter := cs_localCounter (en_state ?e1) + 1\<rparr>)"
    "en_localNode e2 = en_localNode ?e1"
    by (simp_all add: e2 en_Set_def en_put_def Overwrite_def writeLocal_install Let_def nw_def del: en_state_onDelta)
  note L = local_write_view [OF ok1 s2(1) [unfolded nw_def] s2(2)]
  have v2: "en_view xx e2 = [?k \<mapsto> dotted a nw]"
    using L(2) v1 by (simp add: NewCRDTEngine_ok(4) nw_def del: en_state_onDelta)
  have small: "length (cs_stringIDs (en_state e2)) < 2 ^ 32 - 8"
    using L(3) ids_onDelta [of xx "[]" "(en, a)" "NewCRDTEngine a"] by (simp add: NewCRDTEngine_ok)
  have "dt_beats (dotted a en) (dotted a nw)" using assms(3) nw by (auto simp: dt_beats_def dotted_def)
  then have "en_view xx (OnFrame xx (entry_bytes (en, a)) e2) ?k = Some (dotted a en)"
    unfolding OnFrame_entry [OF assms(1)] onDelta_refines(2) [OF L(1) small]
    by (simp add: v2 merge_view_def delta_key_def delta_val_def)
  with v2 nw assms(2) S show ?thesis
    by (intro exI [of _ ?e1] exI [of _ e2]) (simp add: loadDurable_def OnFrame_entry [OF assms(1)] en_Get_view dotted_def)
qed

theorem restart_loses_write_witness:
  "\<exists>e1 e2. e1 = loadDurable (\<lambda>_. 0) (Some (entry_bytes (demoWrite 2 1 5002220, ''a''))) (NewCRDTEngine ''a'') \<and>
    en_Set (\<lambda>_. 0) 999 ''k'' [2] e1 = (e2, 1) \<and> en_Get (\<lambda>_. 0) e2 ''k'' = Inr (kvEntry ''k'' [2] 1) \<and>
    en_Get (\<lambda>_. 0) (OnFrame (\<lambda>_. 0) (entry_bytes (demoWrite 2 1 5002220, ''a'')) e2) ''k'' = Inr (kvEntry ''k'' [1] 2)"
  using restart_loses_write [of "demoWrite 2 1 5002220" "''a''" "\<lambda>_. 0" 999 "[2]"]
  by (simp add: demo_wire_ok) (simp add: demoWrite_def)

section \<open>Silent merges\<close>

text \<open>
  C39. A remote write that wins over another origin's entry by its wall clock changes what reads return, but
  nobody hears of it: no watch event is published and the delta is not passed on, although the handler
  is meant to relay every entry that advanced local state.
\<close>

theorem wall_win_is_silent:
  assumes "engine_ok xx e" "length (cs_stringIDs (en_state e)) < 2 ^ 32 - 8" "crdt_wire_ok (en, b)" "\<not> ce_Deleted en"
    and "en_view xx e (ce_Key en) = Some cur" "dt_Origin cur \<noteq> b" "sint (dt_Wall cur) < sint (ce_Wall en)"
  shows "en_Get xx (OnFrame xx (entry_bytes (en, b)) e) (ce_Key en) = Inr (kvEntry (ce_Key en) (ce_Value en) (ce_Counter en)) \<and>
    en_events (OnFrame xx (entry_bytes (en, b)) e) = en_events e \<and> en_queue (OnFrame xx (entry_bytes (en, b)) e) = en_queue e"
proof -
  let ?k = "ce_Key en"
  obtain s nid where I: "InternNode b (en_state e) = (s, nid)" by fastforce
  have wf: "crdt_wf xx (en_state e)" "intern_ok (en_state e)" using assms(1) by (simp_all add: engine_ok_def crdt_wf_def)
  have "length (cs_stringIDs s) \<le> 2 ^ 32 - 8"
    using ids_onDelta [of xx "[]" "(en, b)" e] assms(2) by (simp add: ids_receive I)
  note N = InternNode_spec [OF wf(2) I this] and V = view_Intern [OF wf(1) I this]
  obtain c where c: "crdt_entry xx s ?k = Some c" "cur = dotted (NodeString s (ce_Node c)) c"
    using assms(5) unfolding V [symmetric] by (auto simp: crdt_view_def)
  have "NodeString s nid = b" using N(2,3) by (simp add: NodeString_def)
  then have "ce_Node c \<noteq> nid" using assms(6) c(2) by (auto simp: dotted_def)
  moreover have "sint (ce_Wall c) < sint (ce_Wall en)" using assms(7) c(2) by (simp add: dotted_def)
  ultimately have A: "crdt_Apply xx (en\<lparr>ce_Node := nid\<rparr>) s = (crdt_swap xx c (en\<lparr>ce_Node := nid\<rparr>) s, MergeWallTiebreak, en\<lparr>ce_Node := nid\<rparr>)"
    by (simp add: crdt_Apply_def c(1) compareDots_def)
  have "dt_beats (dotted b en) cur" using assms(6,7) by (auto simp: dt_beats_def dotted_def)
  then have "en_view xx (onDelta xx [] (en, b) e) ?k = Some (dotted b en)"
    unfolding onDelta_refines(2) [OF assms(1,2)] by (simp add: merge_view_def delta_key_def delta_val_def assms(5))
  moreover have "en_events (onDelta xx [] (en, b) e) = en_events e" "en_queue (onDelta xx [] (en, b) e) = en_queue e"
    by (simp_all add: onDelta_def I A Let_def)
  ultimately show ?thesis using assms(4) by (simp add: OnFrame_entry [OF assms(3)] en_Get_view dotted_def del: en_state_onDelta)
qed

theorem wall_win_is_silent_witness:
  defines "e \<equiv> fst (en_Set (\<lambda>_. 0) 5 ''k'' [1] (NewCRDTEngine ''a''))"
  shows "en_Get (\<lambda>_. 0) (OnFrame (\<lambda>_. 0) (entry_bytes (demoWrite 1 2 6335077, ''b'')) e) ''k'' = Inr (kvEntry ''k'' [2] 1) \<and>
    en_events (OnFrame (\<lambda>_. 0) (entry_bytes (demoWrite 1 2 6335077, ''b'')) e) = en_events e \<and>
    en_queue (OnFrame (\<lambda>_. 0) (entry_bytes (demoWrite 1 2 6335077, ''b'')) e) = en_queue e"
proof -
  have v: "en_view (\<lambda>_. 0) e ''k'' = Some (dotted ''a'' (demoWrite 1 1 5002220))"
    by (simp add: crdt_view_def e_def en_Set_entry) (simp add: local_entry_def NewCRDTEngine_def NewState_eq NodeString_def dotted_def
        demoWrite_def en_wall_def wallScale_def fnv32a_def bytes_of_def)
  have "length (cs_stringIDs (en_state e)) = 1"
    by (simp add: e_def en_Set_def en_put_def Overwrite_def Let_def case_prod_beta NewCRDTEngine_ok)
  moreover have "engine_ok (\<lambda>_. 0) e" unfolding e_def by (rule en_Set_fresh_ok)
  ultimately show ?thesis
    using wall_win_is_silent [of "\<lambda>_. 0" e "demoWrite 1 2 6335077" "''b''" "dotted ''a'' (demoWrite 1 1 5002220)"] v
    by (simp add: demo_wire_ok) (simp add: demoWrite_def dotted_def)
qed

section \<open>Lease expiry and collection\<close>

lemma expireKey_dead:
  "LookupEntry xx (en_state (expireKey xx ms k e)) k = None"
  "LookupEntry xx (en_state e) j = None \<Longrightarrow> LookupEntry xx (en_state (expireKey xx ms k e)) j = None"
  by (auto simp: expireKey_def Unregister_install LookupEntry_def split: option.split if_split)

lemma expireKeys_dead: "k \<in> set ks \<or> LookupEntry xx (en_state e) k = None \<Longrightarrow> LookupEntry xx (en_state (fold (expireKey xx ms) ks e)) k = None"
  by (induction ks arbitrary: e) (auto simp: expireKey_dead)

text \<open>Expiry removes every key of the lease.\<close>

lemma expireLease_removes:
  assumes "map_order it" "en_leaseKeys e lid = Some keys" "finite keys" "k \<in> keys"
  shows "en_Get xx (expireLease xx it ms lid e) k = Inl ErrKeyNotFound"
proof -
  have "set (it keys) = keys" by (rule map_order_set [OF assms(1,3)])
  then show ?thesis
    using assms(2,4) expireKeys_dead [of k "it keys" xx] by (simp add: expireLease_def Let_def en_Get_def)
qed

text \<open>
  A plain \<^verbatim>\<open>Set\<close> does not take the key off its lease, unlike on the raft engine: the new value goes when
  the old lease ends.
\<close>

lemma plain_Set_stays_leased:
  assumes "map_order it" "en_leaseKeys e lid = Some keys" "finite keys" "k \<in> keys"
  shows "en_Get xx (expireLease xx it ms' lid (fst (en_Set xx ms k val e))) k = Inl ErrKeyNotFound"
proof -
  have "en_leaseKeys (fst (en_Set xx ms k val e)) lid = Some keys"
    using assms(2) by (simp add: en_Set_def en_put_def Let_def case_prod_beta en_emit_def en_push_def)
  from expireLease_removes [OF assms(1) this assms(3,4)] show ?thesis .
qed

text \<open>
  The collector drops tombstones only. With the default retention it drops those alone whose dot every other
  live peer has acknowledged.
\<close>

definition reapable :: "(CrdtEntry \<Rightarrow> bool) option \<Rightarrow> i64 \<Rightarrow> i64 \<Rightarrow> CrdtEntry \<Rightarrow> bool" where
  "reapable canReap nowMs wallFloorMs en \<longleftrightarrow> ce_Deleted en \<and>
     ((\<exists>f. canReap = Some f \<and> f en) \<or> (sint wallFloorMs > 0 \<and> sint (nowMs - ce_Wall en) > sint wallFloorMs))"

lemma reaped_reapable: "list_all (reapable canReap nowMs wallFloorMs) (rp_reaped (ReapTombstonesWhere it canReap nowMs wallFloorMs s))"
proof -
  let ?P = "\<lambda>r. list_all (reapable canReap nowMs wallFloorMs) (rp_reaped r)"
  have key: "?P r \<Longrightarrow> ?P (reapKey canReap nowMs wallFloorMs i k r)" for i k r
    by (auto simp: reapKey_def reapable_def Let_def split: option.split if_splits)
  have keys: "?P r \<Longrightarrow> ?P (fold (reapKey canReap nowMs wallFloorMs i) ks r)" for i ks r
    by (induction ks arbitrary: r) (simp_all add: key)
  have "?P r \<Longrightarrow> ?P (fold (\<lambda>i r. fold (reapKey canReap nowMs wallFloorMs i) (it (dom (cs_shards (rp_state r) i))) r) is r)" for "is" r
    by (induction "is" arbitrary: r) (simp_all add: keys)
  then show ?thesis by (simp add: ReapTombstonesWhere_def)
qed

lemma gc_needs_acks:
  assumes "en_tombstoneFloor e = 0" "en_alive e = Some alive" "peer \<in> alive" "peer \<noteq> en_localNode e"
    and "en \<in> set (rp_reaped (ReapTombstonesWhere it (tombstoneAckedByPeers e) (ms * wallScale) (durationMs (en_tombstoneFloor e) * wallScale) (en_state e)))"
  shows "ce_Deleted en \<and> (\<exists>acks. en_peerTombAck e peer = Some acks \<and> (ce_Node en, ce_Counter en) \<in> acks)"
proof -
  have "reapable (tombstoneAckedByPeers e) (ms * wallScale) (durationMs (en_tombstoneFloor e) * wallScale) en"
    using reaped_reapable assms(5) by (fastforce simp: list_all_iff)
  with assms(1-4) show ?thesis
    by (auto simp: reapable_def tombstoneAckedByPeers_def durationMs_def split: if_splits option.splits)
qed

text \<open>A compare-and-delete that finds the version it expects never returns and publishes nothing.\<close>

lemma CompareAndDelete_blocks:
  assumes "LookupEntry xx (en_state e) key = Some cur" "ce_Counter cur = expect"
  shows "snd (en_CompareAndDelete xx ms key expect e) = None"
    "en_events (fst (en_CompareAndDelete xx ms key expect e)) = en_events e"
proof -
  have "snd (crdt_Unregister xx key (en_wall ms e) (en_state e)) \<noteq> None"
    using assms(1) by (auto simp: LookupEntry_def crdt_Unregister_def Let_def split: option.splits if_splits)
  then show "snd (en_CompareAndDelete xx ms key expect e) = None"
    "en_events (fst (en_CompareAndDelete xx ms key expect e)) = en_events e"
    using assms by (auto simp: en_CompareAndDelete_def en_push_def split: prod.splits option.splits)
qed

end
