(* ===== verification/Dep_Graph.thy ===== *)
theory Dep_Graph
  imports Go_Strings
begin

text \<open>
  The generic directed graph of \<^verbatim>\<open>src/internal/graph\<close> (\<^verbatim>\<open>graph.go\<close>, \<^verbatim>\<open>layers.go\<close>,
  \<^verbatim>\<open>errors.go\<close>), which orders services, registry entries and boot components: nodes and
  edges, the grouping of nodes into dependency levels, and the search for a cycle that explains
  why a grouping failed.

  The map \<^verbatim>\<open>nodes\<close> only ever holds \<^verbatim>\<open>true\<close> and is a set. \<open>fmt\<close> is the \<^verbatim>\<open>%v\<close> form of a node, \<open>it\<close> the
  order of map iterations; elements that \<^verbatim>\<open>sort.Slice\<close> finds equal keep the order \<open>it\<close> gave them. Locks
  only serialise. The recursion of the cycle search and the level loop take fuel, and are shown
  to need no more than the number of vertices.
\<close>

section \<open>The graph\<close>

record ('a, 'e) Edge =
  ed_To :: 'a
  ed_Data :: 'e
  ed_Weight :: i64

record ('a, 'e) Graph =
  g_nodes :: "'a set"
  g_edges :: "'a \<rightharpoonup> 'a \<rightharpoonup> ('a, 'e) Edge"

datatype 'a graph_error =
    NodeDoesNotExist 'a
  | NoEdgesFromNode 'a
  | EdgeDoesNotExist 'a 'a
  | CycleDetected "'a list"
  | CycleDetectedWithStuckNodes string
  | NoPathExists 'a 'a
  | InvalidLevel int

definition graph_New :: "('a, 'e) Graph" where
  "graph_New = \<lparr>g_nodes = {}, g_edges = Map.empty\<rparr>"

definition AddNode :: "'a \<Rightarrow> ('a, 'e) Graph \<Rightarrow> ('a, 'e) Graph" where
  "AddNode n g = g\<lparr>g_nodes := insert n (g_nodes g)\<rparr>"

definition AddEdge :: "'a \<Rightarrow> 'a \<Rightarrow> i64 \<Rightarrow> 'e \<Rightarrow> ('a, 'e) Graph \<Rightarrow> ('a, 'e) Graph" where
  "AddEdge from to weight data g =
     (let edges = (case g_edges g from of None \<Rightarrow> Map.empty | Some m \<Rightarrow> m)
      in g\<lparr>g_edges := (g_edges g)(from \<mapsto> edges(to \<mapsto> \<lparr>ed_To = to, ed_Data = data, ed_Weight = weight\<rparr>))\<rparr>)"

text \<open>Deleting a target from one adjacency map, and the map itself when it becomes empty.\<close>

definition dropTarget :: "'a \<Rightarrow> ('a \<rightharpoonup> ('a, 'e) Edge) \<Rightarrow> ('a \<rightharpoonup> ('a, 'e) Edge) option" where
  "dropTarget n m = (let m = m(n := None) in if dom m = {} then None else Some m)"

definition g_RemoveNode :: "'a \<Rightarrow> ('a, 'e) Graph \<Rightarrow> 'a graph_error + ('a, 'e) Graph" where
  "g_RemoveNode n g =
     (if n \<notin> g_nodes g then Inl (NodeDoesNotExist n)
      else Inr (g\<lparr>g_nodes := g_nodes g - {n},
                 g_edges := (\<lambda>from. if from = n then None else Option.bind (g_edges g from) (dropTarget n))\<rparr>))"

definition HasNode :: "('a, 'e) Graph \<Rightarrow> 'a \<Rightarrow> bool" where
  "HasNode g n \<longleftrightarrow> n \<in> g_nodes g"

definition HasEdge :: "('a, 'e) Graph \<Rightarrow> 'a \<Rightarrow> 'a \<Rightarrow> bool" where
  "HasEdge g from to \<longleftrightarrow> (case g_edges g from of None \<Rightarrow> False | Some edges \<Rightarrow> edges to \<noteq> None)"

definition GetEdge :: "('a, 'e) Graph \<Rightarrow> 'a \<Rightarrow> 'a \<Rightarrow> ('a, 'e) Edge option" where
  "GetEdge g from to = (case g_edges g from of None \<Rightarrow> None | Some edges \<Rightarrow> edges to)"

definition RemoveEdge :: "'a \<Rightarrow> 'a \<Rightarrow> ('a, 'e) Graph \<Rightarrow> 'a graph_error + ('a, 'e) Graph" where
  "RemoveEdge from to g =
     (if from \<notin> g_nodes g then Inl (NodeDoesNotExist from)
      else if to \<notin> g_nodes g then Inl (NodeDoesNotExist to)
      else case g_edges g from of
          None \<Rightarrow> Inl (NoEdgesFromNode from)
        | Some edges \<Rightarrow>
            if edges to = None then Inl (EdgeDoesNotExist from to)
            else Inr (g\<lparr>g_edges := (g_edges g)(from := dropTarget to edges)\<rparr>))"

definition GetNodes :: "('a set \<Rightarrow> 'a list) \<Rightarrow> ('a, 'e) Graph \<Rightarrow> 'a list" where
  "GetNodes it g = it (g_nodes g)"

definition cloneEdges :: "('a set \<Rightarrow> 'a list) \<Rightarrow> ('a \<rightharpoonup> ('a, 'e) Edge) \<Rightarrow> 'a \<rightharpoonup> ('a, 'e) Edge" where
  "cloneEdges it edges =
     fold (\<lambda>to m. case edges to of
              None \<Rightarrow> m
            | Some e \<Rightarrow> m(to \<mapsto> \<lparr>ed_To = ed_To e, ed_Data = ed_Data e, ed_Weight = ed_Weight e\<rparr>))
       (it (dom edges)) Map.empty"

definition Clone :: "('a set \<Rightarrow> 'a list) \<Rightarrow> ('a, 'e) Graph \<Rightarrow> ('a, 'e) Graph" where
  "Clone it g =
     (let cloned = fold AddNode (it (g_nodes g)) graph_New
      in fold (\<lambda>from c. case g_edges g from of
                  None \<Rightarrow> c
                | Some edges \<Rightarrow> c\<lparr>g_edges := (g_edges c)(from \<mapsto> cloneEdges it edges)\<rparr>)
           (it (dom (g_edges g))) cloned)"

text \<open>The keys of an adjacency map, as the loops over \<^verbatim>\<open>g.edges[node]\<close> visit them.\<close>

definition targets :: "('a set \<Rightarrow> 'a list) \<Rightarrow> ('a, 'e) Graph \<Rightarrow> 'a \<Rightarrow> 'a list" where
  "targets it g node = (case g_edges g node of None \<Rightarrow> [] | Some edges \<Rightarrow> it (dom edges))"

definition GetNeighbors :: "('a set \<Rightarrow> 'a list) \<Rightarrow> ('a, 'e) Graph \<Rightarrow> 'a \<Rightarrow> 'a graph_error + 'a list" where
  "GetNeighbors it g n = (if n \<notin> g_nodes g then Inl (NodeDoesNotExist n) else Inr (targets it g n))"

section \<open>The cycle search\<close>

record 'a dfsState =
  d_visited :: "'a set"
  d_recStack :: "'a set"
  d_parent :: "'a \<rightharpoonup> 'a"

text \<open>
  The inner loop of \<^verbatim>\<open>dfs\<close> that follows the parent links from \<open>current\<close> back to \<open>neighbor\<close>.
\<close>

fun followParents :: "nat \<Rightarrow> ('a \<rightharpoonup> 'a) \<Rightarrow> 'a \<Rightarrow> 'a \<Rightarrow> 'a list \<Rightarrow> 'a list option" where
  "followParents 0 parent neighbor current cycle = None"
| "followParents (Suc fuel) parent neighbor current cycle =
     (if current = neighbor then Some cycle
      else
        let cycle = current # cycle
        in case parent current of
             Some p \<Rightarrow> followParents fuel parent neighbor p cycle
           | None \<Rightarrow> Some (current # cycle))"

text \<open>
  \<open>dfs\<close> and its loop over the neighbours. The result is \<open>None\<close> when the fuel runs out, and otherwise
  the variables of the closure and the cycle, if one was found.
\<close>

fun dfs ::
  "('a set \<Rightarrow> 'a list) \<Rightarrow> ('a, 'e) Graph \<Rightarrow> nat \<Rightarrow> nat \<Rightarrow> 'a \<Rightarrow> 'a dfsState \<Rightarrow> ('a dfsState \<times> 'a list option) option"
  and dfs_loop ::
  "('a set \<Rightarrow> 'a list) \<Rightarrow> ('a, 'e) Graph \<Rightarrow> nat \<Rightarrow> nat \<Rightarrow> 'a \<Rightarrow> 'a list \<Rightarrow> 'a dfsState
     \<Rightarrow> ('a dfsState \<times> 'a list option) option" where
  "dfs it g B 0 node d = None"
| "dfs it g B (Suc fuel) node d =
     (let d = d\<lparr>d_visited := insert node (d_visited d), d_recStack := insert node (d_recStack d)\<rparr>
      in case dfs_loop it g B fuel node (targets it g node) d of
           None \<Rightarrow> None
         | Some (d, Some cycle) \<Rightarrow> Some (d, Some cycle)
         | Some (d, None) \<Rightarrow> Some (d\<lparr>d_recStack := d_recStack d - {node}\<rparr>, None))"
| "dfs_loop it g B fuel node [] d = Some (d, None)"
| "dfs_loop it g B fuel node (neighbor # rest) d =
     (if neighbor \<notin> d_visited d
      then case dfs it g B fuel neighbor (d\<lparr>d_parent := (d_parent d)(neighbor \<mapsto> node)\<rparr>) of
             None \<Rightarrow> None
           | Some (d, Some cycle) \<Rightarrow> Some (d, Some cycle)
           | Some (d, None) \<Rightarrow> dfs_loop it g B fuel node rest d
      else if neighbor \<in> d_recStack d
      then case followParents B (d_parent d) neighbor node [neighbor] of
             None \<Rightarrow> None
           | Some cycle \<Rightarrow> Some (d, Some cycle)
      else dfs_loop it g B fuel node rest d)"

primrec findCycle_loop ::
  "('a set \<Rightarrow> 'a list) \<Rightarrow> ('a, 'e) Graph \<Rightarrow> nat \<Rightarrow> 'a list \<Rightarrow> 'a dfsState \<Rightarrow> 'a list option option" where
  "findCycle_loop it g B [] d = Some None"
| "findCycle_loop it g B (node # rest) d =
     (if node \<notin> d_visited d
      then case dfs it g B B node d of
             None \<Rightarrow> None
           | Some (_, Some cycle) \<Rightarrow> Some (Some cycle)
           | Some (d, None) \<Rightarrow> findCycle_loop it g B rest d
      else findCycle_loop it g B rest d)"

text \<open>The vertices: nodes and targets of edges. Their number is the fuel.\<close>

definition g_vertices :: "('a, 'e) Graph \<Rightarrow> 'a set" where
  "g_vertices g = g_nodes g \<union> \<Union> (dom ` ran (g_edges g))"

definition findCycle :: "('a set \<Rightarrow> 'a list) \<Rightarrow> ('a, 'e) Graph \<Rightarrow> 'a list option option" where
  "findCycle it g =
     findCycle_loop it g (Suc (card (g_vertices g))) (it (g_nodes g))
       \<lparr>d_visited = {}, d_recStack = {}, d_parent = Map.empty\<rparr>"

section \<open>Dependency levels\<close>

text \<open>Reading a missing key of a \<^verbatim>\<open>map[T]int\<close> gives 0, so \<^verbatim>\<open>++\<close> and \<^verbatim>\<open>--\<close> on it write 1 and -1.\<close>

definition bump :: "int \<Rightarrow> 'a \<Rightarrow> ('a \<rightharpoonup> int) \<Rightarrow> 'a \<rightharpoonup> int" where
  "bump d x m = m(x \<mapsto> (case m x of None \<Rightarrow> 0 | Some n \<Rightarrow> n) + d)"

definition initDegrees :: "('a set \<Rightarrow> 'a list) \<Rightarrow> ('a, 'e) Graph \<Rightarrow> 'a \<rightharpoonup> int" where
  "initDegrees it g =
     (let inDegree = fold (\<lambda>node m. m(node \<mapsto> 0)) (it (g_nodes g)) Map.empty
      in fold (\<lambda>from m. fold (bump 1) (targets it g from) m) (it (dom (g_edges g))) inDegree)"

text \<open>The \<^verbatim>\<open>%v\<close> forms are computed for nodes only; other keys read as the empty string.\<close>

definition nodeKey :: "('a \<Rightarrow> string) \<Rightarrow> ('a, 'e) Graph \<Rightarrow> 'a \<Rightarrow> string" where
  "nodeKey fmt g node = (if node \<in> g_nodes g then fmt node else [])"

definition fmtList :: "string list \<Rightarrow> string" where
  "fmtList xs = ''['' @ join_with CHR '' '' xs @ '']''"

definition stuckInfo :: "('a \<Rightarrow> string) \<Rightarrow> ('a set \<Rightarrow> 'a list) \<Rightarrow> ('a, 'e) Graph \<Rightarrow> ('a \<rightharpoonup> int) \<Rightarrow> string" where
  "stuckInfo fmt it g inDegree =
     (let stuckNodes = sort_key (nodeKey fmt g) (it (dom inDegree));
          depsInfo = map (\<lambda>node.
            let deps = sort_key (nodeKey fmt g) (targets it g node)
            in fmt node @ '' (degree='' @ itoa (case inDegree node of None \<Rightarrow> 0 | Some n \<Rightarrow> n) @
               '', depends on: '' @ fmtList (map fmt deps) @ '')'') stuckNodes
      in fmtList depsInfo)"

definition currentLevel :: "('a set \<Rightarrow> 'a list) \<Rightarrow> ('a \<rightharpoonup> int) \<Rightarrow> 'a list" where
  "currentLevel it inDegree = filter (\<lambda>node. inDegree node = Some 0) (it (dom inDegree))"

definition retire :: "('a set \<Rightarrow> 'a list) \<Rightarrow> ('a, 'e) Graph \<Rightarrow> 'a \<Rightarrow> ('a \<rightharpoonup> int) \<Rightarrow> 'a \<rightharpoonup> int" where
  "retire it g node inDegree = (fold (bump (- 1)) (targets it g node) inDegree)(node := None)"

fun levels_loop ::
  "('a \<Rightarrow> string) \<Rightarrow> ('a set \<Rightarrow> 'a list) \<Rightarrow> ('a, 'e) Graph \<Rightarrow> nat \<Rightarrow> ('a \<rightharpoonup> int) \<Rightarrow> 'a list list
     \<Rightarrow> ('a graph_error + 'a list list) option" where
  "levels_loop fmt it g 0 inDegree levels = None"
| "levels_loop fmt it g (Suc fuel) inDegree levels =
     (if dom inDegree = {} then Some (Inr levels)
      else
        let level = currentLevel it inDegree
        in if level = []
           then case findCycle it g of
                  None \<Rightarrow> None
                | Some (Some cycle) \<Rightarrow> Some (Inl (CycleDetected cycle))
                | Some None \<Rightarrow> Some (Inl (CycleDetectedWithStuckNodes (stuckInfo fmt it g inDegree)))
           else levels_loop fmt it g fuel (fold (retire it g) level inDegree)
                  (levels @ [sort_key (nodeKey fmt g) level]))"

definition DependencyLevels ::
  "('a \<Rightarrow> string) \<Rightarrow> ('a set \<Rightarrow> 'a list) \<Rightarrow> ('a, 'e) Graph \<Rightarrow> ('a graph_error + 'a list list) option" where
  "DependencyLevels fmt it g =
     (let inDegree = initDegrees it g in levels_loop fmt it g (Suc (card (dom inDegree))) inDegree [])"

definition GetLevel :: "'a list list \<Rightarrow> int \<Rightarrow> 'a graph_error + 'a list" where
  "GetLevel levels level =
     (if level < 0 \<or> level \<ge> int (length levels) then Inl (InvalidLevel level) else Inr (levels ! nat level))"

definition LevelCount :: "'a list list \<Rightarrow> int" where
  "LevelCount levels = int (length levels)"

fun nodeLevel_loop :: "int \<Rightarrow> 'a list list \<Rightarrow> 'a \<Rightarrow> int" where
  "nodeLevel_loop level [] node = -1"
| "nodeLevel_loop level (nodes # rest) node =
     (if node \<in> set nodes then level else nodeLevel_loop (level + 1) rest node)"

definition GetNodeLevel :: "'a list list \<Rightarrow> 'a \<Rightarrow> int" where
  "GetNodeLevel levels node = nodeLevel_loop 0 levels node"

section \<open>Graphs as relations\<close>

definition g_rel :: "('a, 'e) Graph \<Rightarrow> ('a \<times> 'a) set" where
  "g_rel g = {(a, b). HasEdge g a b}"

text \<open>
  What the operations maintain: finite maps, no empty adjacency map, and every edge stored under its
  own target. Edges need not start or end at nodes.
\<close>

definition adj_wf :: "('a \<rightharpoonup> ('a, 'e) Edge) \<Rightarrow> bool" where
  "adj_wf m \<longleftrightarrow> finite (dom m) \<and> dom m \<noteq> {} \<and> (\<forall>b e. m b = Some e \<longrightarrow> ed_To e = b)"

definition g_wf :: "('a, 'e) Graph \<Rightarrow> bool" where
  "g_wf g \<longleftrightarrow> finite (g_nodes g) \<and> finite (dom (g_edges g)) \<and> (\<forall>a m. g_edges g a = Some m \<longrightarrow> adj_wf m)"

lemma g_rel_iff: "(a, b) \<in> g_rel g \<longleftrightarrow> (\<exists>m e. g_edges g a = Some m \<and> m b = Some e)"
  by (auto simp: g_rel_def HasEdge_def split: option.splits)

lemma graph_New_wf [simp]: "g_wf graph_New" "g_rel graph_New = {}" "g_nodes graph_New = {}"
  by (auto simp: g_wf_def graph_New_def g_rel_iff)

lemma AddNode_wf: "g_wf g \<Longrightarrow> g_wf (AddNode n g)"
  by (simp add: g_wf_def AddNode_def)

lemma AddNode_simps [simp]:
  "g_nodes (AddNode n g) = insert n (g_nodes g)" "g_rel (AddNode n g) = g_rel g"
  by (auto simp: AddNode_def g_rel_iff)

lemma AddEdge_wf: "g_wf g \<Longrightarrow> g_wf (AddEdge a b w d g)"
  by (auto simp: g_wf_def AddEdge_def adj_wf_def split: option.splits)

lemma AddEdge_simps [simp]:
  "g_nodes (AddEdge a b w d g) = g_nodes g" "g_rel (AddEdge a b w d g) = insert (a, b) (g_rel g)"
  by (auto simp: AddEdge_def g_rel_iff Let_def split: option.splits if_splits)

lemma dropTarget_wf: "adj_wf m \<Longrightarrow> dropTarget n m = Some m' \<Longrightarrow> adj_wf m'"
  by (auto simp: dropTarget_def adj_wf_def Let_def split: if_splits)

lemma dropTarget_Some:
  "(\<exists>m' e. dropTarget n m = Some m' \<and> m' b = Some e) \<longleftrightarrow> (\<exists>e. m b = Some e) \<and> b \<noteq> n"
  by (auto simp: dropTarget_def Let_def dom_def split: if_splits)

theorem g_RemoveNode_spec:
  assumes "g_wf g" and "g_RemoveNode n g = Inr g'"
  shows "g_wf g'" and "g_nodes g' = g_nodes g - {n}"
    and "g_rel g' = {(a, b) \<in> g_rel g. a \<noteq> n \<and> b \<noteq> n}"
proof -
  have g': "g' = g\<lparr>g_nodes := g_nodes g - {n},
      g_edges := (\<lambda>from. if from = n then None else Option.bind (g_edges g from) (dropTarget n))\<rparr>"
    using assms(2) by (simp add: g_RemoveNode_def split: if_splits)
  have "dom (g_edges g') \<subseteq> dom (g_edges g)"
    by (auto simp: g' bind_eq_Some_conv split: if_splits)
  with assms(1) show "g_wf g'"
    by (auto simp: g_wf_def g' bind_eq_Some_conv finite_subset dest!: dropTarget_wf [rotated] split: if_splits)
  show "g_nodes g' = g_nodes g - {n}" by (simp add: g')
  have "(a, b) \<in> g_rel g' \<longleftrightarrow> (a, b) \<in> g_rel g \<and> a \<noteq> n \<and> b \<noteq> n" for a b
    using dropTarget_Some [of n "the (g_edges g a)" b]
    by (cases "g_edges g a") (simp_all add: g' g_rel_iff)
  then show "g_rel g' = {(a, b) \<in> g_rel g. a \<noteq> n \<and> b \<noteq> n}" by auto
qed

theorem RemoveEdge_spec:
  assumes "g_wf g" and "RemoveEdge a b g = Inr g'"
  shows "g_wf g'" and "g_nodes g' = g_nodes g" and "(a, b) \<in> g_rel g" and "g_rel g' = g_rel g - {(a, b)}"
proof -
  obtain m where m: "g_edges g a = Some m" "m b \<noteq> None" and g': "g' = g\<lparr>g_edges := (g_edges g)(a := dropTarget b m)\<rparr>"
    using assms(2) by (auto simp: RemoveEdge_def split: if_splits option.splits)
  have "dom (g_edges g') \<subseteq> dom (g_edges g)"
    using m by (auto simp: g' split: if_splits)
  with assms(1) m show "g_wf g'"
    by (auto simp: g_wf_def g' finite_subset dest: dropTarget_wf [rotated] split: if_splits)
  show "g_nodes g' = g_nodes g" "(a, b) \<in> g_rel g" using m by (auto simp: g' g_rel_iff)
  have "(x, y) \<in> g_rel g' \<longleftrightarrow> (x, y) \<in> g_rel g \<and> (x, y) \<noteq> (a, b)" for x y
    using m dropTarget_Some [of b m y] by (cases "x = a") (simp_all add: g' g_rel_iff)
  then show "g_rel g' = g_rel g - {(a, b)}" by auto
qed

lemma finite_g_rel: "g_wf g \<Longrightarrow> finite (g_rel g)"
proof -
  assume "g_wf g"
  then have "finite (SIGMA a : dom (g_edges g). dom (the (g_edges g a)))"
    by (auto simp: g_wf_def adj_wf_def intro!: finite_SigmaI)
  then show ?thesis
    by (rule rev_finite_subset) (auto simp: g_rel_iff)
qed

lemma targets_set:
  assumes "g_wf g" and "map_order it"
  shows "set (targets it g a) = g_rel g `` {a}" and "distinct (targets it g a)"
proof -
  have f: "g_edges g a = Some m \<Longrightarrow> finite (dom m)" for m
    using assms(1) by (simp add: g_wf_def adj_wf_def)
  show "set (targets it g a) = g_rel g `` {a}"
    using assms(2) f by (cases "g_edges g a") (auto simp: targets_def g_rel_iff map_order_set)
  show "distinct (targets it g a)"
    using assms(2) f by (cases "g_edges g a") (auto simp: targets_def map_order_distinct)
qed

lemma g_vertices_eq: "g_vertices g = g_nodes g \<union> Range (g_rel g)"
  by (auto simp: g_vertices_def ran_def Range_iff g_rel_iff dom_def) (metis option.distinct(1))+

lemma finite_g_vertices: "g_wf g \<Longrightarrow> finite (g_vertices g)"
  by (simp add: g_vertices_eq finite_g_rel finite_Range g_wf_def)

section \<open>In-degrees\<close>

lemma fold_bump:
  "distinct xs \<Longrightarrow>
     fold (bump d) xs m = (\<lambda>x. if x \<in> set xs then Some ((case m x of None \<Rightarrow> 0 | Some n \<Rightarrow> n) + d) else m x)"
  by (induction xs arbitrary: m) (auto simp: bump_def fun_eq_iff)

text \<open>
  The state of the level loop when the vertices \<open>P\<close> have been placed: the others count their
  predecessors outside \<open>P\<close>, and \<open>P\<close> is closed under predecessors.
\<close>

definition deg_inv :: "('a, 'e) Graph \<Rightarrow> 'a set \<Rightarrow> ('a \<rightharpoonup> int) \<Rightarrow> bool" where
  "deg_inv g P deg \<longleftrightarrow>
     dom deg = g_vertices g - P \<and> P \<subseteq> g_vertices g \<and>
     (\<forall>r \<in> g_vertices g - P. deg r = Some (int (card {f. (f, r) \<in> g_rel g \<and> f \<notin> P}))) \<and>
     (\<forall>a b. (a, b) \<in> g_rel g \<longrightarrow> b \<in> P \<longrightarrow> a \<in> P)"

lemma finite_preds: "g_wf g \<Longrightarrow> finite {f. (f, r) \<in> g_rel g \<and> Q f}"
  by (rule rev_finite_subset [OF finite_Domain [OF finite_g_rel]]) auto

lemma fold_nodes: "fold (\<lambda>node m. m(node \<mapsto> (0::int))) xs m = (\<lambda>x. if x \<in> set xs then Some 0 else m x)"
  by (induction xs arbitrary: m) auto

lemma fold_sources:
  assumes "g_wf g" "map_order it" "distinct as"
  shows "fold (\<lambda>from m. fold (bump 1) (targets it g from) m) as m =
    (\<lambda>x. if x \<in> g_rel g `` set as
         then Some ((case m x of None \<Rightarrow> 0 | Some n \<Rightarrow> n) + int (card {a \<in> set as. (a, x) \<in> g_rel g})) else m x)"
  using assms(3)
proof (induction as arbitrary: m)
  case (Cons a as)
  note t = targets_set [OF assms(1,2), of a]
  have c: "card {b \<in> set (a # as). (b, x) \<in> g_rel g} =
      (if (a, x) \<in> g_rel g then 1 else 0) + card {b \<in> set as. (b, x) \<in> g_rel g}" for x
  proof (cases "(a, x) \<in> g_rel g")
    case True
    then have "{b \<in> set (a # as). (b, x) \<in> g_rel g} = insert a {b \<in> set as. (b, x) \<in> g_rel g}" by auto
    with True Cons.prems show ?thesis by simp
  next
    case False
    then have "{b \<in> set (a # as). (b, x) \<in> g_rel g} = {b \<in> set as. (b, x) \<in> g_rel g}" by auto
    with False show ?thesis by simp
  qed
  have z: "x \<notin> g_rel g `` set as \<Longrightarrow> {b \<in> set as. (b, x) \<in> g_rel g} = {}" for x by auto
  have "fold (\<lambda>from m. fold (bump 1) (targets it g from) m) (a # as) m x =
    (if x \<in> g_rel g `` set (a # as)
     then Some ((case m x of None \<Rightarrow> 0 | Some n \<Rightarrow> n) + int (card {b \<in> set (a # as). (b, x) \<in> g_rel g})) else m x)" for x
    unfolding c using Cons fold_bump [OF t(2), of 1 m] t(1) z [of x]
    by (cases "x \<in> g_rel g `` set as"; cases "(a, x) \<in> g_rel g") (simp_all add: Image_def)
  then show ?case by blast
qed simp

lemma initDegrees_inv:
  assumes "g_wf g" "map_order it"
  shows "deg_inv g {} (initDegrees it g)"
proof -
  have f: "finite (dom (g_edges g))" "finite (g_nodes g)" using assms(1) by (simp_all add: g_wf_def)
  have s: "{a \<in> dom (g_edges g). (a, x) \<in> g_rel g} = {a. (a, x) \<in> g_rel g}"
    and i: "g_rel g `` dom (g_edges g) = Range (g_rel g)" for x
    by (auto simp: g_rel_iff Image_iff) (metis domI)
  have z: "x \<notin> Range (g_rel g) \<Longrightarrow> {a. (a, x) \<in> g_rel g} = {}" for x by auto
  have "initDegrees it g = (\<lambda>x. if x \<in> g_vertices g then Some (int (card {a. (a, x) \<in> g_rel g})) else None)"
    using fold_sources [OF assms map_order_distinct [OF assms(2) f(1)]] z
    by (auto simp: initDegrees_def fold_nodes map_order_set [OF assms(2)] f s i g_vertices_eq fun_eq_iff)
  then show ?thesis by (auto simp: deg_inv_def dom_def)
qed

lemma retire_inv:
  assumes "g_wf g" "map_order it" "deg_inv g P deg" "n \<in> g_vertices g - P" "\<And>f. (f, n) \<in> g_rel g \<Longrightarrow> f \<in> P"
  shows "deg_inv g (insert n P) (retire it g n deg)"
proof -
  note t = targets_set [OF assms(1,2), of n]
  have out: "b \<notin> P" "b \<noteq> n" "b \<in> g_vertices g" if "(n, b) \<in> g_rel g" for b
    using that assms(3-5) by (auto simp: deg_inv_def g_vertices_eq)
  have d: "deg r = Some (int (card {f. (f, r) \<in> g_rel g \<and> f \<notin> P}))" if "r \<in> g_vertices g - P" for r
    using assms(3) that by (simp add: deg_inv_def)
  have r: "retire it g n deg = (\<lambda>x. if x = n then None else if (n, x) \<in> g_rel g
      then Some ((case deg x of None \<Rightarrow> 0 | Some k \<Rightarrow> k) - 1) else deg x)"
    using fold_bump [OF t(2)] t(1) by (auto simp: retire_def fun_eq_iff)
  have "retire it g n deg x = Some (int (card {f. (f, x) \<in> g_rel g \<and> f \<notin> insert n P}))"
    if x: "x \<in> g_vertices g - insert n P" for x
  proof (cases "(n, x) \<in> g_rel g")
    case True
    then have "{f. (f, x) \<in> g_rel g \<and> f \<notin> P} = insert n {f. (f, x) \<in> g_rel g \<and> f \<notin> insert n P}"
      using assms(4) by auto
    with True x d [of x] finite_preds [OF assms(1), of x "\<lambda>f. f \<notin> insert n P"] show ?thesis
      by (simp add: r)
  next
    case False
    then have "{f. (f, x) \<in> g_rel g \<and> f \<notin> P} = {f. (f, x) \<in> g_rel g \<and> f \<notin> insert n P}" by auto
    with False x d [of x] show ?thesis by (simp add: r)
  qed
  moreover have "dom (retire it g n deg) = g_vertices g - insert n P"
    using assms(3) out by (auto simp: r deg_inv_def split: if_splits)
  ultimately show ?thesis
    using assms(3-5) out by (auto simp: deg_inv_def)
qed

lemma retire_level_inv:
  assumes "g_wf g" "map_order it" "deg_inv g P deg" "distinct ns" "set ns \<subseteq> g_vertices g - P"
    and "\<And>n f. n \<in> set ns \<Longrightarrow> (f, n) \<in> g_rel g \<Longrightarrow> f \<in> P"
  shows "deg_inv g (P \<union> set ns) (fold (retire it g) ns deg)"
  using assms(3-6)
proof (induction ns arbitrary: P deg)
  case (Cons n ns)
  have "deg_inv g (insert n P) (retire it g n deg)"
    using Cons.prems by (intro retire_inv assms(1,2)) auto
  with Cons.prems Cons.IH [of "insert n P" "retire it g n deg"] show ?case by force
qed simp

lemma currentLevel_set:
  assumes "g_wf g" "map_order it" "deg_inv g P deg"
  shows "set (currentLevel it deg) = {r \<in> g_vertices g - P. \<forall>f. (f, r) \<in> g_rel g \<longrightarrow> f \<in> P}"
    and "distinct (currentLevel it deg)"
proof -
  have d: "dom deg = g_vertices g - P" "\<And>r. r \<in> g_vertices g - P \<Longrightarrow> deg r = Some (int (card {f. (f, r) \<in> g_rel g \<and> f \<notin> P}))"
    using assms(3) by (simp_all add: deg_inv_def)
  have f: "finite (dom deg)" using d finite_g_vertices [OF assms(1)] by simp
  have "deg r = Some 0 \<longleftrightarrow> (\<forall>f. (f, r) \<in> g_rel g \<longrightarrow> f \<in> P)" if "r \<in> g_vertices g - P" for r
    using d(2) [OF that] finite_preds [OF assms(1), of r "\<lambda>f. f \<notin> P"] by (auto simp: card_eq_0_iff)
  then show "set (currentLevel it deg) = {r \<in> g_vertices g - P. \<forall>f. (f, r) \<in> g_rel g \<longrightarrow> f \<in> P}"
    unfolding currentLevel_def set_filter map_order_set [OF assms(2) f [unfolded d(1)]] d(1) by blast
  show "distinct (currentLevel it deg)"
    by (simp add: currentLevel_def map_order_distinct [OF assms(2) f])
qed

section \<open>The level loop\<close>

text \<open>
  Levels of a relation: they partition the vertices, every edge goes to a later level, and no
  vertex could have been placed earlier.
\<close>

definition level_inv :: "('a, 'e) Graph \<Rightarrow> 'a list list \<Rightarrow> 'a set \<Rightarrow> bool" where
  "level_inv g ls P \<longleftrightarrow>
     distinct (concat ls) \<and> set (concat ls) = P \<and> [] \<notin> set ls \<and>
     (\<forall>a b. (a, b) \<in> g_rel g \<longrightarrow> b \<in> P \<longrightarrow> (\<exists>i j. i < j \<and> j < length ls \<and> a \<in> set (ls ! i) \<and> b \<in> set (ls ! j))) \<and>
     (\<forall>j b. Suc j < length ls \<longrightarrow> b \<in> set (ls ! Suc j) \<longrightarrow> (\<exists>a \<in> set (ls ! j). (a, b) \<in> g_rel g)) \<and>
     (ls \<noteq> [] \<longrightarrow> (\<forall>r \<in> g_vertices g - P. \<exists>f. (f, r) \<in> g_rel g \<and> (f \<in> P \<longrightarrow> f \<in> set (last ls))))"

lemma level_inv_step:
  assumes inv: "level_inv g ls P" and L: "set level = {r \<in> g_vertices g - P. \<forall>f. (f, r) \<in> g_rel g \<longrightarrow> f \<in> P}"
    and "distinct level" "level \<noteq> []"
  shows "level_inv g (ls @ [level]) (P \<union> set level)"
proof -
  have cls: "distinct (concat ls)" "set (concat ls) = P" "[] \<notin> set ls"
    and w0: "ls \<noteq> [] \<Longrightarrow> \<forall>r \<in> g_vertices g - P. \<exists>f. (f, r) \<in> g_rel g \<and> (f \<in> P \<longrightarrow> f \<in> set (last ls))"
    using inv by (simp_all add: level_inv_def)
  have P: "\<exists>i < length ls. x \<in> set (ls ! i)" if "x \<in> P" for x
    using that unfolding cls(2) [symmetric] set_concat by (metis UN_E in_set_conv_nth)
  have e: "\<exists>i j. i < j \<and> j < length (ls @ [level]) \<and> a \<in> set ((ls @ [level]) ! i) \<and> b \<in> set ((ls @ [level]) ! j)"
    if ab: "(a, b) \<in> g_rel g" "b \<in> P \<union> set level" for a b
  proof (cases "b \<in> P")
    case True
    then obtain i j where "i < j" "j < length ls" "a \<in> set (ls ! i)" "b \<in> set (ls ! j)"
      using inv ab(1) unfolding level_inv_def by blast
    then show ?thesis by (intro exI [of _ i] exI [of _ j]) (simp add: nth_append)
  next
    case False
    with ab L have b: "b \<in> set level" "a \<in> P" by auto
    with P obtain i where "i < length ls" "a \<in> set (ls ! i)" by blast
    with b show ?thesis by (intro exI [of _ i] exI [of _ "length ls"]) (simp add: nth_append)
  qed
  have n: "\<exists>a \<in> set ((ls @ [level]) ! j). (a, b) \<in> g_rel g"
    if "Suc j < length (ls @ [level])" "b \<in> set ((ls @ [level]) ! Suc j)" for j b
  proof (cases "Suc j < length ls")
    case True
    with that inv show ?thesis by (auto simp: level_inv_def nth_append)
  next
    case False
    with that have j: "Suc j = length ls" "ls \<noteq> []" and b: "b \<in> set level" by (auto simp: nth_append)
    then have "ls ! j = last ls" by (metis diff_Suc_1 last_conv_nth)
    then have l: "(ls @ [level]) ! j = last ls" using j(1) by (simp add: nth_append)
    have "b \<in> g_vertices g - P" and p: "\<And>f. (f, b) \<in> g_rel g \<Longrightarrow> f \<in> P" using b L by auto
    with w0 [OF j(2)] obtain f where "(f, b) \<in> g_rel g" "f \<in> P \<longrightarrow> f \<in> set (last ls)" by blast
    with p show ?thesis unfolding l by blast
  qed
  have w: "\<exists>f. (f, r) \<in> g_rel g \<and> (f \<in> P \<union> set level \<longrightarrow> f \<in> set (last (ls @ [level])))"
    if "r \<in> g_vertices g - (P \<union> set level)" for r
    using that L by auto
  have "distinct (concat (ls @ [level]))" "set (concat (ls @ [level])) = P \<union> set level"
    "[] \<notin> set (ls @ [level])"
    using cls assms(3,4) L by auto
  with e n w show ?thesis
    unfolding level_inv_def by blast
qed

text \<open>The loop is stuck when some vertices are left and each has a predecessor that is not placed.\<close>

definition g_stuck :: "('a, 'e) Graph \<Rightarrow> 'a set \<Rightarrow> bool" where
  "g_stuck g P \<longleftrightarrow> g_vertices g - P \<noteq> {} \<and> (\<forall>r \<in> g_vertices g - P. \<exists>f. (f, r) \<in> g_rel g \<and> f \<notin> P)"

definition levelError ::
  "('a \<Rightarrow> string) \<Rightarrow> ('a set \<Rightarrow> 'a list) \<Rightarrow> ('a, 'e) Graph \<Rightarrow> ('a \<rightharpoonup> int) \<Rightarrow> ('a graph_error + 'a list list) option" where
  "levelError fmt it g deg =
     (case findCycle it g of
        None \<Rightarrow> None
      | Some (Some cycle) \<Rightarrow> Some (Inl (CycleDetected cycle))
      | Some None \<Rightarrow> Some (Inl (CycleDetectedWithStuckNodes (stuckInfo fmt it g deg))))"

lemma levels_loop_cases:
  assumes "g_wf g" "map_order it" "deg_inv g P deg" "level_inv g ls P" "card (g_vertices g - P) < fuel"
  shows "(\<exists>ls'. levels_loop fmt it g fuel deg ls = Some (Inr ls') \<and> level_inv g ls' (g_vertices g)) \<or>
     (\<exists>deg' Q. levels_loop fmt it g fuel deg ls = levelError fmt it g deg' \<and> deg_inv g Q deg' \<and> g_stuck g Q)"
  using assms(3-5)
proof (induction fuel arbitrary: P deg ls)
  case (Suc fuel)
  define level where "level = currentLevel it deg"
  note lv = currentLevel_set [OF assms(1,2) Suc.prems(1), folded level_def]
  have d: "dom deg = g_vertices g - P" "P \<subseteq> g_vertices g" using Suc.prems(1) by (simp_all add: deg_inv_def)
  consider (empty) "g_vertices g - P = {}" | (stuck) "g_vertices g - P \<noteq> {}" "level = []"
    | (step) "g_vertices g - P \<noteq> {}" "level \<noteq> []" by blast
  then show ?case
  proof cases
    case empty
    then have "P = g_vertices g" using d by auto
    with d empty Suc.prems(2) show ?thesis by simp
  next
    case stuck
    then have "g_stuck g P" using lv(1) by (auto simp: g_stuck_def)
    moreover have "levels_loop fmt it g (Suc fuel) deg ls = levelError fmt it g deg"
      using stuck d(1) by (simp add: level_def levelError_def del: dom_eq_empty_conv)
    ultimately show ?thesis using Suc.prems(1) by blast
  next
    case step
    let ?srt = "sort_key (nodeKey fmt g) level"
    have "deg_inv g (P \<union> set level) (fold (retire it g) level deg)"
      using lv by (intro retire_level_inv [OF assms(1,2) Suc.prems(1)]) auto
    moreover have "level_inv g (ls @ [?srt]) (P \<union> set ?srt)"
      using lv step by (intro level_inv_step Suc.prems(2)) (auto simp flip: set_empty)
    moreover have "card (g_vertices g - (P \<union> set level)) < card (g_vertices g - P)"
      using lv(1) step finite_g_vertices [OF assms(1)]
      by (intro psubset_card_mono) (auto simp flip: set_empty)
    ultimately show ?thesis
      using Suc.IH [of "P \<union> set level" "fold (retire it g) level deg" "ls @ [?srt]"] Suc.prems(3) step d(1)
      by (simp add: level_def [symmetric] del: dom_eq_empty_conv)
  qed
qed simp

section \<open>The cycle search is sound and complete\<close>

text \<open>A closed walk given by its vertices: consecutive ones are joined, and the last leads to the first.\<close>

definition closed_walk :: "('a \<times> 'a) set \<Rightarrow> 'a list \<Rightarrow> bool" where
  "closed_walk E c \<longleftrightarrow> c \<noteq> [] \<and> successively (\<lambda>x y. (x, y) \<in> E) c \<and> (last c, hd c) \<in> E"

lemma walk_trancl: "successively (\<lambda>x y. (x, y) \<in> E) c \<Longrightarrow> c \<noteq> [] \<Longrightarrow> (hd c, last c) \<in> E\<^sup>*"
proof (induction c)
  case (Cons x c)
  then show ?case by (cases c) (auto intro: converse_rtrancl_into_rtrancl)
qed simp

lemma closed_walk_cyclic: "closed_walk E c \<Longrightarrow> \<not> acyclic E"
  unfolding closed_walk_def acyclic_def by (metis rtrancl_into_trancl1 walk_trancl)

text \<open>Following the parent links along the stack of the search.\<close>

abbreviation stack_link :: "('a, 'e) Graph \<Rightarrow> ('a \<rightharpoonup> 'a) \<Rightarrow> 'a \<Rightarrow> 'a \<Rightarrow> bool" where
  "stack_link g parent x y \<equiv> parent x = Some y \<and> (y, x) \<in> g_rel g"

lemma followParents_walk:
  assumes "successively (stack_link g parent) (current # p)" "neighbor \<in> set (current # p)"
    and "successively (\<lambda>x y. (x, y) \<in> g_rel g) cycle" "cycle \<noteq> []" "last cycle = neighbor"
    and "(current, hd cycle) \<in> g_rel g" "length (current # p) \<le> fuel"
  shows "\<exists>c. followParents fuel parent neighbor current cycle = Some c \<and> closed_walk (g_rel g) c"
  using assms
proof (induction p arbitrary: current cycle fuel)
  case Nil
  then show ?case by (cases fuel) (auto simp: closed_walk_def)
next
  case (Cons y p)
  then obtain k where k: "fuel = Suc k" by (cases fuel) auto
  show ?case
  proof (cases "current = neighbor")
    case True
    with Cons.prems k show ?thesis by (auto simp: closed_walk_def)
  next
    case False
    have "successively (\<lambda>x y. (x, y) \<in> g_rel g) (current # cycle)"
      using Cons.prems by (simp add: successively_Cons)
    then have "\<exists>c. followParents k parent neighbor y (current # cycle) = Some c \<and> closed_walk (g_rel g) c"
      using Cons.prems k False by (intro Cons.IH) auto
    with Cons.prems k False show ?thesis by simp
  qed
qed

text \<open>
  The search state with the stack \<open>p\<close>, top first: vertices that were visited and left lead only to such
  vertices, and have no cycle among them.
\<close>

definition dfs_inv :: "('a, 'e) Graph \<Rightarrow> 'a list \<Rightarrow> 'a dfsState \<Rightarrow> bool" where
  "dfs_inv g p d \<longleftrightarrow>
     distinct p \<and> d_recStack d = set p \<and> set p \<subseteq> d_visited d \<and> d_visited d \<subseteq> g_vertices g \<and>
     successively (stack_link g (d_parent d)) p \<and>
     g_rel g `` (d_visited d - set p) \<subseteq> d_visited d - set p \<and>
     acyclic (g_rel g \<inter> (d_visited d - set p) \<times> (d_visited d - set p))"

lemma trancl_stays:
  assumes "(x, y) \<in> (E \<inter> C \<times> C)\<^sup>+" "E `` B \<subseteq> B" "x \<in> B"
  shows "y \<in> B \<and> (x, y) \<in> (E \<inter> B \<times> B)\<^sup>+"
  using assms(1)
proof induction
  case (base y)
  with assms show ?case by auto
next
  case (step y z)
  with assms(2) have "(y, z) \<in> E \<inter> B \<times> B" by auto
  with step show ?case by (auto intro: trancl_into_trancl)
qed

lemma acyclic_extend:
  assumes "E `` B \<subseteq> B" "acyclic (E \<inter> B \<times> B)" "n \<notin> B" "E `` {n} \<subseteq> B"
  shows "acyclic (E \<inter> insert n B \<times> insert n B)"
proof (rule acyclicI, intro allI notI)
  fix x
  assume xx: "(x, x) \<in> (E \<inter> insert n B \<times> insert n B)\<^sup>+"
  show False
  proof (cases "x \<in> B")
    case True
    with trancl_stays [OF xx assms(1)] assms(2) show False by (auto simp: acyclic_def)
  next
    case False
    with xx have "x = n" by (induction rule: trancl_induct) auto
    from tranclD [OF xx] obtain z where z: "(x, z) \<in> E" "(z, x) \<in> (E \<inter> insert n B \<times> insert n B)\<^sup>*"
      by blast
    with \<open>x = n\<close> assms(4) have "z \<in> B" by auto
    with rtranclD [OF z(2)] False trancl_stays [of z x E _ B] assms(1) show False by blast
  qed
qed

lemma dfs_inv_push:
  assumes "dfs_inv g p d" "node \<notin> d_visited d" "node \<in> g_vertices g"
    and "p \<noteq> [] \<longrightarrow> stack_link g (d_parent d) node (hd p)"
  shows "dfs_inv g (node # p) (d\<lparr>d_visited := insert node (d_visited d), d_recStack := insert node (d_recStack d)\<rparr>)"
proof -
  have "insert node (d_visited d) - set (node # p) = d_visited d - set p" using assms(2) by auto
  with assms show ?thesis by (auto simp: dfs_inv_def successively_Cons)
qed

lemma dfs_inv_parent:
  assumes "dfs_inv g p d" "x \<notin> d_visited d"
  shows "dfs_inv g p (d\<lparr>d_parent := (d_parent d)(x \<mapsto> y)\<rparr>)"
proof -
  have "x \<notin> set p" using assms by (auto simp: dfs_inv_def)
  then have "successively (stack_link g ((d_parent d)(x \<mapsto> y))) p \<longleftrightarrow> successively (stack_link g (d_parent d)) p"
    by (intro successively_cong) auto
  with assms(1) show ?thesis by (simp add: dfs_inv_def)
qed

lemma dfs_inv_pop:
  assumes "dfs_inv g (node # p) d" "g_rel g `` {node} \<subseteq> d_visited d - set (node # p)"
  shows "dfs_inv g p (d\<lparr>d_recStack := d_recStack d - {node}\<rparr>)"
proof -
  let ?B = "d_visited d - set (node # p)"
  have inv: "distinct (node # p)" "d_recStack d = set (node # p)" "set (node # p) \<subseteq> d_visited d" "d_visited d \<subseteq> g_vertices g"
    "successively (stack_link g (d_parent d)) (node # p)" "g_rel g `` ?B \<subseteq> ?B" "acyclic (g_rel g \<inter> ?B \<times> ?B)"
    using assms(1) unfolding dfs_inv_def by simp_all
  have B: "d_visited d - set p = insert node ?B" using inv(1,3) by auto
  have c: "g_rel g `` insert node ?B \<subseteq> insert node ?B" using inv(6) assms(2) by blast
  have a: "acyclic (g_rel g \<inter> insert node ?B \<times> insert node ?B)"
    using acyclic_extend [OF inv(6,7) _ assms(2)] by simp
  have "distinct p" "d_recStack d - {node} = set p" "set p \<subseteq> d_visited d" "successively (stack_link g (d_parent d)) p"
    using inv(1-3,5) by (auto simp: successively_Cons)
  with B c a inv(4) show ?thesis unfolding dfs_inv_def by simp
qed

lemma dfs_inv_back:
  assumes "dfs_inv g (node # p) d" "neighbor \<in> d_recStack d" "(node, neighbor) \<in> g_rel g"
    and "g_wf g" "card (g_vertices g) \<le> B"
  shows "\<exists>c. followParents B (d_parent d) neighbor node [neighbor] = Some c \<and> closed_walk (g_rel g) c"
proof -
  have inv: "distinct (node # p)" "d_recStack d = set (node # p)" "set (node # p) \<subseteq> g_vertices g"
    "successively (stack_link g (d_parent d)) (node # p)"
    using assms(1) unfolding dfs_inv_def by auto
  have "length (node # p) \<le> card (g_vertices g)"
    using inv(1,3) distinct_card [of "node # p"] card_mono [OF finite_g_vertices [OF assms(4)] inv(3)] by simp
  with inv assms(2,3,5) show ?thesis by (intro followParents_walk [where g = g and p = p]) auto
qed

text \<open>What a call of \<open>dfs\<close> and a run of its loop give: a closed walk, or a larger search state.\<close>

definition dfs_post :: "('a, 'e) Graph \<Rightarrow> 'a list \<Rightarrow> 'a set \<Rightarrow> 'a dfsState \<Rightarrow> ('a dfsState \<times> 'a list option) option \<Rightarrow> bool" where
  "dfs_post g p S d res \<longleftrightarrow>
     (\<exists>d' c. res = Some (d', Some c) \<and> closed_walk (g_rel g) c) \<or>
     (\<exists>d'. res = Some (d', None) \<and> dfs_inv g p d' \<and> d_visited d \<subseteq> d_visited d' \<and> S \<subseteq> d_visited d' - set p)"

lemma dfs_post_cases:
  assumes "dfs_post g p S d res"
  obtains (cycle) d' c where "res = Some (d', Some c)" "closed_walk (g_rel g) c"
    | (grown) d' where "res = Some (d', None)" "dfs_inv g p d'" "d_visited d \<subseteq> d_visited d'" "S \<subseteq> d_visited d' - set p"
  using assms unfolding dfs_post_def by blast

definition dfs_pre :: "('a, 'e) Graph \<Rightarrow> 'a list \<Rightarrow> 'a \<Rightarrow> 'a dfsState \<Rightarrow> nat \<Rightarrow> bool" where
  "dfs_pre g p node d fuel \<longleftrightarrow>
     dfs_inv g p d \<and> node \<notin> d_visited d \<and> node \<in> g_vertices g \<and>
     (p \<noteq> [] \<longrightarrow> stack_link g (d_parent d) node (hd p)) \<and> card (g_vertices g - d_visited d) \<le> fuel"

lemma dfs_post_mono:
  assumes "dfs_post g p S' d' res" "d_visited d \<subseteq> d_visited d'" "S \<subseteq> S' \<union> (d_visited d' - set p)"
  shows "dfs_post g p S d res"
  using assms unfolding dfs_post_def by blast

lemma dfs_loop_correct:
  assumes g: "g_wf g" "card (g_vertices g) \<le> B"
    and dfs: "\<And>p node d. dfs_pre g p node d fuel \<Longrightarrow> dfs_post g p {node} d (dfs it g B fuel node d)"
    and "dfs_inv g (node # p) d" "set ns \<subseteq> g_rel g `` {node}" "card (g_vertices g - d_visited d) \<le> fuel"
  shows "dfs_post g (node # p) (set ns) d (dfs_loop it g B fuel node ns d)"
  using assms(4-6)
proof (induction ns arbitrary: d)
  case Nil
  then show ?case by (simp add: dfs_post_def)
next
  case (Cons x ns)
  have x: "(node, x) \<in> g_rel g" "x \<in> g_vertices g" using Cons.prems(2) by (auto simp: g_vertices_eq)
  have rec: "d_recStack d = set (node # p)" using Cons.prems(1) by (simp add: dfs_inv_def)
  consider (new) "x \<notin> d_visited d" | (onstack) "x \<in> d_visited d" "x \<in> d_recStack d"
    | (gone) "x \<in> d_visited d" "x \<notin> d_recStack d" by blast
  then show ?case
  proof cases
    case new
    define d1 where "d1 = d\<lparr>d_parent := (d_parent d)(x \<mapsto> node)\<rparr>"
    have v: "d_visited d1 = d_visited d" by (simp add: d1_def)
    have "dfs_pre g (node # p) x d1 fuel"
      using Cons.prems(1,3) dfs_inv_parent [OF Cons.prems(1) new] x new by (simp add: dfs_pre_def d1_def)
    from dfs [OF this] show ?thesis
    proof (cases rule: dfs_post_cases)
      case (cycle d2 c)
      with new show ?thesis by (simp add: dfs_post_def d1_def)
    next
      case (grown d2)
      note 2 = grown [unfolded v]
      have "card (g_vertices g - d_visited d2) \<le> fuel"
        using 2(3) finite_g_vertices [OF g(1)]
        by (intro order_trans [OF card_mono Cons.prems(3)]) auto
      then have "dfs_post g (node # p) (set ns) d2 (dfs_loop it g B fuel node ns d2)"
        using Cons.prems(2) 2(2) by (intro Cons.IH) auto
      then have "dfs_post g (node # p) (set (x # ns)) d (dfs_loop it g B fuel node ns d2)"
        by (rule dfs_post_mono) (use 2 in auto)
      with 2(1) new show ?thesis by (simp add: d1_def)
    qed
  next
    case onstack
    with dfs_inv_back [OF Cons.prems(1) onstack(2) x(1) g] show ?thesis by (auto simp: dfs_post_def)
  next
    case gone
    have "dfs_post g (node # p) (set ns) d (dfs_loop it g B fuel node ns d)"
      using Cons.prems by (intro Cons.IH) auto
    then have "dfs_post g (node # p) (set (x # ns)) d (dfs_loop it g B fuel node ns d)"
      by (rule dfs_post_mono) (use gone rec in auto)
    with gone show ?thesis by simp
  qed
qed

lemma dfs_correct:
  assumes "g_wf g" "map_order it" "card (g_vertices g) \<le> B" "dfs_pre g p node d fuel"
  shows "dfs_post g p {node} d (dfs it g B fuel node d)"
  using assms(4)
proof (induction fuel arbitrary: p node d)
  case 0
  then have "g_vertices g - d_visited d = {}"
    using finite_g_vertices [OF assms(1)] by (simp add: dfs_pre_def)
  with 0 show ?case by (auto simp: dfs_pre_def)
next
  case (Suc fuel)
  define d1 where "d1 = d\<lparr>d_visited := insert node (d_visited d), d_recStack := insert node (d_recStack d)\<rparr>"
  have pre: "dfs_inv g p d" "node \<notin> d_visited d" "node \<in> g_vertices g"
    "p \<noteq> [] \<longrightarrow> stack_link g (d_parent d) node (hd p)" "card (g_vertices g - d_visited d) \<le> Suc fuel"
    using Suc.prems by (simp_all add: dfs_pre_def)
  have inv: "dfs_inv g (node # p) d1" unfolding d1_def by (rule dfs_inv_push [OF pre(1-4)])
  have "g_vertices g - d_visited d = insert node (g_vertices g - d_visited d1)"
    and n1: "node \<notin> g_vertices g - d_visited d1"
    using pre(2,3) by (auto simp: d1_def)
  then have "card (g_vertices g - d_visited d1) \<le> fuel"
    using pre(5) card_insert_disjoint [OF _ n1] finite_g_vertices [OF assms(1)] by simp
  then have "dfs_post g (node # p) (set (targets it g node)) d1 (dfs_loop it g B fuel node (targets it g node) d1)"
    using targets_set [OF assms(1,2)] by (intro dfs_loop_correct [OF assms(1,3) Suc.IH inv]) auto
  then show ?case
  proof (cases rule: dfs_post_cases)
    case (cycle d2 c)
    then show ?thesis by (simp add: dfs_post_def d1_def)
  next
    case (grown d2)
    note 2 = grown [unfolded targets_set(1) [OF assms(1,2)]]
    have n: "node \<in> d_visited d2 - set p" "d_visited d \<subseteq> d_visited d2"
      using 2(2,3) by (auto simp: d1_def dfs_inv_def)
    with 2 dfs_inv_pop [OF 2(2,4)] show ?thesis by (simp add: dfs_post_def d1_def)
  qed
qed

definition settled :: "('a, 'e) Graph \<Rightarrow> 'a set \<Rightarrow> bool" where
  "settled g C \<longleftrightarrow> g_rel g `` C \<subseteq> C \<and> acyclic (g_rel g \<inter> C \<times> C)"

text \<open>Every cycle the whole search reports is one; when it reports none, no node leads to a cycle.\<close>

lemma findCycle_loop_correct:
  assumes "g_wf g" "map_order it" "card (g_vertices g) \<le> B" "dfs_inv g [] d" "set ns \<subseteq> g_nodes g"
  shows "(\<exists>c. findCycle_loop it g B ns d = Some (Some c) \<and> closed_walk (g_rel g) c) \<or>
     findCycle_loop it g B ns d = Some None \<and>
       (\<exists>C. set ns \<subseteq> C \<and> d_visited d \<subseteq> C \<and> settled g C)"
  using assms(4,5)
proof (induction ns arbitrary: d)
  case Nil
  then have "settled g (d_visited d)" by (simp add: dfs_inv_def settled_def)
  then show ?case by auto
next
  case (Cons n ns)
  show ?case
  proof (cases "n \<in> d_visited d")
    case True
    then have "findCycle_loop it g B (n # ns) d = findCycle_loop it g B ns d" by simp
    moreover have "set ns \<subseteq> g_nodes g" using Cons.prems(2) by simp
    ultimately show ?thesis
      using Cons.IH [OF Cons.prems(1)] True unfolding list.set insert_subset by (metis subsetD)
  next
    case False
    have "card (g_vertices g - d_visited d) \<le> B"
      using finite_g_vertices [OF assms(1)] by (intro order_trans [OF card_mono assms(3)]) auto
    with False Cons.prems have "dfs_pre g [] n d B" by (simp add: dfs_pre_def g_vertices_eq)
    from dfs_correct [OF assms(1-3) this] show ?thesis
    proof (cases rule: dfs_post_cases)
      case (cycle d' c)
      with False show ?thesis by simp
    next
      case (grown d')
      then have n: "n \<in> d_visited d'" "findCycle_loop it g B (n # ns) d = findCycle_loop it g B ns d'"
        using False by simp_all
      have "set ns \<subseteq> g_nodes g" using Cons.prems(2) by simp
      from Cons.IH [OF grown(2) this] n(1) grown(3) show ?thesis
        unfolding n(2) list.set insert_subset by (meson subsetD subset_trans)
    qed
  qed
qed

lemma findCycle_correct:
  assumes "g_wf g" "map_order it"
  shows "(\<exists>c. findCycle it g = Some (Some c) \<and> closed_walk (g_rel g) c) \<or>
     findCycle it g = Some None \<and>
       (\<exists>C. g_nodes g \<subseteq> C \<and> settled g C)"
proof -
  have f: "finite (g_nodes g)" using assms(1) by (simp add: g_wf_def)
  have i: "dfs_inv g [] \<lparr>d_visited = {}, d_recStack = {}, d_parent = Map.empty\<rparr>" by (simp add: dfs_inv_def acyclic_def)
  show ?thesis
    using findCycle_loop_correct [OF assms le_SucI [OF order_refl] i, of "it (g_nodes g)"] map_order_set [OF assms(2) f]
    by (auto simp: findCycle_def)
qed

text \<open>A cycle is found whenever there is one and all edges start at nodes.\<close>

lemma findCycle_None:
  assumes "g_wf g" "map_order it" "Domain (g_rel g) \<subseteq> g_nodes g" "findCycle it g = Some None"
  shows "acyclic (g_rel g)"
proof -
  obtain C where C: "g_nodes g \<subseteq> C" "g_rel g `` C \<subseteq> C" "acyclic (g_rel g \<inter> C \<times> C)"
    using findCycle_correct [OF assms(1,2)] assms(4) by (auto simp: settled_def)
  have "(a, b) \<in> C \<times> C" if "(a, b) \<in> g_rel g" for a b
    using that assms(3) C(1,2) by (auto simp: Domain_iff subset_iff)
  then have "g_rel g \<inter> C \<times> C = g_rel g" by auto
  with C(3) show ?thesis by simp
qed

section \<open>Levels and cycles\<close>

lemma nodeLevel_loop_nth:
  "distinct (concat ls) \<Longrightarrow> i < length ls \<Longrightarrow> x \<in> set (ls ! i) \<Longrightarrow> nodeLevel_loop k ls x = k + int i"
proof (induction ls arbitrary: i k)
  case (Cons l ls)
  show ?case
  proof (cases i)
    case (Suc j)
    with Cons.prems have "x \<in> set (concat ls)" by auto
    with Cons.prems have "x \<notin> set l" by auto
    with Cons Suc show ?thesis by simp
  qed (use Cons in simp)
qed simp

lemma nodeLevel_loop_absent: "x \<notin> set (concat ls) \<Longrightarrow> nodeLevel_loop k ls x = -1"
  by (induction ls arbitrary: k) auto

lemma level_inv_GetNodeLevel:
  assumes inv: "level_inv g ls (g_vertices g)"
  shows "x \<in> g_vertices g \<Longrightarrow> 0 \<le> GetNodeLevel ls x \<and> GetNodeLevel ls x < LevelCount ls"
    and "x \<notin> g_vertices g \<Longrightarrow> GetNodeLevel ls x = -1"
    and "(a, b) \<in> g_rel g \<Longrightarrow> a \<in> g_vertices g \<and> GetNodeLevel ls a < GetNodeLevel ls b"
    and "0 < GetNodeLevel ls b \<Longrightarrow> \<exists>a. (a, b) \<in> g_rel g \<and> GetNodeLevel ls a = GetNodeLevel ls b - 1"
proof -
  have d: "distinct (concat ls)" "set (concat ls) = g_vertices g" using inv by (simp_all add: level_inv_def)
  have lv: "i < length ls \<Longrightarrow> y \<in> set (ls ! i) \<Longrightarrow> GetNodeLevel ls y = int i" for i y
    using nodeLevel_loop_nth [OF d(1), of i y 0] by (simp add: GetNodeLevel_def)
  have at: "\<exists>i < length ls. y \<in> set (ls ! i)" if "y \<in> g_vertices g" for y
    using that unfolding d(2) [symmetric] set_concat by (metis UN_E in_set_conv_nth)
  show "x \<in> g_vertices g \<Longrightarrow> 0 \<le> GetNodeLevel ls x \<and> GetNodeLevel ls x < LevelCount ls"
    using at [of x] lv by (auto simp: LevelCount_def)
  show ab: "y \<notin> g_vertices g \<Longrightarrow> GetNodeLevel ls y = -1" for y
    unfolding GetNodeLevel_def d(2) [symmetric] by (rule nodeLevel_loop_absent)
  show "a \<in> g_vertices g \<and> GetNodeLevel ls a < GetNodeLevel ls b" if "(a, b) \<in> g_rel g"
  proof -
    have "b \<in> g_vertices g" using that by (auto simp: g_vertices_eq)
    with inv that obtain i j where ij: "i < j" "j < length ls" "a \<in> set (ls ! i)" "b \<in> set (ls ! j)"
      unfolding level_inv_def by meson
    then have "i < length ls" by simp
    then have "a \<in> set (concat ls)" using ij(3) nth_mem by fastforce
    with ij lv [OF \<open>i < length ls\<close> ij(3)] lv [OF ij(2,4)] d(2) show ?thesis by simp
  qed
  show "\<exists>a. (a, b) \<in> g_rel g \<and> GetNodeLevel ls a = GetNodeLevel ls b - 1" if pos: "0 < GetNodeLevel ls b"
  proof -
    have "b \<in> g_vertices g" using ab [of b] pos by fastforce
    with at obtain i where i: "i < length ls" "b \<in> set (ls ! i)" by blast
    have "GetNodeLevel ls b = int i" by (rule lv [OF i])
    with pos obtain j where j: "i = Suc j" by (cases i) auto
    with inv i obtain a where "a \<in> set (ls ! j)" "(a, b) \<in> g_rel g" unfolding level_inv_def by meson
    with i j lv show ?thesis by (intro exI [of _ a]) simp
  qed
qed

lemma level_inv_acyclic:
  assumes "level_inv g ls (g_vertices g)"
  shows "acyclic (g_rel g)" and "Domain (g_rel g) \<subseteq> g_vertices g"
proof -
  have "g_rel g \<subseteq> measure (\<lambda>x. nat (GetNodeLevel ls x + 1))"
    using level_inv_GetNodeLevel [OF assms] by force
  then show "acyclic (g_rel g)" by (intro wf_acyclic wf_subset [OF wf_measure])
  show "Domain (g_rel g) \<subseteq> g_vertices g" using level_inv_GetNodeLevel(3) [OF assms] by blast
qed

lemma stuck_cyclic:
  assumes "g_wf g" "g_stuck g P"
  shows "\<not> (acyclic (g_rel g) \<and> Domain (g_rel g) \<subseteq> g_vertices g)"
proof
  assume a: "acyclic (g_rel g) \<and> Domain (g_rel g) \<subseteq> g_vertices g"
  then have w: "wf (g_rel g)" using finite_acyclic_wf [OF finite_g_rel [OF assms(1)]] by simp
  obtain r where r: "r \<in> g_vertices g - P" using assms(2) by (auto simp: g_stuck_def)
  obtain m where m: "m \<in> g_vertices g - P" "\<And>y. (y, m) \<in> g_rel g \<Longrightarrow> y \<notin> g_vertices g - P"
    using wfE_min [OF w r] by metis
  with assms(2) obtain f where "(f, m) \<in> g_rel g" "f \<notin> P" unfolding g_stuck_def by blast
  with m(2) a show False by blast
qed

text \<open>The two ways the grouping ends.\<close>

lemma DependencyLevels_cases:
  assumes "g_wf g" "map_order it"
  obtains (levels) ls where "DependencyLevels fmt it g = Some (Inr ls)" "level_inv g ls (g_vertices g)"
  | (cycle) c P where "DependencyLevels fmt it g = Some (Inl (CycleDetected c))" "closed_walk (g_rel g) c" "g_stuck g P"
  | (stuck) s P where "DependencyLevels fmt it g = Some (Inl (CycleDetectedWithStuckNodes s))"
      "findCycle it g = Some None" "g_stuck g P"
proof -
  have i: "deg_inv g {} (initDegrees it g)" by (rule initDegrees_inv [OF assms])
  have l: "level_inv g [] {}" by (simp add: level_inv_def)
  have c: "card (g_vertices g - {}) < Suc (card (dom (initDegrees it g)))" using i by (simp add: deg_inv_def)
  have "(\<exists>ls. DependencyLevels fmt it g = Some (Inr ls) \<and> level_inv g ls (g_vertices g)) \<or>
     (\<exists>deg P. DependencyLevels fmt it g = levelError fmt it g deg \<and> g_stuck g P)"
    using levels_loop_cases [OF assms i l c, of fmt] unfolding DependencyLevels_def Let_def by blast
  then consider ls where "DependencyLevels fmt it g = Some (Inr ls)" "level_inv g ls (g_vertices g)"
    | deg P where "DependencyLevels fmt it g = levelError fmt it g deg" "g_stuck g P" by blast
  then show thesis
  proof cases
    case 1
    then show thesis by (rule levels)
  next
    case 2
    with findCycle_correct [OF assms] show thesis
      by (elim disjE exE conjE) (auto simp: levelError_def intro: cycle stuck)
  qed
qed

text \<open>
  C40. On every graph built by the operations, and whatever the iteration order,
  \<^const>\<open>DependencyLevels\<close> returns, in one of three ways. It returns levels exactly when the edges are
  acyclic and start at nodes or targets: every vertex is in one level, every edge leads to a later
  one, and every vertex above level 0 has a predecessor in the level just below, so no grouping is
  shorter. Or it reports a cycle, which is a closed walk of the graph. Or it reports stuck nodes,
  and then some edge starts at a vertex that was never added as a node.
\<close>

theorem DependencyLevels_correct:
  assumes "g_wf g" "map_order it"
  shows "(\<exists>ls. DependencyLevels fmt it g = Some (Inr ls) \<and>
        acyclic (g_rel g) \<and> distinct (concat ls) \<and> set (concat ls) = g_vertices g \<and>
        (\<forall>a b. HasEdge g a b \<longrightarrow> 0 \<le> GetNodeLevel ls a \<and> GetNodeLevel ls a < GetNodeLevel ls b) \<and>
        (\<forall>b. 0 < GetNodeLevel ls b \<longrightarrow> (\<exists>a. HasEdge g a b \<and> GetNodeLevel ls a = GetNodeLevel ls b - 1))) \<or>
     (\<exists>c. DependencyLevels fmt it g = Some (Inl (CycleDetected c)) \<and> closed_walk (g_rel g) c) \<or>
     (\<exists>s a b. DependencyLevels fmt it g = Some (Inl (CycleDetectedWithStuckNodes s)) \<and>
        HasEdge g a b \<and> \<not> HasNode g a \<and> \<not> (acyclic (g_rel g) \<and> Domain (g_rel g) \<subseteq> g_vertices g))"
  using assms
proof (cases rule: DependencyLevels_cases [where fmt = fmt])
  case (levels ls)
  note lv = level_inv_GetNodeLevel [OF levels(2)]
  have "distinct (concat ls)" "set (concat ls) = g_vertices g" using levels(2) by (simp_all add: level_inv_def)
  moreover have "0 \<le> GetNodeLevel ls a \<and> GetNodeLevel ls a < GetNodeLevel ls b" if "HasEdge g a b" for a b
    using lv(3) [of a b] lv(1) [of a] that by (simp add: g_rel_def)
  ultimately show ?thesis
    using levels(1) level_inv_acyclic(1) [OF levels(2)] lv(4) by (simp add: g_rel_def)
next
  case (cycle c P)
  then show ?thesis by blast
next
  case (stuck s P)
  note st = stuck_cyclic [OF assms(1) stuck(3)]
  have "\<not> Domain (g_rel g) \<subseteq> g_nodes g"
    using findCycle_None [OF assms _ stuck(2)] st by (auto simp: g_vertices_eq)
  then obtain a b where "HasEdge g a b" "\<not> HasNode g a" by (auto simp: g_rel_def HasNode_def)
  with stuck(1) st show ?thesis by blast
qed

text \<open>A diamond: 1 before 2 and 3, both before 4.\<close>

definition diamond :: "(nat, unit) Graph" where
  "diamond =
     AddEdge 3 4 1 () (AddEdge 2 4 1 () (AddEdge 1 3 1 () (AddEdge 1 2 1 ()
       (fold AddNode [1, 2, 3, 4] graph_New))))"

lemma diamond_facts:
  "g_wf diamond" "g_rel diamond = {(1, 2), (1, 3), (2, 4), (3, 4)}" "g_nodes diamond = {1, 2, 3, 4}"
  by (auto simp: diamond_def AddEdge_wf AddNode_wf)

lemma acyclic_less: "E \<subseteq> {(x, y). x < y} \<Longrightarrow> acyclic (E :: ('a::order \<times> 'a) set)"
proof (rule acyclicI, intro allI notI)
  fix x
  assume E: "E \<subseteq> {(x, y). x < y}" and "(x, x) \<in> E\<^sup>+"
  have "x < y" if "(x, y) \<in> E\<^sup>+" for y
    using that by induction (use E in \<open>auto intro: less_trans\<close>)
  with \<open>(x, x) \<in> E\<^sup>+\<close> show False by blast
qed

theorem DependencyLevels_correct_witness:
  "g_wf diamond \<and> map_order (sorted_list_of_set :: nat set \<Rightarrow> nat list) \<and>
   (\<exists>ls. DependencyLevels nat_digits sorted_list_of_set diamond = Some (Inr ls) \<and>
      set (concat ls) = {1, 2, 3, 4} \<and> GetNodeLevel ls 1 < GetNodeLevel ls 2 \<and> GetNodeLevel ls 3 < GetNodeLevel ls 4)"
proof -
  have m: "map_order (sorted_list_of_set :: nat set \<Rightarrow> nat list)" by (rule map_order_sorted)
  have a: "acyclic (g_rel diamond)" by (rule acyclic_less) (auto simp: diamond_facts)
  have e: "HasEdge diamond x y \<longleftrightarrow> (x, y) \<in> {(1, 2), (1, 3), (2, 4), (3, 4)}" for x y
    using diamond_facts(2) by (auto simp: g_rel_def)
  have v: "g_vertices diamond = {1, 2, 3, 4}" by (auto simp: g_vertices_eq diamond_facts)
  have h: "HasEdge diamond x y \<Longrightarrow> HasNode diamond x" for x y by (auto simp: e HasNode_def diamond_facts(3))
  from DependencyLevels_correct [OF diamond_facts(1) m, of nat_digits] show ?thesis
    using a closed_walk_cyclic [of "g_rel diamond"] h v e m diamond_facts(1) by auto
qed

text \<open>For clients that add edges between nodes only: levels are returned exactly for acyclic edges.\<close>

lemma DependencyLevels_acyclic:
  assumes "g_wf g" "map_order it" "Domain (g_rel g) \<subseteq> g_nodes g"
  shows "(acyclic (g_rel g) \<and> (\<exists>ls. DependencyLevels fmt it g = Some (Inr ls) \<and> level_inv g ls (g_vertices g))) \<or>
     (\<not> acyclic (g_rel g) \<and> (\<exists>c. DependencyLevels fmt it g = Some (Inl (CycleDetected c)) \<and> closed_walk (g_rel g) c))"
  using assms(1,2)
proof (cases rule: DependencyLevels_cases [where fmt = fmt])
  case (levels ls)
  with level_inv_acyclic(1) [OF levels(2)] show ?thesis by blast
next
  case (cycle c P)
  with closed_walk_cyclic show ?thesis by blast
next
  case (stuck s P)
  have "acyclic (g_rel g)" by (rule findCycle_None [OF assms stuck(2)])
  moreover have "Domain (g_rel g) \<subseteq> g_vertices g" using assms(3) by (auto simp: g_vertices_eq)
  ultimately show ?thesis using stuck_cyclic [OF assms(1) stuck(3)] by blast
qed

text \<open>
  An edge whose source was never added as a node is reported as a cycle although there is none.
\<close>

lemma dangling_source_reported:
  assumes "map_order it"
  shows "\<exists>s. DependencyLevels fmt it (AddEdge (1::nat) 2 w () (AddNode 2 graph_New)) = Some (Inl (CycleDetectedWithStuckNodes s))"
proof -
  let ?g = "AddEdge (1::nat) 2 w () (AddNode 2 graph_New)"
  have wf: "g_wf ?g" by (simp add: AddEdge_wf AddNode_wf)
  have r: "g_rel ?g = {(1, 2)}" "g_vertices ?g = {2}" by (auto simp: g_vertices_eq)
  have a: "acyclic (g_rel ?g)" by (rule acyclic_less) (simp add: r)
  show ?thesis
    using wf assms
  proof (cases rule: DependencyLevels_cases [where fmt = fmt])
    case (levels ls)
    with level_inv_acyclic(2) [OF levels(2)] r show ?thesis by simp
  next
    case (cycle c P)
    with closed_walk_cyclic a show ?thesis by blast
  qed blast
qed

section \<open>Copies\<close>

lemma fold_cloneEdges:
  "fold (\<lambda>to m. case edges to of None \<Rightarrow> m | Some e \<Rightarrow> m(to \<mapsto> \<lparr>ed_To = ed_To e, ed_Data = ed_Data e, ed_Weight = ed_Weight e\<rparr>))
     xs m = (\<lambda>x. if x \<in> set xs \<and> edges x \<noteq> None then edges x else m x)"
  by (induction xs arbitrary: m) (auto simp: fun_eq_iff split: option.splits)

lemma cloneEdges_eq: "finite (dom edges) \<Longrightarrow> map_order it \<Longrightarrow> cloneEdges it edges = edges"
  by (auto simp: cloneEdges_def fold_cloneEdges map_order_set fun_eq_iff domIff)

lemma fold_AddNode: "fold AddNode xs g = g\<lparr>g_nodes := set xs \<union> g_nodes g\<rparr>"
  by (induction xs arbitrary: g) (simp_all add: AddNode_def)

text \<open>A clone has the same nodes and edges; the maps of the clone are new ones.\<close>

theorem Clone_eq:
  assumes "g_wf g" "map_order it"
  shows "Clone it g = g"
proof -
  let ?step = "\<lambda>from c. case g_edges g from of None \<Rightarrow> c
    | Some edges \<Rightarrow> c\<lparr>g_edges := (g_edges c)(from \<mapsto> cloneEdges it edges)\<rparr>"
  have f: "finite (g_nodes g)" "finite (dom (g_edges g))" using assms(1) by (simp_all add: g_wf_def)
  have ce: "g_edges g a = Some m \<Longrightarrow> cloneEdges it m = m" for a m
    using assms by (intro cloneEdges_eq) (auto simp: g_wf_def adj_wf_def)
  have st: "fold ?step xs c = c\<lparr>g_edges := (\<lambda>x. if x \<in> set xs \<and> g_edges g x \<noteq> None then g_edges g x else g_edges c x)\<rparr>" for xs c
    by (induction xs arbitrary: c) (auto simp: ce fun_eq_iff intro!: Graph.equality split: option.splits)
  have "g_nodes (Clone it g) = g_nodes g" "g_edges (Clone it g) = g_edges g"
    by (auto simp: Clone_def st fold_AddNode graph_New_def map_order_set [OF assms(2)] f fun_eq_iff domIff)
  then show ?thesis by (intro Graph.equality) simp_all
qed

end
