(* ===== verification/Sequencer.thy ===== *)
theory Sequencer
  imports Dep_Graph "HOL-Library.Multiset"
begin

text \<open>
  The service sequencer of the supervisor, \<^verbatim>\<open>src/system/supervisor/sequencer.go\<close>: one transition
  stops a batch of services, dependents first, and starts another, dependencies first.

  Starting is concurrent: \<^verbatim>\<open>processStartOperations\<close> launches a goroutine per service and then waits for
  results, for a change of a controller's state, or for the end of the context. The variables of the
  function are a record; the loop is a function of the list of things that happen, each with the
  set of controllers that may then complete in the background (\<^verbatim>\<open>startMayCompleteInBackground\<close>). What
  happens is arbitrary but for one thing: a result comes from a service that is in flight. The record keeps
  a trace of launches and results, which the code has as log lines.

  Stopping runs a level at a time: the services of a level are stopped in parallel and waited for, so
  a level is one step, and the order in which its errors arrive is an argument.
\<close>

section \<open>Operations\<close>

datatype opKind = opStart | opStop

record operation =
  op_id :: string
  op_dependencies :: "string list"
  op_blockers :: "string list"
  op_kind :: opKind
  op_optional :: bool

datatype seq_error =
    DependencyLevelsError string "string graph_error"
  | ServiceBlockedError string "string list"
  | ServiceStartError string string
  | ServiceStopError string string
  | MultiStartError int seq_error
  | MultiStopError int seq_error
  | StartSequenceError seq_error
  | StopSequenceError seq_error
  | ContextError string

definition mk_opMap :: "operation list \<Rightarrow> string \<rightharpoonup> operation" where
  "mk_opMap operations = fold (\<lambda>op m. m(op_id op \<mapsto> op)) operations Map.empty"

section \<open>The start plan\<close>

text \<open>The maps \<^verbatim>\<open>dependencies\<close> and \<^verbatim>\<open>dependents\<close>; dependencies outside the batch are skipped.\<close>

type_synonym depMaps = "(string \<rightharpoonup> string set) \<times> (string \<rightharpoonup> string list)"

definition addDependency :: "(string \<rightharpoonup> operation) \<Rightarrow> string \<Rightarrow> string \<Rightarrow> depMaps \<Rightarrow> depMaps" where
  "addDependency opMap sid dep = (\<lambda>(dependencies, dependents).
     if opMap dep = None then (dependencies, dependents)
     else (dependencies(sid \<mapsto> insert dep (case dependencies sid of None \<Rightarrow> {} | Some s \<Rightarrow> s)),
           dependents(dep \<mapsto> (case dependents dep of None \<Rightarrow> [] | Some l \<Rightarrow> l) @ [sid])))"

definition addOperation :: "(string \<rightharpoonup> operation) \<Rightarrow> operation \<Rightarrow> depMaps \<Rightarrow> depMaps" where
  "addOperation opMap op = (\<lambda>(dependencies, dependents).
     let dependencies = (if dependencies (op_id op) = None then dependencies(op_id op \<mapsto> {}) else dependencies)
     in fold (addDependency opMap (op_id op)) (op_dependencies op) (dependencies, dependents))"

record startPlan =
  sp_operations :: "operation list"
  sp_opMap :: "string \<rightharpoonup> operation"
  sp_dependencies :: "string \<rightharpoonup> string set"
  sp_dependents :: "string \<rightharpoonup> string list"

definition planStart :: "operation list \<Rightarrow> startPlan" where
  "planStart operations =
     (let opMap = mk_opMap operations;
          (dependencies, dependents) = fold (addOperation opMap) operations (Map.empty, Map.empty)
      in \<lparr>sp_operations = operations, sp_opMap = opMap, sp_dependencies = dependencies, sp_dependents = dependents\<rparr>)"

definition depsOf :: "startPlan \<Rightarrow> string \<Rightarrow> string set" where
  "depsOf plan sid = (case sp_dependencies plan sid of None \<Rightarrow> {} | Some s \<Rightarrow> s)"

definition dependentsOf :: "(string \<rightharpoonup> string list) \<Rightarrow> string \<Rightarrow> string list" where
  "dependentsOf dependents sid = (case dependents sid of None \<Rightarrow> [] | Some l \<Rightarrow> l)"

definition startGraph :: "(string set \<Rightarrow> string list) \<Rightarrow> startPlan \<Rightarrow> (string, unit) Graph" where
  "startGraph it plan =
     (let ids = it (dom (sp_dependencies plan));
          g = fold AddNode ids graph_New
      in fold (\<lambda>sid g. fold (\<lambda>dep g. AddEdge dep sid 1 () g) (it (depsOf plan sid)) g) ids g)"

text \<open>The outer option is the fuel of \<^const>\<open>DependencyLevels\<close>, the inner one the error.\<close>

definition detectStartCycle :: "(string set \<Rightarrow> string list) \<Rightarrow> startPlan \<Rightarrow> seq_error option option" where
  "detectStartCycle it plan =
     (case DependencyLevels (\<lambda>sid. sid) it (startGraph it plan) of
        None \<Rightarrow> None
      | Some (Inl e) \<Rightarrow> Some (Some (DependencyLevelsError ''start'' e))
      | Some (Inr _) \<Rightarrow> Some None)"

section \<open>Starting\<close>

fun blockSubtree :: "nat \<Rightarrow> (string \<rightharpoonup> string list) \<Rightarrow> string \<Rightarrow> string set \<Rightarrow> string set option"
  and blockSubtree_loop :: "nat \<Rightarrow> (string \<rightharpoonup> string list) \<Rightarrow> string list \<Rightarrow> string set \<Rightarrow> string set option" where
  "blockSubtree 0 dependents root blocked = None"
| "blockSubtree (Suc fuel) dependents root blocked =
     blockSubtree_loop fuel dependents (dependentsOf dependents root) blocked"
| "blockSubtree_loop fuel dependents [] blocked = Some blocked"
| "blockSubtree_loop fuel dependents (dependent # rest) blocked =
     (if dependent \<in> blocked then blockSubtree_loop fuel dependents rest blocked
      else case blockSubtree fuel dependents dependent (insert dependent blocked) of
             None \<Rightarrow> None
           | Some blocked \<Rightarrow> blockSubtree_loop fuel dependents rest blocked)"

text \<open>A service is blocked at most once, so the depth is at most the size of the batch.\<close>

definition blockDependentSubtree :: "startPlan \<Rightarrow> string \<Rightarrow> string set \<Rightarrow> string set option" where
  "blockDependentSubtree plan root blocked =
     blockSubtree (Suc (length (sp_operations plan))) (sp_dependents plan) root blocked"

datatype startTrace = Launch operation | StartOk string | StartFailed string string

record startState =
  ss_started :: "string set"
  ss_blocked :: "string set"
  ss_inFlight :: "string set"
  ss_scheduled :: "string set"
  ss_errors :: "seq_error list"
  ss_trace :: "startTrace list"

definition initState :: startState where
  "initState = \<lparr>ss_started = {}, ss_blocked = {}, ss_inFlight = {}, ss_scheduled = {}, ss_errors = [], ss_trace = []\<rparr>"

primrec blockBlocked :: "startPlan \<Rightarrow> operation list \<Rightarrow> startState \<Rightarrow> startState option" where
  "blockBlocked plan [] s = Some s"
| "blockBlocked plan (op # ops) s =
     (if op_blockers op = [] then blockBlocked plan ops s
      else case blockDependentSubtree plan (op_id op) (insert (op_id op) (ss_blocked s)) of
             None \<Rightarrow> None
           | Some blocked \<Rightarrow>
               blockBlocked plan ops
                 (s\<lparr>ss_blocked := blocked,
                    ss_errors := ss_errors s @
                      (if \<not> op_optional op then [ServiceBlockedError (op_id op) (op_blockers op)] else [])\<rparr>))"

definition dependenciesSatisfied :: "string set \<Rightarrow> string set \<Rightarrow> bool" where
  "dependenciesSatisfied deps started \<longleftrightarrow> (\<forall>dep \<in> deps. dep \<in> started)"

definition scheduleOp :: "startPlan \<Rightarrow> operation \<Rightarrow> startState \<Rightarrow> startState" where
  "scheduleOp plan op s =
     (if op_id op \<in> ss_started s then s
      else if op_id op \<in> ss_blocked s then s
      else if op_id op \<in> ss_scheduled s then s
      else if \<not> dependenciesSatisfied (depsOf plan (op_id op)) (ss_started s) then s
      else s\<lparr>ss_scheduled := insert (op_id op) (ss_scheduled s),
             ss_inFlight := insert (op_id op) (ss_inFlight s),
             ss_trace := ss_trace s @ [Launch op]\<rparr>)"

definition scheduleReady :: "startPlan \<Rightarrow> startState \<Rightarrow> startState" where
  "scheduleReady plan s = fold (scheduleOp plan) (sp_operations plan) s"

definition optionalOp :: "startPlan \<Rightarrow> string \<Rightarrow> bool" where
  "optionalOp plan sid = (case sp_opMap plan sid of None \<Rightarrow> False | Some op \<Rightarrow> op_optional op)"

definition handleResult :: "startPlan \<Rightarrow> string \<Rightarrow> string option \<Rightarrow> startState \<Rightarrow> startState option" where
  "handleResult plan sid err s =
     (let s = s\<lparr>ss_inFlight := ss_inFlight s - {sid}\<rparr>
      in case err of
           Some e \<Rightarrow>
             let s = (if \<not> optionalOp plan sid then s\<lparr>ss_errors := ss_errors s @ [ServiceStartError sid e]\<rparr> else s)
             in (case blockDependentSubtree plan sid (ss_blocked s) of
                   None \<Rightarrow> None
                 | Some blocked \<Rightarrow> Some (s\<lparr>ss_blocked := blocked, ss_trace := ss_trace s @ [StartFailed sid e]\<rparr>))
         | None \<Rightarrow> Some (s\<lparr>ss_started := insert sid (ss_started s), ss_trace := ss_trace s @ [StartOk sid]\<rparr>))"

definition hasPendingDependents :: "startPlan \<Rightarrow> startState \<Rightarrow> bool" where
  "hasPendingDependents plan s \<longleftrightarrow>
     (\<exists>sid \<in> dom (sp_dependencies plan).
        sid \<notin> ss_started s \<and> sid \<notin> ss_blocked s \<and> sid \<notin> ss_scheduled s \<and>
        (\<exists>dep \<in> depsOf plan sid. dep \<in> ss_inFlight s))"

definition allInFlightCanCompleteInBackground :: "(string \<Rightarrow> bool) \<Rightarrow> startPlan \<Rightarrow> startState \<Rightarrow> bool" where
  "allInFlightCanCompleteInBackground background plan s \<longleftrightarrow>
     (\<forall>sid \<in> ss_inFlight s. case sp_opMap plan sid of
        None \<Rightarrow> False
      | Some op \<Rightarrow> op_optional op \<and> background sid)"

text \<open>The two places where the loop is left.\<close>

definition loopDone :: "(string \<Rightarrow> bool) \<Rightarrow> startPlan \<Rightarrow> startState \<Rightarrow> bool" where
  "loopDone background plan s \<longleftrightarrow>
     ss_inFlight s = {} \<or>
     (\<not> hasPendingDependents plan s \<and> allInFlightCanCompleteInBackground background plan s)"

datatype startEvent = StartResult string "string option" | StateChanged | ContextDone string

datatype startOutcome = Waiting startState | Returned "seq_error option" startState

definition startError :: "seq_error list \<Rightarrow> seq_error option" where
  "startError errs = (case errs of
      [] \<Rightarrow> None
    | [e] \<Rightarrow> Some e
    | e # _ \<Rightarrow> Some (MultiStartError (int (length errs)) e))"

fun start_loop ::
  "startPlan \<Rightarrow> (string \<Rightarrow> bool) \<Rightarrow> (startEvent \<times> (string \<Rightarrow> bool)) list \<Rightarrow> startState \<Rightarrow> startOutcome option" where
  "start_loop plan background events s =
     (let s = scheduleReady plan s
      in if loopDone background plan s then Some (Returned (startError (ss_errors s)) s)
         else case events of
             [] \<Rightarrow> Some (Waiting s)
           | (StartResult sid err, background) # events \<Rightarrow>
               (case handleResult plan sid err s of
                  None \<Rightarrow> None
                | Some s \<Rightarrow> start_loop plan background events s)
           | (StateChanged, background) # events \<Rightarrow> start_loop plan background events s
           | (ContextDone e, _) # _ \<Rightarrow> Some (Returned (Some (ContextError e)) s))"

definition processStartOperations ::
  "(string set \<Rightarrow> string list) \<Rightarrow> operation list \<Rightarrow> (string \<Rightarrow> bool) \<Rightarrow> (startEvent \<times> (string \<Rightarrow> bool)) list
     \<Rightarrow> startOutcome option" where
  "processStartOperations it operations background events =
     (let plan = planStart operations
      in case detectStartCycle it plan of
           None \<Rightarrow> None
         | Some (Some e) \<Rightarrow> Some (Returned (Some e) initState)
         | Some None \<Rightarrow>
             (case blockBlocked plan operations initState of
                None \<Rightarrow> None
              | Some s \<Rightarrow> start_loop plan background events s))"

declare start_loop.simps [simp del]

section \<open>Stopping\<close>

text \<open>
  \<open>ctx\<close> gives the answers of the successive calls of \<^verbatim>\<open>ctx.Err()\<close>, \<open>stop\<close> the error of stopping a service,
  \<open>ord\<close> the order in which the errors of a level arrive in its channel.
\<close>

definition stopGraph :: "operation list \<Rightarrow> (string, unit) Graph" where
  "stopGraph operations =
     (let g = fold (\<lambda>op. AddNode (op_id op)) operations graph_New; opMap = mk_opMap operations
      in fold (\<lambda>op g. fold (\<lambda>depID g. if opMap depID \<noteq> None then AddEdge (op_id op) depID 1 () g else g)
                 (op_dependencies op) g) operations g)"

definition stopError :: "seq_error list \<Rightarrow> seq_error option" where
  "stopError errs = (case errs of
      [] \<Rightarrow> None
    | [e] \<Rightarrow> Some e
    | e # _ \<Rightarrow> Some (MultiStopError (int (length errs)) e))"

definition stopErrors :: "(operation \<Rightarrow> string option) \<Rightarrow> operation list \<Rightarrow> seq_error list" where
  "stopErrors stop ops = List.map_filter (\<lambda>op. map_option (ServiceStopError (op_id op)) (stop op)) ops"

fun stop_loop ::
  "(nat \<Rightarrow> string option) \<Rightarrow> (operation \<Rightarrow> string option) \<Rightarrow> (seq_error list \<Rightarrow> seq_error list) \<Rightarrow> (string \<rightharpoonup> operation)
     \<Rightarrow> nat \<Rightarrow> string list list \<Rightarrow> seq_error list \<Rightarrow> operation list list \<Rightarrow> seq_error option \<times> operation list list" where
  "stop_loop ctx stop ord opMap i [] allErrors stopped = (stopError allErrors, stopped)"
| "stop_loop ctx stop ord opMap i (levelNodes # levels) allErrors stopped =
     (case ctx (2 * i + 1) of
        Some e \<Rightarrow> (Some (ContextError e), stopped)
      | None \<Rightarrow>
          let ops = List.map_filter opMap levelNodes;
              stopped = stopped @ [ops];
              allErrors = allErrors @ ord (stopErrors stop ops)
          in case ctx (2 * i + 2) of
               Some e \<Rightarrow> (Some (ContextError e), stopped)
             | None \<Rightarrow> stop_loop ctx stop ord opMap (Suc i) levels allErrors stopped)"

text \<open>The result is the error and the groups of services that were stopped, in order.\<close>

definition processStopOperations ::
  "(string set \<Rightarrow> string list) \<Rightarrow> (nat \<Rightarrow> string option) \<Rightarrow> (operation \<Rightarrow> string option)
     \<Rightarrow> (seq_error list \<Rightarrow> seq_error list) \<Rightarrow> operation list \<Rightarrow> (seq_error option \<times> operation list list) option" where
  "processStopOperations it ctx stop ord operations =
     (case ctx 0 of
        Some e \<Rightarrow> Some (Some (ContextError e), [])
      | None \<Rightarrow>
          (case DependencyLevels (\<lambda>sid. sid) it (stopGraph operations) of
             None \<Rightarrow> None
           | Some (Inl e) \<Rightarrow> Some (Some (DependencyLevelsError ''stop'' e), [])
           | Some (Inr levels) \<Rightarrow> Some (stop_loop ctx stop ord (mk_opMap operations) 0 levels [] [])))"

section \<open>Transitions\<close>

definition transition ::
  "(string set \<Rightarrow> string list) \<Rightarrow> (nat \<Rightarrow> string option) \<Rightarrow> (operation \<Rightarrow> string option)
     \<Rightarrow> (seq_error list \<Rightarrow> seq_error list) \<Rightarrow> (string \<Rightarrow> bool) \<Rightarrow> (startEvent \<times> (string \<Rightarrow> bool)) list
     \<Rightarrow> operation list \<Rightarrow> (operation list list \<times> startOutcome) option" where
  "transition it ctx stop ord background events operations =
     (let startOps = filter (\<lambda>op. op_kind op = opStart) operations;
          stopOps = filter (\<lambda>op. op_kind op = opStop) operations;
          starts = (\<lambda>stopped.
            if startOps = [] then Some (stopped, Returned None initState)
            else case processStartOperations it startOps background events of
                None \<Rightarrow> None
              | Some (Waiting s) \<Rightarrow> Some (stopped, Waiting s)
              | Some (Returned (Some e) s) \<Rightarrow> Some (stopped, Returned (Some (StartSequenceError e)) s)
              | Some (Returned None s) \<Rightarrow> Some (stopped, Returned None s))
      in if stopOps = [] then starts []
         else case processStopOperations it ctx stop ord stopOps of
             None \<Rightarrow> None
           | Some (Some e, stopped) \<Rightarrow> Some (stopped, Returned (Some (StopSequenceError e)) initState)
           | Some (None, stopped) \<Rightarrow> starts stopped)"

section \<open>The plan as a relation\<close>

definition opIds :: "operation list \<Rightarrow> string set" where
  "opIds ops = op_id ` set ops"

definition depRel :: "operation list \<Rightarrow> (string \<times> string) set" where
  "depRel ops = {(d, x). d \<in> opIds ops \<and> (\<exists>op \<in> set ops. op_id op = x \<and> d \<in> set (op_dependencies op))}"

lemma fold_opMap_None:
  "fold (\<lambda>op m. m(op_id op \<mapsto> op)) ops m x = None \<longleftrightarrow> x \<notin> opIds ops \<and> m x = None"
  by (induction ops arbitrary: m) (auto simp: opIds_def)

lemma fold_opMap_Some:
  "fold (\<lambda>op m. m(op_id op \<mapsto> op)) ops m x = Some op \<Longrightarrow> (op \<in> set ops \<and> op_id op = x) \<or> m x = Some op"
proof (induction ops arbitrary: m)
  case (Cons a ops)
  from Cons.IH [of "m(op_id a \<mapsto> a)"] Cons.prems show ?case by (auto split: if_splits)
qed simp

lemma mk_opMap_None: "mk_opMap ops x = None \<longleftrightarrow> x \<notin> opIds ops"
  by (simp add: mk_opMap_def fold_opMap_None)

lemma mk_opMap_Some: "mk_opMap ops x = Some op \<Longrightarrow> op \<in> set ops \<and> op_id op = x"
  using fold_opMap_Some [of ops Map.empty x op] by (simp add: mk_opMap_def)

lemma mk_opMap_distinct:
  assumes "distinct (map op_id ops)" "op \<in> set ops"
  shows "mk_opMap ops (op_id op) = Some op"
proof -
  have "mk_opMap ops (op_id op) \<noteq> None" using assms(2) by (simp add: mk_opMap_None opIds_def)
  then obtain op' where o: "mk_opMap ops (op_id op) = Some op'" by blast
  with mk_opMap_Some [OF o] assms show ?thesis by (auto dest: inj_onD simp: distinct_map)
qed

text \<open>What the two maps hold after some of the operations.\<close>

definition maps_ok :: "(string \<Rightarrow> bool) \<Rightarrow> (string \<times> string) set \<Rightarrow> depMaps \<Rightarrow> bool" where
  "maps_ok known R m \<longleftrightarrow>
     fst m = (\<lambda>x. if known x then Some (R `` {x}) else None) \<and> (\<forall>x d. (x, d) \<in> R \<longrightarrow> known x) \<and>
     (\<forall>d. set (dependentsOf (snd m) d) = R\<inverse> `` {d})"

lemma addDependency_ok:
  assumes "maps_ok known R m" "known x"
  shows "maps_ok known (if opMap d = None then R else insert (x, d) R) (addDependency opMap x d m)"
proof (cases "opMap d")
  case (Some op)
  have m: "fst m = (\<lambda>y. if known y then Some (R `` {y}) else None)" "\<And>y e. (y, e) \<in> R \<Longrightarrow> known y"
    "\<And>e. set (dependentsOf (snd m) e) = R\<inverse> `` {e}"
    using assms(1) unfolding maps_ok_def by blast+
  have a: "addDependency opMap x d m =
      ((fst m)(x \<mapsto> insert d (R `` {x})), (snd m)(d \<mapsto> dependentsOf (snd m) d @ [x]))"
    using Some m(1) assms(2) by (simp add: addDependency_def split_def dependentsOf_def)
  have i: "insert (x, d) R `` {y} = (if y = x then insert d (R `` {x}) else R `` {y})" for y by auto
  have "(fst m)(x \<mapsto> insert d (R `` {x})) = (\<lambda>y. if known y then Some (insert (x, d) R `` {y}) else None)"
    unfolding i m(1) using assms(2) by auto
  moreover have "set (dependentsOf ((snd m)(d \<mapsto> dependentsOf (snd m) d @ [x])) e) = (insert (x, d) R)\<inverse> `` {e}" for e
    using m(3) [of e] by (cases "e = d") (auto simp: dependentsOf_def)
  ultimately show ?thesis
    unfolding a using Some assms(2) m(2) by (auto simp: maps_ok_def)
qed (use assms in \<open>simp add: addDependency_def split_def\<close>)

lemma fold_addDependency_ok:
  assumes "maps_ok known R m" "known x"
  shows "maps_ok known (R \<union> {(x, d) | d. d \<in> set ds \<and> opMap d \<noteq> None}) (fold (addDependency opMap x) ds m)"
  using assms(1)
proof (induction ds arbitrary: R m)
  case (Cons d ds)
  let ?R = "if opMap d = None then R else insert (x, d) R"
  have "?R \<union> {(x, e) | e. e \<in> set ds \<and> opMap e \<noteq> None} = R \<union> {(x, e) | e. e \<in> set (d # ds) \<and> opMap e \<noteq> None}"
    by auto
  with Cons.IH [OF addDependency_ok [OF Cons.prems assms(2), of opMap d]] show ?case by simp
qed simp

lemma addOperation_ok:
  assumes "maps_ok known R m"
  shows "maps_ok (\<lambda>x. known x \<or> x = op_id op) (R \<union> {(op_id op, d) | d. d \<in> set (op_dependencies op) \<and> opMap d \<noteq> None})
     (addOperation opMap op m)"
proof -
  let ?m = "(if fst m (op_id op) = None then (fst m)(op_id op \<mapsto> {}) else fst m, snd m)"
  have "maps_ok (\<lambda>x. known x \<or> x = op_id op) R ?m"
    using assms unfolding maps_ok_def by (auto simp: fun_eq_iff)
  from fold_addDependency_ok [OF this, of "op_id op"] show ?thesis
    by (simp add: addOperation_def split_def)
qed

lemma fold_addOperation_ok:
  assumes "maps_ok known R m"
  shows "maps_ok (\<lambda>x. known x \<or> x \<in> opIds ops)
     (R \<union> {(op_id op, d) | op d. op \<in> set ops \<and> d \<in> set (op_dependencies op) \<and> opMap d \<noteq> None})
     (fold (addOperation opMap) ops m)"
  using assms
proof (induction ops arbitrary: known R m)
  case Nil
  then show ?case by (simp add: opIds_def)
next
  case (Cons op ops)
  have k: "(\<lambda>x. (known x \<or> x = op_id op) \<or> x \<in> opIds ops) = (\<lambda>x. known x \<or> x \<in> opIds (op # ops))"
    by (auto simp: opIds_def)
  have r: "R \<union> {(op_id op, d) | d. d \<in> set (op_dependencies op) \<and> opMap d \<noteq> None} \<union>
      {(op_id o', d) | o' d. o' \<in> set ops \<and> d \<in> set (op_dependencies o') \<and> opMap d \<noteq> None} =
      R \<union> {(op_id o', d) | o' d. o' \<in> set (op # ops) \<and> d \<in> set (op_dependencies o') \<and> opMap d \<noteq> None}"
    by auto
  from Cons.IH [OF addOperation_ok [OF Cons.prems, of op opMap]] show ?case
    unfolding k r fold_Cons comp_def .
qed

lemma planStart_facts:
  shows "sp_operations (planStart ops) = ops" "sp_opMap (planStart ops) = mk_opMap ops"
    and "dom (sp_dependencies (planStart ops)) = opIds ops"
    and "depsOf (planStart ops) x = {d. (d, x) \<in> depRel ops}"
    and "set (dependentsOf (sp_dependents (planStart ops)) d) = depRel ops `` {d}"
proof -
  let ?m = "fold (addOperation (mk_opMap ops)) ops (Map.empty, Map.empty)"
  have e: "maps_ok (\<lambda>_. False) {} (Map.empty, Map.empty)" by (simp add: maps_ok_def dependentsOf_def)
  have R: "{(op_id op, d) | op d. op \<in> set ops \<and> d \<in> set (op_dependencies op) \<and> mk_opMap ops d \<noteq> None} = (depRel ops)\<inverse>"
    by (auto simp: depRel_def mk_opMap_None)
  have ok: "maps_ok (\<lambda>x. x \<in> opIds ops) ((depRel ops)\<inverse>) ?m"
    using fold_addOperation_ok [OF e, of ops "mk_opMap ops"] unfolding R by simp
  have p: "planStart ops = \<lparr>sp_operations = ops, sp_opMap = mk_opMap ops, sp_dependencies = fst ?m, sp_dependents = snd ?m\<rparr>"
    by (simp add: planStart_def split_def Let_def)
  show "sp_operations (planStart ops) = ops" "sp_opMap (planStart ops) = mk_opMap ops" by (simp_all add: p)
  have m: "fst ?m = (\<lambda>y. if y \<in> opIds ops then Some ((depRel ops)\<inverse> `` {y}) else None)"
    using ok by (simp add: maps_ok_def)
  show "dom (sp_dependencies (planStart ops)) = opIds ops" by (auto simp: p m split: if_splits)
  show "depsOf (planStart ops) x = {d. (d, x) \<in> depRel ops}"
    by (auto simp: depsOf_def p m depRel_def opIds_def split: if_splits)
  show "set (dependentsOf (sp_dependents (planStart ops)) d) = depRel ops `` {d}"
    using ok by (simp add: p maps_ok_def)
qed

lemma finite_opIds [simp]: "finite (opIds ops)"
  by (simp add: opIds_def)

lemma depRel_sub: "depRel ops \<subseteq> opIds ops \<times> opIds ops"
  by (auto simp: depRel_def opIds_def)

lemma finite_deps: "finite {d. (d, x) \<in> depRel ops}"
  using depRel_sub by (intro finite_subset [OF _ finite_opIds]) auto

lemma fold_AddEdge:
  "g_wf g \<Longrightarrow> g_wf (fold (\<lambda>(a, b) g. AddEdge a b 1 () g) es g) \<and>
     g_nodes (fold (\<lambda>(a, b) g. AddEdge a b 1 () g) es g) = g_nodes g \<and>
     g_rel (fold (\<lambda>(a, b) g. AddEdge a b 1 () g) es g) = set es \<union> g_rel g"
proof (induction es arbitrary: g)
  case (Cons e es)
  from Cons.IH [OF AddEdge_wf [OF Cons.prems]] show ?case by (auto simp: split_def)
qed simp

lemma nodes_graph: "g_wf (fold AddNode xs graph_New)" "g_nodes (fold AddNode xs graph_New) = set xs"
  "g_rel (fold AddNode xs graph_New) = {}"
  by (auto simp: fold_AddNode g_wf_def graph_New_def g_rel_iff)

lemma startGraph_facts:
  assumes "map_order it"
  shows "g_wf (startGraph it (planStart ops))" "g_nodes (startGraph it (planStart ops)) = opIds ops"
    "g_rel (startGraph it (planStart ops)) = depRel ops"
proof -
  let ?ids = "it (opIds ops)"
  define es where "es = concat (map (\<lambda>x. map (\<lambda>d. (d, x)) (it {d. (d, x) \<in> depRel ops})) ?ids)"
  have f: "fold (\<lambda>x g. fold (\<lambda>d g. AddEdge d x 1 () g) (ds x) g) xs g =
      fold (\<lambda>(a, b) g. AddEdge a b 1 () g) (concat (map (\<lambda>x. map (\<lambda>d. (d, x)) (ds x)) xs)) g" for ds xs g
    by (induction xs arbitrary: g) (simp_all add: fold_map comp_def)
  have g: "startGraph it (planStart ops) = fold (\<lambda>(a, b) g. AddEdge a b 1 () g) es (fold AddNode ?ids graph_New)"
    unfolding startGraph_def es_def Let_def planStart_facts f ..
  have "set es = depRel ops"
    using depRel_sub [of ops] by (auto simp: es_def map_order_set [OF assms] finite_deps)
  with fold_AddEdge [OF nodes_graph(1), of es] show "g_wf (startGraph it (planStart ops))"
    "g_nodes (startGraph it (planStart ops)) = opIds ops" "g_rel (startGraph it (planStart ops)) = depRel ops"
    unfolding g by (simp_all add: nodes_graph map_order_set [OF assms])
qed

lemma stopGraph_facts: "g_wf (stopGraph ops)" "g_nodes (stopGraph ops) = opIds ops" "g_rel (stopGraph ops) = (depRel ops)\<inverse>"
proof -
  define es where "es = concat (map (\<lambda>op. map (\<lambda>d. (op_id op, d)) (filter (\<lambda>d. mk_opMap ops d \<noteq> None) (op_dependencies op))) ops)"
  have i: "fold (\<lambda>d g. if P d then AddEdge x d 1 () g else g) ds g =
      fold (\<lambda>(a, b) g. AddEdge a b 1 () g) (map (\<lambda>d. (x, d)) (filter P ds)) g" for x P ds g
    by (induction ds arbitrary: g) simp_all
  have f: "fold (\<lambda>op g. fold (\<lambda>d g. if P d then AddEdge (op_id op) d 1 () g else g) (op_dependencies op) g) xs g =
      fold (\<lambda>(a, b) g. AddEdge a b 1 () g) (concat (map (\<lambda>op. map (\<lambda>d. (op_id op, d)) (filter P (op_dependencies op))) xs)) g" for P xs g
    unfolding i by (induction xs arbitrary: g) simp_all
  have n: "fold (\<lambda>op. AddNode (op_id op)) ops graph_New = fold AddNode (map op_id ops) graph_New" by (simp add: fold_map comp_def)
  have g: "stopGraph ops = fold (\<lambda>(a, b) g. AddEdge a b 1 () g) es (fold AddNode (map op_id ops) graph_New)"
    unfolding stopGraph_def es_def Let_def n f ..
  have "set es = (depRel ops)\<inverse>" by (auto simp: es_def depRel_def mk_opMap_None)
  with fold_AddEdge [OF nodes_graph(1), of es] show "g_wf (stopGraph ops)" "g_nodes (stopGraph ops) = opIds ops"
    "g_rel (stopGraph ops) = (depRel ops)\<inverse>"
    unfolding g by (simp_all add: nodes_graph opIds_def)
qed

lemma detectStartCycle_cases:
  assumes "map_order it"
  shows "(acyclic (depRel ops) \<and> detectStartCycle it (planStart ops) = Some None) \<or>
    (\<not> acyclic (depRel ops) \<and> (\<exists>c. closed_walk (depRel ops) c \<and>
       detectStartCycle it (planStart ops) = Some (Some (DependencyLevelsError ''start'' (CycleDetected c)))))"
proof -
  note g = startGraph_facts [OF assms, of ops]
  have "Domain (g_rel (startGraph it (planStart ops))) \<subseteq> g_nodes (startGraph it (planStart ops))"
    unfolding g using depRel_sub by auto
  from DependencyLevels_acyclic [OF g(1) assms this, of "\<lambda>x. x"] show ?thesis
    unfolding g by (auto simp: detectStartCycle_def)
qed

section \<open>Blocking a subtree\<close>

text \<open>
  \<open>T\<close> are the services whose dependents are still being visited; all others that are blocked have
  their dependents blocked as well.
\<close>

definition blocks :: "(string \<times> string) set \<Rightarrow> string \<Rightarrow> string set \<Rightarrow> string set \<Rightarrow> string set \<Rightarrow> bool" where
  "blocks D x S T S' \<longleftrightarrow> S \<subseteq> S' \<and> S' \<subseteq> S \<union> D\<^sup>+ `` {x} \<and> D `` (S' - T) \<subseteq> S'"

lemma blockSubtree_loop_ok:
  assumes D: "D \<subseteq> U \<times> U" "finite U"
    and rec: "\<And>x S T. S \<subseteq> U \<Longrightarrow> card (U - S) < k \<Longrightarrow> D `` (S - T) \<subseteq> S \<Longrightarrow>
      \<exists>S'. blockSubtree k m x S = Some S' \<and> blocks D x S (T - {x}) S' \<and> D `` {x} \<subseteq> S'"
    and "set xs \<subseteq> D `` {r}" "S \<subseteq> U" "card (U - S) \<le> k" "D `` (S - T) \<subseteq> S"
  shows "\<exists>S'. blockSubtree_loop k m xs S = Some S' \<and> blocks D r S T S' \<and> set xs \<subseteq> S'"
  using assms(4-7)
proof (induction xs arbitrary: S)
  case Nil
  then show ?case by (simp add: blocks_def)
next
  case (Cons x xs)
  have xs: "set xs \<subseteq> D `` {r}" and x: "(r, x) \<in> D" "x \<in> U" using Cons.prems(1) D(1) by auto
  show ?case
  proof (cases "x \<in> S")
    case True
    with Cons.IH [OF xs Cons.prems(2-4)] show ?thesis by (auto simp: blocks_def)
  next
    case False
    have U: "insert x S \<subseteq> U" using x Cons.prems(2) by simp
    have e: "U - S = insert x (U - insert x S)" using x False by auto
    have "card (U - insert x S) < k"
      using Cons.prems(3) D(2) card_insert_disjoint [of "U - insert x S" x] unfolding e by simp
    moreover have "D `` (insert x S - insert x T) \<subseteq> insert x S" using Cons.prems(4) by blast
    ultimately obtain S1 where S1: "blockSubtree k m x (insert x S) = Some S1" "blocks D x (insert x S) (insert x T - {x}) S1"
      using rec [OF U] by blast
    then have b: "insert x S \<subseteq> S1" "S1 \<subseteq> insert x S \<union> D\<^sup>+ `` {x}" "D `` (S1 - T) \<subseteq> S1"
      unfolding blocks_def by blast+
    have "D\<^sup>+ `` {x} \<subseteq> U" using trancl_subset_Sigma [OF D(1)] by auto
    then have "S1 \<subseteq> U" using b(2) U by blast
    moreover have "card (U - S1) \<le> k"
      using b(1) D(2) by (intro order_trans [OF card_mono Cons.prems(3)]) auto
    ultimately obtain S' where S': "blockSubtree_loop k m xs S1 = Some S'" "blocks D r S1 T S'" "set xs \<subseteq> S'"
      using Cons.IH [OF xs _ _ b(3)] by blast
    have t: "D\<^sup>+ `` {x} \<subseteq> D\<^sup>+ `` {r}" "x \<in> D\<^sup>+ `` {r}" using x(1) by (auto intro: trancl_into_trancl2)
    have "blocks D r S T S'" "set (x # xs) \<subseteq> S'"
      using S'(2,3) b(1,2) t unfolding blocks_def list.set by blast+
    with S1(1) S'(1) False show ?thesis by simp
  qed
qed

lemma blockSubtree_ok:
  assumes D: "\<And>d. set (dependentsOf m d) = D `` {d}" "D \<subseteq> U \<times> U" "finite U"
    and "S \<subseteq> U" "card (U - S) < k" "D `` (S - T) \<subseteq> S"
  shows "\<exists>S'. blockSubtree k m x S = Some S' \<and> blocks D x S (T - {x}) S' \<and> D `` {x} \<subseteq> S'"
  using assms(4-6)
proof (induction k arbitrary: x S T)
  case (Suc k)
  have c: "card (U - S) \<le> k" and d: "set (dependentsOf m x) \<subseteq> D `` {x}" using Suc.prems(2) D(1) by simp_all
  obtain S' where S': "blockSubtree_loop k m (dependentsOf m x) S = Some S'" "blocks D x S T S'" "D `` {x} \<subseteq> S'"
    using blockSubtree_loop_ok [OF D(2,3) Suc.IH d Suc.prems(1) c Suc.prems(3)] unfolding D(1) by blast
  then have "blocks D x S (T - {x}) S'" unfolding blocks_def by blast
  with S' show ?case by auto
qed simp

text \<open>From a set that is closed but for the root, exactly the services downstream of the root are added.\<close>

lemma blockDependentSubtree_eq:
  assumes "S \<subseteq> opIds ops" "depRel ops `` (S - {x}) \<subseteq> S"
  shows "blockDependentSubtree (planStart ops) x S = Some (S \<union> (depRel ops)\<^sup>+ `` {x})"
proof -
  let ?D = "depRel ops"
  have "card (opIds ops - S) \<le> card (opIds ops)" by (intro card_mono) auto
  also have "\<dots> \<le> length ops" unfolding opIds_def using card_image_le [of "set ops" op_id] card_length [of ops] by simp
  finally have c: "card (opIds ops - S) < Suc (length ops)" by simp
  obtain S' where S': "blockDependentSubtree (planStart ops) x S = Some S'" "blocks ?D x S ({x} - {x}) S'" "?D `` {x} \<subseteq> S'"
    using blockSubtree_ok [OF planStart_facts(5) depRel_sub finite_opIds assms(1) c assms(2)]
    unfolding blockDependentSubtree_def planStart_facts by blast
  have cl: "?D `` S' \<subseteq> S'" using S'(2) by (simp add: blocks_def)
  have "y \<in> S'" if "(x, y) \<in> ?D\<^sup>+" for y
    using that by induction (use S'(3) cl in blast)+
  then have "S' = S \<union> ?D\<^sup>+ `` {x}" using S'(2) unfolding blocks_def by blast
  with S'(1) show ?thesis by simp
qed

section \<open>The state of a start\<close>

definition ss_failed :: "startState \<Rightarrow> string set" where
  "ss_failed s = {x. \<exists>e. StartFailed x e \<in> set (ss_trace s)}"

definition launched :: "startTrace list \<Rightarrow> string set" where
  "launched tr = {op_id op | op. Launch op \<in> set tr}"

definition blockRoots :: "operation list \<Rightarrow> string set" where
  "blockRoots ops = op_id ` {op \<in> set ops. op_blockers op \<noteq> []}"

definition blockErrors :: "operation list \<Rightarrow> seq_error list" where
  "blockErrors ops = map (\<lambda>op. ServiceBlockedError (op_id op) (op_blockers op))
     (filter (\<lambda>op. op_blockers op \<noteq> [] \<and> \<not> op_optional op) ops)"

definition failErrors :: "startPlan \<Rightarrow> startTrace list \<Rightarrow> seq_error list" where
  "failErrors plan tr = List.map_filter (\<lambda>t. case t of
      StartFailed x e \<Rightarrow> if optionalOp plan x then None else Some (ServiceStartError x e)
    | _ \<Rightarrow> None) tr"

text \<open>Every launch comes once, and after the successful results of all its dependencies in the batch.\<close>

fun trace_ok :: "(string \<times> string) set \<Rightarrow> startTrace list \<Rightarrow> startTrace list \<Rightarrow> bool" where
  "trace_ok D past [] = True"
| "trace_ok D past (Launch op # tr) \<longleftrightarrow>
     op_id op \<notin> launched past \<and> (\<forall>d. (d, op_id op) \<in> D \<longrightarrow> StartOk d \<in> set past) \<and> trace_ok D (past @ [Launch op]) tr"
| "trace_ok D past (t # tr) = trace_ok D (past @ [t]) tr"

definition start_inv :: "operation list \<Rightarrow> startState \<Rightarrow> bool" where
  "start_inv ops s \<longleftrightarrow>
     ss_scheduled s = ss_started s \<union> ss_inFlight s \<union> ss_failed s \<and>
     ss_inFlight s \<inter> (ss_started s \<union> ss_failed s) = {} \<and> ss_started s \<inter> ss_failed s = {} \<and>
     ss_scheduled s \<subseteq> opIds ops \<and>
     (\<forall>x \<in> ss_scheduled s. \<forall>d. (d, x) \<in> depRel ops \<longrightarrow> d \<in> ss_started s) \<and>
     ss_blocked s = (depRel ops)\<^sup>* `` blockRoots ops \<union> (depRel ops)\<^sup>+ `` ss_failed s \<and>
     ss_blocked s \<inter> ss_scheduled s = {} \<and>
     ss_started s = {x. StartOk x \<in> set (ss_trace s)} \<and>
     ss_scheduled s = launched (ss_trace s) \<and>
     trace_ok (depRel ops) [] (ss_trace s) \<and>
     ss_errors s = blockErrors ops @ failErrors (planStart ops) (ss_trace s)"

lemma trace_ok_snoc:
  "trace_ok D past (tr @ [t]) \<longleftrightarrow> trace_ok D past tr \<and>
     (\<forall>op. t = Launch op \<longrightarrow> op_id op \<notin> launched (past @ tr) \<and> (\<forall>d. (d, op_id op) \<in> D \<longrightarrow> StartOk d \<in> set (past @ tr)))"
  by (induction D past tr rule: trace_ok.induct) (cases t; auto)+

lemma launched_snoc [simp]:
  "launched (tr @ [t]) = launched tr \<union> (case t of Launch op \<Rightarrow> {op_id op} | _ \<Rightarrow> {})"
  by (auto simp: launched_def split: startTrace.splits)

lemma failErrors_snoc [simp]:
  "failErrors plan (tr @ [t]) = failErrors plan tr @ (case t of
      StartFailed x e \<Rightarrow> if optionalOp plan x then [] else [ServiceStartError x e] | _ \<Rightarrow> [])"
  by (auto simp: failErrors_def map_filter_def split: startTrace.splits)

lemma blockBlocked_ok:
  assumes "set xs \<subseteq> set ops" "ss_blocked s = (depRel ops)\<^sup>* `` R" "R \<subseteq> opIds ops"
  shows "blockBlocked (planStart ops) xs s =
     Some (s\<lparr>ss_blocked := (depRel ops)\<^sup>* `` (R \<union> blockRoots xs), ss_errors := ss_errors s @ blockErrors xs\<rparr>)"
  using assms
proof (induction xs arbitrary: s R)
  case Nil
  then show ?case by (simp add: blockRoots_def blockErrors_def)
next
  case (Cons op xs)
  let ?D = "depRel ops"
  show ?case
  proof (cases "op_blockers op = []")
    case True
    then have "blockRoots (op # xs) = blockRoots xs" "blockErrors (op # xs) = blockErrors xs"
      by (auto simp: blockRoots_def blockErrors_def)
    with True Cons show ?thesis by simp
  next
    case False
    have id: "op_id op \<in> opIds ops" using Cons.prems(1) by (simp add: opIds_def)
    have "?D\<^sup>* `` R \<subseteq> opIds ops"
      using Cons.prems(3) rtrancl_subset_rtrancl depRel_sub [of ops] by (auto elim: rtranclE)
    with id have s: "insert (op_id op) (?D\<^sup>* `` R) \<subseteq> opIds ops" by simp
    have "?D `` (insert (op_id op) (?D\<^sup>* `` R) - {op_id op}) \<subseteq> insert (op_id op) (?D\<^sup>* `` R)"
      by (auto intro: rtrancl_into_rtrancl)
    note b = blockDependentSubtree_eq [OF s this]
    have e: "insert (op_id op) (?D\<^sup>* `` R) \<union> ?D\<^sup>+ `` {op_id op} = ?D\<^sup>* `` insert (op_id op) R"
      by (auto simp: rtrancl_eq_or_trancl)
    have r: "insert (op_id op) R \<union> blockRoots xs = R \<union> blockRoots (op # xs)"
      using False by (auto simp: blockRoots_def)
    have er: "blockErrors (op # xs) = (if \<not> op_optional op then [ServiceBlockedError (op_id op) (op_blockers op)] else []) @ blockErrors xs"
      using False by (simp add: blockErrors_def)
    let ?s = "s\<lparr>ss_blocked := ?D\<^sup>* `` insert (op_id op) R, ss_errors := ss_errors s @
       (if \<not> op_optional op then [ServiceBlockedError (op_id op) (op_blockers op)] else [])\<rparr>"
    have "blockBlocked (planStart ops) (op # xs) s = blockBlocked (planStart ops) xs ?s"
      using False b e Cons.prems(2) by simp
    also have "\<dots> = Some (?s\<lparr>ss_blocked := ?D\<^sup>* `` (insert (op_id op) R \<union> blockRoots xs), ss_errors := ss_errors ?s @ blockErrors xs\<rparr>)"
      using Cons.prems id by (intro Cons.IH) auto
    finally show ?thesis unfolding r er by simp
  qed
qed

lemma start_init:
  "\<exists>s. blockBlocked (planStart ops) ops initState = Some s \<and> start_inv ops s"
proof -
  have "blockBlocked (planStart ops) ops initState =
      Some (initState\<lparr>ss_blocked := (depRel ops)\<^sup>* `` blockRoots ops, ss_errors := blockErrors ops\<rparr>)"
    using blockBlocked_ok [of ops ops initState "{}"] by (simp add: initState_def)
  then show ?thesis
    by (simp add: start_inv_def initState_def ss_failed_def launched_def failErrors_def map_filter_def)
qed

lemma start_invD:
  assumes "start_inv ops s"
  shows "ss_scheduled s = ss_started s \<union> ss_inFlight s \<union> ss_failed s"
    and "ss_inFlight s \<inter> (ss_started s \<union> ss_failed s) = {}" and "ss_started s \<inter> ss_failed s = {}"
    and "ss_scheduled s \<subseteq> opIds ops"
    and "\<And>x d. x \<in> ss_scheduled s \<Longrightarrow> (d, x) \<in> depRel ops \<Longrightarrow> d \<in> ss_started s"
    and "ss_blocked s = (depRel ops)\<^sup>* `` blockRoots ops \<union> (depRel ops)\<^sup>+ `` ss_failed s"
    and "ss_blocked s \<inter> ss_scheduled s = {}" and "ss_started s = {x. StartOk x \<in> set (ss_trace s)}"
    and "ss_scheduled s = launched (ss_trace s)" and "trace_ok (depRel ops) [] (ss_trace s)"
    and "ss_errors s = blockErrors ops @ failErrors (planStart ops) (ss_trace s)"
  using assms unfolding start_inv_def by blast+

lemma scheduleOp_inv:
  assumes "start_inv ops s" "op \<in> set ops"
  shows "start_inv ops (scheduleOp (planStart ops) op s)"
proof (cases "op_id op \<in> ss_started s \<or> op_id op \<in> ss_blocked s \<or> op_id op \<in> ss_scheduled s \<or>
    \<not> dependenciesSatisfied (depsOf (planStart ops) (op_id op)) (ss_started s)")
  case True
  with assms(1) show ?thesis by (auto simp: scheduleOp_def)
next
  case False
  note inv = start_invD [OF assms(1)]
  define s' where "s' = s\<lparr>ss_scheduled := insert (op_id op) (ss_scheduled s),
     ss_inFlight := insert (op_id op) (ss_inFlight s), ss_trace := ss_trace s @ [Launch op]\<rparr>"
  have s': "scheduleOp (planStart ops) op s = s'" using False by (simp add: scheduleOp_def s'_def)
  have d: "(d, op_id op) \<in> depRel ops \<Longrightarrow> d \<in> ss_started s" for d
    using False by (simp add: dependenciesSatisfied_def planStart_facts)
  have n: "op_id op \<notin> ss_scheduled s" "op_id op \<notin> ss_blocked s" using False by simp_all
  have f: "ss_failed s' = ss_failed s" "ss_started s' = ss_started s" "ss_blocked s' = ss_blocked s"
    by (simp_all add: s'_def ss_failed_def)
  have t: "trace_ok (depRel ops) [] (ss_trace s')"
    using inv(8-10) n d by (auto simp: s'_def trace_ok_snoc)
  have "op_id op \<in> opIds ops" using assms(2) by (simp add: opIds_def)
  moreover have "ss_scheduled s' = insert (op_id op) (ss_scheduled s)" "ss_inFlight s' = insert (op_id op) (ss_inFlight s)"
    "ss_started s' = {x. StartOk x \<in> set (ss_trace s')}" "ss_scheduled s' = launched (ss_trace s')"
    "ss_errors s' = blockErrors ops @ failErrors (planStart ops) (ss_trace s')"
    using inv(8,9,11) by (simp_all add: s'_def)
  ultimately show ?thesis
    unfolding s' start_inv_def f using inv t n d by (intro conjI) auto
qed

lemma scheduleReady_inv: "start_inv ops s \<Longrightarrow> start_inv ops (scheduleReady (planStart ops) s)"
proof -
  assume "start_inv ops s"
  moreover have "set xs \<subseteq> set ops \<Longrightarrow> start_inv ops s \<Longrightarrow> start_inv ops (fold (scheduleOp (planStart ops)) xs s)" for xs s
    by (induction xs arbitrary: s) (simp_all add: scheduleOp_inv)
  ultimately show ?thesis by (simp add: scheduleReady_def planStart_facts)
qed

lemma scheduleOp_frame:
  "ss_started (scheduleOp plan op s) = ss_started s" "ss_blocked (scheduleOp plan op s) = ss_blocked s"
  "ss_scheduled s \<subseteq> ss_scheduled (scheduleOp plan op s)"
  by (auto simp: scheduleOp_def)

lemma fold_scheduleOp_frame:
  "ss_started (fold (scheduleOp plan) xs s) = ss_started s" "ss_blocked (fold (scheduleOp plan) xs s) = ss_blocked s"
  "ss_scheduled s \<subseteq> ss_scheduled (fold (scheduleOp plan) xs s)"
proof (induction xs arbitrary: s)
  case (Cons x xs)
  { case 1 then show ?case using Cons by (simp add: scheduleOp_frame) }
  { case 2 then show ?case using Cons by (simp add: scheduleOp_frame) }
  { case 3 then show ?case using Cons(3) [of "scheduleOp plan x s"] scheduleOp_frame(3) [of s plan x] by simp }
qed simp_all

text \<open>After a scheduling pass, a service that is neither launched nor blocked waits for a dependency.\<close>

lemma scheduleReady_saturates:
  assumes "op \<in> set (sp_operations plan)" "s' = scheduleReady plan s"
  shows "op_id op \<in> ss_started s' \<union> ss_blocked s' \<union> ss_scheduled s' \<or> (\<exists>d \<in> depsOf plan (op_id op). d \<notin> ss_started s')"
proof -
  obtain xs ys where sp: "sp_operations plan = xs @ op # ys" using assms(1) by (meson split_list)
  define s1 where "s1 = fold (scheduleOp plan) xs s"
  have s': "s' = fold (scheduleOp plan) ys (scheduleOp plan op s1)" using assms(2) by (simp add: scheduleReady_def sp s1_def)
  have "op_id op \<in> ss_started s1 \<union> ss_blocked s1 \<union> ss_scheduled (scheduleOp plan op s1) \<or> (\<exists>d \<in> depsOf plan (op_id op). d \<notin> ss_started s1)"
    by (auto simp: scheduleOp_def dependenciesSatisfied_def)
  then show ?thesis
    unfolding s' fold_scheduleOp_frame scheduleOp_frame using fold_scheduleOp_frame(3) by blast
qed

lemma handleResult_ok:
  assumes "start_inv ops s" "x \<in> ss_inFlight s"
  shows "\<exists>s'. handleResult (planStart ops) x None s = Some s' \<and> start_inv ops s'"
proof -
  note inv = start_invD [OF assms(1)]
  define s' where "s' = s\<lparr>ss_inFlight := ss_inFlight s - {x}, ss_started := insert x (ss_started s), ss_trace := ss_trace s @ [StartOk x]\<rparr>"
  have f: "ss_failed s' = ss_failed s" "ss_scheduled s' = ss_scheduled s" "ss_blocked s' = ss_blocked s" "ss_errors s' = ss_errors s"
    "ss_inFlight s' = ss_inFlight s - {x}" "ss_started s' = insert x (ss_started s)" "ss_trace s' = ss_trace s @ [StartOk x]"
    by (simp_all add: s'_def ss_failed_def)
  have "trace_ok (depRel ops) [] (ss_trace s')" using inv(10) by (simp add: f trace_ok_snoc)
  moreover have "ss_scheduled s = launched (ss_trace s')" using inv(9) by (simp add: f)
  moreover have "ss_errors s = blockErrors ops @ failErrors (planStart ops) (ss_trace s')" using inv(11) by (simp add: f)
  moreover have "insert x (ss_started s) = {y. StartOk y \<in> set (ss_trace s')}" using inv(8) by (auto simp: f)
  ultimately have "start_inv ops s'"
    unfolding start_inv_def f(1-6) using inv(1-7) assms(2) by (intro conjI) blast+
  then show ?thesis by (simp add: handleResult_def s'_def)
qed

lemma downstream_unscheduled:
  assumes "start_inv ops s" "x \<in> ss_inFlight s" "(x, y) \<in> (depRel ops)\<^sup>+"
  shows "y \<notin> ss_scheduled s"
  using assms(3)
proof induction
  case (base y)
  with start_invD(2,5) [OF assms(1)] assms(2) show ?case by blast
next
  case (step y z)
  with start_invD(1,5) [OF assms(1)] show ?case by blast
qed

lemma handleResult_fail:
  assumes "start_inv ops s" "x \<in> ss_inFlight s"
  shows "\<exists>s'. handleResult (planStart ops) x (Some e) s = Some s' \<and> start_inv ops s'"
proof -
  note inv = start_invD [OF assms(1)]
  let ?D = "depRel ops"
  note ns = downstream_unscheduled [OF assms]
  have D: "?D\<^sup>* `` A \<subseteq> opIds ops" "?D\<^sup>+ `` A \<subseteq> opIds ops" if "A \<subseteq> opIds ops" for A
    using that depRel_sub [of ops] by (auto elim: rtranclE tranclE)
  have r: "blockRoots ops \<subseteq> opIds ops" by (auto simp: blockRoots_def opIds_def)
  have "ss_failed s \<subseteq> opIds ops" using inv(1,4) by blast
  then have "ss_blocked s \<subseteq> opIds ops" unfolding inv(6) by (intro Un_least D r)
  moreover have "?D `` (ss_blocked s - {x}) \<subseteq> ss_blocked s"
    unfolding inv(6) by (auto intro: rtrancl_into_rtrancl trancl_into_trancl)
  ultimately have b: "blockDependentSubtree (planStart ops) x (ss_blocked s) = Some (ss_blocked s \<union> ?D\<^sup>+ `` {x})"
    by (rule blockDependentSubtree_eq)
  define s' where "s' = s\<lparr>ss_inFlight := ss_inFlight s - {x}, ss_blocked := ss_blocked s \<union> ?D\<^sup>+ `` {x},
     ss_errors := ss_errors s @ (if \<not> optionalOp (planStart ops) x then [ServiceStartError x e] else []),
     ss_trace := ss_trace s @ [StartFailed x e]\<rparr>"
  have f: "ss_failed s' = insert x (ss_failed s)" "ss_scheduled s' = ss_scheduled s" "ss_blocked s' = ss_blocked s \<union> ?D\<^sup>+ `` {x}"
    "ss_inFlight s' = ss_inFlight s - {x}" "ss_started s' = ss_started s" "ss_trace s' = ss_trace s @ [StartFailed x e]"
    by (auto simp: s'_def ss_failed_def)
  have "trace_ok ?D [] (ss_trace s')" using inv(10) by (simp add: f trace_ok_snoc)
  moreover have "ss_scheduled s = launched (ss_trace s')" using inv(9) by (simp add: f)
  moreover have "ss_errors s' = blockErrors ops @ failErrors (planStart ops) (ss_trace s')" using inv(11) by (simp add: s'_def)
  moreover have "ss_started s = {y. StartOk y \<in> set (ss_trace s')}" using inv(8) by (auto simp: f)
  moreover have "ss_blocked s \<union> ?D\<^sup>+ `` {x} = ?D\<^sup>* `` blockRoots ops \<union> ?D\<^sup>+ `` insert x (ss_failed s)"
    unfolding inv(6) by (auto simp only: Image_iff)
  moreover have "(ss_blocked s \<union> ?D\<^sup>+ `` {x}) \<inter> ss_scheduled s = {}" using inv(7) ns by auto
  moreover have "ss_scheduled s = ss_started s \<union> (ss_inFlight s - {x}) \<union> insert x (ss_failed s)"
    "(ss_inFlight s - {x}) \<inter> (ss_started s \<union> insert x (ss_failed s)) = {}" "ss_started s \<inter> insert x (ss_failed s) = {}"
    using inv(1-3) assms(2) by auto
  ultimately have "start_inv ops s'"
    unfolding start_inv_def f(1-5) using inv(4,5) by metis
  moreover have "handleResult (planStart ops) x (Some e) s = Some s'"
    using b by (simp add: handleResult_def s'_def)
  ultimately show ?thesis by blast
qed

lemma handleResult_inv:
  assumes "start_inv ops s" "x \<in> ss_inFlight s"
  obtains s' where "handleResult (planStart ops) x err s = Some s'" "start_inv ops s'"
  using handleResult_ok [OF assms] handleResult_fail [OF assms] by (cases err) blast+

section \<open>The start loop\<close>

text \<open>A service is left waiting only behind one that is in flight, when there is no cycle.\<close>

lemma start_settled:
  assumes "start_inv ops s" "acyclic (depRel ops)" "s = scheduleReady (planStart ops) s0"
    and "ss_inFlight s = {} \<or> \<not> hasPendingDependents (planStart ops) s"
  shows "opIds ops = ss_scheduled s \<union> ss_blocked s"
proof (rule ccontr)
  note inv = start_invD [OF assms(1)]
  let ?D = "depRel ops" and ?W = "opIds ops - (ss_scheduled s \<union> ss_blocked s)"
  have r: "blockRoots ops \<subseteq> opIds ops" by (auto simp: blockRoots_def opIds_def)
  have "ss_blocked s \<subseteq> opIds ops"
    unfolding inv(6) using r inv(1,4) depRel_sub [of ops] by (auto elim: rtranclE tranclE)
  moreover assume "opIds ops \<noteq> ss_scheduled s \<union> ss_blocked s"
  ultimately obtain w0 where w0: "w0 \<in> ?W" using inv(4) by blast
  have "wf ?D" using assms(2) finite_subset [OF depRel_sub] by (intro finite_acyclic_wf) auto
  then obtain w where w: "w \<in> ?W" "\<And>y. (y, w) \<in> ?D \<Longrightarrow> y \<notin> ?W" using wfE_min [OF _ w0] by metis
  then obtain op where op: "op \<in> set ops" "op_id op = w" by (auto simp: opIds_def)
  have ws: "w \<notin> ss_started s" using w(1) inv(1) by auto
  from scheduleReady_saturates [of op "planStart ops" s s0] op w(1) ws assms(3)
  obtain d where d: "(d, w) \<in> ?D" "d \<notin> ss_started s" by (auto simp: planStart_facts)
  have "d \<in> opIds ops" using d(1) depRel_sub by blast
  with w(2) [OF d(1)] have "d \<in> ss_inFlight s \<or> d \<in> ss_failed s \<or> d \<in> ss_blocked s" using d(2) inv(1) by blast
  moreover have "d \<notin> ss_failed s \<and> d \<notin> ss_blocked s"
    using w(1) d(1) unfolding inv(6) by (auto intro: rtrancl_into_rtrancl trancl_into_trancl)
  ultimately have "d \<in> ss_inFlight s" by blast
  moreover have "hasPendingDependents (planStart ops) s" if "d \<in> ss_inFlight s"
    unfolding hasPendingDependents_def planStart_facts using that d w(1) ws by blast
  ultimately show False using assms(4) by blast
qed

text \<open>Results come from services in flight.\<close>

fun valid_events :: "startPlan \<Rightarrow> (string \<Rightarrow> bool) \<Rightarrow> (startEvent \<times> (string \<Rightarrow> bool)) list \<Rightarrow> startState \<Rightarrow> bool" where
  "valid_events plan background [] s = True"
| "valid_events plan background ((ev, background') # events) s =
     (let s = scheduleReady plan s
      in loopDone background plan s \<or>
         (case ev of
            StartResult x err \<Rightarrow>
              x \<in> ss_inFlight s \<and>
              (case handleResult plan x err s of None \<Rightarrow> True | Some s \<Rightarrow> valid_events plan background' events s)
          | StateChanged \<Rightarrow> valid_events plan background' events s
          | ContextDone _ \<Rightarrow> True))"

definition out_ok :: "operation list \<Rightarrow> startOutcome \<Rightarrow> bool" where
  "out_ok ops out \<longleftrightarrow> (case out of
      Waiting s \<Rightarrow> start_inv ops s \<and> ss_inFlight s \<noteq> {}
    | Returned r s \<Rightarrow> start_inv ops s \<and> ((\<exists>e. r = Some (ContextError e)) \<or>
        r = startError (ss_errors s) \<and>
        (\<exists>s0 background. s = scheduleReady (planStart ops) s0 \<and> loopDone background (planStart ops) s)))"

lemma start_loop_ok:
  "start_inv ops s \<Longrightarrow> valid_events (planStart ops) background events s \<Longrightarrow>
     \<exists>out. start_loop (planStart ops) background events s = Some out \<and> out_ok ops out"
proof (induction events arbitrary: background s)
  case Nil
  have i: "start_inv ops (scheduleReady (planStart ops) s)" by (rule scheduleReady_inv [OF Nil.prems(1)])
  show ?case
  proof (cases "loopDone background (planStart ops) (scheduleReady (planStart ops) s)")
    case True
    with i show ?thesis by (auto simp: start_loop.simps [of _ background] out_ok_def Let_def)
  next
    case False
    then have "ss_inFlight (scheduleReady (planStart ops) s) \<noteq> {}" by (simp add: loopDone_def)
    with False i show ?thesis by (simp add: start_loop.simps [of _ background] out_ok_def Let_def)
  qed
next
  case (Cons e events)
  obtain ev background' where e: "e = (ev, background')" by (cases e)
  define s1 where "s1 = scheduleReady (planStart ops) s"
  have i: "start_inv ops s1" unfolding s1_def by (rule scheduleReady_inv [OF Cons.prems(1)])
  note step = start_loop.simps [of "planStart ops" background "e # events" s, folded s1_def, unfolded Let_def e]
  show ?case
  proof (cases "loopDone background (planStart ops) s1")
    case True
    with i show ?thesis unfolding e step by (auto simp: out_ok_def s1_def)
  next
    case nd: False
    note v = Cons.prems(2) [unfolded e valid_events.simps Let_def, folded s1_def]
    show ?thesis
    proof (cases ev)
      case (StartResult x err)
      with v nd have x: "x \<in> ss_inFlight s1" by simp
      obtain s2 where s2: "handleResult (planStart ops) x err s1 = Some s2" "start_inv ops s2"
        by (rule handleResult_inv [OF i x])
      with v nd StartResult Cons.IH [OF s2(2), of background'] show ?thesis unfolding e step by simp
    next
      case StateChanged
      with v nd Cons.IH [OF i, of background'] show ?thesis unfolding e step by simp
    next
      case (ContextDone m)
      with nd i show ?thesis unfolding e step by (simp add: out_ok_def)
    qed
  qed
qed

text \<open>The condition on a whole run: nothing to answer for a batch with a cycle.\<close>

definition valid_start :: "operation list \<Rightarrow> (string \<Rightarrow> bool) \<Rightarrow> (startEvent \<times> (string \<Rightarrow> bool)) list \<Rightarrow> bool" where
  "valid_start ops background events \<longleftrightarrow>
     (case blockBlocked (planStart ops) ops initState of
        None \<Rightarrow> True
      | Some s \<Rightarrow> valid_events (planStart ops) background events s)"

lemma processStart_ok:
  assumes "map_order it" "acyclic (depRel ops)" "valid_start ops background events"
  shows "\<exists>out. processStartOperations it ops background events = Some out \<and> out_ok ops out"
proof -
  have d: "detectStartCycle it (planStart ops) = Some None" using detectStartCycle_cases [OF assms(1), of ops] assms(2) by blast
  obtain s where s: "blockBlocked (planStart ops) ops initState = Some s" "start_inv ops s" using start_init by blast
  then have "valid_events (planStart ops) background events s" using assms(3) by (simp add: valid_start_def)
  with start_loop_ok [OF s(2)] show ?thesis by (simp add: processStartOperations_def Let_def d s(1))
qed

definition out_state :: "startOutcome \<Rightarrow> startState" where
  "out_state out = (case out of Waiting s \<Rightarrow> s | Returned _ s \<Rightarrow> s)"

lemma out_ok_inv: "out_ok ops out \<Longrightarrow> start_inv ops (out_state out)"
  by (auto simp: out_ok_def out_state_def split: startOutcome.splits)

lemma trace_ok_split:
  "trace_ok D past (xs @ Launch op # ys) \<Longrightarrow>
     op_id op \<notin> launched (past @ xs) \<and> (\<forall>d. (d, op_id op) \<in> D \<longrightarrow> StartOk d \<in> set (past @ xs))"
  by (induction D past xs rule: trace_ok.induct) auto

lemma processStart_cyclic:
  assumes "map_order it" "\<not> acyclic (depRel ops)"
  shows "\<exists>c. closed_walk (depRel ops) c \<and> processStartOperations it ops background events =
     Some (Returned (Some (DependencyLevelsError ''start'' (CycleDetected c))) initState)"
  using detectStartCycle_cases [OF assms(1), of ops] assms(2)
  by (auto simp: processStartOperations_def Let_def)

text \<open>
  C6. Whatever results arrive in whatever order, a service is launched at most once, only after
  every dependency of it in the batch has reported a successful start, and never when it or a service it
  depends on, directly or not, has a blocker or has failed.
\<close>

theorem starts_in_order:
  assumes "map_order it" "valid_start ops background events"
    and "processStartOperations it ops background events = Some out"
    and "ss_trace (out_state out) = xs @ Launch op # ys"
  shows "op_id op \<notin> launched xs \<and>
     (\<forall>d. (d, op_id op) \<in> depRel ops \<longrightarrow> StartOk d \<in> set xs) \<and>
     op_id op \<notin> (depRel ops)\<^sup>* `` blockRoots ops \<union> (depRel ops)\<^sup>+ `` ss_failed (out_state out)"
proof -
  have "acyclic (depRel ops)"
  proof (rule ccontr)
    assume "\<not> acyclic (depRel ops)"
    from processStart_cyclic [OF assms(1) this, of background events] assms(3)
    have "ss_trace (out_state out) = []" by (auto simp: out_state_def initState_def)
    with assms(4) show False by simp
  qed
  with processStart_ok [OF assms(1) _ assms(2)] assms(3) have "start_inv ops (out_state out)"
    by (auto intro: out_ok_inv)
  note inv = start_invD [OF this]
  have "op_id op \<notin> launched xs" "\<forall>d. (d, op_id op) \<in> depRel ops \<longrightarrow> StartOk d \<in> set xs"
    using trace_ok_split [of _ "[]"] inv(10) unfolding assms(4) by auto
  moreover have "op_id op \<in> ss_scheduled (out_state out)" unfolding inv(9) assms(4) by (auto simp: launched_def)
  then have "op_id op \<notin> ss_blocked (out_state out)" using inv(7) by blast
  ultimately show ?thesis unfolding inv(6) by blast
qed

text \<open>A service that needs a database, which names a dependency outside the batch.\<close>

definition exApi :: operation where
  "exApi = \<lparr>op_id = ''api'', op_dependencies = [''db''], op_blockers = [], op_kind = opStart, op_optional = False\<rparr>"

definition exDb :: operation where
  "exDb = \<lparr>op_id = ''db'', op_dependencies = [''disk''], op_blockers = [], op_kind = opStart, op_optional = False\<rparr>"

definition exampleOps :: "operation list" where
  "exampleOps = [exApi, exDb]"

definition exampleEvents :: "(startEvent \<times> (string \<Rightarrow> bool)) list" where
  "exampleEvents = [(StartResult ''db'' None, \<lambda>_. False), (StartResult ''api'' None, \<lambda>_. False)]"

lemma example_ops:
  "depRel exampleOps = {(''db'', ''api'')}" "opIds exampleOps = {''api'', ''db''}" "blockRoots exampleOps = {}"
  "fold f exampleOps s = f exDb (f exApi s)" "op_id exApi = ''api''" "op_id exDb = ''db''"
  by (auto simp: depRel_def opIds_def blockRoots_def exampleOps_def exApi_def exDb_def)

lemma example_acyclic: "acyclic (depRel exampleOps)"
  unfolding example_ops acyclic_def by (auto elim: tranclE)

lemma example_init: "blockBlocked (planStart exampleOps) exampleOps initState = Some initState"
  by (simp add: exampleOps_def exApi_def exDb_def)

lemma example_ready:
  "dependenciesSatisfied (depsOf (planStart exampleOps) ''db'') S"
  "dependenciesSatisfied (depsOf (planStart exampleOps) ''api'') S \<longleftrightarrow> ''db'' \<in> S"
  by (auto simp: planStart_facts example_ops dependenciesSatisfied_def)

lemma example_run:
  "valid_events (planStart exampleOps) (\<lambda>_. False) exampleEvents initState"
  "start_loop (planStart exampleOps) (\<lambda>_. False) exampleEvents initState = Some (Returned None
     \<lparr>ss_started = {''api'', ''db''}, ss_blocked = {}, ss_inFlight = {}, ss_scheduled = {''api'', ''db''}, ss_errors = [],
      ss_trace = [Launch exDb, StartOk ''db'', Launch exApi, StartOk ''api'']\<rparr>)"
proof -
  let ?p = "planStart exampleOps"
  have bg: "\<not> loopDone (\<lambda>_. False) ?p s" if "ss_inFlight s = {x}" for s x
    using that by (simp add: loopDone_def allInFlightCanCompleteInBackground_def split: option.splits)
  have d: "loopDone (\<lambda>_. False) ?p s" if "ss_inFlight s = {}" for s using that by (simp add: loopDone_def)
  note ev = scheduleReady_def scheduleOp_def planStart_facts(1) example_ops(4-6) example_ready initState_def
  let ?s1 = "\<lparr>ss_started = {}, ss_blocked = {}, ss_inFlight = {''db''}, ss_scheduled = {''db''}, ss_errors = [],
    ss_trace = [Launch exDb]\<rparr>"
  let ?s2 = "\<lparr>ss_started = {''db''}, ss_blocked = {}, ss_inFlight = {}, ss_scheduled = {''db''}, ss_errors = [],
    ss_trace = [Launch exDb, StartOk ''db'']\<rparr>"
  let ?s3 = "\<lparr>ss_started = {''db''}, ss_blocked = {}, ss_inFlight = {''api''}, ss_scheduled = {''api'', ''db''}, ss_errors = [],
    ss_trace = [Launch exDb, StartOk ''db'', Launch exApi]\<rparr>"
  let ?s4 = "\<lparr>ss_started = {''api'', ''db''}, ss_blocked = {}, ss_inFlight = {}, ss_scheduled = {''api'', ''db''}, ss_errors = [],
    ss_trace = [Launch exDb, StartOk ''db'', Launch exApi, StartOk ''api'']\<rparr>"
  have r: "scheduleReady ?p initState = ?s1" "scheduleReady ?p ?s2 = ?s3" "scheduleReady ?p ?s4 = ?s4"
    by (simp_all add: ev)
  have h: "handleResult ?p ''db'' None ?s1 = Some ?s2" "handleResult ?p ''api'' None ?s3 = Some ?s4"
    by (simp_all add: handleResult_def)
  show "valid_events ?p (\<lambda>_. False) exampleEvents initState"
    unfolding exampleEvents_def valid_events.simps r h Let_def startEvent.simps option.simps by simp
  have "start_loop ?p (\<lambda>_. False) exampleEvents initState = start_loop ?p (\<lambda>_. False) (tl exampleEvents) ?s2"
    using bg [of ?s1 "''db''"]
    by (subst start_loop.simps) (simp add: r h exampleEvents_def del: start_loop.simps)
  also have "\<dots> = start_loop ?p (\<lambda>_. False) [] ?s4"
    using bg [of ?s3 "''api''"]
    by (subst start_loop.simps) (simp add: r h exampleEvents_def del: start_loop.simps)
  also have "\<dots> = Some (Returned None ?s4)"
    by (subst start_loop.simps) (simp add: r d startError_def)
  finally show "start_loop ?p (\<lambda>_. False) exampleEvents initState = Some (Returned None ?s4)" .
qed

abbreviation str_order :: "string set \<Rightarrow> string list" where
  "str_order \<equiv> sorted_list_of_set"

lemma example_start:
  "valid_start exampleOps (\<lambda>_. False) exampleEvents"
  "processStartOperations str_order exampleOps (\<lambda>_. False) exampleEvents = Some (Returned None
     \<lparr>ss_started = {''api'', ''db''}, ss_blocked = {}, ss_inFlight = {}, ss_scheduled = {''api'', ''db''}, ss_errors = [],
      ss_trace = [Launch exDb, StartOk ''db'', Launch exApi, StartOk ''api'']\<rparr>)"
proof -
  have "detectStartCycle str_order (planStart exampleOps) = Some None"
    using detectStartCycle_cases [OF map_order_sorted, of exampleOps] example_acyclic by blast
  with example_run show "valid_start exampleOps (\<lambda>_. False) exampleEvents"
    "processStartOperations str_order exampleOps (\<lambda>_. False) exampleEvents = Some (Returned None
     \<lparr>ss_started = {''api'', ''db''}, ss_blocked = {}, ss_inFlight = {}, ss_scheduled = {''api'', ''db''}, ss_errors = [],
      ss_trace = [Launch exDb, StartOk ''db'', Launch exApi, StartOk ''api'']\<rparr>)"
    by (simp_all add: processStartOperations_def valid_start_def example_init)
qed

theorem starts_in_order_witness:
  "map_order str_order \<and> valid_start exampleOps (\<lambda>_. False) exampleEvents \<and>
   (\<exists>out. processStartOperations str_order exampleOps (\<lambda>_. False) exampleEvents = Some out \<and>
      ss_trace (out_state out) = [Launch exDb, StartOk ''db''] @ Launch exApi # [StartOk ''api''] \<and>
      StartOk ''db'' \<in> set [Launch exDb, StartOk ''db''] \<and> op_id exApi \<notin> launched [Launch exDb, StartOk ''db''])"
proof -
  let ?s = "\<lparr>ss_started = {''api'', ''db''}, ss_blocked = {}, ss_inFlight = {}, ss_scheduled = {''api'', ''db''}, ss_errors = [],
      ss_trace = [Launch exDb, StartOk ''db'', Launch exApi, StartOk ''api'']\<rparr>"
  have t: "ss_trace (out_state (Returned None ?s)) = [Launch exDb, StartOk ''db''] @ Launch exApi # [StartOk ''api'']"
    by (simp add: out_state_def)
  show ?thesis
    using starts_in_order [OF map_order_sorted example_start t] map_order_sorted example_start t
    by (auto simp: example_ops)
qed

lemma startError_None: "startError es = None \<longleftrightarrow> es = []"
  by (auto simp: startError_def split: list.splits)

lemma optionalOp_op:
  assumes "distinct (map op_id ops)" "op \<in> set ops"
  shows "optionalOp (planStart ops) (op_id op) = op_optional op"
  by (simp add: optionalOp_def planStart_facts mk_opMap_distinct [OF assms])

lemma errors_None:
  assumes "start_inv ops s" "distinct (map op_id ops)"
  shows "ss_errors s = [] \<longleftrightarrow> (\<forall>op \<in> set ops. op_optional op \<or> (op_blockers op = [] \<and> op_id op \<notin> ss_failed s))"
proof -
  note inv = start_invD [OF assms(1)]
  have "blockErrors ops = [] \<longleftrightarrow> (\<forall>op \<in> set ops. op_optional op \<or> op_blockers op = [])"
    by (auto simp: blockErrors_def filter_empty_conv)
  moreover have "failErrors (planStart ops) (ss_trace s) = [] \<longleftrightarrow> (\<forall>x \<in> ss_failed s. optionalOp (planStart ops) x)"
    by (force simp: failErrors_def map_filter_def filter_empty_conv ss_failed_def split: startTrace.splits)
  moreover have "(\<forall>x \<in> ss_failed s. optionalOp (planStart ops) x) \<longleftrightarrow> (\<forall>op \<in> set ops. op_optional op \<or> op_id op \<notin> ss_failed s)"
  proof -
    have "ss_failed s \<subseteq> op_id ` set ops" using inv(1,4) by (auto simp: opIds_def)
    then show ?thesis using optionalOp_op [OF assms(2)] by blast
  qed
  ultimately show ?thesis unfolding inv(11) append_is_Nil_conv by blast
qed

lemma start_loop_return:
  "start_loop plan background events s = Some (Returned r s') \<Longrightarrow>
     (\<exists>e. r = Some (ContextError e) \<and> ContextDone e \<in> fst ` set events) \<or>
     r = startError (ss_errors s') \<and> (\<exists>s0 background. s' = scheduleReady plan s0 \<and> loopDone background plan s')"
proof (induction events arbitrary: background s)
  case Nil
  then show ?case by (auto simp: start_loop.simps [of _ background] Let_def split: if_splits)
next
  case (Cons ev events)
  show ?case
  proof (cases "loopDone background plan (scheduleReady plan s)")
    case True
    with Cons.prems show ?thesis by (auto simp: start_loop.simps [of _ background] Let_def)
  next
    case False
    obtain k b where ev: "ev = (k, b)" by (cases ev)
    from Cons.prems False have l: "(\<exists>e. k = ContextDone e \<and> r = Some (ContextError e)) \<or>
        (\<exists>s2. start_loop plan b events s2 = Some (Returned r s'))"
      by (auto simp: start_loop.simps [of _ background] Let_def ev split: startEvent.splits option.splits)
    with Cons.IH show ?thesis by (fastforce simp: ev)
  qed
qed

text \<open>
  C34. What a start of a batch with distinct ids comes to, for every map order and every valid sequence
  of reports. A cyclic batch is answered with a genuine cycle of it, and nothing is launched. For any other
  batch the function has either not returned, and then a launched service has not reported yet; or it has
  returned because its context ended, with the context's error (nothing else is said of that case); or it
  has returned with every service started, failed, in flight and optional, or blocked, the blocked ones
  being exactly the services that have a blocker or depend, directly or not, on one that has a
  blocker or has failed, and with the error nil exactly when no required service had a blocker
  or failed.
\<close>

theorem start_completes:
  assumes "map_order it" "distinct (map op_id ops)" "valid_start ops background events"
  shows "\<exists>out. processStartOperations it ops background events = Some out \<and>
    (if acyclic (depRel ops) then
       (case out of
          Waiting s \<Rightarrow> \<exists>x \<in> launched (ss_trace s). StartOk x \<notin> set (ss_trace s) \<and> x \<notin> ss_failed s
        | Returned r s \<Rightarrow>
            (\<exists>e. r = Some (ContextError e) \<and> ContextDone e \<in> fst ` set events) \<or>
            (opIds ops = ss_started s \<union> ss_failed s \<union> ss_inFlight s \<union> ss_blocked s \<and>
             (\<forall>op \<in> set ops. op_id op \<in> ss_inFlight s \<longrightarrow> op_optional op) \<and>
             ss_blocked s = (depRel ops)\<^sup>* `` blockRoots ops \<union> (depRel ops)\<^sup>+ `` ss_failed s \<and>
             (r = None \<longleftrightarrow> (\<forall>op \<in> set ops. op_optional op \<or> (op_blockers op = [] \<and> op_id op \<notin> ss_failed s)))))
     else \<exists>c s. out = Returned (Some (DependencyLevelsError ''start'' (CycleDetected c))) s \<and>
            closed_walk (depRel ops) c \<and> ss_trace s = [])"
proof (cases "acyclic (depRel ops)")
  case False
  with processStart_cyclic [OF assms(1) False, of background events] show ?thesis by (auto simp: initState_def)
next
  case True
  obtain out where out: "processStartOperations it ops background events = Some out" "out_ok ops out"
    using processStart_ok [OF assms(1) True assms(3)] by blast
  note inv = start_invD [OF out_ok_inv [OF out(2)]]
  show ?thesis
  proof (cases out)
    case (Waiting s)
    with out(2) obtain x where x: "x \<in> ss_inFlight s" by (auto simp: out_ok_def)
    with inv have "x \<in> launched (ss_trace s)" "StartOk x \<notin> set (ss_trace s)" "x \<notin> ss_failed s"
      by (auto simp: Waiting out_state_def)
    with out(1) Waiting True show ?thesis by auto
  next
    case (Returned r s)
    have s: "start_inv ops s" using out(2) by (simp add: out_ok_def Returned)
    note inv = start_invD [OF s]
    have "detectStartCycle it (planStart ops) = Some None" using detectStartCycle_cases [OF assms(1), of ops] True by blast
    with out(1) obtain s1 where "start_loop (planStart ops) background events s1 = Some (Returned r s)"
      by (auto simp: processStartOperations_def Let_def Returned split: option.splits)
    note ret = start_loop_return [OF this]
    show ?thesis
    proof (cases "\<exists>e. r = Some (ContextError e) \<and> ContextDone e \<in> fst ` set events")
      case False
      with ret obtain s0 bg where r: "r = startError (ss_errors s)" "s = scheduleReady (planStart ops) s0"
        "loopDone bg (planStart ops) s" by blast
      have "opIds ops = ss_scheduled s \<union> ss_blocked s"
        using r(3) by (intro start_settled [OF s True r(2)]) (auto simp: loopDone_def)
      moreover have "op_optional op" if "op \<in> set ops" "op_id op \<in> ss_inFlight s" for op
        using r(3) that mk_opMap_distinct [OF assms(2) that(1)]
        by (auto simp: loopDone_def allInFlightCanCompleteInBackground_def planStart_facts)
      moreover have "r = None \<longleftrightarrow> (\<forall>op \<in> set ops. op_optional op \<or> (op_blockers op = [] \<and> op_id op \<notin> ss_failed s))"
        unfolding r(1) startError_None by (rule errors_None [OF s assms(2)])
      ultimately show ?thesis
        using out(1) inv(1,6) True unfolding Returned by (intro exI [of _ "Returned r s"]) (simp add: Un_ac)
    qed (use out(1) Returned True in simp)
  qed
qed

theorem start_completes_witness:
  "map_order str_order \<and> distinct (map op_id exampleOps) \<and> valid_start exampleOps (\<lambda>_. False) exampleEvents \<and>
   (\<exists>s. processStartOperations str_order exampleOps (\<lambda>_. False) exampleEvents = Some (Returned None s) \<and>
      opIds exampleOps = ss_started s \<union> ss_failed s \<union> ss_inFlight s \<union> ss_blocked s)"
proof -
  have d: "distinct (map op_id exampleOps)" by (simp add: exampleOps_def exApi_def exDb_def)
  from start_completes [OF map_order_sorted d example_start(1)] show ?thesis
    using d map_order_sorted example_start by (auto split: if_splits)
qed

section \<open>The stop loop\<close>

lemma stopError_None: "stopError es = None \<longleftrightarrow> es = []"
  by (auto simp: stopError_def split: list.splits)

lemma stop_loop_ok:
  assumes "\<And>es. ord es = [] \<longleftrightarrow> es = []" "stop_loop ctx stop ord m i levels errs st = (r, st')"
  shows "\<exists>k \<le> length levels. st' = st @ map (List.map_filter m) (take k levels) \<and>
     ((\<exists>e. r = Some (ContextError e)) \<or>
      k = length levels \<and> (r = None \<longleftrightarrow> errs = [] \<and> (\<forall>l \<in> set levels. stopErrors stop (List.map_filter m l) = [])))"
  using assms(2)
proof (induction levels arbitrary: i errs st)
  case Nil
  then show ?case by (auto simp: stopError_None)
next
  case (Cons l levels)
  let ?ops = "List.map_filter m l"
  show ?case
  proof (cases "ctx (2 * i + 1)")
    case (Some e)
    with Cons.prems show ?thesis by (intro exI [of _ 0]) auto
  next
    case c1: None
    show ?thesis
    proof (cases "ctx (2 * i + 2)")
      case (Some e)
      with Cons.prems c1 show ?thesis by (intro exI [of _ 1]) auto
    next
      case None
      with Cons.prems c1 have "stop_loop ctx stop ord m (Suc i) levels (errs @ ord (stopErrors stop ?ops)) (st @ [?ops]) = (r, st')"
        by (simp add: Let_def)
      from Cons.IH [OF this] obtain k where k: "k \<le> length levels" "st' = (st @ [?ops]) @ map (List.map_filter m) (take k levels)"
        "(\<exists>e. r = Some (ContextError e)) \<or> k = length levels \<and> (r = None \<longleftrightarrow>
           errs @ ord (stopErrors stop ?ops) = [] \<and> (\<forall>l \<in> set levels. stopErrors stop (List.map_filter m l) = []))"
        by blast
      then show ?thesis by (intro exI [of _ "Suc k"]) (auto simp: assms(1))
    qed
  qed
qed

text \<open>A level of service ids and the operations it stops.\<close>

lemma level_ops:
  assumes "distinct (map op_id ops)" "set l \<subseteq> opIds ops"
  shows "map op_id (List.map_filter (mk_opMap ops) l) = l"
    and "set (List.map_filter (mk_opMap ops) l) = {op \<in> set ops. op_id op \<in> set l}"
proof -
  have e: "\<exists>op \<in> set ops. op_id op = x \<and> mk_opMap ops x = Some op" if "x \<in> opIds ops" for x
    using that mk_opMap_distinct [OF assms(1)] by (auto simp: opIds_def)
  show "map op_id (List.map_filter (mk_opMap ops) l) = l"
    using assms(2) by (induction l) (use e in \<open>force simp: map_filter_simps\<close>)+
  show "set (List.map_filter (mk_opMap ops) l) = {op \<in> set ops. op_id op \<in> set l}"
  proof (intro set_eqI iffI)
    fix op
    assume "op \<in> set (List.map_filter (mk_opMap ops) l)"
    then obtain x where "x \<in> set l" "mk_opMap ops x = Some op" by (auto simp: map_filter_def)
    with mk_opMap_Some [of ops x op] show "op \<in> {op \<in> set ops. op_id op \<in> set l}" by simp
  next
    fix op
    assume "op \<in> {op \<in> set ops. op_id op \<in> set l}"
    with mk_opMap_distinct [OF assms(1), of op] show "op \<in> set (List.map_filter (mk_opMap ops) l)"
      by (force simp: map_filter_def image_iff)
  qed
qed

lemma stop_groups:
  assumes "distinct (map op_id ops)" "level_inv (stopGraph ops) L (opIds ops)"
    and "groups = map (List.map_filter (mk_opMap ops)) (take k L)"
  shows "distinct (concat groups)" and "k = length L \<Longrightarrow> set (concat groups) = set ops"
    and "j < length groups \<Longrightarrow> op \<in> set (groups ! j) \<Longrightarrow> op \<in> set ops \<and>
      (\<forall>op' \<in> set ops. op_id op \<in> set (op_dependencies op') \<longrightarrow> (\<exists>i < j. op' \<in> set (groups ! i)))"
proof -
  have d: "distinct (concat L)" "set (concat L) = opIds ops" using assms(2) unfolding level_inv_def by blast+
  have sub: "set l \<subseteq> opIds ops" if "l \<in> set L" for l using that unfolding d(2) [symmetric] by auto
  note lo = level_ops [OF assms(1) sub]
  have "map (map op_id) groups = take k L"
    unfolding assms(3) map_map comp_def by (intro map_idI lo(1)) (rule in_set_takeD)
  then have m: "map op_id (concat groups) = concat (take k L)" by (simp add: map_concat)
  have "concat L = concat (take k L) @ concat (drop k L)" by (metis append_take_drop_id concat_append)
  then have "distinct (concat (take k L))" using d(1) by (metis distinct_append)
  then show "distinct (concat groups)" unfolding m [symmetric] distinct_map by (rule conjunct1)
  show "set (concat groups) = set ops" if "k = length L"
  proof -
    have "set (concat groups) = (\<Union>l \<in> set L. {op \<in> set ops. op_id op \<in> set l})"
      using that lo(2) by (simp add: assms(3))
    also have "\<dots> = {op \<in> set ops. op_id op \<in> set (concat L)}" by auto
    also have "\<dots> = set ops" unfolding d(2) by (auto simp: opIds_def)
    finally show ?thesis .
  qed
  have nth: "groups ! i = List.map_filter (mk_opMap ops) (L ! i)" "L ! i \<in> set L" if "i < length groups" for i
    using that by (auto simp: assms(3))
  show "op \<in> set ops \<and> (\<forall>op' \<in> set ops. op_id op \<in> set (op_dependencies op') \<longrightarrow> (\<exists>i < j. op' \<in> set (groups ! i)))"
    if j: "j < length groups" "op \<in> set (groups ! j)"
  proof (intro conjI ballI impI)
    have op: "op \<in> set ops" "op_id op \<in> set (L ! j)" using j nth lo(2) by auto
    then show "op \<in> set ops" by simp
    fix op'
    assume op': "op' \<in> set ops" "op_id op \<in> set (op_dependencies op')"
    then have "(op_id op', op_id op) \<in> g_rel (stopGraph ops)"
      unfolding stopGraph_facts using op(1) by (auto simp: depRel_def opIds_def)
    then obtain a b where ab: "a < b" "b < length L" "op_id op' \<in> set (L ! a)" "op_id op \<in> set (L ! b)"
      using assms(2) op(1) unfolding level_inv_def by (meson imageI opIds_def [THEN equalityD2, THEN subsetD])
    have "b = j"
      using nodeLevel_loop_nth [OF d(1) ab(2,4), of 0] nodeLevel_loop_nth [OF d(1) _ op(2), of 0] j(1)
      by (simp add: assms(3))
    with ab j(1) have "op' \<in> set (groups ! a)" using nth [of a] lo(2) op'(1) by simp
    with ab(1) \<open>b = j\<close> show "\<exists>i < j. op' \<in> set (groups ! i)" by blast
  qed
qed

text \<open>
  C17. Stopping a batch: a cyclic batch is refused with a genuine cycle before anything is stopped.
  Otherwise, also when the context ends in the middle, no service is stopped twice, and a service is
  stopped only in a group after the group of every service of the batch that depends on it. Unless
  the context ended, all services are stopped, and the error is nil exactly when none failed to stop.
\<close>

theorem stops_in_order:
  assumes "map_order it" "distinct (map op_id ops)" "\<And>es. mset (ord es) = mset es"
  shows "\<exists>r groups. processStopOperations it ctx stop ord ops = Some (r, groups) \<and>
     distinct (concat groups) \<and>
     (\<forall>j < length groups. \<forall>op \<in> set (groups ! j). op \<in> set ops \<and>
        (\<forall>op' \<in> set ops. op_id op \<in> set (op_dependencies op') \<longrightarrow> (\<exists>i < j. op' \<in> set (groups ! i)))) \<and>
     ((\<exists>c. r = Some (DependencyLevelsError ''stop'' (CycleDetected c)) \<and> closed_walk ((depRel ops)\<inverse>) c \<and> groups = []) \<or>
      (\<exists>e. r = Some (ContextError e)) \<or>
      (set (concat groups) = set ops \<and> (r = None \<longleftrightarrow> (\<forall>op \<in> set ops. stop op = None))))"
proof -
  have o: "ord es = [] \<longleftrightarrow> es = []" for es using assms(3) [of es] by (metis mset_zero_iff)
  note g = stopGraph_facts [of ops]
  have dm: "Domain (g_rel (stopGraph ops)) \<subseteq> g_nodes (stopGraph ops)" unfolding g using depRel_sub [of ops] by auto
  have v: "g_vertices (stopGraph ops) = opIds ops" unfolding g_vertices_eq g using depRel_sub [of ops] by auto
  show ?thesis
  proof (cases "ctx 0")
    case (Some e)
    then show ?thesis by (simp add: processStopOperations_def)
  next
    case None
    from DependencyLevels_acyclic [OF g(1) assms(1) dm, of "\<lambda>x. x"]
    consider c where "DependencyLevels (\<lambda>x. x) it (stopGraph ops) = Some (Inl (CycleDetected c))" "closed_walk ((depRel ops)\<inverse>) c"
      | L where "DependencyLevels (\<lambda>x. x) it (stopGraph ops) = Some (Inr L)" "level_inv (stopGraph ops) L (opIds ops)"
      unfolding g v by blast
    then show ?thesis
    proof cases
      case 1
      with None show ?thesis by (simp add: processStopOperations_def)
    next
      case 2
      obtain r groups where sl: "stop_loop ctx stop ord (mk_opMap ops) 0 L [] [] = (r, groups)" by fastforce
      from stop_loop_ok [OF o sl] obtain k where k: "groups = map (List.map_filter (mk_opMap ops)) (take k L)"
        "(\<exists>e. r = Some (ContextError e)) \<or> k = length L \<and> (r = None \<longleftrightarrow> (\<forall>l \<in> set L. stopErrors stop (List.map_filter (mk_opMap ops) l) = []))"
        by auto
      note sg = stop_groups [OF assms(2) 2(2) k(1)]
      have e: "(\<forall>l \<in> set L. stopErrors stop (List.map_filter (mk_opMap ops) l) = []) \<longleftrightarrow> (\<forall>op \<in> set (concat groups). stop op = None)"
        if "k = length L"
        using that by (auto simp: k(1) stopErrors_def map_filter_def filter_empty_conv)
      have "processStopOperations it ctx stop ord ops = Some (r, groups)"
        using None 2(1) sl by (simp add: processStopOperations_def)
      with sg k(2) e show ?thesis by (intro exI [of _ r] exI [of _ groups]) auto
    qed
  qed
qed

theorem stops_in_order_witness:
  "map_order str_order \<and> distinct (map op_id exampleOps) \<and> \<not> (\<exists>c. closed_walk ((depRel exampleOps)\<inverse>) c) \<and>
   (\<exists>r groups. processStopOperations str_order (\<lambda>_. None) (\<lambda>_. None) (\<lambda>es. es) exampleOps = Some (r, groups) \<and>
      distinct (concat groups) \<and> ((\<exists>e. r = Some (ContextError e)) \<or> r = None \<and> set (concat groups) = set exampleOps))"
proof -
  have d: "distinct (map op_id exampleOps)" by (simp add: exampleOps_def exApi_def exDb_def)
  have a: "\<not> closed_walk ((depRel exampleOps)\<inverse>) c" for c
    using closed_walk_cyclic [of "(depRel exampleOps)\<inverse>" c] example_acyclic by auto
  from stops_in_order [OF map_order_sorted d, where ord = "\<lambda>es. es" and ctx = "\<lambda>_. None" and stop = "\<lambda>_. None"] show ?thesis
    using d a map_order_sorted by auto
qed

section \<open>A whole transition\<close>

text \<open>Nothing is launched unless every stop of the same transition succeeded.\<close>

lemma transition_stops_first:
  assumes "transition it ctx stop ord background events ops = Some (stopped, out)" "ss_trace (out_state out) \<noteq> []"
  shows "filter (\<lambda>op. op_kind op = opStop) ops = [] \<or>
     processStopOperations it ctx stop ord (filter (\<lambda>op. op_kind op = opStop) ops) = Some (None, stopped)"
  using assms
  by (auto simp: transition_def Let_def out_state_def initState_def split: if_splits option.splits startOutcome.splits)

text \<open>A transition always answers.\<close>

lemma transition_total:
  assumes "map_order it" "valid_start (filter (\<lambda>op. op_kind op = opStart) ops) background events"
  shows "transition it ctx stop ord background events ops \<noteq> None"
proof -
  let ?starts = "filter (\<lambda>op. op_kind op = opStart) ops" and ?stops = "filter (\<lambda>op. op_kind op = opStop) ops"
  obtain out where out: "processStartOperations it ?starts background events = Some out"
    using processStart_ok [OF assms(1) _ assms(2)] processStart_cyclic [OF assms(1)] by blast
  note g = stopGraph_facts [of ?stops]
  have "Domain (g_rel (stopGraph ?stops)) \<subseteq> g_nodes (stopGraph ?stops)" unfolding g using depRel_sub by auto
  then have "DependencyLevels (\<lambda>x. x) it (stopGraph ?stops) \<noteq> None"
    using DependencyLevels_acyclic [OF g(1) assms(1), of "\<lambda>x. x"] by auto
  then have "processStopOperations it ctx stop ord ?stops \<noteq> None"
    by (auto simp: processStopOperations_def split: option.splits sum.splits)
  with out show ?thesis
    by (auto simp: transition_def Let_def split: option.splits startOutcome.splits)
qed

end
