(* ===== verification/Shortest_Path.thy ===== *)
theory Shortest_Path
  imports Dep_Graph Go_Heap "HOL-Library.Multiset"
begin

text \<open>
  The path search of the dependency graph, \<^verbatim>\<open>ShortestPath\<close> of \<^verbatim>\<open>src/internal/graph/graph.go\<close> with the
  priority queue of \<^verbatim>\<open>search.go\<close>: Dijkstra's algorithm with labels of distance and hop count, ties broken
  by the printed form of the predecessor, and re-insertion in place of a decrease-key.

  The two loops may run forever in general (on negative cycles), so they are partial functions into
  an option; for weights that are not negative they are shown to return. Weights are 64 bit words, and
  the sums of distances and hops are Go's \<^verbatim>\<open>int\<close> sums, which wrap; that none wraps, when the weights add
  up to an \<^verbatim>\<open>int\<close>, is part of the proof: every label is the cost of a path without repetition. \<open>zero\<close> is
  the zero value of the node type, which a missing map entry reads as.
\<close>

section \<open>The priority queue\<close>

record 'a item =
  it_node :: 'a
  it_priority :: int
  it_index :: int

definition pq_Len :: "'a item list \<Rightarrow> nat" where
  "pq_Len q = length q"

definition pq_Less :: "'a item list \<Rightarrow> nat \<Rightarrow> nat \<Rightarrow> bool" where
  "pq_Less q i j \<longleftrightarrow> it_priority (q ! i) < it_priority (q ! j)"

definition pq_Swap :: "'a item list \<Rightarrow> nat \<Rightarrow> nat \<Rightarrow> 'a item list" where
  "pq_Swap q i j = q[i := (q ! j)\<lparr>it_index := int i\<rparr>, j := (q ! i)\<lparr>it_index := int j\<rparr>]"

definition pq_Push :: "'a item \<Rightarrow> 'a item list \<Rightarrow> 'a item list" where
  "pq_Push x q = q @ [x\<lparr>it_index := int (length q)\<rparr>]"

definition pq_Pop :: "'a item list \<Rightarrow> 'a item list \<times> 'a item" where
  "pq_Pop q = (butlast q, last q)"

text \<open>\<^verbatim>\<open>heap.Push\<close> and \<^verbatim>\<open>heap.Pop\<close>.\<close>

definition pq_heapPush :: "'a item \<Rightarrow> 'a item list \<Rightarrow> 'a item list" where
  "pq_heapPush x q = (let q = pq_Push x q in heap_up pq_Less pq_Swap q (pq_Len q - 1))"

definition pq_heapPop :: "'a item list \<Rightarrow> 'a item list \<times> 'a item" where
  "pq_heapPop q =
     (let n = pq_Len q - 1;
          q = pq_Swap q 0 n;
          (q, _) = heap_down pq_Less pq_Swap q 0 n
      in pq_Pop q)"

section \<open>The search\<close>

record 'a Path =
  pa_Nodes :: "'a list"
  pa_Cost :: int

record 'a search =
  dj_distances :: "'a \<rightharpoonup> int"
  dj_hops :: "'a \<rightharpoonup> int"
  dj_previous :: "'a \<rightharpoonup> 'a"
  dj_pq :: "'a item list"

definition readInt :: "('a \<rightharpoonup> int) \<Rightarrow> 'a \<Rightarrow> int" where
  "readInt m x = (case m x of None \<Rightarrow> 0 | Some n \<Rightarrow> n)"

text \<open>The value of a Go \<^verbatim>\<open>int\<close> sum: 64 bits, two's complement.\<close>

definition goInt :: "int \<Rightarrow> int" where
  "goInt x = sint (word_of_int x :: i64)"

definition initNode :: "'a \<Rightarrow> 'a \<Rightarrow> 'a search \<Rightarrow> 'a search" where
  "initNode from node s =
     (if node = from
      then s\<lparr>dj_distances := (dj_distances s)(node \<mapsto> 0), dj_hops := (dj_hops s)(node \<mapsto> 0),
             dj_pq := pq_heapPush \<lparr>it_node = node, it_priority = 0, it_index = 0\<rparr> (dj_pq s)\<rparr>
      else s\<lparr>dj_distances := (dj_distances s)(node \<mapsto> -1), dj_hops := (dj_hops s)(node \<mapsto> -1)\<rparr>)"

definition edgeWeight :: "('a, 'e) Graph \<Rightarrow> 'a \<Rightarrow> 'a \<Rightarrow> int" where
  "edgeWeight g from to = (case GetEdge g from to of None \<Rightarrow> 0 | Some e \<Rightarrow> sint (ed_Weight e))"

definition shouldUpdate :: "('a \<Rightarrow> string) \<Rightarrow> 'a search \<Rightarrow> 'a \<Rightarrow> 'a \<Rightarrow> int \<Rightarrow> int \<Rightarrow> bool" where
  "shouldUpdate fmt s current neighbor newDist newHops =
     (if readInt (dj_distances s) neighbor = -1 then True
      else if newDist < readInt (dj_distances s) neighbor then True
      else if newDist = readInt (dj_distances s) neighbor \<and>
        (readInt (dj_hops s) neighbor = -1 \<or> newHops < readInt (dj_hops s) neighbor) then True
      else if newDist = readInt (dj_distances s) neighbor \<and> newHops = readInt (dj_hops s) neighbor
      then (case dj_previous s neighbor of None \<Rightarrow> True | Some prev \<Rightarrow> fmt current < fmt prev)
      else False)"

definition relaxEdge :: "('a \<Rightarrow> string) \<Rightarrow> ('a, 'e) Graph \<Rightarrow> 'a \<Rightarrow> 'a \<Rightarrow> 'a search \<Rightarrow> 'a search" where
  "relaxEdge fmt g current neighbor s =
     (let newDist = goInt (readInt (dj_distances s) current + edgeWeight g current neighbor);
          newHops = goInt (readInt (dj_hops s) current + 1)
      in if shouldUpdate fmt s current neighbor newDist newHops
         then s\<lparr>dj_distances := (dj_distances s)(neighbor \<mapsto> newDist),
                dj_hops := (dj_hops s)(neighbor \<mapsto> newHops),
                dj_previous := (dj_previous s)(neighbor \<mapsto> current),
                dj_pq := pq_heapPush \<lparr>it_node = neighbor, it_priority = newDist, it_index = 0\<rparr> (dj_pq s)\<rparr>
         else s)"

definition searchStep :: "('a \<Rightarrow> string) \<Rightarrow> ('a set \<Rightarrow> 'a list) \<Rightarrow> ('a, 'e) Graph \<Rightarrow> 'a search \<Rightarrow> 'a search" where
  "searchStep fmt it g s =
     (let (pq, current) = pq_heapPop (dj_pq s);
          s = s\<lparr>dj_pq := pq\<rparr>
      in if it_priority current > readInt (dj_distances s) (it_node current) then s
         else fold (relaxEdge fmt g (it_node current)) (sort_key fmt (targets it g (it_node current))) s)"

partial_function (option) searchLoop ::
  "('a \<Rightarrow> string) \<Rightarrow> ('a set \<Rightarrow> 'a list) \<Rightarrow> ('a, 'e) Graph \<Rightarrow> 'a search \<Rightarrow> 'a search option" where
  "searchLoop fmt it g s = (if pq_Len (dj_pq s) > 0 then searchLoop fmt it g (searchStep fmt it g s) else Some s)"

partial_function (option) buildPath ::
  "'a \<Rightarrow> ('a \<rightharpoonup> 'a) \<Rightarrow> 'a \<Rightarrow> 'a \<Rightarrow> 'a list \<Rightarrow> 'a list option" where
  "buildPath zero previous from current nodes =
     (let nodes = current # nodes
      in if current = from then Some nodes
         else buildPath zero previous from (case previous current of None \<Rightarrow> zero | Some p \<Rightarrow> p) nodes)"

definition ShortestPath ::
  "('a \<Rightarrow> string) \<Rightarrow> ('a set \<Rightarrow> 'a list) \<Rightarrow> 'a \<Rightarrow> ('a, 'e) Graph \<Rightarrow> 'a \<Rightarrow> 'a \<Rightarrow> ('a graph_error + 'a Path) option" where
  "ShortestPath fmt it zero g from to =
     (if \<not> HasNode g from then Some (Inl (NodeDoesNotExist from))
      else if \<not> HasNode g to then Some (Inl (NodeDoesNotExist to))
      else
        let s = fold (initNode from) (it (g_nodes g))
                  \<lparr>dj_distances = Map.empty, dj_hops = Map.empty, dj_previous = Map.empty, dj_pq = []\<rparr>
        in case searchLoop fmt it g s of
             None \<Rightarrow> None
           | Some s \<Rightarrow>
               if readInt (dj_distances s) to = -1 then Some (Inl (NoPathExists from to))
               else
                 (case buildPath zero (dj_previous s) from to [] of
                    None \<Rightarrow> None
                  | Some nodes \<Rightarrow> Some (Inr \<lparr>pa_Nodes = nodes, pa_Cost = readInt (dj_distances s) to\<rparr>)))"

section \<open>The queue as a bag\<close>

abbreviation it_core :: "'a item \<Rightarrow> 'a \<times> int" where
  "it_core x \<equiv> (it_node x, it_priority x)"

definition pq_bag :: "'a item list \<Rightarrow> ('a \<times> int) multiset" where
  "pq_bag q = mset (map it_core q)"

lemma pq_Swap_bag:
  assumes "i < length q" "j < length q"
  shows "pq_bag (pq_Swap q i j) = pq_bag q"
proof -
  have "map it_core (pq_Swap q i j) = (map it_core q)[i := map it_core q ! j, j := map it_core q ! i]"
    using assms by (simp add: pq_Swap_def map_update)
  with assms show ?thesis unfolding pq_bag_def by (simp only: mset_swap length_map)
qed

lemma pq_Swap_length [simp]: "length (pq_Swap q i j) = length q"
  by (simp add: pq_Swap_def)

interpretation pqh: heap_client pq_Len "\<lambda>q i. it_priority (q ! i)" pq_Less pq_Swap
proof (unfold_locales, goal_cases)
  case (1 i s j)
  then show ?case by (simp add: pq_Less_def)
next
  case (2 i s j)
  then show ?case by (auto simp: pq_Swap_def pq_Len_def nth_list_update fun_eq_iff)
next
  case (3 i s j)
  then show ?case by (simp add: pq_Len_def)
qed

lemma pq_heapPush_bag:
  "pq_bag (pq_heapPush x q) = add_mset (it_core x) (pq_bag q)" "length (pq_heapPush x q) = Suc (length q)"
proof -
  let ?q = "pq_Push x q"
  have l: "length ?q = Suc (length q)" by (simp add: pq_Push_def)
  have "pq_bag (heap_up pq_Less pq_Swap ?q (pq_Len ?q - 1)) = pq_bag ?q \<and>
      length (heap_up pq_Less pq_Swap ?q (pq_Len ?q - 1)) = length ?q"
    by (rule heap_up_pres [of "\<lambda>s. pq_bag s = pq_bag ?q \<and> length s = length ?q" "length ?q"])
      (auto simp: pq_Swap_bag l pq_Len_def)
  with l show "pq_bag (pq_heapPush x q) = add_mset (it_core x) (pq_bag q)" "length (pq_heapPush x q) = Suc (length q)"
    by (simp_all add: pq_heapPush_def Let_def) (simp add: pq_bag_def pq_Push_def)
qed

lemma pq_heapPop_bag:
  assumes "q \<noteq> []" "pq_heapPop q = (q', x)"
  shows "pq_bag q = add_mset (it_core x) (pq_bag q')" "length q = Suc (length q')"
proof -
  let ?q = "pq_Swap q 0 (length q - 1)" and ?n = "length q - 1"
  define d where "d = fst (heap_down pq_Less pq_Swap ?q 0 ?n)"
  have d: "pq_bag d = pq_bag q \<and> length d = length q"
  proof (cases "?n = 0")
    case True
    then have "heap_down pq_Less pq_Swap ?q 0 ?n = (?q, False)"
      by (simp add: heap_down_def heap_down_loop.simps)
    with assms(1) show ?thesis by (simp add: pq_Swap_bag d_def)
  next
    case False
    with assms(1) show ?thesis
      unfolding d_def
      by (intro heap_down_pres [of "\<lambda>s. pq_bag s = pq_bag q \<and> length s = length q" ?n])
        (auto simp: pq_Swap_bag)
  qed
  have "q' = butlast d" "x = last d"
    using assms(2) by (auto simp: pq_heapPop_def pq_Pop_def pq_Len_def split_def Let_def d_def)
  then have e: "d = q' @ [x]" using assms(1) d by (metis append_butlast_last_id length_0_conv)
  show "pq_bag q = add_mset (it_core x) (pq_bag q')" "length q = Suc (length q')"
    using d unfolding e by (auto simp: pq_bag_def)
qed

text \<open>A pop from a heap gives the least priority and leaves a heap.\<close>

definition pq_ordered :: "'a item list \<Rightarrow> bool" where
  "pq_ordered q \<longleftrightarrow> is_heap (length q) (\<lambda>i. it_priority (q ! i))"

lemma pq_heapPush_ordered:
  assumes "pq_ordered q"
  shows "pq_ordered (pq_heapPush x q)"
proof -
  let ?q = "pq_Push x q"
  have q: "length ?q = Suc (length q)" "\<And>i. i < length q \<Longrightarrow> ?q ! i = q ! i" by (auto simp: pq_Push_def nth_append)
  have h: "is_heap (length q) (\<lambda>i. it_priority (?q ! i))"
    using assms is_heap_cong [of "length q" "\<lambda>i. it_priority (?q ! i)" "\<lambda>i. it_priority (q ! i)"] q(2)
    unfolding pq_ordered_def by simp
  have np: "parent c \<noteq> length q" if "0 < c" "c < Suc (length q)" for c using that by auto
  have "almost_heap (length ?q) (\<lambda>i. it_priority (?q ! i)) (length q)" "kids_ok (length ?q) (\<lambda>i. it_priority (?q ! i)) (length q)"
    using h np unfolding almost_heap_def kids_ok_def is_heap_def q(1) by (metis less_antisym)+
  then have "is_heap (length ?q) (\<lambda>i. it_priority (heap_up pq_Less pq_Swap ?q (length q) ! i))"
    by (intro pqh.up_heap) (simp_all add: q(1) pq_Len_def)
  then show ?thesis using q(1) pq_heapPush_bag(2) [of x q] by (simp add: pq_ordered_def pq_heapPush_def pq_Len_def)
qed

lemma pq_heapPop_least:
  assumes "pq_ordered q" "q \<noteq> []" "pq_heapPop q = (q', x)"
  shows "(n, p) \<in># pq_bag q \<Longrightarrow> it_priority x \<le> p" and "pq_ordered q'"
proof -
  let ?n = "length q - 1" and ?key = "\<lambda>s i. it_priority (s ! i)"
  define s where "s = pq_Swap q 0 ?n"
  define d where "d = fst (heap_down pq_Less pq_Swap s 0 ?n)"
  have sl: "length s = length q" by (simp add: s_def)
  have last: "it_core (s ! ?n) = it_core (q ! 0)"
    using assms(2) by (simp add: s_def pq_Swap_def nth_list_update)
  have d: "d ! ?n = s ! ?n \<and> length d = length q \<and> is_heap ?n (?key d)"
  proof (cases "?n = 0")
    case True
    then have "d = s" by (simp add: d_def heap_down_def heap_down_loop.simps)
    with True sl show ?thesis by (simp add: is_heap_def)
  next
    case False
    have "d ! ?n = s ! ?n \<and> length d = length q"
      unfolding d_def using False sl
      by (intro heap_down_pres [of "\<lambda>t. t ! ?n = s ! ?n \<and> length t = length q" ?n]) (auto simp: pq_Swap_def)
    moreover have "is_heap ?n (?key d)"
      unfolding d_def
    proof (rule pqh.down_root_heap)
      have k: "?key s c = ((?key q)(0 := ?key q ?n)) c" if "c < ?n" for c
        using that assms(2) by (simp add: s_def pq_Swap_def nth_list_update)
      have "is_heap ?n (?key q)" using assms(1) is_heap_prefix [of "length q" "?key q" ?n] by (simp add: pq_ordered_def)
      then have "almost_heap ?n ((?key q)(0 := ?key q ?n)) 0" by (rule is_heap_almost)
      then show "almost_heap ?n (?key s) 0"
        using almost_heap_cong [of ?n "?key s" "(?key q)(0 := ?key q ?n)" 0] k False by simp
    qed (use False sl in \<open>simp_all add: pq_Len_def\<close>)
    ultimately show ?thesis by blast
  qed
  have q': "q' = butlast d" "x = last d"
    using assms(3) by (auto simp: pq_heapPop_def pq_Pop_def pq_Len_def split_def Let_def d_def s_def)
  then have "x = d ! ?n" using d assms(2) by (metis last_conv_nth length_0_conv)
  then have x: "it_priority x = it_priority (q ! 0)" using d last by simp
  show "it_priority x \<le> p" if "(n, p) \<in># pq_bag q"
  proof -
    from that obtain i where "i < length q" "it_priority (q ! i) = p" by (auto simp: pq_bag_def in_set_conv_nth)
    with is_heap_min [OF assms(1) [unfolded pq_ordered_def], of i] x show ?thesis by simp
  qed
  show "pq_ordered q'"
    unfolding pq_ordered_def q'
    using d is_heap_cong [of ?n "?key (butlast d)" "?key d"] by (simp add: nth_butlast)
qed

section \<open>Walks and labels\<close>

text \<open>Walks between nodes, with their cost and number of edges.\<close>

inductive reach_by :: "('a, 'e) Graph \<Rightarrow> 'a \<Rightarrow> 'a \<Rightarrow> int \<Rightarrow> int \<Rightarrow> bool"
  for g :: "('a, 'e) Graph" and "from" :: 'a where
  start: "reach_by g from from 0 0"
| step: "reach_by g from x c k \<Longrightarrow> HasEdge g x y \<Longrightarrow> y \<in> g_nodes g \<Longrightarrow> reach_by g from y (c + edgeWeight g x y) (k + 1)"

definition nonneg :: "('a, 'e) Graph \<Rightarrow> bool" where
  "nonneg g \<longleftrightarrow> (\<forall>a b e. GetEdge g a b = Some e \<longrightarrow> 0 \<le> sint (ed_Weight e))"

lemma edgeWeight_nonneg: "nonneg g \<Longrightarrow> 0 \<le> edgeWeight g a b"
  by (auto simp: nonneg_def edgeWeight_def split: option.splits)

lemma reach_by_nonneg: "reach_by g from x c k \<Longrightarrow> nonneg g \<Longrightarrow> 0 \<le> c \<and> 0 \<le> k"
  by (induction rule: reach_by.induct) (auto simp: edgeWeight_nonneg add_nonneg_nonneg)

text \<open>
  The bound under which no sum wraps: all weights together, and the number of nodes, are \<^verbatim>\<open>int\<close>s.
\<close>

definition weights_ok :: "('a, 'e) Graph \<Rightarrow> bool" where
  "weights_ok g \<longleftrightarrow> finite (g_rel g) \<and> nonneg g \<and> (\<Sum>(a, b) \<in> g_rel g. edgeWeight g a b) < 2 ^ 63 \<and>
     finite (g_nodes g) \<and> int (card (g_nodes g)) < 2 ^ 63"

lemma goInt_id: "0 \<le> x \<Longrightarrow> x < 2 ^ 63 \<Longrightarrow> goInt x = x"
  unfolding goInt_def sint_sbintrunc' by (rule signed_take_bit_int_eq_self) simp_all

lemma weights_okD:
  assumes "weights_ok g"
  shows "finite (g_rel g)" "nonneg g" "(\<Sum>(a, b) \<in> g_rel g. edgeWeight g a b) < 2 ^ 63" "int (card (g_nodes g)) < 2 ^ 63"
    "finite (g_nodes g)"
  using assms by (simp_all add: weights_ok_def)

fun walkCost :: "('a, 'e) Graph \<Rightarrow> 'a list \<Rightarrow> int" where
  "walkCost g (x # y # p) = edgeWeight g x y + walkCost g (y # p)"
| "walkCost g _ = 0"

definition is_path :: "('a, 'e) Graph \<Rightarrow> 'a \<Rightarrow> 'a \<Rightarrow> 'a list \<Rightarrow> bool" where
  "is_path g a b p \<longleftrightarrow> p \<noteq> [] \<and> hd p = a \<and> last p = b \<and> set p \<subseteq> g_nodes g \<and> successively (HasEdge g) p"

lemma walkCost_snoc: "p \<noteq> [] \<Longrightarrow> walkCost g (p @ [y]) = walkCost g p + edgeWeight g (last p) y"
  by (induction g p rule: walkCost.induct) auto

lemma is_path_snoc: "p \<noteq> [] \<Longrightarrow> is_path g a b (p @ [y]) \<longleftrightarrow> is_path g a (last p) p \<and> HasEdge g (last p) y \<and> y \<in> g_nodes g \<and> b = y"
  by (auto simp: is_path_def successively_append_iff)

lemma path_reach: "is_path g from x p \<Longrightarrow> reach_by g from x (walkCost g p) (int (length p) - 1)"
proof (induction p arbitrary: x rule: rev_induct)
  case (snoc y p)
  show ?case
  proof (cases "p = []")
    case True
    with snoc.prems show ?thesis by (auto simp: is_path_def intro: reach_by.start)
  next
    case False
    with snoc.prems have y: "is_path g from (last p) p" "HasEdge g (last p) y" "y \<in> g_nodes g" "x = y" by (simp_all add: is_path_snoc)
    from reach_by.step [OF snoc.IH [OF y(1)] y(2,3)] False y(4) show ?thesis by (simp add: walkCost_snoc)
  qed
qed (simp add: is_path_def)

lemma is_path_prefix: "is_path g a b (q @ r) \<Longrightarrow> q \<noteq> [] \<Longrightarrow> is_path g a (last q) q"
  by (auto simp: is_path_def successively_append_iff)

lemma walkCost_prefix: "nonneg g \<Longrightarrow> q \<noteq> [] \<Longrightarrow> walkCost g q \<le> walkCost g (q @ r)"
proof (induction r rule: rev_induct)
  case (snoc y r)
  have "walkCost g (q @ r @ [y]) = walkCost g (q @ r) + edgeWeight g (last (q @ r)) y"
    using walkCost_snoc [of "q @ r" g y] snoc.prems(2) by simp
  then show ?case using snoc edgeWeight_nonneg [OF snoc.prems(1), of "last (q @ r)" y] by simp
qed simp

lemma walkCost_zip: "walkCost g p = (\<Sum>(a, b) \<leftarrow> zip p (tl p). edgeWeight g a b)"
  by (induction g p rule: walkCost.induct) auto

lemma zip_edges: "successively R p \<Longrightarrow> (a, b) \<in> set (zip p (tl p)) \<Longrightarrow> R a b"
proof (induction p)
  case (Cons x p)
  then show ?case by (cases p) auto
qed simp

lemma last_no_edge: "distinct p \<Longrightarrow> (last p, b) \<notin> set (zip p (tl p))"
proof (induction p)
  case (Cons x p)
  then show ?case by (cases p) (auto dest: set_zip_leftD)
qed simp

text \<open>A path without repetition and one edge out of its end cost no more than all edges together.\<close>

lemma path_bound:
  assumes w: "weights_ok g" and p: "is_path g a u p" "distinct p" and e: "HasEdge g u v"
  shows "walkCost g p + edgeWeight g u v < 2 ^ 63" "int (length p) < 2 ^ 63"
proof -
  note W = weights_okD [OF w]
  let ?E = "set (zip p (tl p))" and ?w = "\<lambda>(a, b). edgeWeight g a b"
  have l: "last p = u" using p(1) by (simp add: is_path_def)
  have sub: "insert (u, v) ?E \<subseteq> g_rel g"
    using p(1) e zip_edges [of "HasEdge g" p] by (auto simp: is_path_def g_rel_def)
  have "walkCost g p = (\<Sum>x \<in> ?E. ?w x)"
    unfolding walkCost_zip by (rule sum_list_distinct_conv_sum_set) (simp add: distinct_zipI1 p(2))
  then have "walkCost g p + edgeWeight g u v = (\<Sum>x \<in> insert (u, v) ?E. ?w x)"
    using last_no_edge [OF p(2), of v] l by simp
  also have "\<dots> \<le> (\<Sum>x \<in> g_rel g. ?w x)"
    by (rule sum_mono2 [OF W(1) sub]) (auto simp: edgeWeight_nonneg W(2))
  also have "\<dots> < 2 ^ 63" by (rule W(3))
  finally show "walkCost g p + edgeWeight g u v < 2 ^ 63" .
  have "length p \<le> card (g_nodes g)"
    using p W(5) card_mono [of "g_nodes g" "set p"] by (simp add: is_path_def distinct_card)
  with W(4) show "int (length p) < 2 ^ 63" by linarith
qed

definition lex_le :: "int \<times> int \<Rightarrow> int \<times> int \<Rightarrow> bool" where
  "lex_le a b \<longleftrightarrow> fst a < fst b \<or> (fst a = fst b \<and> snd a \<le> snd b)"

lemma lex_le_refl [simp]: "lex_le a a"
  by (simp add: lex_le_def)

lemma lex_le_trans: "lex_le a b \<Longrightarrow> lex_le b c \<Longrightarrow> lex_le a c"
  by (auto simp: lex_le_def)

lemma lex_le_antisym: "lex_le a b \<Longrightarrow> lex_le b a \<Longrightarrow> a = b"
  by (auto simp: lex_le_def prod_eq_iff)

lemma lex_le_add: "lex_le (a, b) (c, d) \<Longrightarrow> lex_le (a + w, b + 1) (c + w, d + 1)"
  by (auto simp: lex_le_def)

definition label :: "'a search \<Rightarrow> 'a \<Rightarrow> int \<times> int" where
  "label s x = (readInt (dj_distances s) x, readInt (dj_hops s) x)"

definition reached :: "('a, 'e) Graph \<Rightarrow> 'a search \<Rightarrow> 'a \<Rightarrow> bool" where
  "reached g s x \<longleftrightarrow> x \<in> g_nodes g \<and> fst (label s x) \<noteq> -1"

text \<open>The label an edge offers its target.\<close>

definition offer :: "('a, 'e) Graph \<Rightarrow> 'a search \<Rightarrow> 'a \<Rightarrow> 'a \<Rightarrow> int \<times> int" where
  "offer g s u v = (fst (label s u) + edgeWeight g u v, snd (label s u) + 1)"

definition relaxed_on :: "('a, 'e) Graph \<Rightarrow> 'a search \<Rightarrow> 'a \<Rightarrow> 'a set \<Rightarrow> bool" where
  "relaxed_on g s u V \<longleftrightarrow> (\<forall>v \<in> V \<inter> g_nodes g. reached g s v \<and> lex_le (label s v) (offer g s u v))"

text \<open>
  The label of \<open>x\<close> is that of a path without repetition, and no node on the path has a label above the
  part of the path that leads to it.
\<close>

definition labelled_by :: "('a, 'e) Graph \<Rightarrow> 'a \<Rightarrow> 'a search \<Rightarrow> 'a \<Rightarrow> 'a list \<Rightarrow> bool" where
  "labelled_by g from s x p \<longleftrightarrow> is_path g from x p \<and> distinct p \<and> label s x = (walkCost g p, int (length p) - 1) \<and>
     (\<forall>q r. p = q @ r \<longrightarrow> q \<noteq> [] \<longrightarrow>
        reached g s (last q) \<and> lex_le (label s (last q)) (walkCost g q, int (length q) - 1))"

text \<open>The state of the search; the nodes of \<open>X\<close> are being expanded.\<close>

definition dj_inv :: "('a, 'e) Graph \<Rightarrow> 'a \<Rightarrow> 'a set \<Rightarrow> 'a search \<Rightarrow> bool" where
  "dj_inv g from X s \<longleftrightarrow>
     dom (dj_distances s) = g_nodes g \<and> dom (dj_hops s) = g_nodes g \<and> label s from = (0, 0) \<and>
     (\<forall>x. reached g s x \<longrightarrow> (\<exists>p. labelled_by g from s x p)) \<and>
     (\<forall>x. reached g s x \<longrightarrow> x \<noteq> from \<longrightarrow>
        (\<exists>p. dj_previous s x = Some p \<and> reached g s p \<and> HasEdge g p x \<and> lex_le (offer g s p x) (label s x))) \<and>
     (\<forall>x d. (x, d) \<in># pq_bag (dj_pq s) \<longrightarrow> reached g s x \<and> fst (label s x) \<le> d) \<and>
     (\<forall>u. reached g s u \<longrightarrow> u \<in> X \<or> relaxed_on g s u {v. HasEdge g u v} \<or> (u, fst (label s u)) \<in># pq_bag (dj_pq s))"

text \<open>Labels only improve.\<close>

definition improves :: "('a, 'e) Graph \<Rightarrow> 'a search \<Rightarrow> 'a search \<Rightarrow> bool" where
  "improves g s s' \<longleftrightarrow> (\<forall>x. reached g s x \<longrightarrow> reached g s' x \<and> lex_le (label s' x) (label s x))"

lemma relaxed_on_improves:
  assumes "relaxed_on g s u V" "improves g s s'" "label s' u = label s u"
  shows "relaxed_on g s' u V"
  unfolding relaxed_on_def
proof
  fix v
  assume "v \<in> V \<inter> g_nodes g"
  with assms(1) have v: "reached g s v" "lex_le (label s v) (offer g s u v)" by (auto simp: relaxed_on_def)
  have "offer g s' u v = offer g s u v" by (simp add: offer_def assms(3))
  with v assms(2) show "reached g s' v \<and> lex_le (label s' v) (offer g s' u v)"
    unfolding improves_def by (metis lex_le_trans)
qed

lemma offer_improves: "improves g s s' \<Longrightarrow> reached g s u \<Longrightarrow> lex_le (offer g s' u v) (offer g s u v)"
  unfolding improves_def offer_def by (metis lex_le_add prod.collapse)

lemma reached_path:
  assumes "dj_inv g from X s" "reached g s x"
  obtains p where "labelled_by g from s x p"
  using assms that unfolding dj_inv_def by blast

lemma labelled_byD:
  assumes "labelled_by g from s x p"
  shows "is_path g from x p" "distinct p" "label s x = (walkCost g p, int (length p) - 1)" "p \<noteq> []" "last p = x"
  using assms by (simp_all add: labelled_by_def is_path_def)

lemma labelled_prefix:
  assumes "labelled_by g from s x p" "p = q @ r" "q \<noteq> []"
  shows "reached g s (last q)" "lex_le (label s (last q)) (walkCost g q, int (length q) - 1)"
  using assms by (simp_all add: labelled_by_def)

lemma reachedD:
  assumes "dj_inv g from X s" "weights_ok g" "reached g s x"
  shows "x \<in> g_nodes g" "0 \<le> fst (label s x)" "0 \<le> snd (label s x)"
proof -
  show "x \<in> g_nodes g" using assms(3) by (simp add: reached_def)
  obtain p where "labelled_by g from s x p" by (rule reached_path [OF assms(1,3)])
  note p = labelled_byD [OF this]
  from reach_by_nonneg [OF path_reach [OF p(1)] weights_okD(2) [OF assms(2)]] p(3) show "0 \<le> fst (label s x)" "0 \<le> snd (label s x)" by simp_all
qed

section \<open>Relaxing an edge\<close>

lemma shouldUpdate_label:
  "shouldUpdate fmt s u v (fst o1) (snd o1) \<longleftrightarrow>
     fst (label s v) = -1 \<or> fst o1 < fst (label s v) \<or>
     (fst o1 = fst (label s v) \<and> (snd (label s v) = -1 \<or> snd o1 < snd (label s v))) \<or>
     (o1 = label s v \<and> (case dj_previous s v of None \<Rightarrow> True | Some prev \<Rightarrow> fmt u < fmt prev))"
  by (auto simp: shouldUpdate_def label_def prod_eq_iff)

lemma offer_nonneg:
  assumes "dj_inv g from X s" "weights_ok g" "reached g s u"
  shows "fst (label s u) \<le> fst (offer g s u v)" "0 \<le> fst (offer g s u v)" "snd (offer g s u v) = snd (label s u) + 1"
    "0 < snd (offer g s u v)"
  using reachedD [OF assms] edgeWeight_nonneg [OF weights_okD(2) [OF assms(2)], of u v] by (simp_all add: offer_def)

lemma offer_fits:
  assumes inv: "dj_inv g from X s" and w: "weights_ok g" and u: "reached g s u" and e: "HasEdge g u v"
  shows "goInt (fst (offer g s u v)) = fst (offer g s u v)" "goInt (snd (offer g s u v)) = snd (offer g s u v)"
proof -
  obtain p where "labelled_by g from s u p" by (rule reached_path [OF inv u])
  note p = labelled_byD [OF this]
  have "fst (offer g s u v) < 2 ^ 63" "snd (offer g s u v) < 2 ^ 63"
    using path_bound [OF w p(1,2) e] p(3) by (simp_all add: offer_def)
  then show "goInt (fst (offer g s u v)) = fst (offer g s u v)" "goInt (snd (offer g s u v)) = snd (offer g s u v)"
    using offer_nonneg [OF inv w u, of v] by (simp_all add: goInt_id)
qed

lemma relaxEdge_label:
  assumes "dj_inv g from X s" "weights_ok g" "reached g s u" "HasEdge g u v"
  shows "relaxEdge fmt g u v s =
     (if shouldUpdate fmt s u v (fst (offer g s u v)) (snd (offer g s u v))
      then s\<lparr>dj_distances := (dj_distances s)(v \<mapsto> fst (offer g s u v)), dj_hops := (dj_hops s)(v \<mapsto> snd (offer g s u v)),
             dj_previous := (dj_previous s)(v \<mapsto> u),
             dj_pq := pq_heapPush \<lparr>it_node = v, it_priority = fst (offer g s u v), it_index = 0\<rparr> (dj_pq s)\<rparr>
      else s)"
proof -
  have "goInt (readInt (dj_distances s) u + edgeWeight g u v) = fst (offer g s u v)"
    "goInt (readInt (dj_hops s) u + 1) = snd (offer g s u v)"
    using offer_fits [OF assms] by (simp_all add: offer_def label_def)
  then show ?thesis by (simp add: relaxEdge_def Let_def)
qed

lemma label_outside:
  assumes "dj_inv g from X s" "v \<notin> g_nodes g"
  shows "label s v = (0, 0)"
proof -
  have "dj_distances s v = None" "dj_hops s v = None" using assms by (auto simp: dj_inv_def)
  then show ?thesis by (simp add: label_def readInt_def)
qed

lemma shouldUpdate_cases:
  fixes fmt :: "'a \<Rightarrow> string" and v :: 'a
  assumes "dj_inv g from X s" "weights_ok g" "reached g s u" "HasNode g from"
  defines "upd \<equiv> shouldUpdate fmt s u v (fst (offer g s u v)) (snd (offer g s u v))"
  shows "upd \<Longrightarrow> v \<in> g_nodes g \<and> v \<noteq> from \<and> v \<noteq> u \<and> (reached g s v \<longrightarrow> lex_le (offer g s u v) (label s v))"
    and "\<not> upd \<Longrightarrow> v \<in> g_nodes g \<Longrightarrow> reached g s v \<and> lex_le (label s v) (offer g s u v)"
proof -
  note o = offer_nonneg [OF assms(1-3), of v]
  note up = shouldUpdate_label [of fmt s u v "offer g s u v", folded upd_def]
  have z: "\<not> upd" if "label s v = (0, 0)"
    using that o unfolding up by (auto simp: prod_eq_iff)
  have f: "label s from = (0, 0)" using assms(1) by (simp add: dj_inv_def)
  have su: "\<not> upd" if "v = u"
    using o reachedD [OF assms(1-3)] assms(3) unfolding up that reached_def by (auto simp: prod_eq_iff)
  show "v \<in> g_nodes g \<and> v \<noteq> from \<and> v \<noteq> u \<and> (reached g s v \<longrightarrow> lex_le (offer g s u v) (label s v))" if "upd"
  proof (intro conjI impI)
    show "v \<in> g_nodes g" "v \<noteq> from" "v \<noteq> u"
      using that z su f label_outside [OF assms(1), of v] by auto
    assume "reached g s v"
    with that reachedD [OF assms(1,2), of v] show "lex_le (offer g s u v) (label s v)"
      unfolding up reached_def lex_le_def by auto
  qed
  show "reached g s v \<and> lex_le (label s v) (offer g s u v)" if "\<not> upd" "v \<in> g_nodes g"
    using that unfolding up reached_def lex_le_def by auto
qed

lemma relaxEdge_updates:
  assumes inv: "dj_inv g from X s" and nn: "weights_ok g" and u: "reached g s u" and e: "HasEdge g u v" and fr: "HasNode g from"
    and upd: "shouldUpdate fmt s u v (fst (offer g s u v)) (snd (offer g s u v))"
  defines "s' \<equiv> relaxEdge fmt g u v s"
  shows "label s' = (label s)(v := offer g s u v)" and "dj_previous s' = (dj_previous s)(v \<mapsto> u)"
    and "pq_bag (dj_pq s') = add_mset (v, fst (offer g s u v)) (pq_bag (dj_pq s))"
    and "improves g s s'" and "reached g s' v" and "\<And>x. x \<noteq> v \<Longrightarrow> reached g s' x = reached g s x"
    and "dom (dj_distances s') = g_nodes g" and "dom (dj_hops s') = g_nodes g"
proof -
  note o = offer_nonneg [OF inv nn u, of v]
  note v = shouldUpdate_cases(1) [OF inv nn u fr upd]
  have s': "s' = s\<lparr>dj_distances := (dj_distances s)(v \<mapsto> fst (offer g s u v)), dj_hops := (dj_hops s)(v \<mapsto> snd (offer g s u v)),
      dj_previous := (dj_previous s)(v \<mapsto> u),
      dj_pq := pq_heapPush \<lparr>it_node = v, it_priority = fst (offer g s u v), it_index = 0\<rparr> (dj_pq s)\<rparr>"
    using upd by (simp add: s'_def relaxEdge_label [OF inv nn u e])
  show l: "label s' = (label s)(v := offer g s u v)" by (auto simp: s' label_def readInt_def fun_eq_iff)
  show "dj_previous s' = (dj_previous s)(v \<mapsto> u)" by (simp add: s')
  show "pq_bag (dj_pq s') = add_mset (v, fst (offer g s u v)) (pq_bag (dj_pq s))" by (simp add: s' pq_heapPush_bag)
  show r: "reached g s' v" using v o(2) by (simp add: reached_def l)
  show n: "x \<noteq> v \<Longrightarrow> reached g s' x = reached g s x" for x by (simp add: reached_def l)
  show "improves g s s'"
    unfolding improves_def
  proof (intro allI impI)
    fix x
    assume "reached g s x"
    with r n v show "reached g s' x \<and> lex_le (label s' x) (label s x)" by (cases "x = v") (simp_all add: l)
  qed
  show "dom (dj_distances s') = g_nodes g" "dom (dj_hops s') = g_nodes g"
    using inv v by (auto simp: s' dj_inv_def)
qed

lemma labelled_improves:
  assumes p: "labelled_by g from s x p" and i: "improves g s s'" and l: "label s' x = label s x"
  shows "labelled_by g from s' x p"
  unfolding labelled_by_def
proof (intro conjI allI impI)
  fix q r
  assume "p = q @ r" "q \<noteq> []"
  note q = labelled_prefix [OF p this]
  then show "reached g s' (last q)" using i by (simp add: improves_def)
  have "lex_le (label s' (last q)) (label s (last q))" using i q(1) by (simp add: improves_def)
  then show "lex_le (label s' (last q)) (walkCost g q, int (length q) - 1)" using q(2) by (rule lex_le_trans)
qed (use labelled_byD [OF p] l in simp_all)

lemma update_fresh:
  assumes inv: "dj_inv g from X s" and nn: "weights_ok g" and u: "reached g s u" and p: "labelled_by g from s u p"
    and v: "reached g s v \<longrightarrow> lex_le (offer g s u v) (label s v)"
  shows "v \<notin> set p"
proof
  assume "v \<in> set p"
  then obtain q r where "p = q @ v # r" by (auto dest: split_list)
  then have q: "p = (q @ [v]) @ r" by simp
  have "reached g s v" "lex_le (label s v) (walkCost g (q @ [v]), int (length (q @ [v])) - 1)"
    using labelled_prefix [OF p q] by simp_all
  moreover have "lex_le (walkCost g (q @ [v]), int (length (q @ [v])) - 1) (label s u)"
    unfolding labelled_byD(3) [OF p] using walkCost_prefix [OF weights_okD(2) [OF nn], of "q @ [v]" r]
    by (auto simp: lex_le_def q)
  ultimately have "lex_le (offer g s u v) (label s u)" using v lex_le_trans by blast
  then show False using offer_nonneg [OF inv nn u, of v] by (simp add: lex_le_def)
qed

lemma relaxEdge_inv:
  assumes inv: "dj_inv g from X s" and nn: "weights_ok g" and u: "reached g s u" and e: "HasEdge g u v" and fr: "HasNode g from"
  shows "dj_inv g from X (relaxEdge fmt g u v s)"
proof (cases "shouldUpdate fmt s u v (fst (offer g s u v)) (snd (offer g s u v))")
  case True
  let ?s = "relaxEdge fmt g u v s"
  note r = relaxEdge_updates [OF inv nn u e fr True]
  note v = shouldUpdate_cases(1) [OF inv nn u fr True]
  have i: "label s from = (0, 0)" "\<And>x. reached g s x \<Longrightarrow> \<exists>p. labelled_by g from s x p"
    "\<And>x. reached g s x \<Longrightarrow> x \<noteq> from \<Longrightarrow>
      \<exists>p. dj_previous s x = Some p \<and> reached g s p \<and> HasEdge g p x \<and> lex_le (offer g s p x) (label s x)"
    "\<And>x d. (x, d) \<in># pq_bag (dj_pq s) \<Longrightarrow> reached g s x \<and> fst (label s x) \<le> d"
    "\<And>x. reached g s x \<Longrightarrow> x \<in> X \<or> relaxed_on g s x {w. HasEdge g x w} \<or> (x, fst (label s x)) \<in># pq_bag (dj_pq s)"
    using inv unfolding dj_inv_def by blast+
  have imp: "reached g s x \<Longrightarrow> reached g ?s x" "reached g s x \<Longrightarrow> lex_le (label ?s x) (label s x)" for x
    using r(4) by (auto simp: improves_def)
  have "\<exists>p. labelled_by g from ?s x p" if x: "reached g ?s x" for x
  proof (cases "x = v")
    case True
    obtain p where p: "labelled_by g from s u p" using i(2) [OF u] by blast
    note pu = labelled_byD [OF p]
    have fresh: "v \<notin> set p" using update_fresh [OF inv nn u p] v by blast
    have p': "labelled_by g from ?s u p" by (rule labelled_improves [OF p r(4)]) (use v in \<open>auto simp: r(1)\<close>)
    have lv: "label ?s v = (walkCost g (p @ [v]), int (length (p @ [v])) - 1)"
      using pu by (simp add: r(1) offer_def walkCost_snoc)
    have "labelled_by g from ?s v (p @ [v])"
      unfolding labelled_by_def
    proof (intro conjI allI impI lv)
      show "is_path g from v (p @ [v])" using pu e v by (simp add: is_path_snoc)
      show "distinct (p @ [v])" using pu fresh by simp
      fix q t
      assume q: "p @ [v] = q @ t" "q \<noteq> []"
      have "reached g ?s (last q) \<and> lex_le (label ?s (last q)) (walkCost g q, int (length q) - 1)"
      proof (cases t rule: rev_cases)
        case Nil
        then have "q = p @ [v]" using q by simp
        then show ?thesis using r(5) lv by simp
      next
        case (snoc t' y)
        then have "p = q @ t'" using q by simp
        from labelled_prefix [OF p' this q(2)] show ?thesis by simp
      qed
      then show "reached g ?s (last q)" "lex_le (label ?s (last q)) (walkCost g q, int (length q) - 1)" by simp_all
    qed
    with True show ?thesis by blast
  next
    case False
    then obtain p where "labelled_by g from s x p" using x i(2) [of x] r(6) [of x] by blast
    from labelled_improves [OF this r(4)] False show ?thesis by (auto simp: r(1))
  qed
  moreover have "\<exists>p. dj_previous ?s x = Some p \<and> reached g ?s p \<and> HasEdge g p x \<and> lex_le (offer g ?s p x) (label ?s x)"
    if x: "reached g ?s x" "x \<noteq> from" for x
  proof (cases "x = v")
    case True
    have "offer g ?s u v = offer g s u v" using v by (auto simp: offer_def r(1))
    with True e imp(1) [OF u] show ?thesis by (simp add: r(1,2))
  next
    case False
    then obtain p where p: "dj_previous s x = Some p" "reached g s p" "HasEdge g p x" "lex_le (offer g s p x) (label s x)"
      using i(3) x r(6) by auto
    with imp(1) lex_le_trans [OF offer_improves [OF r(4) p(2)] p(4)] False show ?thesis by (simp add: r(1,2))
  qed
  moreover have "reached g ?s x \<and> fst (label ?s x) \<le> d" if "(x, d) \<in># pq_bag (dj_pq ?s)" for x d
    using that i(4) [of x d] imp [of x] r(5) by (auto simp: r(1,3) lex_le_def split: if_splits)
  moreover have "x \<in> X \<or> relaxed_on g ?s x {w. HasEdge g x w} \<or> (x, fst (label ?s x)) \<in># pq_bag (dj_pq ?s)"
    if "reached g ?s x" for x
    using that i(5) [of x] r(6) [of x] relaxed_on_improves [OF _ r(4), of x] by (cases "x = v") (auto simp: r(1,3))
  moreover have "label ?s from = (0, 0)" using i(1) v by (auto simp: r(1))
  ultimately show ?thesis unfolding dj_inv_def using r(7,8) by blast
next
  case False
  with inv show ?thesis by (simp add: relaxEdge_label [OF inv nn u e])
qed

lemma relaxEdge_effect:
  assumes "dj_inv g from X s" "weights_ok g" "reached g s u" "HasEdge g u v" "HasNode g from"
  shows "improves g s (relaxEdge fmt g u v s)" and "label (relaxEdge fmt g u v s) u = label s u"
    and "relaxed_on g (relaxEdge fmt g u v s) u {v}"
proof -
  note c = shouldUpdate_cases [OF assms(1-3,5), of fmt v]
  have "improves g s (relaxEdge fmt g u v s) \<and> label (relaxEdge fmt g u v s) u = label s u \<and> relaxed_on g (relaxEdge fmt g u v s) u {v}"
  proof (cases "shouldUpdate fmt s u v (fst (offer g s u v)) (snd (offer g s u v))")
    case True
    note r = relaxEdge_updates [OF assms True]
    have "offer g (relaxEdge fmt g u v s) u v = offer g s u v" using c(1) [OF True] by (auto simp: offer_def r(1))
    with r c(1) [OF True] show ?thesis by (auto simp: relaxed_on_def r(1))
  next
    case False
    with c(2) show ?thesis by (auto simp: relaxEdge_label [OF assms(1-4)] improves_def relaxed_on_def)
  qed
  then show "improves g s (relaxEdge fmt g u v s)" "label (relaxEdge fmt g u v s) u = label s u"
    "relaxed_on g (relaxEdge fmt g u v s) u {v}" by blast+
qed

section \<open>A step of the search\<close>

lemma improves_trans: "improves g s t \<Longrightarrow> improves g t w \<Longrightarrow> improves g s w"
  unfolding improves_def by (meson lex_le_trans)

lemma relaxed_on_Un: "relaxed_on g s u (A \<union> B) \<longleftrightarrow> relaxed_on g s u A \<and> relaxed_on g s u B"
  by (auto simp: relaxed_on_def)

lemma relax_fold:
  fixes fmt :: "'a \<Rightarrow> string"
  assumes "weights_ok g" "HasNode g from" "dj_inv g from X s" "reached g s u" "set vs \<subseteq> {v. HasEdge g u v}"
  defines "s' \<equiv> fold (relaxEdge fmt g u) vs s"
  shows "dj_inv g from X s' \<and> improves g s s' \<and> label s' u = label s u \<and> relaxed_on g s' u (set vs)"
  using assms(3-5) unfolding s'_def
proof (induction vs arbitrary: s)
  case Nil
  then show ?case by (simp add: improves_def relaxed_on_def)
next
  case (Cons v vs)
  have e: "HasEdge g u v" using Cons.prems(3) by simp
  let ?s = "relaxEdge fmt g u v s"
  note ef = relaxEdge_effect [OF Cons.prems(1) assms(1) Cons.prems(2) e assms(2), of fmt]
  have "reached g ?s u" using ef(1) Cons.prems(2) by (simp add: improves_def)
  with Cons.IH [OF relaxEdge_inv [OF Cons.prems(1) assms(1) Cons.prems(2) e assms(2)]] Cons.prems(3)
  have ih: "dj_inv g from X (fold (relaxEdge fmt g u) vs ?s)" "improves g ?s (fold (relaxEdge fmt g u) vs ?s)"
    "label (fold (relaxEdge fmt g u) vs ?s) u = label ?s u" "relaxed_on g (fold (relaxEdge fmt g u) vs ?s) u (set vs)"
    by auto
  have "relaxed_on g (fold (relaxEdge fmt g u) vs ?s) u ({v} \<union> set vs)"
    unfolding relaxed_on_Un using relaxed_on_improves [OF ef(3) ih(2,3)] ih(4) by blast
  with ih ef improves_trans [OF ef(1) ih(2)] show ?case by simp
qed

lemma dj_inv_done:
  "dj_inv g from {u} s \<Longrightarrow> relaxed_on g s u {v. HasEdge g u v} \<Longrightarrow> dj_inv g from {} s"
  unfolding dj_inv_def by blast

lemma dj_inv_pop:
  assumes "dj_inv g from {} s" "dj_pq s \<noteq> []" "pq_heapPop (dj_pq s) = (q, x)"
  defines "s' \<equiv> s\<lparr>dj_pq := q\<rparr>"
  shows "reached g s' (it_node x)" and "fst (label s' (it_node x)) \<le> it_priority x"
    and "fst (label s' (it_node x)) < it_priority x \<Longrightarrow> dj_inv g from {} s'"
    and "dj_inv g from {it_node x} s'"
proof -
  have b: "pq_bag (dj_pq s) = add_mset (it_core x) (pq_bag q)" by (rule pq_heapPop_bag [OF assms(2,3)])
  have l: "label s' = label s" "dj_previous s' = dj_previous s" "dj_distances s' = dj_distances s" "dj_hops s' = dj_hops s"
    "pq_bag (dj_pq s') = pq_bag q"
    by (simp_all add: s'_def label_def fun_eq_iff)
  have rr: "reached g s' = reached g s" "offer g s' = offer g s" "relaxed_on g s' = relaxed_on g s"
    by (simp_all add: reached_def offer_def relaxed_on_def l fun_eq_iff)
  have lb: "labelled_by g from s' = labelled_by g from s"
    by (simp add: labelled_by_def rr l fun_eq_iff)
  have i: "\<And>y d. (y, d) \<in># pq_bag (dj_pq s) \<Longrightarrow> reached g s y \<and> fst (label s y) \<le> d"
    "\<And>u. reached g s u \<Longrightarrow> relaxed_on g s u {v. HasEdge g u v} \<or> (u, fst (label s u)) \<in># pq_bag (dj_pq s)"
    using assms(1) unfolding dj_inv_def by blast+
  show "reached g s' (it_node x)" "fst (label s' (it_node x)) \<le> it_priority x"
    using i(1) [of "it_node x" "it_priority x"] by (simp_all add: b rr l)
  have q: "(y, d) \<in># pq_bag q \<Longrightarrow> reached g s y \<and> fst (label s y) \<le> d" for y d
    using i(1) [of y d] b by simp
  have "relaxed_on g s u {v. HasEdge g u v} \<or> (u, fst (label s u)) \<in># pq_bag q"
    if "reached g s u" "(u, fst (label s u)) \<noteq> it_core x" for u
    using i(2) [OF that(1)] that(2) b by auto
  note w = this
  show "dj_inv g from {} s'" if "fst (label s' (it_node x)) < it_priority x"
    using assms(1) q w that unfolding dj_inv_def rr lb l by fastforce
  show "dj_inv g from {it_node x} s'"
    using assms(1) q w unfolding dj_inv_def rr lb l by fastforce
qed

lemma targets_edges:
  assumes "g_wf g" "map_order it"
  shows "set (sort_key fmt (targets it g u)) = {v. HasEdge g u v}"
  using targets_set(1) [OF assms, of u] by (auto simp: g_rel_def)

lemma searchStep_inv:
  assumes "g_wf g" "map_order it" "weights_ok g" "HasNode g from" "dj_inv g from {} s" "dj_pq s \<noteq> []"
  shows "dj_inv g from {} (searchStep fmt it g s)"
proof -
  obtain q x where p: "pq_heapPop (dj_pq s) = (q, x)" by fastforce
  define s1 where "s1 = s\<lparr>dj_pq := q\<rparr>"
  note pop = dj_inv_pop [OF assms(5,6) p, folded s1_def]
  let ?u = "it_node x"
  show ?thesis
  proof (cases "it_priority x > readInt (dj_distances s1) ?u")
    case True
    then have "dj_inv g from {} s1" by (intro pop(3)) (simp add: label_def)
    with True show ?thesis by (simp add: searchStep_def p s1_def)
  next
    case False
    note f = relax_fold [OF assms(3,4) pop(4,1) equalityD1 [OF targets_edges [OF assms(1,2)]], of fmt fmt]
    have "dj_inv g from {} (fold (relaxEdge fmt g ?u) (sort_key fmt (targets it g ?u)) s1)"
      using f unfolding targets_edges [OF assms(1,2)] by (blast intro: dj_inv_done)
    with False show ?thesis by (simp add: searchStep_def p s1_def)
  qed
qed

section \<open>The search ends\<close>

text \<open>
  Each update improves the label of a node, or keeps it and takes a predecessor that prints smaller;
  a round without an update shortens the queue.
\<close>

definition progress :: "('a \<Rightarrow> string) \<Rightarrow> ('a, 'e) Graph \<Rightarrow> 'a search \<Rightarrow> 'a \<Rightarrow> nat \<times> nat \<times> nat \<times> nat" where
  "progress fmt g s x =
     (if fst (label s x) = -1 then (1, 0, 0, 0)
      else (0, nat (fst (label s x)), nat (snd (label s x)),
        (case dj_previous s x of
           None \<Rightarrow> Suc (card (g_nodes g))
         | Some p \<Rightarrow> card {n \<in> g_nodes g. fmt n < fmt p})))"

abbreviation lex4 :: "((nat \<times> nat \<times> nat \<times> nat) \<times> (nat \<times> nat \<times> nat \<times> nat)) set" where
  "lex4 \<equiv> less_than <*lex*> less_than <*lex*> less_than <*lex*> less_than"

definition dj_measure :: "('a \<Rightarrow> string) \<Rightarrow> ('a, 'e) Graph \<Rightarrow> 'a search \<Rightarrow> (nat \<times> nat \<times> nat \<times> nat) multiset" where
  "dj_measure fmt g s = image_mset (progress fmt g s) (mset_set (g_nodes g))"

lemma update_progress:
  assumes inv: "dj_inv g from X s" and nn: "weights_ok g" and u: "reached g s u" and e: "HasEdge g u v" and fr: "HasNode g from"
    and upd: "shouldUpdate fmt s u v (fst (offer g s u v)) (snd (offer g s u v))" and fin: "finite (g_nodes g)"
  shows "(progress fmt g (relaxEdge fmt g u v s) v, progress fmt g s v) \<in> lex4"
proof -
  note r = relaxEdge_updates [OF inv nn u e fr upd]
  note o = offer_nonneg [OF inv nn u, of v]
  note v = shouldUpdate_cases(1) [OF inv nn u fr upd]
  have p': "progress fmt g (relaxEdge fmt g u v s) v =
      (0, nat (fst (offer g s u v)), nat (snd (offer g s u v)), card {n \<in> g_nodes g. fmt n < fmt u})"
    using o(2) by (simp add: progress_def r(1,2))
  have un: "u \<in> g_nodes g" using u by (simp add: reached_def)
  show ?thesis
  proof (cases "reached g s v")
    case False
    with v have "fst (label s v) = -1" by (simp add: reached_def)
    then show ?thesis unfolding p' by (simp add: progress_def)
  next
    case True
    note l = reachedD [OF inv nn True]
    have pr: "card {n \<in> g_nodes g. fmt n < fmt u} < (case dj_previous s v of None \<Rightarrow> Suc (card (g_nodes g)) | Some p \<Rightarrow> card {n \<in> g_nodes g. fmt n < fmt p})"
      if "case dj_previous s v of None \<Rightarrow> True | Some prev \<Rightarrow> fmt u < fmt prev"
    proof (cases "dj_previous s v")
      case None
      have "card {n \<in> g_nodes g. fmt n < fmt u} \<le> card (g_nodes g)" using fin by (intro card_mono) auto
      with None show ?thesis by simp
    next
      case (Some p)
      with that have "fmt u < fmt p" by simp
      then have "{n \<in> g_nodes g. fmt n < fmt u} \<subset> {n \<in> g_nodes g. fmt n < fmt p}" using un by force
      with fin Some show ?thesis by (simp add: psubset_card_mono)
    qed
    have "fst (label s v) \<noteq> -1" using True by (simp add: reached_def)
    moreover have "snd (label s v) \<noteq> -1" using l(3) by simp
    ultimately show ?thesis
      using upd pr l o(2,4) unfolding p' shouldUpdate_label by (auto simp: progress_def)
  qed
qed

lemma relax_measure:
  assumes "dj_inv g from X s" "weights_ok g" "reached g s u" "HasEdge g u v" "HasNode g from" "finite (g_nodes g)"
  shows "relaxEdge fmt g u v s = s \<or> (dj_measure fmt g (relaxEdge fmt g u v s), dj_measure fmt g s) \<in> mult lex4"
proof (cases "shouldUpdate fmt s u v (fst (offer g s u v)) (snd (offer g s u v))")
  case True
  let ?s = "relaxEdge fmt g u v s" and ?R = "mset_set (g_nodes g - {v})"
  note r = relaxEdge_updates [OF assms(1-5) True]
  have v: "v \<in> g_nodes g" using shouldUpdate_cases(1) [OF assms(1-3,5) True] by blast
  have n: "mset_set (g_nodes g) = add_mset v ?R" using v assms(6) by (simp add: mset_set.remove)
  have "progress fmt g ?s x = progress fmt g s x" if "x \<noteq> v" for x
    using that by (simp add: progress_def r(1,2))
  then have "image_mset (progress fmt g ?s) ?R = image_mset (progress fmt g s) ?R"
    using assms(6) by (intro image_mset_cong) auto
  then have "dj_measure fmt g ?s = image_mset (progress fmt g s) ?R + {#progress fmt g ?s v#}"
    "dj_measure fmt g s = add_mset (progress fmt g s v) (image_mset (progress fmt g s) ?R)"
    by (simp_all add: dj_measure_def n)
  then have "(dj_measure fmt g ?s, dj_measure fmt g s) \<in> mult1 lex4"
    using update_progress [OF assms(1-5) True assms(6)] by (intro mult1I) auto
  then show ?thesis unfolding mult_def by blast
next
  case False
  then show ?thesis by (simp add: relaxEdge_label [OF assms(1-4)])
qed

lemma fold_measure:
  assumes "weights_ok g" "HasNode g from" "finite (g_nodes g)" "dj_inv g from X s" "reached g s u" "set vs \<subseteq> {v. HasEdge g u v}"
  shows "fold (relaxEdge fmt g u) vs s = s \<or> (dj_measure fmt g (fold (relaxEdge fmt g u) vs s), dj_measure fmt g s) \<in> mult lex4"
  using assms(4-6)
proof (induction vs arbitrary: s)
  case (Cons v vs)
  have e: "HasEdge g u v" using Cons.prems(3) by simp
  let ?s = "relaxEdge fmt g u v s"
  have "reached g ?s u"
    using relaxEdge_effect(1) [OF Cons.prems(1) assms(1) Cons.prems(2) e assms(2)] Cons.prems(2) by (simp add: improves_def)
  then have ih: "fold (relaxEdge fmt g u) vs ?s = ?s \<or>
      (dj_measure fmt g (fold (relaxEdge fmt g u) vs ?s), dj_measure fmt g ?s) \<in> mult lex4"
    using Cons.prems(3) by (intro Cons.IH relaxEdge_inv [OF Cons.prems(1) assms(1) Cons.prems(2) e assms(2)]) simp_all
  have t: "trans (mult lex4)" by (simp add: mult_def)
  from ih relax_measure [OF Cons.prems(1) assms(1) Cons.prems(2) e assms(2,3), of fmt] show ?case
    unfolding fold_Cons comp_def by (metis transD [OF t])
qed simp

lemma searchStep_decreases:
  assumes "g_wf g" "map_order it" "weights_ok g" "HasNode g from" "dj_inv g from {} s" "dj_pq s \<noteq> []"
  shows "((dj_measure fmt g (searchStep fmt it g s), length (dj_pq (searchStep fmt it g s))),
      (dj_measure fmt g s, length (dj_pq s))) \<in> mult lex4 <*lex*> less_than"
proof -
  obtain q x where p: "pq_heapPop (dj_pq s) = (q, x)" by fastforce
  define s1 where "s1 = s\<lparr>dj_pq := q\<rparr>"
  note pop = dj_inv_pop [OF assms(5,6) p, folded s1_def]
  have m: "dj_measure fmt g s1 = dj_measure fmt g s"
    unfolding dj_measure_def by (intro image_mset_cong) (simp add: progress_def label_def s1_def)
  have l: "length (dj_pq s1) < length (dj_pq s)" using pq_heapPop_bag(2) [OF assms(6) p] by (simp add: s1_def)
  have fin: "finite (g_nodes g)" using assms(1) by (simp add: g_wf_def)
  have "searchStep fmt it g s = s1 \<or> (dj_measure fmt g (searchStep fmt it g s), dj_measure fmt g s1) \<in> mult lex4"
    using fold_measure [OF assms(3,4) fin pop(4,1) equalityD1 [OF targets_edges [OF assms(1,2)]], of fmt fmt]
    by (auto simp: searchStep_def p s1_def Let_def)
  with m l show ?thesis by auto
qed

lemma searchLoop_returns:
  assumes "g_wf g" "map_order it" "weights_ok g" "HasNode g from" "dj_inv g from {} s"
  shows "\<exists>s'. searchLoop fmt it g s = Some s' \<and> dj_inv g from {} s' \<and> dj_pq s' = []"
proof -
  have "wf (mult lex4 <*lex*> less_than)" by (intro wf_lex_prod wf_mult wf_less_than)
  then have "wf (inv_image (mult lex4 <*lex*> less_than) (\<lambda>s. (dj_measure fmt g s, length (dj_pq s))))" by (rule wf_inv_image)
  then show ?thesis
    using assms(5)
  proof (induction s rule: wf_induct_rule)
    case (less s)
    show ?case
    proof (cases "dj_pq s = []")
      case True
      with less.prems show ?thesis by (simp add: searchLoop.simps pq_Len_def)
    next
      case False
      with less.IH [of "searchStep fmt it g s"] searchStep_inv [OF assms(1-4) less.prems False]
        searchStep_decreases [OF assms(1-4) less.prems False, of fmt]
      show ?thesis by (simp add: searchLoop.simps [of fmt it g s] pq_Len_def)
    qed
  qed
qed

section \<open>Paths\<close>

text \<open>When the queue is empty every label is least.\<close>

lemma label_least:
  assumes "dj_inv g from {} s" "dj_pq s = []" "HasNode g from" "reach_by g from x c k"
  shows "reached g s x \<and> lex_le (label s x) (c, k)"
  using assms(4)
proof induction
  case start
  then show ?case using assms(1,3) by (simp add: dj_inv_def reached_def HasNode_def)
next
  case (step x c k y)
  have "relaxed_on g s x {v. HasEdge g x v}"
    using assms(1,2) step.IH unfolding dj_inv_def pq_bag_def by auto
  with step have y: "reached g s y" "lex_le (label s y) (offer g s x y)" by (auto simp: relaxed_on_def)
  have "lex_le (offer g s x y) (c + edgeWeight g x y, k + 1)"
    using step.IH lex_le_add [of "fst (label s x)" "snd (label s x)" c k] by (simp add: offer_def)
  with y lex_le_trans show ?case by blast
qed

lemma previous_exact:
  assumes "dj_inv g from {} s" "dj_pq s = []" "reached g s x" "x \<noteq> from"
  obtains p where "dj_previous s x = Some p" "reached g s p" "HasEdge g p x" "offer g s p x = label s x"
proof -
  obtain p where p: "dj_previous s x = Some p" "reached g s p" "HasEdge g p x" "lex_le (offer g s p x) (label s x)"
    using assms(1,3,4) unfolding dj_inv_def by blast
  have "relaxed_on g s p {v. HasEdge g p v}" using assms(1,2) p(2) unfolding dj_inv_def pq_bag_def by auto
  then have "lex_le (label s x) (offer g s p x)" using p(3) assms(3) by (auto simp: relaxed_on_def reached_def)
  with that p lex_le_antisym show thesis by blast
qed

lemma buildPath_ok:
  assumes "dj_inv g from {} s" "dj_pq s = []" "weights_ok g" "reached g s x"
  shows "\<exists>p. buildPath zero (dj_previous s) from x acc = Some (p @ acc) \<and> is_path g from x p \<and>
     walkCost g p = fst (label s x) \<and> int (length p) = snd (label s x) + 1"
  using assms(4)
proof (induction "nat (snd (label s x))" arbitrary: x acc rule: less_induct)
  case less
  have f: "label s from = (0, 0)" using assms(1) by (simp add: dj_inv_def)
  show ?case
  proof (cases "x = from")
    case True
    with f less.prems show ?thesis
      by (intro exI [of _ "[x]"]) (simp add: buildPath.simps is_path_def reached_def)
  next
    case False
    then obtain p where p: "dj_previous s x = Some p" "reached g s p" "HasEdge g p x" "offer g s p x = label s x"
      by (rule previous_exact [OF assms(1,2) less.prems])
    have l: "label s x = (fst (label s p) + edgeWeight g p x, snd (label s p) + 1)" using p(4) by (simp add: offer_def)
    have "nat (snd (label s p)) < nat (snd (label s x))" using reachedD [OF assms(1,3) p(2)] by (simp add: l)
    from less.hyps [OF this p(2), of "x # acc"] obtain q where q: "buildPath zero (dj_previous s) from p (x # acc) = Some (q @ x # acc)"
      "is_path g from p q" "walkCost g q = fst (label s p)" "int (length q) = snd (label s p) + 1" by blast
    have qn: "q \<noteq> []" "last q = p" using q(2) by (auto simp: is_path_def)
    have "is_path g from x (q @ [x])" using qn q(2) p(3) less.prems by (simp add: is_path_snoc reached_def)
    moreover have "buildPath zero (dj_previous s) from x acc = Some ((q @ [x]) @ acc)"
      using False p(1) q(1) by (simp add: buildPath.simps [of _ _ _ x])
    ultimately show ?thesis using qn q(3,4) l by (intro exI [of _ "q @ [x]"]) (simp add: walkCost_snoc)
  qed
qed

section \<open>The shortest path\<close>

lemma initNode_fields:
  "dj_distances (initNode from n s) = (dj_distances s)(n \<mapsto> if n = from then 0 else -1)"
  "dj_hops (initNode from n s) = (dj_hops s)(n \<mapsto> if n = from then 0 else -1)"
  "dj_previous (initNode from n s) = dj_previous s"
  "pq_bag (dj_pq (initNode from n s)) = pq_bag (dj_pq s) + (if n = from then {#(from, 0)#} else {#})"
  by (simp_all add: initNode_def pq_heapPush_bag)

lemma fold_initNode:
  "dj_distances (fold (initNode from) xs s) = (\<lambda>x. if x \<in> set xs then Some (if x = from then 0 else -1) else dj_distances s x)"
  "dj_hops (fold (initNode from) xs s) = (\<lambda>x. if x \<in> set xs then Some (if x = from then 0 else -1) else dj_hops s x)"
  "dj_previous (fold (initNode from) xs s) = dj_previous s"
  by (induction xs arbitrary: s) (simp_all add: initNode_fields fun_eq_iff)

lemma fold_initNode_bag:
  "distinct xs \<Longrightarrow> pq_bag (dj_pq (fold (initNode from) xs s)) = pq_bag (dj_pq s) + (if from \<in> set xs then {#(from, 0)#} else {#})"
  by (induction xs arbitrary: s) (auto simp: initNode_fields)

lemma init_inv:
  assumes "g_wf g" "map_order it" "HasNode g from"
  shows "dj_inv g from {} (fold (initNode from) (it (g_nodes g))
     \<lparr>dj_distances = Map.empty, dj_hops = Map.empty, dj_previous = Map.empty, dj_pq = []\<rparr>)"
proof -
  define s where "s = fold (initNode from) (it (g_nodes g))
     \<lparr>dj_distances = Map.empty, dj_hops = Map.empty, dj_previous = Map.empty, dj_pq = []\<rparr>"
  have fin: "finite (g_nodes g)" using assms(1) by (simp add: g_wf_def)
  have N: "set (it (g_nodes g)) = g_nodes g" by (rule map_order_set [OF assms(2) fin])
  note f = fold_initNode [of "from" "it (g_nodes g)" "\<lparr>dj_distances = Map.empty, dj_hops = Map.empty, dj_previous = Map.empty, dj_pq = []\<rparr>",
      folded s_def, unfolded N]
  have fr: "from \<in> g_nodes g" using assms(3) by (simp add: HasNode_def)
  have l: "label s x = (if x \<in> g_nodes g then if x = from then (0, 0) else (-1, -1) else (0, 0))" for x
    by (simp add: label_def readInt_def f(1,2))
  have r: "reached g s x \<longleftrightarrow> x = from" for x using fr by (simp add: reached_def l)
  have b: "pq_bag (dj_pq s) = {#(from, 0)#}" using fr unfolding s_def fold_initNode_bag [OF map_order_distinct [OF assms(2) fin]] N by (simp add: pq_bag_def)
  have "dom (dj_distances s) = g_nodes g" "dom (dj_hops s) = g_nodes g" by (auto simp: f(1,2) split: if_splits)
  moreover have "labelled_by g from s from [from]"
    using fr by (auto simp: labelled_by_def is_path_def l r append_eq_Cons_conv Cons_eq_append_conv)
  ultimately have "dj_inv g from {} s"
    unfolding dj_inv_def r using b l fr by auto
  then show ?thesis by (simp add: s_def)
qed

text \<open>
  C29. On a graph whose weights are not negative and add up to a Go \<^verbatim>\<open>int\<close> (below \<open>2 ^ 63\<close>), and for two
  nodes of it, \<^const>\<open>ShortestPath\<close> always returns: a path through nodes from the one to the other, with
  its cost, such that no other path is cheaper and none of the same cost has fewer edges; or, exactly
  when there is no path, that error. No sum of the search wraps under that bound.
\<close>

theorem ShortestPath_optimal:
  assumes "g_wf g" "map_order it" "weights_ok g" "HasNode g from" "HasNode g to"
  shows "(\<exists>path. ShortestPath fmt it zero g from to = Some (Inr path) \<and>
        is_path g from to (pa_Nodes path) \<and> pa_Cost path = walkCost g (pa_Nodes path) \<and>
        (\<forall>q. is_path g from to q \<longrightarrow> pa_Cost path < walkCost g q \<or>
           pa_Cost path = walkCost g q \<and> length (pa_Nodes path) \<le> length q)) \<or>
     (ShortestPath fmt it zero g from to = Some (Inl (NoPathExists from to)) \<and> \<not> (\<exists>q. is_path g from to q))"
proof -
  obtain s where s: "searchLoop fmt it g (fold (initNode from) (it (g_nodes g))
      \<lparr>dj_distances = Map.empty, dj_hops = Map.empty, dj_previous = Map.empty, dj_pq = []\<rparr>) = Some s"
    "dj_inv g from {} s" "dj_pq s = []"
    using searchLoop_returns [OF assms(1-4) init_inv [OF assms(1,2,4)]] by blast
  note least = label_least [OF s(2,3) assms(4) path_reach]
  show ?thesis
  proof (cases "reached g s to")
    case True
    obtain p where p: "buildPath zero (dj_previous s) from to [] = Some p" "is_path g from to p"
      "walkCost g p = fst (label s to)" "int (length p) = snd (label s to) + 1"
      using buildPath_ok [OF s(2,3) assms(3) True, of zero "[]"] by auto
    let ?path = "\<lparr>pa_Nodes = p, pa_Cost = readInt (dj_distances s) to\<rparr>"
    have c: "readInt (dj_distances s) to = fst (label s to)" by (simp add: label_def)
    have "ShortestPath fmt it zero g from to = Some (Inr ?path)"
      using assms(4,5) s(1) p(1) True by (simp add: ShortestPath_def c reached_def)
    moreover have "pa_Cost ?path < walkCost g q \<or> pa_Cost ?path = walkCost g q \<and> length p \<le> length q" if "is_path g from to q" for q
      using least [OF that] p(4) by (auto simp: lex_le_def c)
    ultimately show ?thesis using p(2,3) c by auto
  next
    case False
    then have "readInt (dj_distances s) to = -1" using assms(5) by (simp add: reached_def label_def HasNode_def)
    with s(1) assms(4,5) have "ShortestPath fmt it zero g from to = Some (Inl (NoPathExists from to))" by (simp add: ShortestPath_def)
    with False least show ?thesis by blast
  qed
qed

theorem ShortestPath_optimal_witness:
  "g_wf diamond \<and> map_order (sorted_list_of_set :: nat set \<Rightarrow> nat list) \<and> weights_ok diamond \<and> HasNode diamond 1 \<and> HasNode diamond 4 \<and>
   (\<exists>path. ShortestPath nat_digits sorted_list_of_set 0 diamond 1 4 = Some (Inr path) \<and>
      is_path diamond 1 4 (pa_Nodes path) \<and> pa_Cost path \<le> 2)"
proof -
  have W: "edgeWeight diamond a b = (if (a, b) \<in> {(1, 2), (1, 3), (2, 4), (3, 4)} then 1 else 0)" for a b
    by (auto simp: edgeWeight_def GetEdge_def diamond_def AddEdge_def AddNode_def graph_New_def split: if_splits option.splits)
  have "nonneg diamond" by (auto simp: nonneg_def diamond_def GetEdge_def AddEdge_def AddNode_def graph_New_def split: if_splits option.splits)
  moreover have "(\<Sum>(a, b) \<in> g_rel diamond. edgeWeight diamond a b) = 4" by (simp add: diamond_facts(2) W)
  moreover have "finite (g_nodes diamond)" "card (g_nodes diamond) = 4" by (simp_all add: diamond_facts)
  ultimately have n: "weights_ok diamond" using finite_g_rel [OF diamond_facts(1)] by (simp add: weights_ok_def)
  have h: "HasNode diamond 1" "HasNode diamond 4" by (simp_all add: HasNode_def diamond_facts)
  have e: "HasEdge diamond 1 2" "HasEdge diamond 2 4" using diamond_facts(2) by (auto simp: g_rel_def)
  have p: "is_path diamond 1 4 [1, 2, 4]" using e by (simp add: is_path_def diamond_facts)
  have c: "walkCost diamond [1, 2, 4] = 2"
    by (simp add: edgeWeight_def GetEdge_def diamond_def AddEdge_def AddNode_def graph_New_def)
  from ShortestPath_optimal [OF diamond_facts(1) map_order_sorted n h, of nat_digits 0] p c show ?thesis
    using n h diamond_facts(1) map_order_sorted by (metis order_less_imp_le order_refl)
qed

end
