(* ===== verification/Reg_Entry.thy ===== *)
theory Reg_Entry
  imports Go_Strings "HOL-Library.Product_Lexorder"
begin

text \<open>
  Registry entries and the operations that change them: identifiers
  (\<^verbatim>\<open>src/api/registry/id.go\<close>), validation and application of an operation, its inverse, and the
  reversal and the squashing of changesets (\<^verbatim>\<open>src/system/registry/topology/state_builder.go\<close>,
  \<^verbatim>\<open>state_map.go\<close>).

  An identifier keeps the cached string of its Go struct, since map keys are compared field by field. Of
  the metadata of an entry the topology reads two string slices, groups and depends-on; they are
  fields here. The payload is a type parameter. The order of map iterations is the argument \<open>it\<close>.
\<close>

section \<open>Identifiers\<close>

record RegID =
  rid_NS :: string
  rid_Name :: string
  rid_str :: string

definition parseIDString :: "string \<Rightarrow> RegID" where
  "parseIDString s =
     (if CHR '':'' \<in> set s
      then \<lparr>rid_NS = takeWhile (\<lambda>c. c \<noteq> CHR '':'') s, rid_Name = tl (dropWhile (\<lambda>c. c \<noteq> CHR '':'') s), rid_str = s\<rparr>
      else \<lparr>rid_NS = [], rid_Name = s, rid_str = '':'' @ s\<rparr>)"

definition NewID :: "string \<Rightarrow> string \<Rightarrow> RegID" where
  "NewID ns name = \<lparr>rid_NS = ns, rid_Name = name, rid_str = ns @ '':'' @ name\<rparr>"

definition canonicalIDParts :: "RegID \<Rightarrow> string \<times> string" where
  "canonicalIDParts i =
     (if rid_NS i = [] \<and> CHR '':'' \<in> set (rid_Name i)
      then let parsed = parseIDString (rid_Name i) in (rid_NS parsed, rid_Name parsed)
      else (rid_NS i, rid_Name i))"

definition isJoinedID :: "string \<Rightarrow> string \<Rightarrow> string \<Rightarrow> bool" where
  "isJoinedID s ns name \<longleftrightarrow>
     length s = length ns + 1 + length name \<and> s ! length ns = CHR '':'' \<and>
     take (length ns) s = ns \<and> drop (length s - length name) s = name"

definition Canonical :: "RegID \<Rightarrow> RegID" where
  "Canonical i =
     (let (ns, name) = canonicalIDParts i
      in if rid_NS i = ns \<and> rid_Name i = name \<and> isJoinedID (rid_str i) ns name then i else NewID ns name)"

definition ID_String :: "RegID \<Rightarrow> string" where
  "ID_String i = (if rid_str i \<noteq> [] then rid_str i else rid_NS i @ '':'' @ rid_Name i)"

definition ID_Equal :: "RegID \<Rightarrow> RegID \<Rightarrow> bool" where
  "ID_Equal i j \<longleftrightarrow> canonicalIDParts i = canonicalIDParts j"

definition WithDefaultNS :: "string \<Rightarrow> RegID \<Rightarrow> RegID" where
  "WithDefaultNS defaultNS i = (if rid_NS i \<noteq> [] then i else NewID defaultNS (rid_Name i))"

section \<open>Entries, operations and states\<close>

record 'd RegEntry =
  re_ID :: RegID
  re_Kind :: string
  re_groups :: "string list"
  re_dependsOn :: "string list"
  re_Owner :: string
  re_Root :: bool
  re_Data :: 'd

definition EntryCreate :: string where "EntryCreate = ''entry.create''"
definition EntryUpdate :: string where "EntryUpdate = ''entry.update''"
definition EntryDelete :: string where "EntryDelete = ''entry.delete''"

record 'd RegOp =
  ro_Original :: "'d RegEntry option"
  ro_Kind :: string
  ro_Entry :: "'d RegEntry"

type_synonym 'd StateMap = "RegID \<rightharpoonup> 'd RegEntry"

datatype reg_error =
    EntryExists string string
  | EntryNotExists string string
  | KindChange string string string string
  | DeleteNonExistent string string
  | UnknownOperationKind string
  | InvalidOperation reg_error
  | OriginalEntryNotFound string string
  | DuplicateEntryID string string string
  | ReplacementDependencyCycle "string list"

definition NewStateMap :: "'d RegEntry list \<Rightarrow> 'd StateMap" where
  "NewStateMap state = fold (\<lambda>entry m. m(re_ID entry \<mapsto> entry)) state Map.empty"

text \<open>
  \<^verbatim>\<open>StateMapToSlice\<close>: the entries ordered by namespace, then name. \<^verbatim>\<open>slices.SortFunc\<close> need not be
  stable; entries with equal keys keep the order of the iteration.
\<close>

definition StateMapToSlice :: "(RegID set \<Rightarrow> RegID list) \<Rightarrow> 'd StateMap \<Rightarrow> 'd RegEntry list" where
  "StateMapToSlice it sm =
     sort_key (\<lambda>e. (rid_NS (re_ID e), rid_Name (re_ID e))) (List.map_filter sm (it (dom sm)))"

section \<open>Applying operations\<close>

definition ValidateOperation :: "'d StateMap \<Rightarrow> 'd RegOp \<Rightarrow> reg_error option" where
  "ValidateOperation state op =
     (let i = re_ID (ro_Entry op)
      in if ro_Kind op = EntryCreate
         then (if state i \<noteq> None then Some (EntryExists (rid_NS i) (rid_Name i)) else None)
         else if ro_Kind op = EntryUpdate
         then (case state i of
                 None \<Rightarrow> Some (EntryNotExists (rid_NS i) (rid_Name i))
               | Some existing \<Rightarrow>
                   if re_Kind existing \<noteq> re_Kind (ro_Entry op)
                   then Some (KindChange (rid_NS i) (rid_Name i) (re_Kind existing) (re_Kind (ro_Entry op)))
                   else None)
         else if ro_Kind op = EntryDelete
         then (if state i = None then Some (DeleteNonExistent (rid_NS i) (rid_Name i)) else None)
         else Some (UnknownOperationKind (ro_Kind op)))"

definition applyValidatedOperation :: "'d StateMap \<Rightarrow> 'd RegOp \<Rightarrow> 'd StateMap" where
  "applyValidatedOperation state op =
     (if ro_Kind op = EntryCreate \<or> ro_Kind op = EntryUpdate then state(re_ID (ro_Entry op) \<mapsto> ro_Entry op)
      else if ro_Kind op = EntryDelete then state(re_ID (ro_Entry op) := None)
      else state)"

definition ApplyOperation :: "'d StateMap \<Rightarrow> 'd RegOp \<Rightarrow> reg_error + 'd StateMap" where
  "ApplyOperation state op =
     (case ValidateOperation state op of
        Some e \<Rightarrow> Inl (InvalidOperation e)
      | None \<Rightarrow> Inr (applyValidatedOperation state op))"

text \<open>Replaying a changeset, as \<^verbatim>\<open>BuildState\<close> does: the first error ends the replay.\<close>

primrec replayOperations :: "'d RegOp list \<Rightarrow> 'd StateMap \<Rightarrow> reg_error + 'd StateMap" where
  "replayOperations [] state = Inr state"
| "replayOperations (op # ops) state =
     (case ApplyOperation state op of
        Inl e \<Rightarrow> Inl e
      | Inr state \<Rightarrow> replayOperations ops state)"

section \<open>Reversal\<close>

definition GetInverseOperation :: "'d RegOp \<Rightarrow> reg_error + 'd RegOp" where
  "GetInverseOperation op =
     (let i = re_ID (ro_Entry op)
      in if ro_Kind op = EntryCreate
         then Inr \<lparr>ro_Original = None, ro_Kind = EntryDelete, ro_Entry = ro_Entry op\<rparr>
         else if ro_Kind op = EntryUpdate
         then (case ro_Original op of
                 None \<Rightarrow> Inl (OriginalEntryNotFound (rid_NS i) (rid_Name i))
               | Some e \<Rightarrow> Inr \<lparr>ro_Original = None, ro_Kind = EntryUpdate, ro_Entry = e\<rparr>)
         else if ro_Kind op = EntryDelete
         then (case ro_Original op of
                 None \<Rightarrow> Inl (OriginalEntryNotFound (rid_NS i) (rid_Name i))
               | Some e \<Rightarrow> Inr \<lparr>ro_Original = None, ro_Kind = EntryCreate, ro_Entry = e\<rparr>)
         else Inl (UnknownOperationKind (ro_Kind op)))"

text \<open>Operations without an inverse are logged and left out.\<close>

definition ReverseChangeset :: "'d RegOp list \<Rightarrow> 'd RegOp list" where
  "ReverseChangeset changeset =
     fold (\<lambda>op reversed. case GetInverseOperation op of Inl _ \<Rightarrow> reversed | Inr op' \<Rightarrow> reversed @ [op'])
       (rev changeset) []"

text \<open>
  \<^verbatim>\<open>Reg.enrichChangeset\<close>: before a changeset is stored, updates and deletes get the entries of the
  committed state.
\<close>

definition enrichOp :: "'d StateMap \<Rightarrow> 'd RegOp \<Rightarrow> 'd RegOp" where
  "enrichOp stateMap op =
     (if ro_Kind op = EntryUpdate \<or> ro_Kind op = EntryDelete
      then (case stateMap (re_ID (ro_Entry op)) of
              Some originalEntry \<Rightarrow> op\<lparr>ro_Original := Some originalEntry\<rparr>
            | None \<Rightarrow> op)
      else op)"

definition enrichChangeset :: "'d RegEntry list \<Rightarrow> 'd RegOp list \<Rightarrow> 'd RegOp list" where
  "enrichChangeset state changes = map (enrichOp (NewStateMap state)) changes"

section \<open>Squashing\<close>

definition squashOp :: "'d RegOp \<Rightarrow> (RegID \<rightharpoonup> 'd RegOp) \<Rightarrow> RegID \<rightharpoonup> 'd RegOp" where
  "squashOp op operations =
     (let i = re_ID (ro_Entry op)
      in case operations i of
           None \<Rightarrow> operations(i \<mapsto> op)
         | Some existing \<Rightarrow>
             if ro_Kind existing = EntryCreate
             then (if ro_Kind op = EntryUpdate
                   then operations(i \<mapsto> \<lparr>ro_Original = None, ro_Kind = EntryCreate, ro_Entry = ro_Entry op\<rparr>)
                   else if ro_Kind op = EntryDelete then operations(i := None)
                   else if ro_Kind op = EntryCreate then operations(i \<mapsto> op)
                   else operations)
             else if ro_Kind existing = EntryUpdate
             then (if ro_Kind op = EntryUpdate \<or> ro_Kind op = EntryDelete \<or> ro_Kind op = EntryCreate
                   then operations(i \<mapsto> op)
                   else operations)
             else if ro_Kind existing = EntryDelete
             then (if ro_Kind op = EntryCreate
                   then (if re_Kind (ro_Entry existing) = re_Kind (ro_Entry op)
                         then operations(i \<mapsto> \<lparr>ro_Original = None, ro_Kind = EntryUpdate, ro_Entry = ro_Entry op\<rparr>)
                         else operations(i \<mapsto> op))
                   else if ro_Kind op = EntryUpdate
                   then operations(i \<mapsto> \<lparr>ro_Original = None, ro_Kind = EntryCreate, ro_Entry = ro_Entry op\<rparr>)
                   else operations)
             else operations)"

definition squashAll :: "'d RegOp list list \<Rightarrow> RegID \<rightharpoonup> 'd RegOp" where
  "squashAll changesets = fold squashOp (concat changesets) Map.empty"

definition opSortKey :: "'d RegOp \<Rightarrow> string \<times> string \<times> string" where
  "opSortKey op = (rid_NS (re_ID (ro_Entry op)), rid_Name (re_ID (ro_Entry op)), ro_Kind op)"

definition squashedList :: "(RegID set \<Rightarrow> RegID list) \<Rightarrow> 'd RegOp list list \<Rightarrow> 'd RegOp list" where
  "squashedList it changesets =
     (let operations = squashAll changesets
      in sort_key opSortKey (List.map_filter operations (it (dom operations))))"

section \<open>Duplicate identifiers\<close>

definition normalizedID :: "RegID \<Rightarrow> RegID" where
  "normalizedID i =
     (let (ns, name) =
            (if trimSpace (rid_NS i) = [] \<and> CHR '':'' \<in> set (rid_Name i)
             then let parsed = parseIDString (rid_Name i)
                  in if rid_NS parsed \<noteq> [] \<or> rid_Name parsed \<noteq> [] then (rid_NS parsed, rid_Name parsed)
                     else (rid_NS i, rid_Name i)
             else (rid_NS i, rid_Name i))
      in NewID (trimSpace ns) (trimSpace name))"

fun firstDuplicate_loop :: "RegID set \<Rightarrow> 'd RegEntry list \<Rightarrow> RegID option" where
  "firstDuplicate_loop seen [] = None"
| "firstDuplicate_loop seen (entry # rest) =
     (let i = normalizedID (re_ID entry)
      in if i \<in> seen then Some i else firstDuplicate_loop (insert i seen) rest)"

definition firstDuplicateID :: "'d RegEntry list \<Rightarrow> RegID option" where
  "firstDuplicateID state = firstDuplicate_loop {} state"

definition ValidateUniqueEntryIDs :: "string \<Rightarrow> 'd RegEntry list \<Rightarrow> reg_error option" where
  "ValidateUniqueEntryIDs side state =
     (case firstDuplicateID state of
        None \<Rightarrow> None
      | Some dup \<Rightarrow> Some (DuplicateEntryID side (rid_NS dup) (rid_Name dup)))"

section \<open>Application\<close>

abbreviation opID :: "'d RegOp \<Rightarrow> RegID" where
  "opID op \<equiv> re_ID (ro_Entry op)"

lemma op_kinds [simp]:
  "EntryCreate \<noteq> EntryUpdate" "EntryUpdate \<noteq> EntryCreate" "EntryCreate \<noteq> EntryDelete" "EntryDelete \<noteq> EntryCreate"
  "EntryUpdate \<noteq> EntryDelete" "EntryDelete \<noteq> EntryUpdate"
  by (simp_all add: EntryCreate_def EntryUpdate_def EntryDelete_def)

lemma ApplyOperation_Inr:
  "ApplyOperation st op = Inr st' \<longleftrightarrow>
     (ro_Kind op = EntryCreate \<and> st (opID op) = None \<and> st' = st(opID op \<mapsto> ro_Entry op)) \<or>
     (ro_Kind op = EntryUpdate \<and> (\<exists>old. st (opID op) = Some old \<and> re_Kind old = re_Kind (ro_Entry op)) \<and>
        st' = st(opID op \<mapsto> ro_Entry op)) \<or>
     (ro_Kind op = EntryDelete \<and> st (opID op) \<noteq> None \<and> st' = st(opID op := None))"
  by (auto simp: ApplyOperation_def ValidateOperation_def applyValidatedOperation_def Let_def split: option.splits if_splits)

lemma ApplyOperation_cases [consumes 1, case_names create update delete]:
  assumes "ApplyOperation st op = Inr st'"
  obtains "ro_Kind op = EntryCreate" "st (opID op) = None" "st' = st(opID op \<mapsto> ro_Entry op)"
  | old where "ro_Kind op = EntryUpdate" "st (opID op) = Some old" "re_Kind old = re_Kind (ro_Entry op)" "st' = st(opID op \<mapsto> ro_Entry op)"
  | old where "ro_Kind op = EntryDelete" "st (opID op) = Some old" "st' = st(opID op := None)"
  using assms unfolding ApplyOperation_Inr not_None_eq by (elim disjE conjE exE) simp_all

lemma replayOperations_append:
  "replayOperations (xs @ ys) st = (case replayOperations xs st of Inl e \<Rightarrow> Inl e | Inr st' \<Rightarrow> replayOperations ys st')"
  by (induction xs arbitrary: st) (auto split: sum.splits)

lemma ApplyOperation_other: "ApplyOperation st op = Inr st' \<Longrightarrow> j \<noteq> opID op \<Longrightarrow> st' j = st j"
  by (auto simp: ApplyOperation_Inr)

definition state_ok :: "'d StateMap \<Rightarrow> bool" where
  "state_ok st \<longleftrightarrow> (\<forall>i e. st i = Some e \<longrightarrow> re_ID e = i)"

lemma state_ok_apply: "state_ok st \<Longrightarrow> ApplyOperation st op = Inr st' \<Longrightarrow> state_ok st'"
  by (auto simp: ApplyOperation_Inr state_ok_def split: if_splits)

section \<open>Reversing a changeset restores the state\<close>

text \<open>The operations carry the entries they replaced, as the transaction runner records them.\<close>

fun recorded :: "'d RegOp list \<Rightarrow> 'd StateMap \<Rightarrow> bool" where
  "recorded [] st = True"
| "recorded (op # ops) st \<longleftrightarrow>
     (ro_Kind op = EntryCreate \<or> ro_Original op = st (opID op)) \<and>
     (case ApplyOperation st op of Inl _ \<Rightarrow> True | Inr st' \<Rightarrow> recorded ops st')"

lemma ReverseChangeset_Cons:
  "ReverseChangeset (op # ops) = ReverseChangeset ops @ (case GetInverseOperation op of Inl _ \<Rightarrow> [] | Inr op' \<Rightarrow> [op'])"
  by (simp add: ReverseChangeset_def split: sum.split)

lemma inverse_applies:
  assumes "state_ok st" "ApplyOperation st op = Inr st'" "ro_Kind op = EntryCreate \<or> ro_Original op = st (opID op)"
  shows "\<exists>op'. GetInverseOperation op = Inr op' \<and> ApplyOperation st' op' = Inr st"
  using assms(2)
proof (cases rule: ApplyOperation_cases)
  case create
  then show ?thesis by (auto simp: GetInverseOperation_def ApplyOperation_Inr fun_eq_iff)
next
  case (update old)
  then have "re_ID old = opID op" using assms(1) by (simp add: state_ok_def)
  with update assms(3) show ?thesis by (auto simp: GetInverseOperation_def ApplyOperation_Inr fun_eq_iff)
next
  case (delete old)
  then have "re_ID old = opID op" using assms(1) by (simp add: state_ok_def)
  with delete assms(3) show ?thesis by (auto simp: GetInverseOperation_def ApplyOperation_Inr fun_eq_iff)
qed

lemma reverse_recorded:
  assumes "state_ok st" "replayOperations ops st = Inr st'" "recorded ops st"
  shows "replayOperations (ReverseChangeset ops) st' = Inr st \<and> length (ReverseChangeset ops) = length ops"
  using assms
proof (induction ops arbitrary: st)
  case Nil
  then show ?case by (simp add: ReverseChangeset_def)
next
  case (Cons op ops)
  then obtain st1 where st1: "ApplyOperation st op = Inr st1" "replayOperations ops st1 = Inr st'" "recorded ops st1"
    by (auto split: sum.splits)
  obtain op' where op': "GetInverseOperation op = Inr op'" "ApplyOperation st1 op' = Inr st"
    using inverse_applies [OF Cons.prems(1) st1(1)] Cons.prems(3) by auto
  from Cons.IH [OF state_ok_apply [OF Cons.prems(1) st1(1)] st1(2,3)] op' show ?case
    by (simp add: ReverseChangeset_Cons replayOperations_append)
qed

text \<open>
  A changeset updates or deletes an entry before it does anything else with its identifier. A
  replacement, a delete followed by a create, is such a changeset.
\<close>

fun mutations_first :: "RegID set \<Rightarrow> 'd RegOp list \<Rightarrow> bool" where
  "mutations_first seen [] = True"
| "mutations_first seen (op # ops) \<longleftrightarrow>
     (ro_Kind op = EntryCreate \<or> opID op \<notin> seen) \<and> mutations_first (insert (opID op) seen) ops"

lemma enrichOp_simps [simp]: "ro_Kind (enrichOp st op) = ro_Kind op" "ro_Entry (enrichOp st op) = ro_Entry op"
  by (simp_all add: enrichOp_def split: option.split)

lemma ApplyOperation_enrich [simp]: "ApplyOperation st (enrichOp st0 op) = ApplyOperation st op"
  unfolding ApplyOperation_def ValidateOperation_def applyValidatedOperation_def enrichOp_simps ..

lemma replay_enrich [simp]: "replayOperations (map (enrichOp st0) ops) st = replayOperations ops st"
  by (induction ops arbitrary: st) (simp_all split: sum.split)

lemma enrich_recorded:
  assumes "\<And>i. i \<notin> seen \<Longrightarrow> cur i = st0 i" "mutations_first seen ops" "replayOperations ops cur = Inr cur'"
  shows "recorded (map (enrichOp st0) ops) cur"
  using assms
proof (induction ops arbitrary: seen cur)
  case Nil
  then show ?case by simp
next
  case (Cons op ops)
  then obtain c1 where c1: "ApplyOperation cur op = Inr c1" "replayOperations ops c1 = Inr cur'"
    by (auto split: sum.splits)
  have "ro_Kind op = EntryCreate \<or> ro_Original (enrichOp st0 op) = cur (opID op)"
    using c1(1) Cons.prems(1,2) by (cases rule: ApplyOperation_cases) (auto simp: enrichOp_def split: option.split)
  moreover have "c1 i = st0 i" if "i \<notin> insert (opID op) seen" for i
    using that ApplyOperation_other [OF c1(1)] Cons.prems(1) by simp
  then have "recorded (map (enrichOp st0) ops) c1"
    using Cons.IH [of "insert (opID op) seen" c1] Cons.prems(2) c1(2) by simp
  ultimately show ?case using c1(1) by simp
qed

lemma state_ok_upd: "state_ok m \<Longrightarrow> state_ok (m(re_ID e \<mapsto> e))"
  unfolding state_ok_def by (metis map_upd_Some_unfold)

lemma state_ok_fold: "state_ok m \<Longrightarrow> state_ok (fold (\<lambda>entry m. m(re_ID entry \<mapsto> entry)) state m)"
  by (induction state arbitrary: m) (simp_all add: state_ok_upd)

lemma NewStateMap_ok: "state_ok (NewStateMap state)"
  unfolding NewStateMap_def by (rule state_ok_fold) (simp add: state_ok_def)

text \<open>
  C13. Undoing a committed changeset: when the operations apply to the registry state, the reversal of the
  changeset as it is stored, with the original entries filled in, loses no operation, applies to
  the new state without an error, and gives the old state back.
\<close>

theorem reverse_restores:
  assumes "replayOperations changes (NewStateMap state) = Inr st'" "mutations_first {} changes"
  shows "replayOperations (ReverseChangeset (enrichChangeset state changes)) st' = Inr (NewStateMap state) \<and>
         length (ReverseChangeset (enrichChangeset state changes)) = length changes"
proof -
  have "recorded (enrichChangeset state changes) (NewStateMap state)"
    unfolding enrichChangeset_def by (rule enrich_recorded [OF _ assms(2,1)]) simp
  from reverse_recorded [OF NewStateMap_ok _ this, of st'] assms(1) show ?thesis
    by (simp add: enrichChangeset_def)
qed

text \<open>An update and a replacement, undone.\<close>

definition demoEntry :: "string \<Rightarrow> string \<Rightarrow> nat \<Rightarrow> nat RegEntry" where
  "demoEntry name kind d =
     \<lparr>re_ID = NewID ''app'' name, re_Kind = kind, re_groups = [], re_dependsOn = [], re_Owner = [], re_Root = False, re_Data = d\<rparr>"

definition demoOp :: "string \<Rightarrow> nat RegEntry \<Rightarrow> nat RegOp" where
  "demoOp kind e = \<lparr>ro_Original = None, ro_Kind = kind, ro_Entry = e\<rparr>"

lemmas demo_defs = demoEntry_def demoOp_def NewID_def EntryCreate_def EntryUpdate_def EntryDelete_def

theorem reverse_restores_witness:
  "let state = [demoEntry ''db'' ''sql'' 1, demoEntry ''api'' ''http'' 2];
       changes = [demoOp EntryUpdate (demoEntry ''db'' ''sql'' 3), demoOp EntryDelete (demoEntry ''api'' ''http'' 2),
                  demoOp EntryCreate (demoEntry ''api'' ''grpc'' 4)];
       st' = NewStateMap [demoEntry ''db'' ''sql'' 3, demoEntry ''api'' ''grpc'' 4]
   in replayOperations changes (NewStateMap state) = Inr st' \<and> mutations_first {} changes \<and>
      replayOperations (ReverseChangeset (enrichChangeset state changes)) st' = Inr (NewStateMap state) \<and>
      length (ReverseChangeset (enrichChangeset state changes)) = 3"
proof -
  define state where "state = [demoEntry ''db'' ''sql'' 1, demoEntry ''api'' ''http'' 2]"
  define changes where "changes = [demoOp EntryUpdate (demoEntry ''db'' ''sql'' 3), demoOp EntryDelete (demoEntry ''api'' ''http'' 2),
                  demoOp EntryCreate (demoEntry ''api'' ''grpc'' 4)]"
  define st' where "st' = NewStateMap [demoEntry ''db'' ''sql'' 3, demoEntry ''api'' ''grpc'' 4]"
  have 1: "replayOperations changes (NewStateMap state) = Inr st'"
    by (simp add: changes_def state_def st'_def NewStateMap_def ApplyOperation_def ValidateOperation_def
        applyValidatedOperation_def demo_defs fun_eq_iff)
  have 2: "mutations_first {} changes" by (simp add: changes_def demo_defs)
  have 3: "length changes = 3" by (simp add: changes_def)
  from reverse_restores [OF 1 2] show ?thesis using 1 2 3
    unfolding Let_def state_def [symmetric] changes_def [symmetric] st'_def [symmetric] by simp
qed

section \<open>Squashing keeps the meaning\<close>

text \<open>What the squashed operation of an identifier says about the first and the current state.\<close>

definition sq_at :: "RegID \<Rightarrow> 'd RegEntry option \<Rightarrow> 'd RegOp option \<Rightarrow> 'd RegEntry option \<Rightarrow> bool" where
  "sq_at i s mo c \<longleftrightarrow>
     (case mo of
        None \<Rightarrow> c = s
      | Some op \<Rightarrow> opID op = i \<and>
          ((ro_Kind op = EntryCreate \<and> s = None \<and> c = Some (ro_Entry op)) \<or>
           (ro_Kind op = EntryUpdate \<and> (\<exists>old. s = Some old \<and> re_Kind old = re_Kind (ro_Entry op)) \<and> c = Some (ro_Entry op)) \<or>
           (ro_Kind op = EntryDelete \<and> s \<noteq> None \<and> c = None)))"

definition sq_rel :: "'d StateMap \<Rightarrow> (RegID \<rightharpoonup> 'd RegOp) \<Rightarrow> 'd StateMap \<Rightarrow> bool" where
  "sq_rel st m cur \<longleftrightarrow> (\<forall>i. sq_at i (st i) (m i) (cur i))"

text \<open>Every entry and every operation of an identifier has one kind.\<close>

definition kinds_ok :: "(RegID \<Rightarrow> string) \<Rightarrow> 'd StateMap \<Rightarrow> 'd RegOp list \<Rightarrow> bool" where
  "kinds_ok kinds st ops \<longleftrightarrow>
     (\<forall>i e. st i = Some e \<longrightarrow> re_Kind e = kinds i) \<and> (\<forall>op \<in> set ops. re_Kind (ro_Entry op) = kinds (opID op))"

definition kinds_m :: "(RegID \<Rightarrow> string) \<Rightarrow> (RegID \<rightharpoonup> 'd RegOp) \<Rightarrow> bool" where
  "kinds_m kinds m \<longleftrightarrow> (\<forall>i op. m i = Some op \<longrightarrow> re_Kind (ro_Entry op) = kinds i)"


lemma squashOp_other: "j \<noteq> opID op \<Longrightarrow> squashOp op m j = m j"
  by (simp add: squashOp_def Let_def split: option.split)

lemma squashOp_kind:
  assumes "re_Kind (ro_Entry op) = k" "\<And>ex. m (opID op) = Some ex \<Longrightarrow> re_Kind (ro_Entry ex) = k"
    and "squashOp op m (opID op) = Some op'"
  shows "re_Kind (ro_Entry op') = k"
  using assms by (auto simp: squashOp_def Let_def split: option.splits if_splits)

lemma squashOp_at:
  assumes rel: "sq_at (opID op) s (m (opID op)) (cur (opID op))" and ap: "ApplyOperation cur op = Inr cur'"
    and k: "re_Kind (ro_Entry op) = k" "\<And>e. s = Some e \<Longrightarrow> re_Kind e = k"
      "\<And>ex. m (opID op) = Some ex \<Longrightarrow> re_Kind (ro_Entry ex) = k"
  shows "sq_at (opID op) s (squashOp op m (opID op)) (cur' (opID op))"
proof (cases "m (opID op)")
  case None
  with rel have c: "cur (opID op) = s" by (simp add: sq_at_def)
  from ap show ?thesis
    by (cases rule: ApplyOperation_cases) (use None c in \<open>simp_all add: squashOp_def sq_at_def\<close>)
next
  case (Some ex)
  note ex = Some
  from rel ex k(3) have ex': "opID ex = opID op" "re_Kind (ro_Entry ex) = k" by (simp_all add: sq_at_def)
  from rel ex consider
      (c) "ro_Kind ex = EntryCreate" "s = None" "cur (opID op) = Some (ro_Entry ex)"
    | (u) old where "ro_Kind ex = EntryUpdate" "s = Some old" "cur (opID op) = Some (ro_Entry ex)"
    | (d) old where "ro_Kind ex = EntryDelete" "s = Some old" "cur (opID op) = None"
    by (auto simp: sq_at_def)
  then show ?thesis
  proof cases
    case c
    from ap show ?thesis
      by (cases rule: ApplyOperation_cases) (use c ex in \<open>simp_all add: squashOp_def sq_at_def\<close>)
  next
    case u
    from ap show ?thesis
      by (cases rule: ApplyOperation_cases) (use u ex k(1,2) in \<open>simp_all add: squashOp_def sq_at_def\<close>)
  next
    case d
    from ap show ?thesis
      by (cases rule: ApplyOperation_cases) (use d ex ex' k(1,2) in \<open>simp_all add: squashOp_def sq_at_def\<close>)
  qed
qed


lemma squashOp_step:
  assumes rel: "sq_rel st m cur" and ap: "ApplyOperation cur op = Inr cur'"
    and k: "kinds_ok kinds st (op # ops)" "kinds_m kinds m"
  shows "sq_rel st (squashOp op m) cur'" "kinds_m kinds (squashOp op m)"
proof -
  have kd: "re_Kind (ro_Entry op) = kinds (opID op)" "\<And>e. st (opID op) = Some e \<Longrightarrow> re_Kind e = kinds (opID op)"
    "\<And>ex. m (opID op) = Some ex \<Longrightarrow> re_Kind (ro_Entry ex) = kinds (opID op)"
    using k by (auto simp: kinds_ok_def kinds_m_def)
  have "sq_at (opID op) (st (opID op)) (m (opID op)) (cur (opID op))" using rel by (simp add: sq_rel_def)
  note at = squashOp_at [where m = m, OF this ap kd]
  have "sq_at i (st i) (squashOp op m i) (cur' i)" for i
  proof (cases "i = opID op")
    case True
    with at show ?thesis by simp
  next
    case False
    then have "squashOp op m i = m i" "cur' i = cur i" using squashOp_other ApplyOperation_other [OF ap] by blast+
    with rel show ?thesis by (simp add: sq_rel_def)
  qed
  then show "sq_rel st (squashOp op m) cur'" by (simp add: sq_rel_def)
  have "re_Kind (ro_Entry op') = kinds i" if "squashOp op m i = Some op'" for i op'
  proof (cases "i = opID op")
    case True
    with squashOp_kind [where m = m, OF kd(1,3)] that show ?thesis by blast
  next
    case False
    with that k(2) show ?thesis by (simp add: squashOp_other kinds_m_def)
  qed
  then show "kinds_m kinds (squashOp op m)" by (simp add: kinds_m_def)
qed

lemma squash_fold:
  assumes "sq_rel st m cur" "kinds_ok kinds st ops" "kinds_m kinds m" "replayOperations ops cur = Inr cur'"
  shows "sq_rel st (fold squashOp ops m) cur'"
  using assms
proof (induction ops arbitrary: m cur)
  case Nil
  then show ?case by simp
next
  case (Cons op ops)
  then obtain c1 where c1: "ApplyOperation cur op = Inr c1" "replayOperations ops c1 = Inr cur'"
    by (auto split: sum.splits)
  note st = squashOp_step [OF Cons.prems(1) c1(1) Cons.prems(2,3)]
  have "kinds_ok kinds st ops" using Cons.prems(2) by (simp add: kinds_ok_def)
  from Cons.IH [OF st(1) this st(2) c1(2)] show ?case by simp
qed

lemma sq_rel_init: "sq_rel st Map.empty st" "kinds_m kinds Map.empty"
  by (simp_all add: sq_rel_def sq_at_def kinds_m_def)

lemma squashAll_rel:
  "kinds_ok kinds st (concat css) \<Longrightarrow> replayOperations (concat css) st = Inr st' \<Longrightarrow> sq_rel st (squashAll css) st'"
  unfolding squashAll_def by (rule squash_fold [OF sq_rel_init(1) _ sq_rel_init(2)])

lemma sq_rel_ID: "sq_rel st m cur \<Longrightarrow> m i = Some op \<Longrightarrow> opID op = i"
  by (auto simp: sq_rel_def sq_at_def dest!: spec [of _ i])

text \<open>One operation per identifier: every order of them leads from the first state to the current one.\<close>

lemma sq_rel_apply:
  assumes "sq_rel st m cur" "m (opID op) = Some op"
  shows "\<exists>st1. ApplyOperation st op = Inr st1 \<and> sq_rel st1 (m(opID op := None)) cur"
proof -
  let ?st1 = "st(opID op := cur (opID op))"
  have at: "sq_at (opID op) (st (opID op)) (Some op) (cur (opID op))" using assms by (metis sq_rel_def)
  then have "ApplyOperation st op = Inr ?st1" by (auto simp: sq_at_def ApplyOperation_Inr)
  moreover have "sq_rel ?st1 (m(opID op := None)) cur" using assms(1) by (simp add: sq_rel_def sq_at_def)
  ultimately show ?thesis by blast
qed

lemma sq_rel_replay:
  assumes "sq_rel st m cur" "distinct (map opID ops)" "set ops = ran m"
  shows "replayOperations ops st = Inr cur"
  using assms
proof (induction ops arbitrary: st m)
  case Nil
  then have "m = Map.empty" by (simp add: ran_def fun_eq_iff) (metis option.exhaust)
  with Nil.prems(1) show ?case by (simp add: sq_rel_def sq_at_def fun_eq_iff)
next
  case (Cons op ops)
  have "op \<in> ran m" using Cons.prems(3) by auto
  then obtain i where i: "m i = Some op" by (auto simp: ran_def)
  have "opID op = i" by (rule sq_rel_ID [OF Cons.prems(1) i])
  with i have mo: "m (opID op) = Some op" by simp
  from sq_rel_apply [OF Cons.prems(1) mo] obtain st1
    where st1: "ApplyOperation st op = Inr st1" "sq_rel st1 (m(opID op := None)) cur" by blast
  have "ran (m(opID op := None)) = ran m - {op}"
  proof (intro set_eqI iffI)
    fix x assume "x \<in> ran (m(opID op := None))"
    then obtain j where j: "j \<noteq> opID op" "m j = Some x" by (auto simp: ran_def split: if_splits)
    with sq_rel_ID [OF Cons.prems(1) j(2)] show "x \<in> ran m - {op}" by (auto intro: ranI)
  next
    fix x assume "x \<in> ran m - {op}"
    then obtain j where "m j = Some x" "x \<noteq> op" by (auto simp: ran_def)
    with mo have "(m(opID op := None)) j = Some x" by auto
    then show "x \<in> ran (m(opID op := None))" by (rule ranI)
  qed
  moreover have "op \<notin> set ops" using Cons.prems(2) by auto
  ultimately have "set ops = ran (m(opID op := None))" using Cons.prems(3) by auto
  from Cons.IH [OF st1(2) _ this] Cons.prems(2) st1(1) show ?case by simp
qed

section \<open>Canonical identifiers\<close>

lemma isJoinedID_iff: "isJoinedID s ns name \<longleftrightarrow> s = ns @ '':'' @ name"
proof
  assume j: "isJoinedID s ns name"
  then have l: "length s = length ns + 1 + length name" and c: "s ! length ns = CHR '':''"
    and t: "take (length ns) s = ns" and d: "drop (length ns + 1) s = name"
    by (auto simp: isJoinedID_def)
  have "s = take (length ns) s @ s ! length ns # drop (Suc (length ns)) s"
    using l by (intro id_take_nth_drop) simp
  with c t d show "s = ns @ '':'' @ name" by simp
qed (simp add: isJoinedID_def)

lemma Canonical_eq: "Canonical i = NewID (fst (canonicalIDParts i)) (snd (canonicalIDParts i))"
proof (cases i)
  case (fields ns name str)
  then show ?thesis by (simp add: Canonical_def NewID_def isJoinedID_iff split: prod.split)
qed

lemma ID_Equal_iff: "ID_Equal i j \<longleftrightarrow> Canonical i = Canonical j"
  by (auto simp: ID_Equal_def Canonical_eq NewID_def prod_eq_iff)

text \<open>An identifier with a colon at the front of its name needs two rounds.\<close>

lemma Canonical_not_idempotent:
  "Canonical (parseIDString '':a:b'') = NewID ''a'' ''b'' \<and> Canonical (NewID [] '':a:b'') = NewID [] ''a:b''"
  by (simp add: Canonical_eq canonicalIDParts_def parseIDString_def NewID_def)

lemma Canonical_idempotent:
  assumes "CHR '':'' \<notin> set (rid_Name i)"
  shows "Canonical (Canonical i) = Canonical i"
  using assms by (simp add: Canonical_eq canonicalIDParts_def NewID_def)

end
