(* ===== verification/Reg_Deps.thy ===== *)
theory Reg_Deps
  imports Reg_Entry
begin

text \<open>
  Dependencies between registry entries: the syntax of a dependency
  (\<^verbatim>\<open>src/system/registry/topology/sort.go\<close>), the resolution of the dependencies of a whole state
  (\<^verbatim>\<open>dependencies.go\<close>, \<^verbatim>\<open>environment.go\<close>) and the inverse index that is kept up to date with the
  committed changesets (\<^verbatim>\<open>dep_index.go\<close>). The index holds after every valid changeset what it would hold
  if it were built from the new state, and its answer to ``who depends on this entry'' is the one that the
  resolution of the whole state gives.

  The resolver is an argument of the source's functions, an interface value. What it and the walk over the
  payload yield for an entry are the fields of the record \<open>Resolver\<close>: the references to other entries, the
  names of environment variables, and the name that the payload of a variable declares. A \<^verbatim>\<open>nil\<close> map
  is an empty map. The order of map iterations is the argument \<open>it\<close>.
\<close>

section \<open>Dependency syntax\<close>

definition groupPrefix :: string where "groupPrefix = ''group:''"
definition nsPrefix :: string where "nsPrefix = ''ns:''"

definition parseDependency :: "string \<Rightarrow> string \<times> string" where
  "parseDependency dep =
     (if take (length groupPrefix) dep = groupPrefix then (''group'', drop (length groupPrefix) dep)
      else if take (length nsPrefix) dep = nsPrefix then (''namespace'', drop (length nsPrefix) dep)
      else (''direct'', dep))"

definition resolveDependencyID :: "string \<Rightarrow> string \<Rightarrow> RegID" where
  "resolveDependencyID sourceNS depStr =
     (if CHR '':'' \<in> set depStr then parseIDString depStr else NewID sourceNS depStr)"

section \<open>Declared dependencies\<close>

record 'd Resolver =
  rs_refs :: "'d RegEntry \<Rightarrow> string list"
  rs_env :: "'d RegEntry \<Rightarrow> string list"
  rs_variable :: "'d \<Rightarrow> string"

record entryDepKeys =
  dk_direct :: "RegID list"
  dk_groups :: "string list"
  dk_ns :: "string list"
  dk_env :: "string list"

definition classifyDependency :: "RegID \<Rightarrow> string \<Rightarrow> entryDepKeys \<Rightarrow> entryDepKeys" where
  "classifyDependency self dep keys =
     (let (depType, val) = parseDependency dep
      in if depType = ''direct''
         then (let i = resolveDependencyID (rid_NS self) val
               in if ID_Equal i self then keys else keys\<lparr>dk_direct := dk_direct keys @ [i]\<rparr>)
         else if depType = ''group'' then keys\<lparr>dk_groups := dk_groups keys @ [val]\<rparr>
         else if depType = ''namespace'' then keys\<lparr>dk_ns := dk_ns keys @ [val]\<rparr>
         else keys)"

definition extractDepKeys :: "'d Resolver \<Rightarrow> 'd RegEntry \<Rightarrow> entryDepKeys" where
  "extractDepKeys rs entry =
     fold (classifyDependency (re_ID entry)) (re_dependsOn entry @ rs_refs rs entry)
       \<lparr>dk_direct = [], dk_groups = [], dk_ns = [], dk_env = rs_env rs entry\<rparr>"

definition envVariableName :: "'d Resolver \<Rightarrow> 'd RegEntry \<Rightarrow> string" where
  "envVariableName rs entry =
     (if re_Kind entry \<noteq> ''env.variable'' then []
      else let name = rs_variable rs (re_Data entry)
           in if name \<noteq> [] then name else ID_String (re_ID entry))"

definition environmentFallbackKey :: "string \<Rightarrow> string \<Rightarrow> string" where
  "environmentFallbackKey namespace name =
     (let (kind, val) = parseDependency name
      in if kind = ''group'' then groupPrefix @ val
         else if kind = ''namespace'' then nsPrefix @ val
         else ''id:'' @ ID_String (resolveDependencyID namespace val))"

section \<open>The inverse index\<close>

record DepIndex =
  di_direct :: "RegID \<rightharpoonup> RegID set"
  di_group :: "string \<rightharpoonup> RegID set"
  di_ns :: "string \<rightharpoonup> RegID set"
  di_env :: "string \<rightharpoonup> RegID set"
  di_envFallback :: "string \<rightharpoonup> RegID set"
  di_variables :: "RegID \<rightharpoonup> string"
  di_variableNames :: "string \<rightharpoonup> RegID set"
  di_ownDeps :: "RegID \<rightharpoonup> entryDepKeys"

definition NewDepIndex :: DepIndex where
  "NewDepIndex =
     \<lparr>di_direct = Map.empty, di_group = Map.empty, di_ns = Map.empty, di_env = Map.empty,
      di_envFallback = Map.empty, di_variables = Map.empty, di_variableNames = Map.empty, di_ownDeps = Map.empty\<rparr>"

definition idSet :: "('k \<rightharpoonup> RegID set) \<Rightarrow> 'k \<Rightarrow> RegID set" where
  "idSet m key = (case m key of None \<Rightarrow> {} | Some s \<Rightarrow> s)"

definition addIDTo :: "'k \<Rightarrow> RegID \<Rightarrow> ('k \<rightharpoonup> RegID set) \<Rightarrow> 'k \<rightharpoonup> RegID set" where
  "addIDTo key val m = m(key \<mapsto> insert val (idSet m key))"

definition delIDFrom :: "'k \<Rightarrow> RegID \<Rightarrow> ('k \<rightharpoonup> RegID set) \<Rightarrow> 'k \<rightharpoonup> RegID set" where
  "delIDFrom key val m =
     (case m key of
        None \<Rightarrow> m
      | Some s \<Rightarrow> if s - {val} = {} then m(key := None) else m(key \<mapsto> s - {val}))"

definition di_add :: "'d Resolver \<Rightarrow> 'd RegEntry \<Rightarrow> DepIndex \<Rightarrow> DepIndex" where
  "di_add rs entry d =
     (let keys = extractDepKeys rs entry; i = re_ID entry; name = envVariableName rs entry
      in \<lparr>di_direct = fold (\<lambda>t. addIDTo t i) (dk_direct keys) (di_direct d),
          di_group = fold (\<lambda>g. addIDTo g i) (dk_groups keys) (di_group d),
          di_ns = fold (\<lambda>n. addIDTo n i) (dk_ns keys) (di_ns d),
          di_env = fold (\<lambda>n. addIDTo n i) (dk_env keys) (di_env d),
          di_envFallback = fold (\<lambda>n. addIDTo (environmentFallbackKey (rid_NS i) n) i) (dk_env keys) (di_envFallback d),
          di_variables = (if name \<noteq> [] then (di_variables d)(i \<mapsto> name) else di_variables d),
          di_variableNames = (if name \<noteq> [] then addIDTo name i (di_variableNames d) else di_variableNames d),
          di_ownDeps = (di_ownDeps d)(i \<mapsto> keys)\<rparr>)"

definition di_remove :: "RegID \<Rightarrow> DepIndex \<Rightarrow> DepIndex" where
  "di_remove i d =
     (case di_ownDeps d i of
        None \<Rightarrow> d
      | Some keys \<Rightarrow>
          \<lparr>di_direct = fold (\<lambda>t. delIDFrom t i) (dk_direct keys) (di_direct d),
           di_group = fold (\<lambda>g. delIDFrom g i) (dk_groups keys) (di_group d),
           di_ns = fold (\<lambda>n. delIDFrom n i) (dk_ns keys) (di_ns d),
           di_env = fold (\<lambda>n. delIDFrom n i) (dk_env keys) (di_env d),
           di_envFallback = fold (\<lambda>n. delIDFrom (environmentFallbackKey (rid_NS i) n) i) (dk_env keys) (di_envFallback d),
           di_variables = (di_variables d)(i := None),
           di_variableNames = (case di_variables d i of None \<Rightarrow> di_variableNames d | Some name \<Rightarrow> delIDFrom name i (di_variableNames d)),
           di_ownDeps = (di_ownDeps d)(i := None)\<rparr>)"

definition BuildDepIndex :: "'d Resolver \<Rightarrow> 'd RegEntry list \<Rightarrow> DepIndex" where
  "BuildDepIndex rs state = fold (di_add rs) state NewDepIndex"

definition OnCreate :: "'d Resolver \<Rightarrow> 'd RegEntry \<Rightarrow> DepIndex \<Rightarrow> DepIndex" where
  "OnCreate rs entry d = di_add rs entry d"

definition OnUpdate :: "'d Resolver \<Rightarrow> 'd RegEntry \<Rightarrow> 'd RegEntry \<Rightarrow> DepIndex \<Rightarrow> DepIndex" where
  "OnUpdate rs prev next d = di_add rs next (di_remove (re_ID prev) d)"

definition OnDelete :: "'d RegEntry \<Rightarrow> DepIndex \<Rightarrow> DepIndex" where
  "OnDelete entry d = di_remove (re_ID entry) d"

definition patchOp :: "'d Resolver \<Rightarrow> 'd RegOp \<Rightarrow> DepIndex \<Rightarrow> DepIndex" where
  "patchOp rs op d =
     (if ro_Kind op = EntryCreate then OnCreate rs (ro_Entry op) d
      else if ro_Kind op = EntryUpdate
      then (case ro_Original op of
              Some orig \<Rightarrow> OnUpdate rs orig (ro_Entry op) d
            | None \<Rightarrow> di_add rs (ro_Entry op) (di_remove (re_ID (ro_Entry op)) d))
      else if ro_Kind op = EntryDelete then OnDelete (ro_Entry op) d
      else d)"

definition Patch :: "'d Resolver \<Rightarrow> 'd RegOp list \<Rightarrow> DepIndex \<Rightarrow> DepIndex" where
  "Patch rs changeSet d = fold (patchOp rs) changeSet d"

definition environmentFallbackDependents :: "string \<Rightarrow> RegID \<Rightarrow> DepIndex \<Rightarrow> RegID set" where
  "environmentFallbackDependents key target d =
     {i \<in> idSet (di_envFallback d) key. \<not> ID_Equal i target \<and>
        (case di_ownDeps d i of
           None \<Rightarrow> False
         | Some keys \<Rightarrow> list_ex (\<lambda>name. idSet (di_variableNames d) name = {} \<and> environmentFallbackKey (rid_NS i) name = key) (dk_env keys))}"

text \<open>
  \<^verbatim>\<open>Dependents\<close>: what it adds to the set of its caller. The tests for an empty fallback map only
  save a lookup.
\<close>

definition Dependents :: "'d Resolver \<Rightarrow> DepIndex \<Rightarrow> 'd RegEntry \<Rightarrow> RegID set" where
  "Dependents rs d entry =
     (let i = re_ID entry; others = (\<lambda>S. {j \<in> S. \<not> ID_Equal j i}); fallback = (\<lambda>key. environmentFallbackDependents key i d)
      in others (idSet (di_env d) (envVariableName rs entry)) \<union>
         fallback (''id:'' @ ID_String i) \<union>
         others (idSet (di_direct d) i) \<union>
         (\<Union>g \<in> set (re_groups entry). fallback (groupPrefix @ g) \<union> others (idSet (di_group d) g)) \<union>
         (if rid_NS i \<noteq> [] then fallback (nsPrefix @ rid_NS i) \<union> others (idSet (di_ns d) (rid_NS i)) else {}))"

section \<open>Resolving a whole state\<close>

definition dependencyKeys :: "'d Resolver \<Rightarrow> 'd StateMap \<Rightarrow> RegID \<rightharpoonup> entryDepKeys" where
  "dependencyKeys rs state i =
     (case state i of
        None \<Rightarrow> None
      | Some entry \<Rightarrow>
          (let keys = extractDepKeys rs entry
           in if length (dk_direct keys) + length (dk_groups keys) + length (dk_ns keys) + length (dk_env keys) = 0
              then None else Some keys))"

text \<open>The members of a group, of a namespace, and the declarants of a variable, in the order of the iteration.\<close>

definition membersOf :: "(RegID set \<Rightarrow> RegID list) \<Rightarrow> ('d RegEntry \<Rightarrow> string list) \<Rightarrow> 'd StateMap \<Rightarrow> string \<Rightarrow> RegID list" where
  "membersOf it names state key =
     concat (map (\<lambda>i. case state i of None \<Rightarrow> [] | Some entry \<Rightarrow> map (\<lambda>_. i) (filter (\<lambda>n. n = key) (names entry))) (it (dom state)))"

definition nonempty :: "string \<Rightarrow> string list" where
  "nonempty s = (if s \<noteq> [] then [s] else [])"

definition stateVariables :: "'d Resolver \<Rightarrow> (RegID set \<Rightarrow> RegID list) \<Rightarrow> 'd StateMap \<Rightarrow> string \<Rightarrow> RegID list" where
  "stateVariables rs it state = membersOf it (\<lambda>entry. nonempty (envVariableName rs entry)) state"

definition namespaceMembers :: "(RegID set \<Rightarrow> RegID list) \<Rightarrow> 'd StateMap \<Rightarrow> string \<Rightarrow> RegID list" where
  "namespaceMembers it state key = filter (\<lambda>i. rid_NS i \<noteq> [] \<and> rid_NS i = key) (it (dom state))"

definition envTargets ::
  "(string \<Rightarrow> RegID list) \<Rightarrow> (string \<Rightarrow> RegID list) \<Rightarrow> (string \<Rightarrow> RegID list) \<Rightarrow> RegID \<Rightarrow> string \<Rightarrow> RegID list" where
  "envTargets variables groups namespaces i name =
     (if variables name \<noteq> [] then variables name
      else let (kind, val) = parseDependency name
           in if kind = ''group'' then groups val
              else if kind = ''namespace'' then namespaces val
              else [resolveDependencyID (rid_NS i) val])"

fun addTargets :: "'d StateMap \<Rightarrow> RegID \<Rightarrow> RegID set \<Rightarrow> RegID list \<Rightarrow> RegID list" where
  "addTargets state i seen [] = []"
| "addTargets state i seen (target # rest) =
     (if ID_Equal target i \<or> state target = None \<or> target \<in> seen then addTargets state i seen rest
      else target # addTargets state i (insert target seen) rest)"

definition dependencyTargets ::
  "(RegID set \<Rightarrow> RegID list) \<Rightarrow> 'd StateMap \<Rightarrow> (string \<Rightarrow> RegID list) \<Rightarrow> RegID \<Rightarrow> entryDepKeys \<Rightarrow> RegID list" where
  "dependencyTargets it state variables i keys =
     (let groups = membersOf it re_groups state; namespaces = namespaceMembers it state
      in addTargets state i {}
           (concat (map (envTargets variables groups namespaces i) (dk_env keys)) @
            dk_direct keys @
            concat (map groups (dk_groups keys)) @
            concat (map namespaces (dk_ns keys))))"

text \<open>
  \<^verbatim>\<open>visitDependencyKeys\<close>: the pairs in the order of the calls. The flags that skip building an
  index no key refers to are left out. \<open>variables\<close> is \<open>None\<close> where the source
  passes \<^verbatim>\<open>nil\<close>; the declarants are then read off the state.
\<close>

definition visitDependencyKeys ::
  "'d Resolver \<Rightarrow> (RegID set \<Rightarrow> RegID list) \<Rightarrow> 'd StateMap \<Rightarrow> (RegID \<rightharpoonup> entryDepKeys) \<Rightarrow>
   (string \<Rightarrow> RegID list) option \<Rightarrow> (RegID \<times> RegID) list" where
  "visitDependencyKeys rs it state keysBySource variables =
     (let vars = (case variables of None \<Rightarrow> stateVariables rs it state | Some v \<Rightarrow> v)
      in concat (map (\<lambda>i. case keysBySource i of
                            None \<Rightarrow> []
                          | Some keys \<Rightarrow> map (Pair i) (dependencyTargets it state vars i keys))
                   (it (dom keysBySource))))"

text \<open>A visitor that may stop the walk with an error.\<close>

primrec runVisits :: "(RegID \<Rightarrow> RegID \<Rightarrow> 's \<Rightarrow> 'e + 's) \<Rightarrow> (RegID \<times> RegID) list \<Rightarrow> 's \<Rightarrow> 'e + 's" where
  "runVisits visit [] s = Inr s"
| "runVisits visit (p # ps) s = (case visit (fst p) (snd p) s of Inl e \<Rightarrow> Inl e | Inr s' \<Rightarrow> runVisits visit ps s')"

definition VisitDependencies ::
  "'d Resolver \<Rightarrow> (RegID set \<Rightarrow> RegID list) \<Rightarrow> 'd StateMap \<Rightarrow> (RegID \<Rightarrow> RegID \<Rightarrow> 's \<Rightarrow> 'e + 's) \<Rightarrow> 's \<Rightarrow> 'e + 's" where
  "VisitDependencies rs it state visit s =
     runVisits visit (visitDependencyKeys rs it state (dependencyKeys rs state) None) s"

definition candidateKeys :: "'d Resolver \<Rightarrow> DepIndex \<Rightarrow> 'd StateMap \<Rightarrow> 'd RegOp list \<Rightarrow> RegID \<rightharpoonup> entryDepKeys" where
  "candidateKeys rs d state changes =
     fold (\<lambda>change keys. case state (re_ID (ro_Entry change)) of
             Some entry \<Rightarrow> keys(re_ID entry \<mapsto> extractDepKeys rs entry)
           | None \<Rightarrow> keys(re_ID (ro_Entry change) := None))
       changes (\<lambda>i. if state i \<noteq> None then di_ownDeps d i else None)"

definition di_VisitDependencies ::
  "'d Resolver \<Rightarrow> (RegID set \<Rightarrow> RegID list) \<Rightarrow> DepIndex \<Rightarrow> 'd StateMap \<Rightarrow> 'd RegOp list \<Rightarrow>
   (RegID \<Rightarrow> RegID \<Rightarrow> 's \<Rightarrow> 'e + 's) \<Rightarrow> 's \<Rightarrow> 'e + 's" where
  "di_VisitDependencies rs it d state changes visit s =
     runVisits visit (visitDependencyKeys rs it state (candidateKeys rs d state changes) None) s"

definition collectTargets :: "(RegID \<times> RegID) list \<Rightarrow> RegID \<Rightarrow> RegID list" where
  "collectTargets visits i = sort_key ID_String (map snd (filter (\<lambda>p. fst p = i) visits))"

definition ResolveDependencies :: "'d Resolver \<Rightarrow> (RegID set \<Rightarrow> RegID list) \<Rightarrow> 'd StateMap \<Rightarrow> RegID \<Rightarrow> RegID list" where
  "ResolveDependencies rs it state =
     collectTargets (visitDependencyKeys rs it state (dependencyKeys rs state) None)"

section \<open>The index of a state\<close>

text \<open>What each map of the index holds, read off the state.\<close>

definition holders :: "'d StateMap \<Rightarrow> ('d RegEntry \<Rightarrow> 'k list) \<Rightarrow> 'k \<Rightarrow> RegID set" where
  "holders st f k = {i. \<exists>e. st i = Some e \<and> k \<in> set (f e)}"

definition smap :: "'d StateMap \<Rightarrow> ('d RegEntry \<Rightarrow> 'k list) \<Rightarrow> 'k \<rightharpoonup> RegID set" where
  "smap st f k = (if holders st f k = {} then None else Some (holders st f k))"

abbreviation envKeys :: "'d Resolver \<Rightarrow> 'd RegEntry \<Rightarrow> string list" where
  "envKeys rs e \<equiv> dk_env (extractDepKeys rs e)"

definition fallbackKeys :: "'d Resolver \<Rightarrow> 'd RegEntry \<Rightarrow> string list" where
  "fallbackKeys rs e = map (environmentFallbackKey (rid_NS (re_ID e))) (envKeys rs e)"

definition idxOf :: "'d Resolver \<Rightarrow> 'd StateMap \<Rightarrow> DepIndex" where
  "idxOf rs st =
     \<lparr>di_direct = smap st (\<lambda>e. dk_direct (extractDepKeys rs e)),
      di_group = smap st (\<lambda>e. dk_groups (extractDepKeys rs e)),
      di_ns = smap st (\<lambda>e. dk_ns (extractDepKeys rs e)),
      di_env = smap st (envKeys rs),
      di_envFallback = smap st (fallbackKeys rs),
      di_variables = (\<lambda>i. case st i of None \<Rightarrow> None | Some e \<Rightarrow> if envVariableName rs e \<noteq> [] then Some (envVariableName rs e) else None),
      di_variableNames = smap st (\<lambda>e. nonempty (envVariableName rs e)),
      di_ownDeps = (\<lambda>i. map_option (extractDepKeys rs) (st i))\<rparr>"

lemma idSet_smap [simp]: "idSet (smap st f) k = holders st f k"
  by (simp add: idSet_def smap_def)

lemma fold_addIDTo:
  "fold (\<lambda>k. addIDTo (g k) i) ks m k = (if k \<in> g ` set ks then Some (insert i (idSet m k)) else m k)"
proof (induction ks arbitrary: m)
  case Nil
  then show ?case by simp
next
  case (Cons a ks)
  then show ?case by (auto simp: addIDTo_def idSet_def)
qed

definition shrink :: "RegID \<Rightarrow> RegID set option \<Rightarrow> RegID set option" where
  "shrink i x = (case x of None \<Rightarrow> None | Some s \<Rightarrow> if s - {i} = {} then None else Some (s - {i}))"

lemma delIDFrom_apply: "delIDFrom k i m k' = (if k' = k then shrink i (m k) else m k')"
  by (simp add: delIDFrom_def shrink_def split: option.split)

lemma shrink_idem [simp]: "shrink i (shrink i x) = shrink i x"
  by (simp add: shrink_def split: option.split)

lemma fold_delIDFrom:
  "fold (\<lambda>k. delIDFrom (g k) i) ks m k = (if k \<in> g ` set ks then shrink i (m k) else m k)"
proof (induction ks arbitrary: m)
  case Nil
  then show ?case by simp
next
  case (Cons a ks)
  then show ?case by (auto simp: delIDFrom_apply)
qed

lemma holders_add: "st i = None \<Longrightarrow> holders (st(i \<mapsto> e)) f k = (if k \<in> set (f e) then insert i (holders st f k) else holders st f k)"
  by (auto simp: holders_def)

lemma holders_del: "holders (st(i := None)) f k = holders st f k - {i}"
  by (auto simp: holders_def)

lemma smap_add:
  "st i = None \<Longrightarrow> f e = map g ks \<Longrightarrow> fold (\<lambda>k. addIDTo (g k) i) ks (smap st f) = smap (st(i \<mapsto> e)) f"
  by (rule ext) (simp add: fold_addIDTo holders_add, simp add: smap_def holders_add)

lemma smap_del:
  assumes "st i = Some e" "f e = map g ks"
  shows "fold (\<lambda>k. delIDFrom (g k) i) ks (smap st f) = smap (st(i := None)) f"
proof (rule ext)
  fix k
  have "k \<notin> set (f e) \<Longrightarrow> i \<notin> holders st f k" using assms(1) by (simp add: holders_def)
  then show "fold (\<lambda>k. delIDFrom (g k) i) ks (smap st f) k = smap (st(i := None)) f k"
    by (auto simp: fold_delIDFrom assms(2) smap_def holders_del shrink_def)
qed

lemmas smap_add1 = smap_add [where g = "\<lambda>x. x", simplified]
lemmas smap_del1 = smap_del [where g = "\<lambda>x. x", simplified]

lemma di_add_idxOf:
  assumes "st (re_ID e) = None"
  shows "di_add rs e (idxOf rs st) = idxOf rs (st(re_ID e \<mapsto> e))"
proof -
  have v: "(if envVariableName rs e \<noteq> [] then addIDTo (envVariableName rs e) (re_ID e) (smap st (\<lambda>e. nonempty (envVariableName rs e)))
            else smap st (\<lambda>e. nonempty (envVariableName rs e))) = smap (st(re_ID e \<mapsto> e)) (\<lambda>e. nonempty (envVariableName rs e))"
    using smap_add1 [where st = st and i = "re_ID e" and e = e and f = "\<lambda>e. nonempty (envVariableName rs e)", OF assms refl]
    by (simp add: nonempty_def split: if_splits)
  have o: "(\<lambda>i. map_option (extractDepKeys rs) (st i))(re_ID e \<mapsto> extractDepKeys rs e) =
      (\<lambda>i. map_option (extractDepKeys rs) ((st(re_ID e \<mapsto> e)) i))"
    by (simp add: fun_eq_iff)
  let ?name = "\<lambda>e. if envVariableName rs e \<noteq> [] then Some (envVariableName rs e) else None"
  have n: "(if envVariableName rs e \<noteq> [] then (\<lambda>i. case st i of None \<Rightarrow> None | Some e \<Rightarrow> ?name e)(re_ID e \<mapsto> envVariableName rs e)
            else (\<lambda>i. case st i of None \<Rightarrow> None | Some e \<Rightarrow> ?name e)) =
      (\<lambda>i. case (st(re_ID e \<mapsto> e)) i of None \<Rightarrow> None | Some e \<Rightarrow> ?name e)"
    using assms by (simp add: fun_eq_iff)
  note add1 = smap_add1 [where st = st and i = "re_ID e" and e = e, OF assms refl]
  show ?thesis
    unfolding di_add_def idxOf_def Let_def DepIndex.select_convs v o n
      add1 [where f = "\<lambda>e. dk_direct (extractDepKeys rs e)"] add1 [where f = "\<lambda>e. dk_groups (extractDepKeys rs e)"]
      add1 [where f = "\<lambda>e. dk_ns (extractDepKeys rs e)"] add1 [where f = "envKeys rs"]
      smap_add [where e = e and st = st and f = "fallbackKeys rs", OF assms fallbackKeys_def] ..
qed

lemma di_remove_idxOf:
  assumes "st i = Some e" "re_ID e = i"
  shows "di_remove i (idxOf rs st) = idxOf rs (st(i := None))"
proof -
  have v: "(if envVariableName rs e \<noteq> [] then delIDFrom (envVariableName rs e) i (smap st (\<lambda>e. nonempty (envVariableName rs e)))
            else smap st (\<lambda>e. nonempty (envVariableName rs e))) = smap (st(i := None)) (\<lambda>e. nonempty (envVariableName rs e))"
    using smap_del1 [where st = st and i = i and e = e and f = "\<lambda>e. nonempty (envVariableName rs e)", OF assms(1) refl]
    by (simp add: nonempty_def split: if_splits)
  have w: "(case if envVariableName rs e \<noteq> [] then Some (envVariableName rs e) else None of
           None \<Rightarrow> smap st (\<lambda>e. nonempty (envVariableName rs e))
         | Some name \<Rightarrow> delIDFrom name i (smap st (\<lambda>e. nonempty (envVariableName rs e)))) =
        smap (st(i := None)) (\<lambda>e. nonempty (envVariableName rs e))"
    unfolding v [symmetric] by simp
  have "fallbackKeys rs e = map (environmentFallbackKey (rid_NS i)) (envKeys rs e)"
    by (simp add: fallbackKeys_def assms(2))
  note fb = smap_del [where e = e and st = st and f = "fallbackKeys rs", OF assms(1) this]
  have o: "(\<lambda>i. map_option (extractDepKeys rs) (st i))(i := None) = (\<lambda>j. map_option (extractDepKeys rs) ((st(i := None)) j))"
    by (simp add: fun_eq_iff)
  let ?name = "\<lambda>e. if envVariableName rs e \<noteq> [] then Some (envVariableName rs e) else None"
  have n: "(\<lambda>i. case st i of None \<Rightarrow> None | Some e \<Rightarrow> ?name e)(i := None) =
      (\<lambda>j. case (st(i := None)) j of None \<Rightarrow> None | Some e \<Rightarrow> ?name e)"
    by (simp add: fun_eq_iff)
  note del1 = smap_del1 [where st = st and i = i and e = e, OF assms(1) refl]
  show ?thesis
    unfolding di_remove_def idxOf_def DepIndex.select_convs assms(1) option.case option.map fb o n w
      del1 [where f = "\<lambda>e. dk_direct (extractDepKeys rs e)"] del1 [where f = "\<lambda>e. dk_groups (extractDepKeys rs e)"]
      del1 [where f = "\<lambda>e. dk_ns (extractDepKeys rs e)"] del1 [where f = "envKeys rs"] ..
qed

section \<open>States as lists and as maps\<close>

lemma fold_NewStateMap:
  assumes "distinct (map re_ID state)"
  shows "fold (\<lambda>entry m. m(re_ID entry \<mapsto> entry)) state m i = Some e \<longleftrightarrow>
     (e \<in> set state \<and> re_ID e = i) \<or> (i \<notin> re_ID ` set state \<and> m i = Some e)"
  using assms
proof (induction state arbitrary: m)
  case (Cons a state)
  have "re_ID a \<notin> re_ID ` set state" "distinct (map re_ID state)" using Cons.prems by simp_all
  with Cons.IH [of "m(re_ID a \<mapsto> a)"] show ?case by (cases "i = re_ID a") (auto simp: image_iff)
qed simp

lemma NewStateMap_iff:
  "distinct (map re_ID state) \<Longrightarrow> NewStateMap state i = Some e \<longleftrightarrow> e \<in> set state \<and> re_ID e = i"
  by (simp add: NewStateMap_def fold_NewStateMap)

lemma dom_NewStateMap: "dom (NewStateMap state) = re_ID ` set state"
proof -
  have "dom (fold (\<lambda>entry m. m(re_ID entry \<mapsto> entry)) state m) = re_ID ` set state \<union> dom m" for m :: "'a StateMap"
    by (induction state arbitrary: m) auto
  then show ?thesis by (simp add: NewStateMap_def)
qed

lemma finite_replay: "replayOperations ops st = Inr st' \<Longrightarrow> finite (dom st) \<Longrightarrow> finite (dom st')"
proof (induction ops arbitrary: st)
  case (Cons op ops)
  then obtain s1 where s1: "ApplyOperation st op = Inr s1" "replayOperations ops s1 = Inr st'" by (auto split: sum.splits)
  from s1(1) have "dom s1 \<subseteq> insert (opID op) (dom st)" by (cases rule: ApplyOperation_cases) auto
  with Cons.prems(2) have "finite (dom s1)" by (auto intro: finite_subset)
  with Cons.IH s1(2) show ?case by blast
qed simp

lemma state_ok_replay: "replayOperations ops st = Inr st' \<Longrightarrow> state_ok st \<Longrightarrow> state_ok st'"
  by (induction ops arbitrary: st) (auto split: sum.splits dest: state_ok_apply)

lemma StateMapToSlice_set:
  assumes "map_order it" "finite (dom st)"
  shows "set (StateMapToSlice it st) = ran st"
  using map_order_set [OF assms] by (auto simp: StateMapToSlice_def map_filter_def ran_def image_iff) (metis domI option.sel)

lemma StateMapToSlice_distinct:
  assumes "map_order it" "finite (dom st)" "state_ok st"
  shows "distinct (map re_ID (StateMapToSlice it st))"
proof -
  have "set xs \<subseteq> dom st \<Longrightarrow> map re_ID (List.map_filter st xs) = xs" for xs
    using assms(3) by (induction xs) (auto simp: map_filter_def state_ok_def)
  then have "map re_ID (List.map_filter st (it (dom st))) = it (dom st)"
    using map_order_set [OF assms(1,2)] by simp
  then have "distinct (map re_ID (List.map_filter st (it (dom st))))"
    using map_order_distinct [OF assms(1,2)] by simp
  then show ?thesis
    unfolding StateMapToSlice_def distinct_map by simp
qed

text \<open>The sorted slice of a state gives the state back.\<close>

lemma NewStateMap_StateMapToSlice:
  assumes "map_order it" "finite (dom st)" "state_ok st"
  shows "NewStateMap (StateMapToSlice it st) = st"
proof -
  have "NewStateMap (StateMapToSlice it st) i = Some e \<longleftrightarrow> st i = Some e" for i e
    using assms(3) unfolding NewStateMap_iff [OF StateMapToSlice_distinct [OF assms]] StateMapToSlice_set [OF assms(1,2)]
      state_ok_def ran_def mem_Collect_eq by blast
  then show ?thesis by (metis ext option.exhaust)
qed

section \<open>The index follows the state\<close>

lemma fold_di_add:
  "distinct (map re_ID state) \<Longrightarrow> (\<And>e. e \<in> set state \<Longrightarrow> st (re_ID e) = None) \<Longrightarrow>
   fold (di_add rs) state (idxOf rs st) = idxOf rs (fold (\<lambda>entry m. m(re_ID entry \<mapsto> entry)) state st)"
proof (induction state arbitrary: st)
  case (Cons e state)
  have "st (re_ID e) = None" using Cons.prems(2) by simp
  note add = di_add_idxOf [where st = st and e = e and rs = rs, OF this]
  have none: "(st(re_ID e \<mapsto> e)) (re_ID e') = None" if "e' \<in> set state" for e'
    using that Cons.prems by (auto simp: image_iff)
  have "distinct (map re_ID state)" using Cons.prems(1) by simp
  from this none
  have "fold (di_add rs) state (idxOf rs (st(re_ID e \<mapsto> e))) =
      idxOf rs (fold (\<lambda>entry m. m(re_ID entry \<mapsto> entry)) state (st(re_ID e \<mapsto> e)))" by (rule Cons.IH)
  then show ?case by (simp only: fold_simps comp_apply add)
qed simp

lemma idxOf_empty: "idxOf rs Map.empty = NewDepIndex"
  by (simp add: idxOf_def NewDepIndex_def smap_def holders_def fun_eq_iff)

lemma BuildDepIndex_idxOf: "distinct (map re_ID state) \<Longrightarrow> BuildDepIndex rs state = idxOf rs (NewStateMap state)"
  unfolding BuildDepIndex_def NewStateMap_def idxOf_empty [of rs, symmetric] by (rule fold_di_add) simp_all

definition originals_ok :: "'d RegOp list \<Rightarrow> bool" where
  "originals_ok ops \<longleftrightarrow> (\<forall>op \<in> set ops. case ro_Original op of None \<Rightarrow> True | Some e \<Rightarrow> re_ID e = opID op)"

lemma state_okD: "state_ok st \<Longrightarrow> st i = Some e \<Longrightarrow> re_ID e = i"
  by (simp add: state_ok_def)

lemma patchOp_idxOf:
  assumes ok: "state_ok st" and ap: "ApplyOperation st op = Inr st'" and o: "originals_ok [op]"
  shows "patchOp rs op (idxOf rs st) = idxOf rs st'"
  using ap
proof (cases rule: ApplyOperation_cases)
  case create
  note a = di_add_idxOf [where st = st and e = "ro_Entry op" and rs = rs, OF create(2)]
  have "patchOp rs op (idxOf rs st) = di_add rs (ro_Entry op) (idxOf rs st)"
    unfolding patchOp_def OnCreate_def create(1) by (rule if_P) (rule refl)
  also note a
  also note create(3) [symmetric]
  finally show ?thesis .
next
  case (update old)
  note r = di_remove_idxOf [where st = st and rs = rs, OF update(2) state_okD [OF ok update(2)]]
  have "patchOp rs op (idxOf rs st) = di_add rs (ro_Entry op) (di_remove (opID op) (idxOf rs st))"
  proof (cases "ro_Original op")
    case None
    then show ?thesis by (simp add: patchOp_def update(1))
  next
    case (Some orig)
    then have "re_ID orig = opID op" using o by (simp add: originals_ok_def)
    with Some show ?thesis by (simp add: patchOp_def OnUpdate_def update(1))
  qed
  also note r
  also have "di_add rs (ro_Entry op) (idxOf rs (st(opID op := None))) = idxOf rs ((st(opID op := None))(opID op \<mapsto> ro_Entry op))"
    by (rule di_add_idxOf) simp
  also have "(st(opID op := None))(opID op \<mapsto> ro_Entry op) = st'" using update(4) by (simp only: fun_upd_upd)
  finally show ?thesis .
next
  case (delete old)
  note r = di_remove_idxOf [where st = st and rs = rs, OF delete(2) state_okD [OF ok delete(2)]]
  have "patchOp rs op (idxOf rs st) = di_remove (opID op) (idxOf rs st)"
    unfolding patchOp_def OnDelete_def delete(1) by simp
  also note r
  also note delete(3) [symmetric]
  finally show ?thesis .
qed

lemma Patch_idxOf:
  assumes "state_ok st" "replayOperations ops st = Inr st'" "originals_ok ops"
  shows "Patch rs ops (idxOf rs st) = idxOf rs st'"
  using assms unfolding Patch_def
proof (induction ops arbitrary: st)
  case (Cons op ops)
  then obtain s1 where s1: "ApplyOperation st op = Inr s1" "replayOperations ops s1 = Inr st'" by (auto split: sum.splits)
  have o: "originals_ok [op]" "originals_ok ops" using Cons.prems(3) unfolding originals_ok_def by auto
  show ?case
    unfolding fold_simps comp_apply patchOp_idxOf [OF Cons.prems(1) s1(1) o(1)]
    by (rule Cons.IH [OF state_ok_apply [OF Cons.prems(1) s1(1)] s1(2) o(2)])
qed simp

section \<open>The index answers as the resolution of the whole state\<close>

text \<open>Identifiers as \<^verbatim>\<open>NewID\<close> and \<^verbatim>\<open>ParseID\<close> make them, with no colon in the namespace.\<close>

definition plainID :: "RegID \<Rightarrow> bool" where
  "plainID i \<longleftrightarrow> CHR '':'' \<notin> set (rid_NS i) \<and> rid_str i = rid_NS i @ '':'' @ rid_Name i"

lemma plainID_String: "plainID i \<Longrightarrow> ID_String i = rid_NS i @ CHR '':'' # rid_Name i"
  by (simp add: plainID_def ID_String_def)

lemma split_colon: "c \<notin> set a \<Longrightarrow> c \<notin> set b \<Longrightarrow> a @ c # x = b @ c # y \<Longrightarrow> a = b \<and> x = y"
  by (induction a arbitrary: b) (auto simp: Cons_eq_append_conv append_eq_Cons_conv)

lemma plainID_inj:
  assumes "plainID i" "plainID j" "ID_String i = ID_String j"
  shows "i = j"
proof -
  have "rid_NS i = rid_NS j \<and> rid_Name i = rid_Name j"
    using assms by (intro split_colon [where c = "CHR '':''"]) (simp_all add: plainID_String, simp_all add: plainID_def)
  with assms(1,2) show ?thesis by (simp add: plainID_def)
qed

lemma parseIDString_colon:
  assumes "CHR '':'' \<notin> set a"
  shows "parseIDString (a @ CHR '':'' # b) = \<lparr>rid_NS = a, rid_Name = b, rid_str = a @ CHR '':'' # b\<rparr>"
proof -
  have "\<forall>c \<in> set a. c \<noteq> CHR '':''" using assms by metis
  then show ?thesis by (simp add: parseIDString_def takeWhile_append2 dropWhile_append2)
qed

lemma resolve_plain:
  assumes "CHR '':'' \<notin> set ns"
  shows "plainID (resolveDependencyID ns dep)"
proof (cases "CHR '':'' \<in> set dep")
  case True
  then obtain a b where ab: "dep = a @ CHR '':'' # b" "CHR '':'' \<notin> set a" by (metis split_list_first)
  then show ?thesis by (simp add: resolveDependencyID_def parseIDString_colon plainID_def)
next
  case False
  with assms show ?thesis by (simp add: resolveDependencyID_def NewID_def plainID_def)
qed

lemma ID_Equal_sym: "ID_Equal i j \<longleftrightarrow> ID_Equal j i"
  by (auto simp: ID_Equal_def)

lemma set_addTargets: "set (addTargets st i seen xs) = {t \<in> set xs. \<not> ID_Equal t i \<and> st t \<noteq> None \<and> t \<notin> seen}"
  by (induction st i seen xs rule: addTargets.induct) auto

lemma set_membersOf:
  assumes "map_order it" "finite (dom st)"
  shows "set (membersOf it names st key) = holders st names key"
  by (auto simp: membersOf_def holders_def map_order_set [OF assms] image_iff split: option.splits)

lemma set_namespaceMembers:
  assumes "map_order it" "finite (dom st)"
  shows "set (namespaceMembers it st key) = {i \<in> dom st. rid_NS i \<noteq> [] \<and> rid_NS i = key}"
  unfolding namespaceMembers_def using map_order_set [OF assms] by auto

lemma dependencyKeys_targets:
  "dependencyKeys rs st i = None \<Longrightarrow> st i = Some e \<Longrightarrow> dependencyTargets it st vars i (extractDepKeys rs e) = []"
  by (simp add: dependencyKeys_def dependencyTargets_def Let_def split: if_splits)

lemma set_collectTargets: "t \<in> set (collectTargets visits i) \<longleftrightarrow> (i, t) \<in> set visits"
  by (force simp: collectTargets_def)

lemma set_visitDependencyKeys:
  assumes "map_order it" "finite (dom keys)"
  shows "(i, t) \<in> set (visitDependencyKeys rs it st keys vars) \<longleftrightarrow>
     (\<exists>k. keys i = Some k \<and>
        t \<in> set (dependencyTargets it st (case vars of None \<Rightarrow> stateVariables rs it st | Some v \<Rightarrow> v) i k))"
proof -
  define f where "f = (\<lambda>i. case keys i of None \<Rightarrow> []
     | Some k \<Rightarrow> map (Pair i) (dependencyTargets it st (case vars of None \<Rightarrow> stateVariables rs it st | Some v \<Rightarrow> v) i k))"
  have fst: "p \<in> set (f j) \<Longrightarrow> fst p = j" for p j by (auto simp: f_def split: option.splits)
  have "set (visitDependencyKeys rs it st keys vars) = (\<Union>j \<in> dom keys. set (f j))"
    by (simp add: visitDependencyKeys_def f_def Let_def map_order_set [OF assms])
  then have "(i, t) \<in> set (visitDependencyKeys rs it st keys vars) \<longleftrightarrow> i \<in> dom keys \<and> (i, t) \<in> set (f i)"
    using fst by fastforce
  also have "\<dots> \<longleftrightarrow> (\<exists>k. keys i = Some k \<and>
        t \<in> set (dependencyTargets it st (case vars of None \<Rightarrow> stateVariables rs it st | Some v \<Rightarrow> v) i k))"
    by (auto simp: f_def)
  finally show ?thesis .
qed

lemma set_ResolveDependencies:
  assumes "map_order it" "finite (dom st)"
  shows "t \<in> set (ResolveDependencies rs it st i) \<longleftrightarrow>
     (\<exists>e. st i = Some e \<and> t \<in> set (dependencyTargets it st (stateVariables rs it st) i (extractDepKeys rs e)))"
proof -
  have sub: "dom (dependencyKeys rs st) \<subseteq> dom st" by (auto simp: dependencyKeys_def split: option.splits)
  have "finite (dom (dependencyKeys rs st))" by (rule finite_subset [OF sub assms(2)])
  note s = set_visitDependencyKeys [OF assms(1) this]
  have "t \<in> set (ResolveDependencies rs it st i) \<longleftrightarrow>
     (\<exists>k. dependencyKeys rs st i = Some k \<and> t \<in> set (dependencyTargets it st (stateVariables rs it st) i k))"
    by (simp add: ResolveDependencies_def set_collectTargets s)
  also have "\<dots> \<longleftrightarrow> (\<exists>e. st i = Some e \<and> t \<in> set (dependencyTargets it st (stateVariables rs it st) i (extractDepKeys rs e)))"
  proof (cases "st i")
    case None
    then show ?thesis by (simp add: dependencyKeys_def)
  next
    case (Some e)
    then have "dependencyKeys rs st i = None \<or> dependencyKeys rs st i = Some (extractDepKeys rs e)"
      by (simp add: dependencyKeys_def Let_def)
    with Some dependencyKeys_targets [where st = st and i = i and rs = rs and it = it, OF _ Some] show ?thesis by auto
  qed
  finally show ?thesis .
qed


text \<open>The keys under which an unshadowed environment reference finds an entry.\<close>

definition ownKeys :: "'d RegEntry \<Rightarrow> string set" where
  "ownKeys e = insert (''id:'' @ ID_String (re_ID e))
     ((\<lambda>g. groupPrefix @ g) ` set (re_groups e) \<union> (if rid_NS (re_ID e) \<noteq> [] then {nsPrefix @ rid_NS (re_ID e)} else {}))"

lemma parseDependency_cases:
  obtains v where "parseDependency dep = (''group'', v)" | v where "parseDependency dep = (''namespace'', v)"
  | v where "parseDependency dep = (''direct'', v)"
proof -
  have "(\<exists>v. parseDependency dep = (''group'', v)) \<or> (\<exists>v. parseDependency dep = (''namespace'', v)) \<or>
      (\<exists>v. parseDependency dep = (''direct'', v))"
    by (simp add: parseDependency_def)
  then show thesis using that by blast
qed

lemma ownKeys_iff:
  assumes st: "st t = Some e" "re_ID e = t" "plainID t" and ns: "CHR '':'' \<notin> set ns"
    and ord: "map_order it" "finite (dom st)" and r: "rid_NS i = ns"
  shows "environmentFallbackKey ns name \<in> ownKeys e \<longleftrightarrow>
     t \<in> set (envTargets (\<lambda>_. []) (membersOf it re_groups st) (namespaceMembers it st) i name)"
proof (cases rule: parseDependency_cases [of name])
  case (1 v)
  then have "environmentFallbackKey ns name \<in> ownKeys e \<longleftrightarrow> v \<in> set (re_groups e)"
    by (auto simp: environmentFallbackKey_def ownKeys_def groupPrefix_def nsPrefix_def)
  also have "\<dots> \<longleftrightarrow> t \<in> holders st re_groups v" using st(1) by (simp add: holders_def)
  finally show ?thesis using 1 by (simp add: envTargets_def set_membersOf [OF ord])
next
  case (2 v)
  then have "environmentFallbackKey ns name \<in> ownKeys e \<longleftrightarrow> rid_NS t \<noteq> [] \<and> rid_NS t = v"
    by (auto simp: environmentFallbackKey_def ownKeys_def groupPrefix_def nsPrefix_def st(2))
  also have "\<dots> \<longleftrightarrow> t \<in> {i \<in> dom st. rid_NS i \<noteq> [] \<and> rid_NS i = v}" using st(1) by auto
  finally show ?thesis using 2 by (simp add: envTargets_def set_namespaceMembers [OF ord])
next
  case (3 v)
  have "environmentFallbackKey ns name \<in> ownKeys e \<longleftrightarrow> ID_String (resolveDependencyID ns v) = ID_String t"
    using 3 by (auto simp: environmentFallbackKey_def ownKeys_def groupPrefix_def nsPrefix_def st(2))
  also have "\<dots> \<longleftrightarrow> t = resolveDependencyID ns v"
    using plainID_inj [OF resolve_plain [OF ns] st(3)] by metis
  finally show ?thesis using 3 by (simp add: envTargets_def r)
qed

text \<open>What an entry has to declare to depend on another.\<close>

definition declares :: "'d Resolver \<Rightarrow> 'd StateMap \<Rightarrow> 'd RegEntry \<Rightarrow> 'd RegEntry \<Rightarrow> bool" where
  "declares rs st from_e e \<longleftrightarrow>
     (\<exists>n \<in> set (envKeys rs from_e).
        if holders st (\<lambda>e. nonempty (envVariableName rs e)) n \<noteq> {} then n = envVariableName rs e
        else environmentFallbackKey (rid_NS (re_ID from_e)) n \<in> ownKeys e) \<or>
     re_ID e \<in> set (dk_direct (extractDepKeys rs from_e)) \<or>
     set (re_groups e) \<inter> set (dk_groups (extractDepKeys rs from_e)) \<noteq> {} \<or>
     (rid_NS (re_ID e) \<noteq> [] \<and> rid_NS (re_ID e) \<in> set (dk_ns (extractDepKeys rs from_e)))"

lemma fallback_idxOf:
  assumes "state_ok st"
  shows "i \<in> environmentFallbackDependents key t (idxOf rs st) \<longleftrightarrow>
     (\<exists>ei. st i = Some ei \<and> \<not> ID_Equal i t \<and>
        (\<exists>n \<in> set (envKeys rs ei). holders st (\<lambda>e. nonempty (envVariableName rs e)) n = {} \<and>
           environmentFallbackKey (rid_NS (re_ID ei)) n = key))"
proof (cases "st i")
  case None
  then show ?thesis by (simp add: environmentFallbackDependents_def idxOf_def holders_def)
next
  case (Some ei)
  have "re_ID ei = i" by (rule state_okD [OF assms Some])
  with Some show ?thesis
    by (auto simp: environmentFallbackDependents_def idxOf_def holders_def [of st "fallbackKeys rs"] fallbackKeys_def list_ex_iff)
qed

lemma Dependents_idxOf:
  assumes ok: "state_ok st" and t: "st (re_ID e) = Some e" and env: "\<And>e. [] \<notin> set (envKeys rs e)"
  shows "i \<in> Dependents rs (idxOf rs st) e \<longleftrightarrow> (\<exists>ei. st i = Some ei \<and> \<not> ID_Equal i (re_ID e) \<and> declares rs st ei e)"
proof (cases "st i")
  case None
  then show ?thesis
    by (simp add: Dependents_def fallback_idxOf [OF ok] Let_def) (simp add: idxOf_def holders_def)
next
  case (Some ei)
  let ?vars = "holders st (\<lambda>e. nonempty (envVariableName rs e))"
  define fb where "fb key \<longleftrightarrow> (\<exists>n \<in> set (envKeys rs ei). ?vars n = {} \<and> environmentFallbackKey (rid_NS (re_ID ei)) n = key)" for key
  let ?k = "extractDepKeys rs ei"
  have v: "?vars (envVariableName rs e) \<noteq> {}" if "envVariableName rs e \<in> set (envKeys rs ei)"
  proof -
    have "envVariableName rs e \<noteq> []" using that env [of ei] by metis
    then have "re_ID e \<in> ?vars (envVariableName rs e)" using t by (simp add: holders_def nonempty_def)
    then show ?thesis by blast
  qed
  have f: "i \<in> environmentFallbackDependents key (re_ID e) (idxOf rs st) \<longleftrightarrow> \<not> ID_Equal i (re_ID e) \<and> fb key" for key
    unfolding fb_def using Some by (simp add: fallback_idxOf [OF ok])
  have m: "i \<in> idSet (di_env (idxOf rs st)) n \<longleftrightarrow> n \<in> set (envKeys rs ei)"
    "i \<in> idSet (di_group (idxOf rs st)) n \<longleftrightarrow> n \<in> set (dk_groups ?k)" "i \<in> idSet (di_ns (idxOf rs st)) n \<longleftrightarrow> n \<in> set (dk_ns ?k)"
    "i \<in> idSet (di_direct (idxOf rs st)) j \<longleftrightarrow> j \<in> set (dk_direct ?k)" for n j
    using Some by (simp_all add: idxOf_def holders_def)
  have c: "x \<in> (if b then A else {}) \<longleftrightarrow> b \<and> x \<in> A" for x b and A :: "RegID set" by simp
  have dep: "i \<in> Dependents rs (idxOf rs st) e \<longleftrightarrow> \<not> ID_Equal i (re_ID e) \<and>
     (envVariableName rs e \<in> set (envKeys rs ei) \<or> fb (''id:'' @ ID_String (re_ID e)) \<or> re_ID e \<in> set (dk_direct ?k) \<or>
      (\<exists>g \<in> set (re_groups e). fb (groupPrefix @ g) \<or> g \<in> set (dk_groups ?k)) \<or>
      (rid_NS (re_ID e) \<noteq> [] \<and> (fb (nsPrefix @ rid_NS (re_ID e)) \<or> rid_NS (re_ID e) \<in> set (dk_ns ?k))))"
    unfolding Dependents_def Let_def Un_iff UN_iff mem_Collect_eq f m c by blast
  have "(\<exists>n \<in> set (envKeys rs ei). if ?vars n \<noteq> {} then n = envVariableName rs e
           else environmentFallbackKey (rid_NS (re_ID ei)) n \<in> ownKeys e) \<longleftrightarrow>
      envVariableName rs e \<in> set (envKeys rs ei) \<or> (\<exists>key \<in> ownKeys e. fb key)"
    unfolding fb_def using v by auto
  moreover have "(\<exists>key \<in> ownKeys e. fb key) \<longleftrightarrow> fb (''id:'' @ ID_String (re_ID e)) \<or>
      (\<exists>g \<in> set (re_groups e). fb (groupPrefix @ g)) \<or> (rid_NS (re_ID e) \<noteq> [] \<and> fb (nsPrefix @ rid_NS (re_ID e)))"
    unfolding ownKeys_def by (simp add: bex_Un)
  ultimately have "declares rs st ei e \<longleftrightarrow>
     (envVariableName rs e \<in> set (envKeys rs ei) \<or> fb (''id:'' @ ID_String (re_ID e)) \<or> re_ID e \<in> set (dk_direct ?k) \<or>
      (\<exists>g \<in> set (re_groups e). fb (groupPrefix @ g) \<or> g \<in> set (dk_groups ?k)) \<or>
      (rid_NS (re_ID e) \<noteq> [] \<and> (fb (nsPrefix @ rid_NS (re_ID e)) \<or> rid_NS (re_ID e) \<in> set (dk_ns ?k))))"
    unfolding declares_def by blast
  with dep Some show ?thesis by simp
qed


lemma classify_env: "dk_env (fold (classifyDependency self) deps k) = dk_env k"
  by (induction deps arbitrary: k) (auto simp: classifyDependency_def Let_def split: prod.split)

lemma envKeys_eq: "envKeys rs e = rs_env rs e"
  by (simp add: extractDepKeys_def classify_env)

lemma targets_declares:
  assumes ord: "map_order it" "finite (dom st)" and ok: "state_ok st" and pl: "\<And>i. i \<in> dom st \<Longrightarrow> plainID i"
    and t: "st t = Some e" and i: "st i = Some ei" and ne: "[] \<notin> set (envKeys rs ei)"
  shows "t \<in> set (dependencyTargets it st (stateVariables rs it st) i (extractDepKeys rs ei)) \<longleftrightarrow>
     \<not> ID_Equal i t \<and> declares rs st ei e"
proof -
  let ?vars = "holders st (\<lambda>e. nonempty (envVariableName rs e))"
  let ?g = "membersOf it re_groups st" and ?n = "namespaceMembers it st" and ?k = "extractDepKeys rs ei"
  have id: "re_ID e = t" "re_ID ei = i" using state_okD [OF ok] t i by blast+
  have "plainID i" "plainID t" using pl i t by blast+
  then have ns: "CHR '':'' \<notin> set (rid_NS i)" by (simp add: plainID_def)
  have v: "set (stateVariables rs it st n) = ?vars n" for n by (simp add: stateVariables_def set_membersOf [OF ord])
  then have v0: "stateVariables rs it st n = [] \<longleftrightarrow> ?vars n = {}" for n by (metis set_empty)
  have env: "t \<in> set (envTargets (stateVariables rs it st) ?g ?n i n) \<longleftrightarrow>
      (if ?vars n \<noteq> {} then n = envVariableName rs e else environmentFallbackKey (rid_NS (re_ID ei)) n \<in> ownKeys e)"
    if "n \<noteq> []" for n
  proof (cases "?vars n = {}")
    case True
    then have "envTargets (stateVariables rs it st) ?g ?n i n = envTargets (\<lambda>_. []) ?g ?n i n"
      by (simp add: envTargets_def v0)
    with True ownKeys_iff [where st = st, OF t id(1) \<open>plainID t\<close> ns ord refl, of n] show ?thesis by (simp add: id(2))
  next
    case False
    have "t \<in> ?vars n \<longleftrightarrow> n = envVariableName rs e" using t that by (auto simp: holders_def nonempty_def)
    with False show ?thesis by (simp add: envTargets_def v0 v)
  qed
  have "(\<exists>n \<in> set (envKeys rs ei). t \<in> set (envTargets (stateVariables rs it st) ?g ?n i n)) \<longleftrightarrow>
      (\<exists>n \<in> set (envKeys rs ei). if ?vars n \<noteq> {} then n = envVariableName rs e
         else environmentFallbackKey (rid_NS (re_ID ei)) n \<in> ownKeys e)"
    using env ne by metis
  moreover have "(\<exists>g \<in> set (dk_groups ?k). t \<in> set (?g g)) \<longleftrightarrow> set (re_groups e) \<inter> set (dk_groups ?k) \<noteq> {}"
    using t by (auto simp: set_membersOf [OF ord] holders_def)
  moreover have "(\<exists>n \<in> set (dk_ns ?k). t \<in> set (?n n)) \<longleftrightarrow> rid_NS t \<noteq> [] \<and> rid_NS t \<in> set (dk_ns ?k)"
    using t by (auto simp: set_namespaceMembers [OF ord])
  moreover have "t \<in> set (dependencyTargets it st (stateVariables rs it st) i ?k) \<longleftrightarrow> \<not> ID_Equal i t \<and>
      ((\<exists>n \<in> set (envKeys rs ei). t \<in> set (envTargets (stateVariables rs it st) ?g ?n i n)) \<or> t \<in> set (dk_direct ?k) \<or>
       (\<exists>g \<in> set (dk_groups ?k). t \<in> set (?g g)) \<or> (\<exists>n \<in> set (dk_ns ?k). t \<in> set (?n n)))"
    using t ID_Equal_sym [of i t] by (auto simp: dependencyTargets_def Let_def set_addTargets)
  ultimately show ?thesis unfolding declares_def id by blast
qed

text \<open>
  C27. The inverse index stays in step with the registry: patched with a changeset that applies to the
  state, it is the index built from the new state, and the dependents it reports for an
  entry are exactly the entries whose resolved dependencies contain that entry. Assumed are identifiers
  in their normal form and, of the resolver, that it reports no empty variable name.
\<close>

theorem index_follows_state:
  assumes "distinct (map re_ID state)" "replayOperations changes (NewStateMap state) = Inr st'" "originals_ok changes"
    and "map_order it" "\<forall>i \<in> dom st'. plainID i" "\<forall>e. [] \<notin> set (rs_env rs e)" "st' t = Some e"
  shows "Patch rs changes (BuildDepIndex rs state) = BuildDepIndex rs (StateMapToSlice it st') \<and>
    (i \<in> Dependents rs (Patch rs changes (BuildDepIndex rs state)) e \<longleftrightarrow> t \<in> set (ResolveDependencies rs it st' i))"
proof -
  have fin: "finite (dom st')"
    by (rule finite_replay [OF assms(2)]) (simp add: dom_NewStateMap)
  have ok: "state_ok st'" by (rule state_ok_replay [OF assms(2) NewStateMap_ok])
  have idx: "Patch rs changes (BuildDepIndex rs state) = idxOf rs st'"
    unfolding BuildDepIndex_idxOf [OF assms(1)] by (rule Patch_idxOf [OF NewStateMap_ok assms(2,3)])
  have build: "BuildDepIndex rs (StateMapToSlice it st') = idxOf rs st'"
    unfolding BuildDepIndex_idxOf [OF StateMapToSlice_distinct [OF assms(4) fin ok]]
      NewStateMap_StateMapToSlice [OF assms(4) fin ok] ..
  have id: "re_ID e = t" by (rule state_okD [OF ok assms(7)])
  have "i \<in> Dependents rs (idxOf rs st') e \<longleftrightarrow> (\<exists>ei. st' i = Some ei \<and> \<not> ID_Equal i t \<and> declares rs st' ei e)"
    using Dependents_idxOf [OF ok, of e rs i] assms(6,7) unfolding id envKeys_eq by blast
  also have "\<dots> \<longleftrightarrow> t \<in> set (ResolveDependencies rs it st' i)"
    unfolding set_ResolveDependencies [OF assms(4) fin]
    using targets_declares [where st = st', OF assms(4) fin ok _ assms(7), of i _ rs] assms(5,6) unfolding envKeys_eq by blast
  finally show ?thesis unfolding idx build by simp
qed


text \<open>An iteration order of identifiers, by their fields.\<close>

definition idFields :: "RegID \<Rightarrow> string \<times> string \<times> string" where
  "idFields i = (rid_NS i, rid_Name i, rid_str i)"

definition ofFields :: "string \<times> string \<times> string \<Rightarrow> RegID" where
  "ofFields p = \<lparr>rid_NS = fst p, rid_Name = fst (snd p), rid_str = snd (snd p)\<rparr>"

definition id_order :: "RegID set \<Rightarrow> RegID list" where
  "id_order S = map ofFields (sorted_list_of_set (idFields ` S))"

lemma ofFields_idFields [simp]: "ofFields (idFields i) = i"
  by (simp add: ofFields_def idFields_def)

lemma inj_ofFields: "inj ofFields"
  by (simp add: inj_def ofFields_def prod_eq_iff)

lemma map_order_id_order: "map_order id_order"
  unfolding map_order_def
proof (intro allI impI conjI)
  fix S :: "RegID set" assume "finite S"
  then show "set (id_order S) = S" by (simp add: id_order_def image_image)
  show "distinct (id_order S)"
    by (simp add: id_order_def distinct_map inj_on_subset [OF inj_ofFields])
qed

definition demoRs :: "nat Resolver" where
  "demoRs = \<lparr>rs_refs = (\<lambda>_. []), rs_env = (\<lambda>_. []), rs_variable = (\<lambda>_. [])\<rparr>"

text \<open>A new entry that depends on an old one is among its dependents after the patch.\<close>

theorem index_follows_state_witness:
  "let state = [demoEntry ''db'' ''sql'' 1];
       api = (demoEntry ''api'' ''http'' 2)\<lparr>re_dependsOn := [''db'']\<rparr>;
       st' = NewStateMap [demoEntry ''db'' ''sql'' 1, api];
       d = Patch demoRs [demoOp EntryCreate api] (BuildDepIndex demoRs state)
   in d = BuildDepIndex demoRs (StateMapToSlice id_order st') \<and>
      NewID ''app'' ''api'' \<in> Dependents demoRs d (demoEntry ''db'' ''sql'' 1) \<and>
      NewID ''app'' ''db'' \<in> set (ResolveDependencies demoRs id_order st' (NewID ''app'' ''api''))"
proof -
  define db where "db = demoEntry ''db'' ''sql'' 1"
  define api where "api = (demoEntry ''api'' ''http'' 2)\<lparr>re_dependsOn := [''db'']\<rparr>"
  define st' where "st' = NewStateMap [db, api]"
  define d where "d = Patch demoRs [demoOp EntryCreate api] (BuildDepIndex demoRs [db])"
  note defs = db_def api_def demo_defs
  have 1: "replayOperations [demoOp EntryCreate api] (NewStateMap [db]) = Inr st'"
    by (simp add: st'_def NewStateMap_def ApplyOperation_def ValidateOperation_def applyValidatedOperation_def defs)
  have 2: "\<forall>i \<in> dom st'. plainID i" by (simp add: st'_def dom_NewStateMap plainID_def defs)
  have 3: "st' (NewID ''app'' ''db'') = Some db" by (simp add: st'_def NewStateMap_def defs)
  have 4: "originals_ok [demoOp EntryCreate api]" by (simp add: originals_ok_def demoOp_def)
  have 5: "\<forall>e. [] \<notin> set (rs_env demoRs e)" by (simp add: demoRs_def)
  have "extractDepKeys demoRs api = \<lparr>dk_direct = [NewID ''app'' ''db''], dk_groups = [], dk_ns = [], dk_env = []\<rparr>"
    by (simp add: extractDepKeys_def classifyDependency_def parseDependency_def resolveDependencyID_def ID_Equal_def
        canonicalIDParts_def groupPrefix_def nsPrefix_def demoRs_def defs)
  then have 6: "NewID ''app'' ''api'' \<in> Dependents demoRs d db"
    by (simp add: d_def Patch_def patchOp_def OnCreate_def di_add_def Let_def demoOp_def Dependents_def addIDTo_def idSet_def)
      (simp add: defs ID_Equal_def canonicalIDParts_def)
  note ifs = index_follows_state [of "[db]" "[demoOp EntryCreate api]" st' id_order demoRs "NewID ''app'' ''db''" db "NewID ''app'' ''api''",
      OF _ 1 4 map_order_id_order 2 5 3]
  from ifs 6 show ?thesis
    unfolding Let_def db_def [symmetric] api_def [symmetric] st'_def [symmetric] d_def [symmetric] by simp
qed

end
