(* ===== verification/Spec2Isabelle.thy ===== *)
theory Spec2Isabelle
  imports Kv_Replica Semver Global_Dissem Crdt_Engine Sequencer Shortest_Path Reg_Deps
begin

text \<open>
  A verification of the state-carrying core of the wippy runtime (\<^verbatim>\<open>src/\<close>).

  \<^bold>\<open>The program.\<close> The runtime hosts processes on the nodes of a cluster. Nodes share state in
  three ways. A key-value store is replicated by Raft: commands are encoded, committed to a log and
  applied by a state machine on every node (\<^verbatim>\<open>system/kv\<close>). A cluster-wide name registry is a second
  Raft state machine (\<^verbatim>\<open>system/topology/namereg/global\<close>); its bindings are spread by gossip to a cache
  on every node. A second key-value engine needs no consensus: it is a replicated set with
  last-writer-wins merge, spread by gossip (\<^verbatim>\<open>system/crdt\<close>, \<^verbatim>\<open>system/kv/crdt_engine.go\<close>).
  Modules are chosen by semantic version constraints (\<^verbatim>\<open>api/semver\<close>). What runs is described by
  registry entries, changed by changesets of operations (\<^verbatim>\<open>api/registry\<close>,
  \<^verbatim>\<open>system/registry/topology\<close>); a supervisor starts and stops services in the order of their
  dependencies (\<^verbatim>\<open>system/supervisor\<close>). Both rest on a generic directed graph (\<^verbatim>\<open>internal/graph\<close>).

  \<^bold>\<open>Conventions\<close> (theory \<open>Prelude\<close>). A Go struct is a record, an enumeration its integer
  constants or a datatype, a Go map a partial function, \<^verbatim>\<open>uint64\<close> and \<^verbatim>\<open>int64\<close> 64-bit words, a
  Go \<^verbatim>\<open>int\<close> an integer where it counts elements and a wrapping 64-bit value where it is summed from
  input (edge weights and distances in \<open>Shortest_Path\<close>), a slice a list, an error a value of a sum or an optional result. Slices, maps and objects that are
  shared and mutated live in an explicit store (published shards in \<open>Kv_State\<close>, heap entries and lease
  handles in \<open>Kv_Lease\<close>). The order in which a map is ranged over is the argument \<open>it\<close>, assumed only
  to list every key once (\<open>map_order\<close>); the clock is an argument; \<^verbatim>\<open>xxhash\<close> and the msgpack decoder,
  which are third-party packages, are arguments. Each method that holds its lock throughout is one step.

  \<^bold>\<open>The theories and what they show.\<close>

  \<^item> \<open>Prelude\<close>, \<open>Go_Strings\<close>, \<open>Go_Heap\<close>, \<open>Gossip\<close>: byte layouts, the parts of the standard packages
    \<^verbatim>\<open>strings\<close>, \<^verbatim>\<open>strconv\<close>, \<^verbatim>\<open>encoding/binary\<close> and \<^verbatim>\<open>container/heap\<close> that the sources use, and the
    interfaces of the development as locales: \<open>heap_client\<close> (what \<^verbatim>\<open>container/heap\<close> asks of a client
    and gives back), \<open>frame_codec\<close> (self-delimiting deltas in a frame), \<open>newest_wins\<close> (a cache that keeps
    the greatest delta of each key is independent of arrival order), \<open>delta_queue\<close> (packing a queue into
    frames under a byte budget). The lease heap, the priority queue of the path search, the
    binding cache and the replicated set interpret them on their own operations.

  \<^item> \<open>Kv_Codec\<close> (\<^verbatim>\<open>system/kv/raft_command.go\<close>): \<open>encodeCommand\<close>, \<open>decodeCommand\<close>, \<open>encodeTxn\<close>,
    \<open>decodeTxn\<close>. Round trips of commands and transactions, and the error of every truncation.

  \<^item> \<open>Kv_State\<close> (\<^verbatim>\<open>system/kv/state.go\<close>): record \<open>state\<close> with entries, leases and counters; \<open>kv_set\<close>,
    \<open>kv_del\<close>, \<open>cas\<close>, \<open>kv_snapshot\<close> and the reads of a snapshot. Publication is complete, and a snapshot
    handed to a reader never changes afterwards although shards are shared.

  \<^item> \<open>Kv_Lease\<close> (\<^verbatim>\<open>system/kv/lease.go\<close>): \<open>lm_grant\<close>, \<open>lm_renew\<close>, \<open>lm_revoke\<close>, \<open>lm_expired\<close> over the
    deadline heap. The expiry scan returns exactly the leases that are due, in deadline order.

  \<^item> \<open>Kv_Fsm\<close>, \<open>Kv_Replica\<close> (\<^verbatim>\<open>system/kv/raft_fsm.go\<close>): \<open>Apply\<close>, \<open>applyCommand\<close>, \<open>applyTxn\<close>, \<open>flush\<close>,
    \<open>fsm_Snapshot\<close>, \<open>fsm_Restore\<close>. Replicas that apply one log agree whatever their clocks and
    iteration orders; a replica restored from a snapshot agrees with the others when no lease id was
    granted while entries were bound to it, and need not otherwise (\<open>regrant_diverges\<close>); a revoke deletes
    the keys of its lease, under the same condition all that are bound to it; compare-and-swap cannot be
    fooled by reuse of a version; transactions are all or nothing and the last write to a key stays,
    also when a key is written repeatedly; every change is published.

  \<^item> \<open>Semver\<close> (\<^verbatim>\<open>api/semver\<close>): \<open>ParseVersion\<close>, \<open>Version_Compare\<close>, \<open>ParseConstraint\<close>, \<open>FindBestMatch\<close>.
    Printing and parsing are inverse, comparison is the precedence order of the specification where
    identifiers are plain (and is not where they carry a sign or exceed 64 bits), and the best match is
    a greatest matching version, stable ones first.

  \<^item> \<open>Global_State\<close>, \<open>Global_Fsm\<close> (\<^verbatim>\<open>system/topology/namereg/global/state.go\<close>, \<^verbatim>\<open>fsm.go\<close>,
    \<^verbatim>\<open>commands.go\<close>, and \<^verbatim>\<open>RemoveNode\<close> and \<^verbatim>\<open>applyCommand\<close> of the service): sharded names, reverse
    indexes, Strong reservations, one function per command. Every log entry keeps the indexes in step with
    the names; an active name changes its owner only by a registration that the conflict resolver prefers,
    under any resolver; a Strong name becomes active only when every required node has acknowledged
    it; bulk removal is exact, and its loop ends with other commands between its chunks; under
    first-write-wins the binding events rebuild the active names; snapshot and restore are inverse.

  \<^item> \<open>Global_Dissem\<close> (\<^verbatim>\<open>dissem.go\<close>): \<open>NotifyMsg\<close>, \<open>GetBroadcasts\<close>, \<open>Dissem_Lookup\<close>. A cache that received
    every binding event of a registry run, in any order and multiplicity, answers lookups as the registry.

  \<^item> \<open>Crdt_State\<close>, \<open>Crdt_Delta\<close>, \<open>Crdt_Engine\<close> (\<^verbatim>\<open>system/crdt/\<close>, \<^verbatim>\<open>system/kv/crdt_engine.go\<close>): the
    replicated set, its wire format and queue, and the engine. Reachable states are well-formed and their
    counters exact; the queue drains when the budget allows it; engines that saw the same consistent
    deltas, with timely local writes, answer reads alike and have equal digests; a full-state exchange
    brings up a fresh engine. Three theorems show runs in which writes are lost or stay silent; the
    lemma \<open>CompareAndDelete_blocks\<close> shows that a successful compare-and-delete does not return.

  \<^item> \<open>Dep_Graph\<close>, \<open>Shortest_Path\<close> (\<^verbatim>\<open>internal/graph\<close>): nodes and weighted edges, the cycle search, the
    grouping into dependency levels, and the path search over the priority queue. The grouping
    returns levels, a genuine cycle, or stuck nodes below an edge that starts outside the graph; levels
    hold every vertex once and every edge leads to a later one; a path found is a cheapest one with the fewest edges, and no sum of the search wraps when the
    weights are not negative and add up to an \<^verbatim>\<open>int\<close>.

  \<^item> \<open>Sequencer\<close> (\<^verbatim>\<open>system/supervisor/sequencer.go\<close>): \<open>processStartOperations\<close> and
    \<open>processStopOperations\<close>; the goroutines that start services are the events of the loop, in any order. A
    service starts once, after its dependencies and never downstream of a failure; a start that returns
    other than by its context leaves every service accounted for; a stop stops a service once, after its
    dependents, and all of them unless its context ends.

  \<^item> \<open>Reg_Entry\<close>, \<open>Reg_Deps\<close> (\<^verbatim>\<open>api/registry\<close>, \<^verbatim>\<open>system/registry/topology\<close>): identifiers, validation and
    application of operations, inverses, reversal and squashing of changesets; dependency syntax,
    resolution and the inverse index. Reversing a changeset restores the state it was applied to, and
    the index kept up operation by operation is the one built from the state.

  \<^bold>\<open>Bounds and fuel.\<close> Recursions of the sources end by a measure, given in the termination
  proofs: the heap sifts, the expiry scan, the frame decoders, \<^verbatim>\<open>strings.Fields\<close>. The one loop over
  replicated commands, \<open>RemoveNode\<close>, runs over a list of rounds (one proposal each, with the commands of
  others before it); it is shown to return once there is one round for every 256 names that are in the
  registry or can be added meanwhile, since every chunk but the last removes that many. The cycle search,
  the level loop, the walk along parent links and the marking of a blocked subtree take fuel, and the
  number of vertices or operations is shown to be enough; the loops of the path search are partial
  functions that are shown to return. Well-formedness of the
  replicated set is stated for fewer than \<open>2 ^ 32 - 8\<close> interned nodes, where the source's \<^verbatim>\<open>uint32\<close>
  arithmetic does not wrap. Wire lengths are bounded by their 16- or 32-bit fields.

  \<^bold>\<open>Not modelled.\<close> Goroutines, tickers and channels around the modelled operations (each locked
  method is one atomic step); the bytes that gob and msgpack write, since their packages are not part of
  the sources; the Raft library itself (the log is a list of committed entries); leader forwarding,
  the join barrier and reachability probing of the registry service, which are message exchange over the
  relay; telemetry, which reads the state and changes nothing; the controllers that run a single service, with
  their timers and retries; the storage of registry versions and the module hub. The remaining components of the
  runtime (the Lua and WebAssembly engines and their modules, HTTP, SQL, queue, cloud storage and Temporal
  services, the boot loader and package hub, the command line) are wrappers over third-party packages or
  input and output, and are listed with the reason in the manifest.
\<close>

end
